(* ===== verification/Prelude.thy ===== *)
theory Prelude
  imports Main "HOL-Library.Word" "HOL-Library.Multiset"
begin

text \<open>
  Shared types, hint collections and generic lemmas of the ustevent development. Nothing here
  models code: the theories of the components import it for the names of the machine types
  (\<open>u8\<close>, \<open>u32\<close>, \<open>u64\<close>), for the collections
  \<open>ust_defs\<close> (definitions a symbolic evaluation unfolds), \<open>ust_inv\<close> (invariant
  preservation facts) and for lemmas on lists, multisets of program counters and arithmetic
  that several components use.
\<close>

unbundle bit_operations_syntax

named_theorems ust_defs \<open>definitions unfolded by symbolic evaluation of the model\<close>
named_theorems ust_inv \<open>operations preserve the component invariants\<close>

type_synonym u8 = "8 word"
type_synonym u16 = "16 word"
type_synonym u32 = "32 word"
type_synonym u64 = "64 word"

subsection \<open>Lists\<close>

lemma nth_update_if [simp]:
  "i < length xs \<Longrightarrow> xs[i := v] ! j = (if i = j then v else xs ! j)"
  by (simp add: nth_list_update)

lemma take_append_drop_overwrite:
  "length ys = n \<Longrightarrow> i + n \<le> length xs \<Longrightarrow>
   length (take i xs @ ys @ drop (i + n) xs) = length xs"
  by simp

subsection \<open>Multisets of program counters\<close>

lemma size_replace_mset [simp]:
  "p \<in># M \<Longrightarrow> size (add_mset q (M - {#p#})) = size M"
  by (metis insert_DiffM size_add_mset)

lemma count_replace:
  "p \<in># M \<Longrightarrow> count (add_mset q (M - {#p#})) r
     = count M r - (if r = p then 1 else 0) + (if r = q then 1 else 0)"
  by auto

lemma in_count_pos: "p \<in># M \<Longrightarrow> 0 < count M p"
  by simp

subsection \<open>Arithmetic\<close>

lemma div_mod_mult_add:
  assumes "(k::nat) < n"
  shows "(l * n + k) div n = l" and "(l * n + k) mod n = k"
  using assms by simp_all

end
