(* ===== verification/Semaphore.thy ===== *)
theory Semaphore
  imports Prelude
begin

text \<open>
  Model of \<open>ustevent::detail::BasicSemaphore\<close> (\<open>core/detail/BasicSemaphore.hpp\<close>), the
  two-counter semaphore every blocking operation of the library sleeps on.

  The record \<open>semaphore\<close> holds the two counters. The first group of definitions are the
  atomic sections of the member functions (the fetch-and-add before the mutex, the section
  under the mutex), composed into the uncontended run of each member function. The second
  group is the concurrent semantics: any number of callers, each at a program counter inside
  one of the member functions, over a mutex and a condition variable with spurious wake-ups.
\<close>

section \<open>The object and its atomic sections\<close>

record semaphore =
  atomic_count :: int
  sem_count :: int

definition sem_new :: "int \<Rightarrow> semaphore" where
  "sem_new n = \<lparr>atomic_count = 0, sem_count = n\<rparr>"

definition sem_default :: semaphore where
  "sem_default = sem_new 0"

text \<open>\<open>notify\<close>: the fetch-and-add, whether it saw a negative value, and the locked section.\<close>

definition notify_enter :: "semaphore \<Rightarrow> bool \<times> semaphore" where
  "notify_enter s = (atomic_count s < 0, s\<lparr>atomic_count := atomic_count s + 1\<rparr>)"

definition notify_locked :: "semaphore \<Rightarrow> semaphore" where
  "notify_locked s = s\<lparr>sem_count := sem_count s + 1\<rparr>"

definition sem_notify :: "semaphore \<Rightarrow> semaphore" where
  "sem_notify s = (case notify_enter s of (slow, s') \<Rightarrow> if slow then notify_locked s' else s')"

text \<open>\<open>wait\<close>: the fetch-and-subtract, and the section under the mutex, which returns
  \<open>None\<close> when the predicate of the condition variable is false (the caller sleeps).\<close>

definition wait_enter :: "semaphore \<Rightarrow> bool \<times> semaphore" where
  "wait_enter s = (atomic_count s < 1, s\<lparr>atomic_count := atomic_count s - 1\<rparr>)"

definition wait_locked :: "semaphore \<Rightarrow> semaphore option" where
  "wait_locked s = (if 0 < sem_count s then Some (s\<lparr>sem_count := sem_count s - 1\<rparr>) else None)"

definition sem_wait :: "semaphore \<Rightarrow> semaphore option" where
  "sem_wait s = (case wait_enter s of (slow, s') \<Rightarrow> if slow then wait_locked s' else Some s')"

text \<open>\<open>waitUntil\<close>: at the deadline \<open>wait_until\<close> returns the value of the predicate,
  and \<open>--_count\<close> follows whatever that value is.\<close>

definition wait_deadline :: "semaphore \<Rightarrow> bool \<times> semaphore" where
  "wait_deadline s = (0 < sem_count s, s\<lparr>sem_count := sem_count s - 1\<rparr>)"

definition sem_wait_until :: "semaphore \<Rightarrow> bool \<times> semaphore" where
  "sem_wait_until s =
     (case wait_enter s of (slow, s') \<Rightarrow> if slow then wait_deadline s' else (True, s'))"

text \<open>\<open>waitFor\<close> is \<open>waitUntil\<close> with the deadline computed from the clock; the model has no
  clock, a timed wait may expire at any moment.\<close>

definition sem_wait_for :: "semaphore \<Rightarrow> bool \<times> semaphore" where
  "sem_wait_for s = sem_wait_until s"

definition sem_reset :: "semaphore \<Rightarrow> semaphore" where
  "sem_reset s = (let s' = s\<lparr>atomic_count := 0\<rparr>
                  in if atomic_count s < 0 then s'\<lparr>sem_count := 0\<rparr> else s')"

lemmas sem_ops = sem_new_def sem_default_def notify_enter_def notify_locked_def sem_notify_def
  wait_enter_def wait_locked_def sem_wait_def wait_deadline_def sem_wait_until_def sem_reset_def

section \<open>Concurrent callers\<close>

text \<open>
  A caller is at one of these points: between the fetch-and-add of \<open>notify\<close> and its locked
  section (\<open>NotifyLock\<close>), between that section and \<open>notify_one\<close> (\<open>NotifySignal\<close>), about
  to evaluate the predicate under the mutex (\<open>Check\<close>, with a flag for the timed variant) or
  asleep on the condition variable (\<open>Asleep\<close>). Callers outside the semaphore are not in the
  pool. The ghost counters record completed waits, timed-out waits and notifications begun.
\<close>

datatype sem_pc = NotifyLock | NotifySignal | Check bool | Asleep bool

record sem_system =
  sem :: semaphore
  callers :: "sem_pc multiset"
  acquired :: int
  expired :: int
  posted :: int

definition sem_start :: "int \<Rightarrow> sem_system" where
  "sem_start n = \<lparr>sem = sem_new n, callers = {#}, acquired = 0, expired = 0, posted = 0\<rparr>"

definition move :: "sem_pc \<Rightarrow> sem_pc multiset \<Rightarrow> sem_pc multiset \<Rightarrow> sem_pc multiset" where
  "move p Q M = (M - {#p#}) + Q"

inductive sem_step :: "sem_system \<Rightarrow> sem_system \<Rightarrow> bool" where
  notify_call: "notify_enter (sem \<sigma>) = (slow, s') \<Longrightarrow>
     sem_step \<sigma> (\<sigma>\<lparr>sem := s', posted := posted \<sigma> + 1,
                     callers := callers \<sigma> + (if slow then {#NotifyLock#} else {#})\<rparr>)"
| notify_lock: "NotifyLock \<in># callers \<sigma> \<Longrightarrow>
     sem_step \<sigma> (\<sigma>\<lparr>sem := notify_locked (sem \<sigma>),
                     callers := move NotifyLock {#NotifySignal#} (callers \<sigma>)\<rparr>)"
| notify_one: "NotifySignal \<in># callers \<sigma> \<Longrightarrow> Asleep t \<in># callers \<sigma> \<Longrightarrow>
     sem_step \<sigma> (\<sigma>\<lparr>callers := move (Asleep t) {#Check t#} (move NotifySignal {#} (callers \<sigma>))\<rparr>)"
| notify_none: "NotifySignal \<in># callers \<sigma> \<Longrightarrow> (\<forall>t. Asleep t \<notin># callers \<sigma>) \<Longrightarrow>
     sem_step \<sigma> (\<sigma>\<lparr>callers := move NotifySignal {#} (callers \<sigma>)\<rparr>)"
| wait_call: "wait_enter (sem \<sigma>) = (slow, s') \<Longrightarrow>
     sem_step \<sigma> (\<sigma>\<lparr>sem := s', acquired := (if slow then acquired \<sigma> else acquired \<sigma> + 1),
                     callers := callers \<sigma> + (if slow then {#Check timed#} else {#})\<rparr>)"
| wait_ok: "Check t \<in># callers \<sigma> \<Longrightarrow> wait_locked (sem \<sigma>) = Some s' \<Longrightarrow>
     sem_step \<sigma> (\<sigma>\<lparr>sem := s', acquired := acquired \<sigma> + 1,
                     callers := move (Check t) {#} (callers \<sigma>)\<rparr>)"
| wait_sleep: "Check t \<in># callers \<sigma> \<Longrightarrow> wait_locked (sem \<sigma>) = None \<Longrightarrow>
     sem_step \<sigma> (\<sigma>\<lparr>callers := move (Check t) {#Asleep t#} (callers \<sigma>)\<rparr>)"
| spurious: "Asleep t \<in># callers \<sigma> \<Longrightarrow>
     sem_step \<sigma> (\<sigma>\<lparr>callers := move (Asleep t) {#Check t#} (callers \<sigma>)\<rparr>)"
| deadline: "Asleep True \<in># callers \<sigma> \<Longrightarrow> wait_deadline (sem \<sigma>) = (ok, s') \<Longrightarrow>
     sem_step \<sigma> (\<sigma>\<lparr>sem := s', acquired := (if ok then acquired \<sigma> + 1 else acquired \<sigma>),
                     expired := (if ok then expired \<sigma> else expired \<sigma> + 1),
                     callers := move (Asleep True) {#} (callers \<sigma>)\<rparr>)"

inductive sem_reachable :: "int \<Rightarrow> sem_system \<Rightarrow> bool" for n where
  sem_init: "sem_reachable n (sem_start n)"
| sem_next: "sem_reachable n \<sigma> \<Longrightarrow> sem_step \<sigma> \<tau> \<Longrightarrow> sem_reachable n \<tau>"

inductive_cases sem_step_cases: "sem_step \<sigma> \<tau>"

subsection \<open>Counting invariants\<close>

definition n_check :: "sem_system \<Rightarrow> int" where
  "n_check \<sigma> = int (count (callers \<sigma>) (Check True)) + int (count (callers \<sigma>) (Check False))"

definition n_asleep :: "sem_system \<Rightarrow> int" where
  "n_asleep \<sigma> = int (count (callers \<sigma>) (Asleep True)) + int (count (callers \<sigma>) (Asleep False))"

definition n_lock :: "sem_system \<Rightarrow> int" where
  "n_lock \<sigma> = int (count (callers \<sigma>) NotifyLock)"

definition n_signal :: "sem_system \<Rightarrow> int" where
  "n_signal \<sigma> = int (count (callers \<sigma>) NotifySignal)"

text \<open>The locked counter lags the atomic one by the callers between the two sections.\<close>

definition counters_agree :: "int \<Rightarrow> sem_system \<Rightarrow> bool" where
  "counters_agree n \<sigma> \<longleftrightarrow>
     sem_count (sem \<sigma>) = n + min (atomic_count (sem \<sigma>)) 0 + n_check \<sigma> + n_asleep \<sigma> - n_lock \<sigma>"

definition permits_conserved :: "int \<Rightarrow> sem_system \<Rightarrow> bool" where
  "permits_conserved n \<sigma> \<longleftrightarrow>
     acquired \<sigma> + expired \<sigma> + sem_count (sem \<sigma>) + n_lock \<sigma> + max (atomic_count (sem \<sigma>)) 0
       = n + posted \<sigma>"

definition wakeups_pending :: "sem_system \<Rightarrow> bool" where
  "wakeups_pending \<sigma> \<longleftrightarrow>
     (0 < n_asleep \<sigma> \<longrightarrow> sem_count (sem \<sigma>) \<le> n_signal \<sigma> + n_check \<sigma>)"

lemmas sem_counts = n_check_def n_asleep_def n_lock_def n_signal_def move_def

lemma count_pos_int: "p \<in># M \<Longrightarrow> 1 \<le> int (count M p)"
  by (simp add: count_greater_zero_iff [symmetric] del: count_greater_zero_iff)

lemma int_count_diff1: "p \<in># M \<Longrightarrow> int (count M p - Suc 0) = int (count M p) - 1"
  by (simp add: count_greater_zero_iff [symmetric] of_nat_diff Suc_leI
           del: count_greater_zero_iff)

text \<open>Case analysis on a step; the flag of a timed or untimed waiter is split as well.\<close>

lemma counters_agree_step [ust_inv]:
  "sem_step \<sigma> \<tau> \<Longrightarrow> counters_agree n \<sigma> \<Longrightarrow> counters_agree n \<tau>"
  by (erule sem_step_cases)
     (auto simp: counters_agree_def sem_counts sem_ops int_count_diff1 split: if_splits)

lemma permits_conserved_step [ust_inv]:
  "sem_step \<sigma> \<tau> \<Longrightarrow> permits_conserved n \<sigma> \<Longrightarrow> permits_conserved n \<tau>"
  by (erule sem_step_cases)
     (auto simp: permits_conserved_def sem_counts sem_ops int_count_diff1 split: if_splits)

lemma int_count_pos: "p \<in># M \<Longrightarrow> 0 < int (count M p)"
  by simp

lemma n_check_pos: "Check t \<in># callers \<sigma> \<Longrightarrow> 1 \<le> n_check \<sigma>"
  by (cases t; drule int_count_pos; unfold n_check_def; simp only: eq_True eq_False)

lemma n_asleep_pos: "Asleep t \<in># callers \<sigma> \<Longrightarrow> 1 \<le> n_asleep \<sigma>"
  by (cases t; drule int_count_pos; unfold n_asleep_def; simp only: eq_True eq_False)

lemma signal_or_check:
  "0 < n_signal \<sigma> + n_check \<sigma> \<Longrightarrow> NotifySignal \<in># callers \<sigma> \<or> (\<exists>t. Check t \<in># callers \<sigma>)"
  by (rule ccontr) (simp add: n_signal_def n_check_def not_in_iff)

lemma check_sleeps_counts:
  assumes "Check t \<in># callers \<sigma>"
  shows "n_check (\<sigma>\<lparr>callers := move (Check t) {#Asleep t#} (callers \<sigma>)\<rparr>) = n_check \<sigma> - 1"
    and "n_signal (\<sigma>\<lparr>callers := move (Check t) {#Asleep t#} (callers \<sigma>)\<rparr>) = n_signal \<sigma>"
  using assms by (cases t; simp add: sem_counts int_count_diff1)+

lemma wakeups_pending_step [ust_inv]:
  "sem_step \<sigma> \<tau> \<Longrightarrow> wakeups_pending \<sigma> \<Longrightarrow> wakeups_pending \<tau>"
proof (erule sem_step_cases, goal_cases)
  case (3 t)
  then show ?case
    by (cases t) (auto simp: wakeups_pending_def sem_counts int_count_diff1
                       dest: count_pos_int)
next
  case 4
  then show ?case
    by (auto simp: wakeups_pending_def sem_counts not_in_iff)
next
  case (7 t)
  then show ?case using n_check_pos [of t \<sigma>]
    by (simp add: wakeups_pending_def check_sleeps_counts wait_locked_def n_signal_def
             split: if_splits)
next
  case (8 t)
  then show ?case
    by (cases t) (auto simp: wakeups_pending_def sem_counts int_count_diff1 dest: count_pos_int)
qed (auto simp: wakeups_pending_def sem_counts sem_ops int_count_diff1 split: if_splits)

definition sem_inv :: "int \<Rightarrow> sem_system \<Rightarrow> bool" where
  "sem_inv n \<sigma> \<longleftrightarrow> counters_agree n \<sigma> \<and> permits_conserved n \<sigma> \<and> wakeups_pending \<sigma>"

lemma sem_inv_start: "sem_inv n (sem_start n)"
  by (simp add: sem_inv_def sem_start_def counters_agree_def permits_conserved_def
      wakeups_pending_def sem_counts sem_ops)

lemma sem_inv_step [ust_inv]: "sem_step \<sigma> \<tau> \<Longrightarrow> sem_inv n \<sigma> \<Longrightarrow> sem_inv n \<tau>"
  unfolding sem_inv_def by (blast intro: ust_inv)

lemma sem_inv_reachable: "sem_reachable n \<sigma> \<Longrightarrow> sem_inv n \<sigma>"
  by (induction rule: sem_reachable.induct) (blast intro: sem_inv_start sem_inv_step)+

lemmas sem_reachable_facts = sem_inv_reachable [unfolded sem_inv_def]

text \<open>Only the unconditional decrement at a deadline can take the locked counter below zero.\<close>

definition overdrawn_by_expiry :: "sem_system \<Rightarrow> bool" where
  "overdrawn_by_expiry \<sigma> \<longleftrightarrow> 0 \<le> expired \<sigma> \<and> 0 \<le> sem_count (sem \<sigma>) + expired \<sigma>"

lemma overdrawn_step [ust_inv]:
  "sem_step \<sigma> \<tau> \<Longrightarrow> overdrawn_by_expiry \<sigma> \<Longrightarrow> overdrawn_by_expiry \<tau>"
  by (erule sem_step_cases) (auto simp: overdrawn_by_expiry_def sem_ops split: if_splits)

lemma overdrawn_reachable:
  "sem_reachable n \<sigma> \<Longrightarrow> 0 \<le> n \<Longrightarrow> overdrawn_by_expiry \<sigma>"
  by (induction rule: sem_reachable.induct)
     (auto simp: overdrawn_by_expiry_def sem_start_def sem_ops dest: overdrawn_step)

section \<open>Properties\<close>

text \<open>Claim C12: No caller passes the semaphore without a permit. In every reachable state of any
  number of concurrent callers, waits completed plus timed-out waits plus the permits still in
  the two counters (counting the notifications between their two sections) are exactly the
  initial permits plus the notifications begun, so completed waits never exceed what was
  posted.\<close>

theorem semaphore_permits:
  assumes "sem_reachable n \<sigma>" and "0 \<le> n"
  shows "acquired \<sigma> \<le> n + posted \<sigma>
    \<and> acquired \<sigma> + expired \<sigma> + sem_count (sem \<sigma>) + n_lock \<sigma> + max (atomic_count (sem \<sigma>)) 0
        = n + posted \<sigma>"
proof -
  have "permits_conserved n \<sigma>" using assms(1) by (rule sem_reachable_facts [THEN conjunct2, THEN conjunct1])
  moreover have "overdrawn_by_expiry \<sigma>" using assms by (rule overdrawn_reachable)
  moreover have "0 \<le> n_lock \<sigma>" by (simp add: n_lock_def)
  ultimately show ?thesis
    unfolding permits_conserved_def overdrawn_by_expiry_def by linarith
qed

lemma sem_notified_once:
  "sem_reachable 0 ((sem_start 0)\<lparr>sem := \<lparr>atomic_count = 1, sem_count = 0\<rparr>, posted := 1\<rparr>)"
  using sem_next [OF sem_init notify_call, of 0 False "\<lparr>atomic_count = 1, sem_count = 0\<rparr>"]
  by (simp add: sem_start_def sem_ops)

text \<open>Claim C13: No wake-up is lost. Whenever a caller sleeps on the condition variable although the
  locked counter is positive, some other caller is already at a point (about to signal, or
  about to test the predicate) from which the system makes a step.\<close>

theorem semaphore_no_lost_wakeup:
  assumes "sem_reachable n \<sigma>" and "Asleep t \<in># callers \<sigma>" and "0 < sem_count (sem \<sigma>)"
  shows "(NotifySignal \<in># callers \<sigma> \<or> (\<exists>t. Check t \<in># callers \<sigma>)) \<and> (\<exists>\<tau>. sem_step \<sigma> \<tau>)"
proof -
  have "wakeups_pending \<sigma>" using sem_reachable_facts [OF assms(1)] by simp
  moreover have "0 < n_asleep \<sigma>"
    using n_asleep_pos [OF assms(2)] by simp
  ultimately have "0 < n_signal \<sigma> + n_check \<sigma>" using assms(3) by (simp add: wakeups_pending_def)
  then have "NotifySignal \<in># callers \<sigma> \<or> (\<exists>t. Check t \<in># callers \<sigma>)"
    by (rule signal_or_check)
  then show ?thesis using spurious [OF assms(2)] by blast
qed

text \<open>A run to a state with a sleeper and a positive counter: a wait that sleeps, then a
  notification up to its locked section.\<close>

definition sleeper_state :: sem_system where
  "sleeper_state = \<lparr>sem = \<lparr>atomic_count = 0, sem_count = 1\<rparr>,
     callers = {#Asleep False, NotifySignal#}, acquired = 0, expired = 0, posted = 1\<rparr>"

lemma sleeper_reachable: "sem_reachable 0 sleeper_state"
proof -
  let ?s1 = "(sem_start 0)\<lparr>sem := \<lparr>atomic_count = -1, sem_count = 0\<rparr>, callers := {#Check False#}\<rparr>"
  let ?s2 = "?s1\<lparr>callers := {#Asleep False#}\<rparr>"
  let ?s3 = "?s2\<lparr>sem := \<lparr>atomic_count = 0, sem_count = 0\<rparr>, posted := 1,
                 callers := {#Asleep False, NotifyLock#}\<rparr>"
  have 1: "sem_step (sem_start 0) ?s1"
    using wait_call [of "sem_start 0" True "\<lparr>atomic_count = -1, sem_count = 0\<rparr>" False]
    by (simp add: sem_start_def sem_ops)
  have 2: "sem_step ?s1 ?s2"
    using wait_sleep [of False ?s1] by (simp add: sem_start_def sem_ops move_def)
  have 3: "sem_step ?s2 ?s3"
    using notify_call [of ?s2 True "\<lparr>atomic_count = 0, sem_count = 0\<rparr>"]
    by (simp add: sem_start_def sem_ops add_mset_commute)
  have 4: "sem_step ?s3 sleeper_state"
    using notify_lock [of ?s3]
    by (simp add: sem_start_def sem_ops move_def sleeper_state_def add_mset_commute)
  show ?thesis by (rule sem_next [OF sem_next [OF sem_next [OF sem_next [OF sem_init 1] 2] 3] 4])
qed

theorem semaphore_permits_witness:
  "acquired sleeper_state \<le> posted sleeper_state \<and> acquired sleeper_state + expired sleeper_state + 1 = posted sleeper_state"
  using semaphore_permits [OF sleeper_reachable] by (simp add: sleeper_state_def n_lock_def)

theorem semaphore_no_lost_wakeup_witness: "\<exists>\<tau>. sem_step sleeper_state \<tau>"
  using semaphore_no_lost_wakeup [OF sleeper_reachable, of False] by (simp add: sleeper_state_def)

text \<open>A timed wait that expires still consumes a permit. On a semaphore with no permit, a
  \<open>waitUntil\<close> that times out returns false but decrements the locked counter, so the next
  \<open>notify\<close> only repays it: the semaphore is back in the state it had before both calls, and
  a later \<open>wait\<close> blocks although a notification was posted and never received.\<close>

theorem expired_wait_consumes_notify:
  assumes "atomic_count s \<le> 0" and "sem_count s \<le> 0"
  shows "fst (sem_wait_until s) = False \<and> sem_notify (snd (sem_wait_until s)) = s
    \<and> sem_wait (sem_notify (snd (sem_wait_until s))) = None"
  using assms by (auto simp: sem_ops)

theorem expired_wait_consumes_notify_witness:
  "sem_wait (sem_notify (snd (sem_wait_until sem_default))) = None
   \<and> sem_wait (sem_notify sem_default) \<noteq> None"
  using expired_wait_consumes_notify [of sem_default] by (simp add: sem_ops)

text \<open>\<open>reset\<close> of a semaphore created without permits and used by nobody at the moment
  gives a semaphore in the state of a new one, whatever notifications, waits and timed-out
  waits it saw.\<close>

theorem reset_is_fresh_when_unused:
  assumes "sem_reachable 0 \<sigma>" and "callers \<sigma> = {#}"
  shows "sem_reset (sem \<sigma>) = sem_default"
proof -
  have "counters_agree 0 \<sigma>" using sem_reachable_facts [OF assms(1)] by simp
  with assms(2) have "sem_count (sem \<sigma>) = min (atomic_count (sem \<sigma>)) 0"
    by (simp add: counters_agree_def sem_counts)
  then show ?thesis by (cases "sem \<sigma>") (auto simp: sem_ops min_def Let_def split: if_splits)
qed

theorem reset_is_fresh_when_unused_witness:
  "sem_reset \<lparr>atomic_count = 1, sem_count = 0\<rparr> = sem_default"
  using reset_is_fresh_when_unused [OF sem_notified_once] by (simp add: sem_start_def)

text \<open>\<open>reset\<close> under a sleeping caller strands it. After a reset that found the atomic
  counter negative (some caller has not got its permit yet), the sleeper's predicate is false
  whenever it is woken, and the next notification takes the fast path: it neither makes the
  predicate true nor signals the condition variable.\<close>

theorem reset_strands_sleeper:
  assumes "atomic_count s < 0"
  shows "wait_locked (sem_reset s) = None
    \<and> notify_enter (sem_reset s) = (False, \<lparr>atomic_count = 1, sem_count = 0\<rparr>)
    \<and> wait_locked (sem_notify (sem_reset s)) = None"
  using assms by (cases s) (simp add: sem_ops Let_def)

theorem reset_strands_sleeper_witness:
  "wait_locked (sem_notify (sem_reset \<lparr>atomic_count = -1, sem_count = 0\<rparr>)) = None"
  using reset_strands_sleeper [of "\<lparr>atomic_count = -1, sem_count = 0\<rparr>"] by simp

end
