(* ===== verification/Barrier.thy ===== *)
theory Barrier
  imports Prelude
begin

text \<open>
  Model of \<open>ustevent::detail::BasicBarrier\<close> (\<open>core/detail/BasicBarrier.hpp\<close>), the cyclic
  barrier \<open>Context::run\<close> uses to wait for all of its threads.

  The record \<open>barrier\<close> is the object; \<open>barrier_arrive\<close> is the part of \<open>wait\<close> up to the
  first evaluation of the predicate (one critical section), \<open>barrier_test\<close> the predicate the
  condition variable evaluates on each wake-up. The step relation runs any number of callers
  over them. The thread count is a \<open>size_t\<close> (64 bits); the generation is a natural number (it
  would need 2^64 completed cycles to wrap).
\<close>

section \<open>The object\<close>

record barrier =
  threshold :: u64
  bar_count :: u64
  generation :: nat

definition barrier_new :: "u64 \<Rightarrow> barrier" where
  "barrier_new n = \<lparr>threshold = n, bar_count = n, generation = 0\<rparr>"

datatype arrival = Leader | Follower nat

definition barrier_arrive :: "barrier \<Rightarrow> arrival \<times> barrier" where
  "barrier_arrive b =
     (let gen = generation b; b' = b\<lparr>bar_count := bar_count b - 1\<rparr>
      in if bar_count b' = 0
         then (Leader, b'\<lparr>generation := generation b' + 1, bar_count := threshold b'\<rparr>)
         else (Follower gen, b'))"

definition barrier_test :: "nat \<Rightarrow> barrier \<Rightarrow> bool" where
  "barrier_test gen b \<longleftrightarrow> gen \<noteq> generation b"

section \<open>Concurrent callers\<close>

text \<open>A follower of generation \<open>g\<close> is either asleep or woken (it still has to take the mutex
  and test the predicate). \<open>notify_all\<close> runs inside the leader's critical section.\<close>

datatype bar_pc = BAsleep nat | BWoken nat

fun wake :: "bar_pc \<Rightarrow> bar_pc" where
  "wake (BAsleep g) = BWoken g"
| "wake (BWoken g) = BWoken g"

record bar_system =
  bar :: barrier
  followers :: "bar_pc multiset"
  arrived :: nat
  leaders :: nat
  released :: nat

definition bar_start :: "u64 \<Rightarrow> bar_system" where
  "bar_start n = \<lparr>bar = barrier_new n, followers = {#}, arrived = 0, leaders = 0, released = 0\<rparr>"

inductive bar_step :: "bar_system \<Rightarrow> bar_system \<Rightarrow> bool" where
  arrive_last: "barrier_arrive (bar \<sigma>) = (Leader, b) \<Longrightarrow>
     bar_step \<sigma> (\<sigma>\<lparr>bar := b, followers := image_mset wake (followers \<sigma>),
                     arrived := arrived \<sigma> + 1, leaders := leaders \<sigma> + 1\<rparr>)"
| arrive_wait: "barrier_arrive (bar \<sigma>) = (Follower g, b) \<Longrightarrow>
     bar_step \<sigma> (\<sigma>\<lparr>bar := b, arrived := arrived \<sigma> + 1,
                     followers := add_mset (if barrier_test g b then BWoken g else BAsleep g)
                                           (followers \<sigma>)\<rparr>)"
| leave: "followers \<sigma> = add_mset (BWoken g) F \<Longrightarrow> barrier_test g (bar \<sigma>) \<Longrightarrow>
     bar_step \<sigma> (\<sigma>\<lparr>followers := F, released := released \<sigma> + 1\<rparr>)"
| sleep_again: "followers \<sigma> = add_mset (BWoken g) F \<Longrightarrow> \<not> barrier_test g (bar \<sigma>) \<Longrightarrow>
     bar_step \<sigma> (\<sigma>\<lparr>followers := add_mset (BAsleep g) F\<rparr>)"
| bar_spurious: "followers \<sigma> = add_mset (BAsleep g) F \<Longrightarrow>
     bar_step \<sigma> (\<sigma>\<lparr>followers := add_mset (BWoken g) F\<rparr>)"

inductive bar_reachable :: "u64 \<Rightarrow> bar_system \<Rightarrow> bool" for n where
  bar_init: "bar_reachable n (bar_start n)"
| bar_next: "bar_reachable n \<sigma> \<Longrightarrow> bar_step \<sigma> \<tau> \<Longrightarrow> bar_reachable n \<tau>"

inductive_cases bar_step_cases: "bar_step \<sigma> \<tau>"

subsection \<open>Invariant\<close>

fun gen_of :: "bar_pc \<Rightarrow> nat" where
  "gen_of (BAsleep g) = g"
| "gen_of (BWoken g) = g"

fun asleep_pc :: "bar_pc \<Rightarrow> bool" where
  "asleep_pc (BAsleep g) = True"
| "asleep_pc (BWoken g) = False"

lemma gen_of_wake [simp]: "gen_of (wake p) = gen_of p"
  by (cases p) auto

lemma asleep_wake [simp]: "\<not> asleep_pc (wake p)"
  by (cases p) auto

definition of_gen :: "nat \<Rightarrow> bar_pc multiset \<Rightarrow> nat" where
  "of_gen g F = size (filter_mset (\<lambda>p. gen_of p = g) F)"

lemma of_gen_simps [simp]:
  "of_gen g {#} = 0"
  "of_gen g (add_mset p F) = (if gen_of p = g then Suc (of_gen g F) else of_gen g F)"
  "of_gen g (image_mset wake F) = of_gen g F"
  by (simp_all add: of_gen_def filter_mset_image_mset)

lemma of_gen_none: "(\<And>p. p \<in># F \<Longrightarrow> gen_of p < g) \<Longrightarrow> of_gen g F = 0"
  by (induction F) auto

lemma of_gen_le_size: "of_gen g F \<le> size F"
  by (simp add: of_gen_def size_filter_mset_lesseq)

text \<open>
  The invariant: the count is the threshold less the followers of the current generation; no
  follower of an earlier generation is asleep; nobody belongs to a later generation; the
  returns add up.
\<close>

definition bar_inv :: "u64 \<Rightarrow> bar_system \<Rightarrow> bool" where
  "bar_inv n \<sigma> \<longleftrightarrow>
     threshold (bar \<sigma>) = n \<and> 0 < unat (bar_count (bar \<sigma>)) \<and>
     unat (bar_count (bar \<sigma>)) + of_gen (generation (bar \<sigma>)) (followers \<sigma>) = unat n \<and>
     (\<forall>p \<in># followers \<sigma>. gen_of p \<le> generation (bar \<sigma>) \<and>
        (asleep_pc p \<longrightarrow> gen_of p = generation (bar \<sigma>))) \<and>
     leaders \<sigma> = generation (bar \<sigma>) \<and>
     arrived \<sigma> = leaders \<sigma> * unat n + of_gen (generation (bar \<sigma>)) (followers \<sigma>) \<and>
     arrived \<sigma> = leaders \<sigma> + released \<sigma> + size (followers \<sigma>)"

lemma unat_minus_one: "0 < unat (c::u64) \<Longrightarrow> unat (c - 1) = unat c - 1"
  by (simp add: unat_gt_0 unat_minus_one)

lemma count_hits_zero: "0 < unat (c::u64) \<Longrightarrow> c - 1 = 0 \<longleftrightarrow> unat c = 1"
  by (metis eq_iff_diff_eq_0 unat_1 word_unat_eq_iff)

lemma bar_inv_start: "0 < n \<Longrightarrow> bar_inv n (bar_start n)"
  by (simp add: bar_inv_def bar_start_def barrier_new_def unat_gt_0 word_gt_0)

lemma bar_inv_arrive_last:
  assumes "bar_inv n \<sigma>" and "barrier_arrive (bar \<sigma>) = (Leader, b)"
  shows "bar_inv n (\<sigma>\<lparr>bar := b, followers := image_mset wake (followers \<sigma>),
                       arrived := arrived \<sigma> + 1, leaders := leaders \<sigma> + 1\<rparr>)"
proof -
  from assms have last: "unat (bar_count (bar \<sigma>)) = 1" and
    b: "b = (bar \<sigma>)\<lparr>bar_count := threshold (bar \<sigma>), generation := Suc (generation (bar \<sigma>))\<rparr>"
    by (auto simp: barrier_arrive_def Let_def bar_inv_def count_hits_zero split: if_splits)
  have none: "of_gen (Suc (generation (bar \<sigma>))) (followers \<sigma>) = 0"
    using assms(1) by (intro of_gen_none) (auto simp: bar_inv_def less_Suc_eq_le)
  from assms(1) last have "Suc (of_gen (generation (bar \<sigma>)) (followers \<sigma>)) = unat n"
    by (simp add: bar_inv_def)
  with assms(1) none b last show ?thesis
    by (auto simp: bar_inv_def le_Suc_eq)
qed

lemma bar_inv_arrive_wait:
  assumes "bar_inv n \<sigma>" and "barrier_arrive (bar \<sigma>) = (Follower g, b)"
  shows "bar_inv n (\<sigma>\<lparr>bar := b, arrived := arrived \<sigma> + 1,
     followers := add_mset (if barrier_test g b then BWoken g else BAsleep g) (followers \<sigma>)\<rparr>)"
proof -
  from assms(2) have nz: "bar_count (bar \<sigma>) - 1 \<noteq> 0" and g: "g = generation (bar \<sigma>)" and
    b: "b = (bar \<sigma>)\<lparr>bar_count := bar_count (bar \<sigma>) - 1\<rparr>"
    by (auto simp: barrier_arrive_def Let_def split: if_splits)
  have pos: "0 < unat (bar_count (bar \<sigma>))" using assms(1) by (simp add: bar_inv_def)
  with nz have many: "1 < unat (bar_count (bar \<sigma>))" using count_hits_zero [OF pos] by linarith
  have c: "Suc (unat (bar_count (bar \<sigma>) - 1)) = unat (bar_count (bar \<sigma>))"
    using many by (simp add: unat_minus_one)
  from assms(1) many c show ?thesis
    unfolding bar_inv_def b g barrier_test_def by (elim conjE, intro conjI) simp_all
qed

lemma bar_inv_step: "bar_step \<sigma> \<tau> \<Longrightarrow> bar_inv n \<sigma> \<Longrightarrow> bar_inv n \<tau>"
proof (erule bar_step_cases, goal_cases)
  case (1 b)
  then show ?case using bar_inv_arrive_last [of n \<sigma> b] by simp
next
  case (2 g b)
  then show ?case using bar_inv_arrive_wait [of n \<sigma> g b] by simp
qed (auto simp: bar_inv_def barrier_test_def split: if_splits)

lemma bar_inv_reachable: "bar_reachable n \<sigma> \<Longrightarrow> 0 < n \<Longrightarrow> bar_inv n \<sigma>"
proof (induction rule: bar_reachable.induct)
  case bar_init
  then show ?case by (rule bar_inv_start)
next
  case (bar_next \<sigma> \<tau>)
  then show ?case by (intro bar_inv_step [of \<sigma> \<tau>])
qed

lemma bar_inv_facts:
  assumes "bar_inv n \<sigma>"
  shows "arrived \<sigma> = leaders \<sigma> * unat n + of_gen (generation (bar \<sigma>)) (followers \<sigma>)"
    and "arrived \<sigma> = leaders \<sigma> + released \<sigma> + size (followers \<sigma>)"
    and "of_gen (generation (bar \<sigma>)) (followers \<sigma>) < unat n"
    and "p \<in># followers \<sigma> \<Longrightarrow> asleep_pc p \<Longrightarrow> gen_of p = generation (bar \<sigma>)"
  using assms unfolding bar_inv_def by (elim conjE, linarith | blast)+

section \<open>Properties\<close>

text \<open>Claim C22: The barrier is cyclic and counts right. After any interleaving of calls with
  threshold \<open>n\<close>, the calls to \<open>wait\<close> so far are \<open>n\<close> per completed cycle plus the
  followers waiting in the current one (fewer than \<open>n\<close>); every completed cycle had exactly one
  caller that got true (the leader), and all the other callers returned false or are followers.\<close>

theorem barrier_cycles:
  assumes "bar_reachable n \<sigma>" and "0 < n"
  shows "leaders \<sigma> = arrived \<sigma> div unat n
    \<and> of_gen (generation (bar \<sigma>)) (followers \<sigma>) = arrived \<sigma> mod unat n
    \<and> arrived \<sigma> = leaders \<sigma> + released \<sigma> + size (followers \<sigma>)"
proof -
  have inv: "bar_inv n \<sigma>" using assms by (rule bar_inv_reachable)
  note parts = div_mod_mult_add [OF bar_inv_facts(3) [OF inv], of "leaders \<sigma>",
      folded bar_inv_facts(1) [OF inv]]
  show ?thesis by (intro conjI parts [symmetric] bar_inv_facts(2) [OF inv])
qed

text \<open>No follower of a completed cycle stays asleep: it has been woken, and the predicate it
  then tests is true, so its next step leaves \<open>wait\<close>.\<close>

theorem barrier_releases_old_followers:
  assumes "bar_reachable n \<sigma>" and "0 < n"
    and "p \<in># followers \<sigma>" and "gen_of p \<noteq> generation (bar \<sigma>)"
  shows "\<exists>F. bar_step \<sigma> (\<sigma>\<lparr>followers := F, released := released \<sigma> + 1\<rparr>)
           \<and> followers \<sigma> = add_mset p F"
proof -
  have "bar_inv n \<sigma>" using assms(1,2) by (rule bar_inv_reachable)
  with assms(3,4) obtain g where p: "p = BWoken g"
    using bar_inv_facts(4) [of n \<sigma> p] by (cases p) auto
  obtain F where F: "followers \<sigma> = add_mset p F" using assms(3) by (metis insert_DiffM)
  have "barrier_test g (bar \<sigma>)" using assms(4) p by (simp add: barrier_test_def)
  then show ?thesis using leave [of \<sigma> g F] F p by blast
qed

text \<open>Two callers of a barrier for two: the first sleeps, the second completes the cycle.\<close>

definition bar_two :: bar_system where
  "bar_two = \<lparr>bar = \<lparr>threshold = 2, bar_count = 2, generation = 1\<rparr>, followers = {#BWoken 0#},
               arrived = 2, leaders = 1, released = 0\<rparr>"

lemma bar_two_reachable: "bar_reachable 2 bar_two"
proof -
  let ?s1 = "(bar_start 2)\<lparr>bar := \<lparr>threshold = 2, bar_count = 1, generation = 0\<rparr>,
               arrived := 1, followers := {#BAsleep 0#}\<rparr>"
  have 1: "bar_step (bar_start 2) ?s1"
    using arrive_wait [of "bar_start 2" 0 "\<lparr>threshold = 2, bar_count = 1, generation = 0\<rparr>"]
    by (simp add: bar_start_def barrier_new_def barrier_arrive_def barrier_test_def)
  have 2: "bar_step ?s1 bar_two"
    using arrive_last [of ?s1 "\<lparr>threshold = 2, bar_count = 2, generation = 1\<rparr>"]
    by (simp add: bar_start_def barrier_new_def barrier_arrive_def bar_two_def numeral_2_eq_2)
  show ?thesis by (rule bar_next [OF bar_next [OF bar_init 1] 2])
qed

theorem barrier_cycles_witness:
  "leaders bar_two = arrived bar_two div 2 \<and> arrived bar_two = 1 + released bar_two + size (followers bar_two)"
  using barrier_cycles [OF bar_two_reachable] by (simp add: bar_two_def)

theorem barrier_releases_old_followers_witness:
  "\<exists>F. bar_step bar_two (bar_two\<lparr>followers := F, released := 1\<rparr>)"
  using barrier_releases_old_followers [OF bar_two_reachable, of "BWoken 0"]
  by (auto simp: bar_two_def)

end
