(* ===== verification/SpinLock.thy ===== *)
theory SpinLock
  imports Prelude
begin

text \<open>
  Model of \<open>ustevent::detail::SpinMutex\<close> (\<open>core/detail/SpinMutex.cpp\<close>), an MCS queue lock.

  Threads and mutexes are natural numbers. A thread owns one queue node for all mutexes
  (\<open>s_local_node\<close> is a static thread-local member), so the state holds one tail pointer per
  mutex, but the \<open>_locked\<close> and \<open>_next\<close> fields of one node per thread, the program counter of
  every thread and the mutexes it holds. Each rule of \<open>spin_step\<close> is one access to shared
  memory, in program order, over a sequentially consistent memory; a round of a spin loop
  is one rule. A thread unlocks a mutex it holds. The parameter of the relation says whether a thread may ask for
  a mutex while it holds another. Runs where none does are called flat: mutual exclusion holds
  there for every mutex, although stale node fields travel from one mutex to the next. In
  nested runs it fails (\<open>spin_nested_breaks_exclusion\<close>).
\<close>

section \<open>State and steps\<close>

datatype spin_pc =
    Idle                \<comment> \<open>not inside a member function\<close>
  | LSet nat nat        \<comment> \<open>lock: exchanged the tail of the mutex, previous tail known\<close>
  | LLink nat nat       \<comment> \<open>lock: \<open>_locked = true\<close> done, about to link into the predecessor\<close>
  | LSpin nat           \<comment> \<open>lock: spinning on \<open>_locked\<close>\<close>
  | UCas nat            \<comment> \<open>unlock: saw \<open>_next == nullptr\<close>, about to compare-and-swap\<close>
  | USpin nat           \<comment> \<open>unlock: the swap failed, spinning on \<open>_next\<close>\<close>
  | UHand nat           \<comment> \<open>unlock: about to clear the successor's \<open>_locked\<close>\<close>
  | UClear nat          \<comment> \<open>unlock: about to clear the own \<open>_next\<close>\<close>

record spin_state =
  sp_tail :: "nat \<Rightarrow> nat option"       \<comment> \<open>per mutex\<close>
  sp_locked :: "nat \<Rightarrow> bool"            \<comment> \<open>per thread, shared by all mutexes\<close>
  sp_next :: "nat \<Rightarrow> nat option"       \<comment> \<open>per thread, shared by all mutexes\<close>
  sp_pc :: "nat \<Rightarrow> spin_pc"
  sp_held :: "nat \<Rightarrow> nat set"           \<comment> \<open>the mutexes a thread has locked and not yet unlocked\<close>

definition spin_init :: spin_state where
  "spin_init = \<lparr>sp_tail = (\<lambda>_. None), sp_locked = (\<lambda>_. True), sp_next = (\<lambda>_. None),
                sp_pc = (\<lambda>_. Idle), sp_held = (\<lambda>_. {})\<rparr>"

abbreviation goto :: "nat \<Rightarrow> spin_pc \<Rightarrow> spin_state \<Rightarrow> spin_state" where
  "goto i p s \<equiv> s\<lparr>sp_pc := (sp_pc s)(i := p)\<rparr>"

abbreviation set_tail :: "nat \<Rightarrow> nat option \<Rightarrow> spin_state \<Rightarrow> spin_state" where
  "set_tail m v s \<equiv> s\<lparr>sp_tail := (sp_tail s)(m := v)\<rparr>"

definition enter :: "nat \<Rightarrow> nat \<Rightarrow> spin_state \<Rightarrow> spin_state" where
  "enter m i s = goto i Idle (s\<lparr>sp_held := (sp_held s)(i := insert m (sp_held s i))\<rparr>)"

text \<open>\<open>lock()\<close>: one definition per access; \<open>lock_return\<close> is the exit of the spin loop.\<close>

definition lock_exchange :: "nat \<Rightarrow> nat \<Rightarrow> spin_state \<Rightarrow> spin_state" where
  "lock_exchange m i s =
     (case sp_tail s m of
        None \<Rightarrow> enter m i (set_tail m (Some i) s)
      | Some prev \<Rightarrow> goto i (LSet m prev) (set_tail m (Some i) s))"

definition lock_set :: "nat \<Rightarrow> nat \<Rightarrow> nat \<Rightarrow> spin_state \<Rightarrow> spin_state" where
  "lock_set m i prev s = goto i (LLink m prev) (s\<lparr>sp_locked := (sp_locked s)(i := True)\<rparr>)"

definition lock_link :: "nat \<Rightarrow> nat \<Rightarrow> nat \<Rightarrow> spin_state \<Rightarrow> spin_state" where
  "lock_link m i prev s = goto i (LSpin m) (s\<lparr>sp_next := (sp_next s)(prev := Some i)\<rparr>)"

definition lock_return :: "nat \<Rightarrow> nat \<Rightarrow> spin_state \<Rightarrow> spin_state" where
  "lock_return m i s = (if sp_locked s i then s else enter m i s)"

text \<open>\<open>try_lock()\<close>: one compare-and-swap.\<close>

definition try_lock :: "nat \<Rightarrow> nat \<Rightarrow> spin_state \<Rightarrow> bool \<times> spin_state" where
  "try_lock m i s =
     (if sp_tail s m = None then (True, enter m i (set_tail m (Some i) s)) else (False, s))"

text \<open>\<open>unlock()\<close>: everything after the first test, the hand-over included, is inside the branch
  taken when \<open>_next\<close> was null.\<close>

definition unlock_test :: "nat \<Rightarrow> nat \<Rightarrow> spin_state \<Rightarrow> spin_state" where
  "unlock_test m i s =
     (let s' = s\<lparr>sp_held := (sp_held s)(i := sp_held s i - {m})\<rparr>
      in if sp_next s i = None then goto i (UCas m) s' else s')"

definition unlock_cas :: "nat \<Rightarrow> nat \<Rightarrow> spin_state \<Rightarrow> spin_state" where
  "unlock_cas m i s =
     (if sp_tail s m = Some i then goto i Idle (set_tail m None s) else goto i (USpin m) s)"

definition unlock_spin :: "nat \<Rightarrow> nat \<Rightarrow> spin_state \<Rightarrow> spin_state" where
  "unlock_spin m i s = (if sp_next s i = None then s else goto i (UHand m) s)"

definition unlock_hand :: "nat \<Rightarrow> nat \<Rightarrow> nat \<Rightarrow> spin_state \<Rightarrow> spin_state" where
  "unlock_hand m i j s = goto i (UClear m) (s\<lparr>sp_locked := (sp_locked s)(j := False)\<rparr>)"

definition unlock_clear :: "nat \<Rightarrow> spin_state \<Rightarrow> spin_state" where
  "unlock_clear i s = goto i Idle (s\<lparr>sp_next := (sp_next s)(i := None)\<rparr>)"

lemmas spin_ops = lock_exchange_def lock_set_def lock_link_def lock_return_def try_lock_def
  unlock_test_def unlock_cas_def unlock_spin_def unlock_hand_def unlock_clear_def enter_def Let_def

inductive spin_step :: "bool \<Rightarrow> spin_state \<Rightarrow> spin_state \<Rightarrow> bool" for nested where
  s_exchange: "sp_pc s i = Idle \<Longrightarrow> nested \<or> sp_held s i = {} \<Longrightarrow>
     spin_step nested s (lock_exchange m i s)"
| s_set: "sp_pc s i = LSet m p \<Longrightarrow> spin_step nested s (lock_set m i p s)"
| s_link: "sp_pc s i = LLink m p \<Longrightarrow> spin_step nested s (lock_link m i p s)"
| s_return: "sp_pc s i = LSpin m \<Longrightarrow> spin_step nested s (lock_return m i s)"
| s_try: "sp_pc s i = Idle \<Longrightarrow> nested \<or> sp_held s i = {} \<Longrightarrow>
     spin_step nested s (snd (try_lock m i s))"
| s_unlock: "sp_pc s i = Idle \<Longrightarrow> m \<in> sp_held s i \<Longrightarrow> spin_step nested s (unlock_test m i s)"
| s_cas: "sp_pc s i = UCas m \<Longrightarrow> spin_step nested s (unlock_cas m i s)"
| s_next: "sp_pc s i = USpin m \<Longrightarrow> spin_step nested s (unlock_spin m i s)"
| s_hand: "sp_pc s i = UHand m \<Longrightarrow> sp_next s i = Some j \<Longrightarrow>
     spin_step nested s (unlock_hand m i j s)"
| s_clear: "sp_pc s i = UClear m \<Longrightarrow> spin_step nested s (unlock_clear i s)"

inductive spin_steps :: "bool \<Rightarrow> spin_state \<Rightarrow> spin_state \<Rightarrow> bool" for nested s where
  spin_refl: "spin_steps nested s s"
| spin_trans: "spin_steps nested s t \<Longrightarrow> spin_step nested t u \<Longrightarrow> spin_steps nested s u"

definition spin_reachable :: "bool \<Rightarrow> spin_state \<Rightarrow> bool" where
  "spin_reachable nested s \<longleftrightarrow> spin_steps nested spin_init s"

inductive_cases spin_step_cases: "spin_step nested s t"

section \<open>Flat runs: the queue behind the pointers\<close>

text \<open>
  In a flat run a thread is at one mutex at a time. A mutex is live when the threads at it form
  a queue \<open>q\<close>: its head owns the mutex (or has been granted it), each later thread waits behind
  the one before it, and the tail pointer names the last one. A mutex dies when an unlock finds
  \<open>_next\<close> set: it has no owner then, and its tail is not null. The \<open>_next\<close> of the thread that
  forgot it stays set (the thread is marred), so it forgets every mutex it locks later, too.
\<close>

definition behind :: "spin_state \<Rightarrow> nat \<Rightarrow> nat \<Rightarrow> nat \<Rightarrow> bool" where
  "behind s m i j \<longleftrightarrow>
     sp_pc s j = LSet m i \<or> ((sp_pc s j = LLink m i \<or> sp_pc s j = LSpin m) \<and> sp_locked s j)"

definition unlocking :: "spin_state \<Rightarrow> nat \<Rightarrow> nat \<Rightarrow> bool" where
  "unlocking s m i \<longleftrightarrow> sp_pc s i \<in> {UCas m, USpin m, UHand m}"

definition owns :: "spin_state \<Rightarrow> nat \<Rightarrow> nat \<Rightarrow> bool" where
  "owns s m i \<longleftrightarrow> m \<in> sp_held s i \<or> unlocking s m i \<or> (sp_pc s i = LSpin m \<and> \<not> sp_locked s i)"

definition waits :: "spin_state \<Rightarrow> nat \<Rightarrow> nat \<Rightarrow> bool" where
  "waits s m i \<longleftrightarrow> (\<exists>p. sp_pc s i = LSet m p \<or> sp_pc s i = LLink m p) \<or> sp_pc s i = LSpin m"

definition marred :: "spin_state \<Rightarrow> nat \<Rightarrow> bool" where
  "marred s i \<longleftrightarrow> sp_next s i \<noteq> None \<and> (\<forall>m. \<not> unlocking s m i \<and> sp_pc s i \<noteq> UClear m)"

definition flat :: "spin_state \<Rightarrow> bool" where
  "flat s \<longleftrightarrow> (\<forall>i. (sp_pc s i \<noteq> Idle \<longrightarrow> sp_held s i = {}) \<and> (\<forall>m \<in> sp_held s i. sp_held s i = {m}))"

definition spin_live :: "nat \<Rightarrow> nat list \<Rightarrow> spin_state \<Rightarrow> bool" where
  "spin_live m q s \<longleftrightarrow> distinct q \<and>
     (\<forall>k. Suc k < length q \<longrightarrow> behind s m (q ! k) (q ! Suc k)) \<and>
     sp_tail s m = (if q = [] then None else Some (last q)) \<and>
     (q \<noteq> [] \<longrightarrow> owns s m (hd q)) \<and>
     (\<forall>i. owns s m i \<or> waits s m i \<longrightarrow> i \<in> set q) \<and>
     (\<forall>i \<in> set q. unlocking s m i \<longrightarrow> sp_next s i = None \<or>
        (Suc 0 < length q \<and> sp_pc s (q ! 1) = LSpin m \<and> sp_next s i = Some (q ! 1)))"

definition spin_dead :: "nat \<Rightarrow> spin_state \<Rightarrow> bool" where
  "spin_dead m s \<longleftrightarrow> (\<exists>p. sp_tail s m = Some p \<and> (waits s m p \<or> marred s p)) \<and>
     (\<forall>i. \<not> owns s m i) \<and>
     (\<forall>i p. sp_pc s i = LLink m p \<longrightarrow> sp_locked s i) \<and>
     (\<forall>i p. sp_pc s i = LSet m p \<or> sp_pc s i = LLink m p \<longrightarrow> waits s m p \<or> marred s p)"

definition spin_ok :: "nat \<Rightarrow> spin_state \<Rightarrow> bool" where
  "spin_ok m s \<longleftrightarrow> spin_dead m s \<or> (\<exists>q. spin_live m q s)"

definition spin_inv :: "spin_state \<Rightarrow> bool" where
  "spin_inv s \<longleftrightarrow> flat s \<and> (\<forall>m. spin_ok m s)"

lemmas spin_places = behind_def unlocking_def owns_def waits_def

text \<open>The parts of a live queue, as the proofs use them.\<close>

lemma liveD:
  assumes "spin_live m q s"
  shows "distinct q"
    and "Suc k < length q \<Longrightarrow> behind s m (q ! k) (q ! Suc k)"
    and "sp_tail s m = (if q = [] then None else Some (last q))"
    and "q \<noteq> [] \<Longrightarrow> owns s m (hd q)"
    and "owns s m i \<Longrightarrow> i \<in> set q"
    and "waits s m i \<Longrightarrow> i \<in> set q"
    and "i \<in> set q \<Longrightarrow> unlocking s m i \<Longrightarrow> sp_next s i \<noteq> None \<Longrightarrow>
       Suc 0 < length q \<and> sp_pc s (q ! 1) = LSpin m \<and> sp_next s i = Some (q ! 1)"
  using assms by (auto simp: spin_live_def)

lemma behind_waits: "behind s m i j \<Longrightarrow> waits s m j"
  by (auto simp: behind_def waits_def)

lemma flat_behind_not_owns: "flat s \<Longrightarrow> behind s m i j \<Longrightarrow> \<not> owns s m j"
  unfolding flat_def spin_places by (auto; force)

text \<open>A flat thread is at one mutex at a time.\<close>

lemma flat_one_place:
  "flat s \<Longrightarrow> owns s m i \<or> waits s m i \<Longrightarrow> owns s m' i \<or> waits s m' i \<Longrightarrow> m = m'"
  unfolding flat_def spin_places
  by (smt (verit) emptyE insertE singletonD spin_pc.distinct spin_pc.inject insertCI)

lemma live_members:
  assumes live: "spin_live m q s" and i: "i \<in> set q"
  shows "i = hd q \<and> owns s m i \<or> (\<exists>k. Suc k < length q \<and> i = q ! Suc k \<and> behind s m (q ! k) i)"
proof -
  obtain n where n: "n < length q" "i = q ! n" using i by (auto simp: in_set_conv_nth)
  show ?thesis
  proof (cases n)
    case 0
    with n have "i = hd q" "q \<noteq> []" by (auto simp: hd_conv_nth)
    with liveD(4) [OF live] show ?thesis by simp
  next
    case (Suc k)
    with n liveD(2) [OF live, of k] show ?thesis by auto
  qed
qed

lemma live_involved: "spin_live m q s \<Longrightarrow> i \<in> set q \<Longrightarrow> owns s m i \<or> waits s m i"
  using live_members behind_waits by blast

lemma live_owner_hd:
  assumes "flat s" and "spin_live m q s" and "owns s m i"
  shows "q \<noteq> [] \<and> i = hd q"
  using live_members [OF assms(2) liveD(5) [OF assms(2,3)]] flat_behind_not_owns [OF assms(1)] assms(3)
    liveD(5) [OF assms(2,3)] by auto

lemma live_waiter:
  assumes "spin_live m q s" and "waits s m i" and "\<not> owns s m i"
  obtains k where "Suc k < length q" and "i = q ! Suc k" and "behind s m (q ! k) i"
  using live_members [OF assms(1) liveD(6) [OF assms(1,2)]] assms(3) by auto

text \<open>Once marred, always marred: nothing clears the \<open>_next\<close> of a thread whose unlock skips
  the hand-over.\<close>

lemma marred_step: "spin_step nested s t \<Longrightarrow> marred s p \<Longrightarrow> marred t p"
  by (erule spin_step_cases)
     (auto simp: marred_def unlocking_def spin_ops split: option.splits if_splits)

subsection \<open>Mutexes other than the one of the step\<close>

text \<open>What one access of thread \<open>i\<close> at mutex \<open>m\<close> can change.\<close>

definition local_to :: "nat \<Rightarrow> nat \<Rightarrow> spin_state \<Rightarrow> spin_state \<Rightarrow> bool" where
  "local_to i m s t \<longleftrightarrow>
     (\<forall>n. n \<noteq> m \<longrightarrow> sp_tail t n = sp_tail s n \<and>
        \<not> (owns s n i \<or> waits s n i) \<and> \<not> (owns t n i \<or> waits t n i)) \<and>
     (\<forall>k. k \<noteq> i \<longrightarrow> sp_pc t k = sp_pc s k \<and> sp_held t k = sp_held s k \<and>
        (sp_locked t k = sp_locked s k \<or> waits s m k) \<and>
        (sp_next t k = sp_next s k \<or> sp_pc s i = LLink m k))"

lemma localD:
  assumes "local_to i m s t"
  shows "n \<noteq> m \<Longrightarrow> sp_tail t n = sp_tail s n"
    and "n \<noteq> m \<Longrightarrow> owns s n k \<or> waits s n k \<Longrightarrow> k \<noteq> i"
    and "n \<noteq> m \<Longrightarrow> owns t n k \<or> waits t n k \<Longrightarrow> k \<noteq> i"
    and "k \<noteq> i \<Longrightarrow> sp_pc t k = sp_pc s k"
    and "k \<noteq> i \<Longrightarrow> sp_held t k = sp_held s k"
    and "k \<noteq> i \<Longrightarrow> sp_locked t k = sp_locked s k \<or> waits s m k"
    and "k \<noteq> i \<Longrightarrow> sp_next t k = sp_next s k \<or> sp_pc s i = LLink m k"
  using assms unfolding local_to_def by blast+

text \<open>A thread at another mutex keeps its place there.\<close>

lemma local_place:
  assumes fl: "flat s" and loc: "local_to i m s t" and n: "n \<noteq> m" and k: "k \<noteq> i"
  shows "waits t n k = waits s n k" and "unlocking t n k = unlocking s n k"
    and "waits s n k \<Longrightarrow> sp_locked t k = sp_locked s k" and "owns t n k = owns s n k"
    and "behind s n p k \<Longrightarrow> behind t n p k"
proof -
  note pc = localD(4,5) [OF loc k]
  show w: "waits t n k = waits s n k" and u: "unlocking t n k = unlocking s n k"
    by (simp_all add: waits_def unlocking_def pc)
  show l: "sp_locked t k = sp_locked s k" if "waits s n k"
    using localD(6) [OF loc k] flat_one_place [OF fl, of n k m] that n by blast
  then show "owns t n k = owns s n k" by (auto simp: owns_def u pc waits_def)
  show "behind t n p k" if "behind s n p k"
    using that l [OF behind_waits [OF that]] by (simp add: behind_def pc)
qed

text \<open>Only a thread that waits at the mutex or is marred can be linked behind from a dead mutex,
  and only a member of the queue from a live one.\<close>

lemma link_target:
  assumes fl: "flat s" and ok: "spin_ok m s" and pc: "sp_pc s i = LLink m p"
  shows "owns s m p \<or> waits s m p \<or> marred s p"
proof (cases "spin_dead m s")
  case True
  then show ?thesis using pc by (auto simp: spin_dead_def)
next
  case False
  then obtain q where live: "spin_live m q s" using ok by (auto simp: spin_ok_def)
  have w: "waits s m i" and no: "\<not> owns s m i"
    using pc fl by (auto simp: waits_def owns_def unlocking_def flat_def)
  from live_waiter [OF live w no] obtain k where
    "Suc k < length q" "behind s m (q ! k) i" by blast
  with pc have "p \<in> set q" by (auto simp: behind_def)
  then show ?thesis using live_involved [OF live] by blast
qed

lemma frame_live:
  assumes fl: "flat s" and ok: "spin_ok m s" and loc: "local_to i m s t" and n: "n \<noteq> m"
    and live: "spin_live n q s"
  shows "spin_live n q t"
proof -
  have ni: "k \<noteq> i" if "k \<in> set q" for k
    using localD(2) [OF loc n] live_involved [OF live that] by blast
  have nx: "sp_next t k = sp_next s k" if k: "k \<in> set q" and u: "unlocking s n k" for k
  proof (rule ccontr)
    assume "sp_next t k \<noteq> sp_next s k"
    then have "sp_pc s i = LLink m k" using localD(7) [OF loc ni [OF k]] by blast
    from link_target [OF fl ok this] have "marred s k"
      using flat_one_place [OF fl live_involved [OF live k], of m] n by blast
    then show False using u by (simp add: marred_def)
  qed
  note place = local_place [OF fl loc n ni]
  have hd: "hd q \<in> set q" if "q \<noteq> []" using that by simp
  have beh: "behind t n (q ! k) (q ! Suc k)" if "Suc k < length q" for k
    using place(5) [OF nth_mem [OF that]] liveD(2) [OF live that] by blast
  have own: "owns t n (hd q)" if "q \<noteq> []"
    using place(4) [OF hd [OF that]] liveD(4) [OF live that] by simp
  have inq: "k \<in> set q" if "owns t n k \<or> waits t n k" for k
    using that local_place(1,4) [OF fl loc n localD(3) [OF loc n that]]
      liveD(5,6) [OF live, of k] by blast
  have unl: "sp_next t k = None \<or>
      Suc 0 < length q \<and> sp_pc t (q ! 1) = LSpin n \<and> sp_next t k = Some (q ! 1)"
    if k: "k \<in> set q" and u: "unlocking t n k" for k
  proof (cases "sp_next s k = None")
    case True
    then show ?thesis using nx [OF k] place(2) [OF k] u by simp
  next
    case False
    have us: "unlocking s n k" using place(2) [OF k] u by simp
    from liveD(7) [OF live k us False] have "Suc 0 < length q" "sp_pc s (q ! 1) = LSpin n"
      "sp_next s k = Some (q ! 1)" by auto
    moreover from this(1) have "q ! 1 \<in> set q" by simp
    ultimately show ?thesis using nx [OF k us] localD(4) [OF loc ni] by simp
  qed
  have tl: "sp_tail t n = (if q = [] then None else Some (last q))"
    using liveD(3) [OF live] localD(1) [OF loc n] by simp
  show ?thesis
    unfolding spin_live_def
    by (intro conjI allI impI liveD(1) [OF live] beh tl own inq)
      (assumption | rule ballI impI unl)+
qed

lemma frame_dead:
  assumes fl: "flat s" and loc: "local_to i m s t" and n: "n \<noteq> m"
    and mar: "\<And>p. marred s p \<Longrightarrow> marred t p" and dead: "spin_dead n s"
  shows "spin_dead n t"
proof -
  have bad: "waits t n p \<or> marred t p" if "waits s n p \<or> marred s p" for p
    using that mar local_place(1) [OF fl loc n localD(2) [OF loc n]] by blast
  have pc: "sp_pc s k = sp_pc t k \<and> sp_locked t k = sp_locked s k" if "waits t n k" for k
  proof -
    have "k \<noteq> i" using that localD(3) [OF loc n] by blast
    then show ?thesis using that localD(4) [OF loc] local_place(1,3) [OF fl loc n] by metis
  qed
  have own: "\<not> owns t n k" for k
    using dead local_place(4) [OF fl loc n localD(3) [OF loc n]] unfolding spin_dead_def by blast
  show ?thesis
    unfolding spin_dead_def
  proof (intro conjI allI impI)
    show "\<exists>p. sp_tail t n = Some p \<and> (waits t n p \<or> marred t p)"
      using dead bad localD(1) [OF loc n] unfolding spin_dead_def by metis
    show "\<not> owns t n k" for k by (rule own)
  next
    fix k p assume "sp_pc t k = LLink n p"
    moreover from this have "waits t n k" by (simp add: waits_def)
    ultimately show "sp_locked t k" using pc [of k] dead by (simp add: spin_dead_def)
  next
    fix k p assume a: "sp_pc t k = LSet n p \<or> sp_pc t k = LLink n p"
    then have "waits t n k" by (auto simp: waits_def)
    with a pc [of k] have "sp_pc s k = LSet n p \<or> sp_pc s k = LLink n p" by simp
    then show "waits t n p \<or> marred t p" using dead bad unfolding spin_dead_def by blast
  qed
qed

lemma frame_inv:
  assumes "spin_step nested s t" and "spin_inv s" and "flat t" and "local_to i m s t"
    and "spin_ok m t" and "spin_dead m s \<Longrightarrow> spin_dead m t"
  shows "spin_inv t \<and> (\<forall>n. spin_dead n s \<longrightarrow> spin_dead n t)"
proof -
  have fl: "flat s" and ok: "\<And>n. spin_ok n s" using assms(2) by (auto simp: spin_inv_def)
  have dead: "spin_dead n t" if "spin_dead n s" for n
    using frame_dead [OF fl assms(4) _ marred_step [OF assms(1)] that] assms(6) that by blast
  have "spin_ok n t" if "n \<noteq> m" for n
    using ok [of n] frame_live [OF fl ok [of m] assms(4) that] dead
    unfolding spin_ok_def by blast
  then show ?thesis using assms(3,5) dead unfolding spin_inv_def by metis
qed

subsection \<open>The mutex of the step\<close>

lemma dead_exchange:
  assumes "spin_dead m s" and "sp_pc s i = Idle" and "sp_held s i = {}"
  shows "spin_dead m (lock_exchange m i s)"
proof -
  obtain p where p: "sp_tail s m = Some p" "waits s m p \<or> marred s p"
    using assms(1) by (auto simp: spin_dead_def)
  have t: "lock_exchange m i s = goto i (LSet m p) (set_tail m (Some i) s)"
    by (simp add: lock_exchange_def p)
  have w: "waits (lock_exchange m i s) m k \<or> marred (lock_exchange m i s) k"
    if "waits s m k \<or> marred s k" for k
    using that assms(2) by (auto simp: t waits_def marred_def unlocking_def)
  have wi: "waits (lock_exchange m i s) m i" by (simp add: t waits_def)
  have own: "\<not> owns (lock_exchange m i s) m k" for k
    using assms by (auto simp: spin_dead_def t owns_def unlocking_def)
  show ?thesis
    unfolding spin_dead_def
  proof (intro conjI allI impI)
    show "\<exists>p. sp_tail (lock_exchange m i s) m = Some p \<and>
        (waits (lock_exchange m i s) m p \<or> marred (lock_exchange m i s) p)"
      using wi by (auto simp: t)
    show "\<not> owns (lock_exchange m i s) m k" for k by (rule own)
    show "sp_locked (lock_exchange m i s) k" if "sp_pc (lock_exchange m i s) k = LLink m p" for k p
      using that assms(1) by (auto simp: t spin_dead_def split: if_splits)
    show "waits (lock_exchange m i s) m l \<or> marred (lock_exchange m i s) l"
      if "sp_pc (lock_exchange m i s) k = LSet m l \<or> sp_pc (lock_exchange m i s) k = LLink m l" for k l
      using that assms(1) p by (intro w) (auto simp: t spin_dead_def split: if_splits)
  qed
qed

text \<open>A dead mutex is dead for good.\<close>

lemma dead_keeps:
  assumes dead: "spin_dead m s" and tail: "sp_tail t m = sp_tail s m"
    and w: "\<And>k. waits t m k = waits s m k" and mar: "\<And>k. marred s k \<Longrightarrow> marred t k"
    and own: "\<And>k. \<not> owns t m k"
    and lk: "\<And>k p. sp_pc t k = LLink m p \<Longrightarrow> sp_locked t k"
    and pc: "\<And>k p. sp_pc t k = LSet m p \<or> sp_pc t k = LLink m p \<Longrightarrow>
      sp_pc s k = LSet m p \<or> sp_pc s k = LLink m p"
  shows "spin_dead m t"
  using assms unfolding spin_dead_def by metis

lemma deadD:
  assumes "spin_dead m s"
  shows "m \<notin> sp_held s k" and "\<not> unlocking s m k" and "sp_pc s k = LSpin m \<Longrightarrow> sp_locked s k"
    and "sp_pc s k = LLink m p \<Longrightarrow> sp_locked s k"
  using assms unfolding spin_dead_def owns_def by blast+

lemma dead_own: "m \<notin> sp_held s k \<Longrightarrow> \<not> unlocking s m k \<Longrightarrow>
    (sp_pc s k = LSpin m \<Longrightarrow> sp_locked s k) \<Longrightarrow> \<not> owns s m k"
  by (auto simp: owns_def)

lemma dead_set:
  assumes dead: "spin_dead m s" and pc: "sp_pc s i = LSet m p"
  shows "spin_dead m (lock_set m i p s)"
proof (rule dead_keeps [OF dead])
  show "\<not> owns (lock_set m i p s) m k" for k
    using deadD(1,2,3) [OF dead, of k] by (intro dead_own) (auto simp: lock_set_def unlocking_def)
  show "sp_locked (lock_set m i p s) k" if "sp_pc (lock_set m i p s) k = LLink m l" for k l
    using that deadD(4) [OF dead, of k] by (auto simp: lock_set_def split: if_splits)
qed (use pc in \<open>auto simp: lock_set_def waits_def marred_def unlocking_def split: if_splits\<close>)

lemma dead_link:
  assumes dead: "spin_dead m s" and pc: "sp_pc s i = LLink m p"
  shows "spin_dead m (lock_link m i p s)"
proof (rule dead_keeps [OF dead])
  show "\<not> owns (lock_link m i p s) m k" for k
    using deadD(1,2,3) [OF dead, of k] deadD(4) [OF dead pc]
    by (intro dead_own) (auto simp: lock_link_def unlocking_def split: if_splits)
  show "sp_locked (lock_link m i p s) k" if "sp_pc (lock_link m i p s) k = LLink m l" for k l
    using that deadD(4) [OF dead, of k] by (auto simp: lock_link_def split: if_splits)
qed (use pc in \<open>auto simp: lock_link_def waits_def marred_def unlocking_def split: if_splits\<close>)

lemma dead_clear:
  assumes dead: "spin_dead m s" and pc: "sp_pc s i = UClear n"
  shows "spin_dead m (unlock_clear i s)"
proof (rule dead_keeps [OF dead])
  show "\<not> owns (unlock_clear i s) m k" for k
    using deadD(1,2,3) [OF dead, of k]
    by (intro dead_own) (auto simp: unlock_clear_def unlocking_def split: if_splits)
  show "sp_locked (unlock_clear i s) k" if "sp_pc (unlock_clear i s) k = LLink m l" for k l
    using that deadD(4) [OF dead, of k] by (auto simp: unlock_clear_def split: if_splits)
qed (use pc in \<open>auto simp: unlock_clear_def waits_def marred_def unlocking_def split: if_splits\<close>)

text \<open>A step that leaves the queue of a live mutex as it is.\<close>

lemma live_keeps:
  assumes live: "spin_live m q s" and tail: "sp_tail t m = sp_tail s m"
    and beh: "\<And>k. Suc k < length q \<Longrightarrow> behind s m (q ! k) (q ! Suc k) \<Longrightarrow>
      behind t m (q ! k) (q ! Suc k)"
    and own: "q \<noteq> [] \<Longrightarrow> owns s m (hd q) \<Longrightarrow> owns t m (hd q)"
    and inq: "\<And>k. owns t m k \<or> waits t m k \<Longrightarrow> owns s m k \<or> waits s m k"
    and unl: "\<And>k. k \<in> set q \<Longrightarrow> unlocking t m k \<Longrightarrow> sp_next t k \<noteq> None \<Longrightarrow>
      Suc 0 < length q \<and> sp_pc t (q ! 1) = LSpin m \<and> sp_next t k = Some (q ! 1)"
  shows "spin_live m q t"
proof -
  have tl: "sp_tail t m = (if q = [] then None else Some (last q))"
    using liveD(3) [OF live] tail by simp
  show ?thesis
    unfolding spin_live_def
  proof (intro conjI allI impI ballI)
    show "distinct q" by (rule liveD(1) [OF live])
    show "sp_tail t m = (if q = [] then None else Some (last q))" by (rule tl)
    show "behind t m (q ! k) (q ! Suc k)" if "Suc k < length q" for k
      using beh liveD(2) [OF live] that by blast
    show "owns t m (hd q)" if "q \<noteq> []" using own liveD(4) [OF live] that by blast
    show "k \<in> set q" if "owns t m k \<or> waits t m k" for k
      using inq [OF that] liveD(5,6) [OF live] by blast
    show "sp_next t k = None \<or>
        Suc 0 < length q \<and> sp_pc t (q ! 1) = LSpin m \<and> sp_next t k = Some (q ! 1)"
      if "k \<in> set q" "unlocking t m k" for k
      using unl [OF that] by blast
  qed
qed

lemma live_nth:
  "spin_live m q s \<Longrightarrow> k < length q \<Longrightarrow> l < length q \<Longrightarrow> q ! k = q ! l \<longleftrightarrow> k = l"
  by (simp add: spin_live_def nth_eq_iff_index_eq)

lemma live_append:
  assumes fl: "flat s" and live: "spin_live m q s" and pc: "sp_pc s i = Idle" and held: "sp_held s i = {}"
  shows "\<exists>q. spin_live m q (lock_exchange m i s)"
proof -
  have out: "\<not> (owns s m i \<or> waits s m i)" using pc held by (simp add: spin_places)
  then have i: "i \<notin> set q" using live_involved [OF live] by blast
  have keep: "owns (lock_exchange m i s) m k = owns s m k" "waits (lock_exchange m i s) m k = waits s m k"
    "unlocking (lock_exchange m i s) m k = unlocking s m k" if "k \<noteq> i" for k
    using that by (auto simp: lock_exchange_def enter_def spin_places split: option.splits)
  show ?thesis
  proof (cases "q = []")
    case True
    then have tail: "sp_tail s m = None" and none: "\<not> (owns s m k \<or> waits s m k)" for k
      using liveD(3,5,6) [OF live] by auto
    have "spin_live m [i] (lock_exchange m i s)"
      unfolding spin_live_def
    proof (intro conjI allI impI ballI)
      show "k \<in> set [i]" if "owns (lock_exchange m i s) m k \<or> waits (lock_exchange m i s) m k" for k
        using that keep [of k] none [of k] by (cases "k = i") auto
      show "sp_next (lock_exchange m i s) k = None \<or> Suc 0 < length [i] \<and>
          sp_pc (lock_exchange m i s) ([i] ! 1) = LSpin m \<and>
          sp_next (lock_exchange m i s) k = Some ([i] ! 1)"
        if "k \<in> set [i]" "unlocking (lock_exchange m i s) m k" for k
        using that by (simp add: lock_exchange_def tail enter_def unlocking_def)
    qed (simp_all add: lock_exchange_def tail enter_def owns_def)
    then show ?thesis by blast
  next
    case False
    then have t: "lock_exchange m i s = goto i (LSet m (last q)) (set_tail m (Some i) s)"
      using liveD(3) [OF live] by (simp add: lock_exchange_def)
    have "spin_live m (q @ [i]) (lock_exchange m i s)"
      unfolding spin_live_def
    proof (intro conjI allI impI ballI)
      show "distinct (q @ [i])" using liveD(1) [OF live] i by simp
      show "behind (lock_exchange m i s) m ((q @ [i]) ! k) ((q @ [i]) ! Suc k)"
        if "Suc k < length (q @ [i])" for k
      proof (cases "Suc k = length q")
        case True
        then have "q ! k = last q" using False by (metis diff_Suc_1 last_conv_nth)
        with True show ?thesis by (simp add: t behind_def nth_append)
      next
        case neq: False
        with that have k: "Suc k < length q" by simp
        then have "q ! Suc k \<noteq> i" using i nth_mem by metis
        with k liveD(2) [OF live k] show ?thesis by (simp add: t behind_def nth_append)
      qed
      show "sp_tail (lock_exchange m i s) m = (if q @ [i] = [] then None else Some (last (q @ [i])))"
        by (simp add: t)
      have "hd q \<noteq> i" using False i hd_in_set by metis
      then show "owns (lock_exchange m i s) m (hd (q @ [i]))"
        using liveD(4) [OF live] False keep(1) by simp
      show "k \<in> set (q @ [i])"
        if "owns (lock_exchange m i s) m k \<or> waits (lock_exchange m i s) m k" for k
        using that keep [of k] liveD(5,6) [OF live, of k] by (cases "k = i") auto
      show "sp_next (lock_exchange m i s) k = None \<or> Suc 0 < length (q @ [i]) \<and>
          sp_pc (lock_exchange m i s) ((q @ [i]) ! 1) = LSpin m \<and>
          sp_next (lock_exchange m i s) k = Some ((q @ [i]) ! 1)"
        if "k \<in> set (q @ [i])" and u: "unlocking (lock_exchange m i s) m k" for k
      proof (cases "sp_next s k = None")
        case nx: False
        have ki: "k \<noteq> i" using u by (auto simp: t unlocking_def)
        then have "k \<in> set q" "unlocking s m k" using that keep(3) by auto
        from liveD(7) [OF live this nx] have l: "Suc 0 < length q" "sp_pc s (q ! 1) = LSpin m"
          "sp_next s k = Some (q ! 1)" by auto
        then have "q ! 1 \<noteq> i" using i nth_mem by (metis One_nat_def)
        moreover have "q \<noteq> []" using l(1) by auto
        ultimately show ?thesis using l by (simp add: t nth_append)
      qed (simp add: t)
    qed
    then show ?thesis by blast
  qed
qed

lemma live_set:
  assumes fl: "flat s" and live: "spin_live m q s" and pc: "sp_pc s i = LSet m p"
  shows "spin_live m q (lock_set m i p s)"
proof -
  have held: "sp_held s i = {}" using fl pc by (simp add: flat_def)
  have t: "behind s m j k \<Longrightarrow> behind (lock_set m i p s) m j k"
    "owns (lock_set m i p s) m k = owns s m k" "waits (lock_set m i p s) m k = waits s m k"
    "unlocking (lock_set m i p s) m k = unlocking s m k" for j k
    using pc held by (auto simp: lock_set_def spin_places)
  show ?thesis
  proof (rule live_keeps [OF live])
    fix k assume "k \<in> set q" "unlocking (lock_set m i p s) m k" "sp_next (lock_set m i p s) k \<noteq> None"
    then have "Suc 0 < length q \<and> sp_pc s (q ! 1) = LSpin m \<and> sp_next s k = Some (q ! 1)"
      using liveD(7) [OF live] t(4) by (simp add: lock_set_def)
    then show "Suc 0 < length q \<and> sp_pc (lock_set m i p s) (q ! 1) = LSpin m \<and>
        sp_next (lock_set m i p s) k = Some (q ! 1)"
      using pc by (auto simp: lock_set_def)
  qed (use t in \<open>auto simp: lock_set_def\<close>)
qed

lemma live_link:
  assumes fl: "flat s" and live: "spin_live m q s" and pc: "sp_pc s i = LLink m p"
  shows "spin_live m q (lock_link m i p s)"
proof -
  have held: "sp_held s i = {}" using fl pc by (simp add: flat_def)
  have w: "waits s m i" and no: "\<not> owns s m i" using pc held by (auto simp: spin_places)
  from live_waiter [OF live w no] obtain k where
    k: "Suc k < length q" "i = q ! Suc k" "behind s m (q ! k) i" by blast
  with pc have p: "p = q ! k" and lk: "sp_locked s i" by (auto simp: behind_def)
  have t: "behind s m j l \<Longrightarrow> behind (lock_link m i p s) m j l"
    "owns (lock_link m i p s) m l = owns s m l" "waits (lock_link m i p s) m l = waits s m l"
    "unlocking (lock_link m i p s) m l = unlocking s m l" for j l
    using pc held lk by (auto simp: lock_link_def spin_places)
  show ?thesis
  proof (rule live_keeps [OF live])
    fix l assume l: "l \<in> set q" "unlocking (lock_link m i p s) m l" "sp_next (lock_link m i p s) l \<noteq> None"
    then have u: "unlocking s m l" using t(4) by simp
    then have "l = hd q" using live_owner_hd [OF fl live, of l] by (simp add: owns_def)
    moreover have "q \<noteq> []" using l(1) by auto
    ultimately have hd: "l = q ! 0" by (simp add: hd_conv_nth)
    show "Suc 0 < length q \<and> sp_pc (lock_link m i p s) (q ! 1) = LSpin m \<and>
        sp_next (lock_link m i p s) l = Some (q ! 1)"
    proof (cases "p = l")
      case True
      then have "k = 0" using hd p live_nth [OF live, of k 0] k(1) \<open>q \<noteq> []\<close> by simp
      with k True show ?thesis by (simp add: lock_link_def)
    next
      case False
      with l have "sp_next s l \<noteq> None" by (simp add: lock_link_def)
      from liveD(7) [OF live l(1) u this] False show ?thesis by (auto simp: lock_link_def)
    qed
  qed (use t in \<open>auto simp: lock_link_def\<close>)
qed

lemma live_move:
  assumes fl: "flat s" and live: "spin_live m q s" and own: "owns s m i"
    and pc: "p \<in> {UCas m, USpin m, UHand m}" and held: "h = sp_held s i - {m}"
    and nx: "sp_next s i = None \<or> unlocking s m i"
  shows "spin_live m q (goto i p (s\<lparr>sp_held := (sp_held s)(i := h)\<rparr>))"
    (is "spin_live m q ?t")
proof -
  have hd: "q \<noteq> []" "i = hd q" using live_owner_hd [OF fl live own] by auto
  have keep: "owns ?t m k = owns s m k" "unlocking ?t m k \<Longrightarrow> k = i \<or> unlocking s m k"
    "waits ?t m k \<Longrightarrow> waits s m k" for k
    using pc own held by (auto simp: spin_places split: if_splits)
  have beh: "behind ?t m j k" if "behind s m j k" for j k
  proof -
    have "k \<noteq> i" using flat_behind_not_owns [OF fl that] own by blast
    then show ?thesis using that by (simp add: behind_def)
  qed
  show ?thesis
  proof (rule live_keeps [OF live])
    fix k assume k: "k \<in> set q" "unlocking ?t m k" "sp_next ?t k \<noteq> None"
    have "unlocking s m k" using keep(2) [OF k(2)] nx k(3) by auto
    moreover have nk: "sp_next s k \<noteq> None" using k(3) by simp
    ultimately have l: "Suc 0 < length q" "sp_pc s (q ! 1) = LSpin m" "sp_next s k = Some (q ! 1)"
      using liveD(7) [OF live k(1)] by auto
    then have "q ! 1 \<noteq> i" using hd live_nth [OF live, of 1 0] by (auto simp: hd_conv_nth)
    with l show "Suc 0 < length q \<and> sp_pc ?t (q ! 1) = LSpin m \<and> sp_next ?t k = Some (q ! 1)"
      by simp
  qed (use keep beh in auto)
qed

text \<open>The spin loop ends: the thread that was granted the mutex holds it.\<close>

lemma live_return:
  assumes fl: "flat s" and live: "spin_live m q s" and pc: "sp_pc s i = LSpin m"
  shows "spin_live m q (lock_return m i s)"
proof (cases "sp_locked s i")
  case True
  then show ?thesis using live by (simp add: lock_return_def)
next
  case False
  then have own: "owns s m i" using pc by (simp add: owns_def)
  have t: "lock_return m i s = enter m i s" using False by (simp add: lock_return_def)
  have keep: "owns (enter m i s) m k = owns s m k" "unlocking (enter m i s) m k \<Longrightarrow> unlocking s m k"
    "waits (enter m i s) m k \<Longrightarrow> waits s m k" for k
    using pc False by (auto simp: enter_def spin_places split: if_splits)
  have beh: "behind (enter m i s) m j k" if "behind s m j k" for j k
  proof -
    have "k \<noteq> i" using flat_behind_not_owns [OF fl that] own by blast
    then show ?thesis using that by (simp add: behind_def enter_def)
  qed
  have hd: "q \<noteq> []" "i = hd q" using live_owner_hd [OF fl live own] by auto
  show ?thesis
    unfolding t
  proof (rule live_keeps [OF live])
    fix k assume k: "k \<in> set q" "unlocking (enter m i s) m k" "sp_next (enter m i s) k \<noteq> None"
    then have l: "Suc 0 < length q" "sp_pc s (q ! 1) = LSpin m" "sp_next s k = Some (q ! 1)"
      using liveD(7) [OF live k(1) keep(2)] by (auto simp: enter_def)
    then have "q ! 1 \<noteq> i" using hd live_nth [OF live, of 1 0] by (auto simp: hd_conv_nth)
    with l show "Suc 0 < length q \<and> sp_pc (enter m i s) (q ! 1) = LSpin m \<and>
        sp_next (enter m i s) k = Some (q ! 1)"
      by (simp add: enter_def)
  qed (use keep beh in \<open>auto simp: enter_def\<close>)
qed

text \<open>The compare-and-swap of an owner that is still the tail empties the queue.\<close>

lemma live_cas_success:
  assumes fl: "flat s" and live: "spin_live m q s" and pc: "sp_pc s i = UCas m"
    and tl: "sp_tail s m = Some i"
  shows "spin_live m [] (goto i Idle (set_tail m None s))"
proof -
  have own: "owns s m i" and held: "sp_held s i = {}"
    using pc fl by (simp_all add: owns_def unlocking_def flat_def)
  have hd: "q \<noteq> []" "i = hd q" using live_owner_hd [OF fl live own] by auto
  then have "q ! 0 = q ! (length q - 1)" using liveD(3) [OF live] tl by (simp add: hd_conv_nth last_conv_nth)
  then have "length q = 1" using live_nth [OF live, of 0 "length q - 1"] hd(1) by (cases q) auto
  then have q: "q = [i]" using hd by (cases q) auto
  have none: "\<not> (owns s m k \<or> waits s m k)" if "k \<noteq> i" for k
    using that liveD(5,6) [OF live, of k] q by auto
  have "\<not> (owns (goto i Idle (set_tail m None s)) m k \<or> waits (goto i Idle (set_tail m None s)) m k)" for k
    using none [of k] held by (cases "k = i") (auto simp: spin_places)
  then show ?thesis by (simp add: spin_live_def)
qed

text \<open>Handing over: the owner leaves the queue and the thread behind it is granted.\<close>

lemma live_hand:
  assumes fl: "flat s" and live: "spin_live m q s" and pc: "sp_pc s i = UHand m"
    and nx: "sp_next s i = Some j"
  shows "spin_live m (tl q) (unlock_hand m i j s)" and "sp_pc s j = LSpin m"
proof -
  have own: "owns s m i" and held: "sp_held s i = {}" and u: "unlocking s m i"
    using pc fl by (simp_all add: owns_def unlocking_def flat_def)
  have hd: "q \<noteq> []" "i = hd q" using live_owner_hd [OF fl live own] by auto
  then have "i \<in> set q" by simp
  from liveD(7) [OF live this u] nx have j: "Suc 0 < length q" "sp_pc s (q ! 1) = LSpin m" "j = q ! 1"
    by auto
  then show jpc: "sp_pc s j = LSpin m" by simp
  then have jh: "sp_held s j = {}" using fl by (simp add: flat_def)
  have ij: "i \<noteq> j" using pc jpc by auto
  obtain r where q: "q = i # j # r" using j hd by (cases q; cases "tl q") auto
  have d: "i \<notin> set (j # r)" "distinct (j # r)" using liveD(1) [OF live] q by auto
  let ?t = "unlock_hand m i j s"
  have t: "sp_pc ?t k = (if k = i then UClear m else sp_pc s k)" "sp_held ?t k = sp_held s k"
    "sp_locked ?t k = (k \<noteq> j \<and> sp_locked s k)" for k
    by (simp_all add: unlock_hand_def)
  have oth: "\<not> owns s m k" if "k \<noteq> i" for k using that live_owner_hd [OF fl live, of k] hd by blast
  have nu: "\<not> unlocking ?t m k" for k
    using oth [of k] by (cases "k = i") (auto simp: owns_def unlocking_def t)
  have w: "waits ?t m k = waits s m k" for k
    using pc by (cases "k = i") (auto simp: waits_def t)
  have o: "owns ?t m k = (k = j)" for k
    using oth [of k] nu [of k] held jpc ij by (cases "k = i"; cases "k = j") (auto simp: owns_def t)
  have beh: "behind ?t m ((j # r) ! k) ((j # r) ! Suc k)" if k: "Suc k < length (j # r)" for k
  proof -
    have "behind s m (q ! Suc k) (q ! Suc (Suc k))" using liveD(2) [OF live, of "Suc k"] k q by simp
    moreover have "(j # r) ! Suc k \<noteq> j" using d(2) k by auto
    moreover have "(j # r) ! Suc k \<noteq> i" using d(1) k nth_mem by metis
    ultimately show ?thesis using q by (auto simp: behind_def unlock_hand_def)
  qed
  have inq: "k \<in> set (j # r)" if "owns ?t m k \<or> waits ?t m k" for k
    using that o w liveD(6) [OF live, of k] q pc by (auto simp: waits_def)
  have "spin_live m (j # r) ?t"
    unfolding spin_live_def
  proof (intro conjI allI impI ballI)
    show "distinct (j # r)" by (rule d(2))
    show "sp_tail ?t m = (if j # r = [] then None else Some (last (j # r)))"
      using liveD(3) [OF live] q by (simp add: unlock_hand_def)
    show "owns ?t m (hd (j # r))" using o by simp
  qed (use beh inq nu in blast)+
  then show "spin_live m (tl q) ?t" using q by simp
qed

text \<open>A thread that has handed the mutex over is no longer at it.\<close>

lemma live_clear:
  assumes fl: "flat s" and live: "spin_live m q s" and pc: "sp_pc s i = UClear m"
  shows "spin_live m q (unlock_clear i s)"
proof -
  have held: "sp_held s i = {}" using fl pc by (simp add: flat_def)
  then have "\<not> (owns s m i \<or> waits s m i)" using pc by (simp add: spin_places)
  then have i: "i \<notin> set q" using live_involved [OF live] by blast
  have keep: "behind s m j k \<Longrightarrow> behind (unlock_clear i s) m j k"
    "owns (unlock_clear i s) m k = owns s m k" "waits (unlock_clear i s) m k = waits s m k"
    "unlocking (unlock_clear i s) m k = unlocking s m k" for j k
    using pc held by (auto simp: unlock_clear_def spin_places)
  show ?thesis
  proof (rule live_keeps [OF live])
    fix k assume k: "k \<in> set q" "unlocking (unlock_clear i s) m k" "sp_next (unlock_clear i s) k \<noteq> None"
    then have "Suc 0 < length q \<and> sp_pc s (q ! 1) = LSpin m \<and> sp_next s k = Some (q ! 1)"
      using liveD(7) [OF live k(1)] keep(4) by (auto simp: unlock_clear_def split: if_splits)
    then show "Suc 0 < length q \<and> sp_pc (unlock_clear i s) (q ! 1) = LSpin m \<and>
        sp_next (unlock_clear i s) k = Some (q ! 1)"
      using pc k(1) i by (auto simp: unlock_clear_def)
  qed (use keep in \<open>auto simp: unlock_clear_def\<close>)
qed

text \<open>The first test of unlock: with a successor linked already, the mutex is abandoned.\<close>

lemma unlock_forgets:
  assumes fl: "flat s" and live: "spin_live m q s" and held: "m \<in> sp_held s i"
    and nx: "sp_next s i \<noteq> None"
  shows "spin_dead m (unlock_test m i s)"
proof -
  have idle: "sp_pc s i = Idle" using fl held unfolding flat_def by fastforce
  have own: "owns s m i" using held by (simp add: owns_def)
  have hd: "q \<noteq> []" "i = hd q" using live_owner_hd [OF fl live own] by auto
  have t: "unlock_test m i s = s\<lparr>sp_held := (sp_held s)(i := sp_held s i - {m})\<rparr>"
    using nx by (auto simp: unlock_test_def)
  have none: "\<not> owns (unlock_test m i s) m k" for k
  proof (cases "k = i")
    case True
    then show ?thesis using idle by (simp add: t spin_places)
  next
    case False
    then have "\<not> owns s m k" using live_owner_hd [OF fl live, of k] hd by blast
    then show ?thesis using False by (simp add: t spin_places)
  qed
  have bad: "waits (unlock_test m i s) m k \<or> marred (unlock_test m i s) k" if k: "k \<in> set q" for k
  proof (cases "k = i")
    case True
    then show ?thesis using nx idle by (simp add: t marred_def unlocking_def)
  next
    case False
    then have "waits s m k" using live_involved [OF live k] live_owner_hd [OF fl live, of k] hd by auto
    then show ?thesis by (simp add: t waits_def)
  qed
  have pos: "p \<in> set q \<and> (sp_pc s k = LLink m p \<longrightarrow> sp_locked s k)"
    if k: "sp_pc s k = LSet m p \<or> sp_pc s k = LLink m p" for k p
  proof -
    have "waits s m k" "\<not> owns s m k" using k fl by (auto simp: spin_places flat_def)
    from live_waiter [OF live this] obtain n where "Suc n < length q" "behind s m (q ! n) k" by blast
    with k show ?thesis by (auto simp: behind_def)
  qed
  show ?thesis
    unfolding spin_dead_def
  proof (intro conjI allI impI)
    show "\<exists>p. sp_tail (unlock_test m i s) m = Some p \<and>
        (waits (unlock_test m i s) m p \<or> marred (unlock_test m i s) p)"
      using liveD(3) [OF live] hd(1) bad [of "last q"] by (simp add: t)
    show "\<not> owns (unlock_test m i s) m k" for k by (rule none)
    show "sp_locked (unlock_test m i s) k" if "sp_pc (unlock_test m i s) k = LLink m p" for k p
      using that pos [of k p] by (simp add: t)
    show "waits (unlock_test m i s) m p \<or> marred (unlock_test m i s) p"
      if "sp_pc (unlock_test m i s) k = LSet m p \<or> sp_pc (unlock_test m i s) k = LLink m p" for k p
      using that pos [of k p] by (intro bad) (auto simp: t)
  qed
qed

subsection \<open>Every flat step keeps every mutex in order\<close>

lemma flat_step: "spin_step False s t \<Longrightarrow> flat s \<Longrightarrow> flat t"
  by (erule spin_step_cases)
     (auto simp: flat_def spin_ops split: option.splits if_splits)

lemma exchange_keeps:
  assumes "flat s" and "spin_ok m s" and "sp_pc s i = Idle" and "sp_held s i = {}"
  shows "local_to i m s (lock_exchange m i s)" and "spin_ok m (lock_exchange m i s)"
proof -
  show "local_to i m s (lock_exchange m i s)" using assms(3,4)
    by (auto simp: local_to_def lock_exchange_def enter_def spin_places split: option.splits)
  show "spin_ok m (lock_exchange m i s)"
    using assms(2) live_append [OF assms(1) _ assms(3,4)] dead_exchange [OF _ assms(3,4)]
    unfolding spin_ok_def by blast
qed

lemma spin_step_keeps:
  assumes step: "spin_step False s t" and inv: "spin_inv s"
  shows "spin_inv t \<and> (\<forall>n. spin_dead n s \<longrightarrow> spin_dead n t)"
proof -
  have fl: "flat s" and ok: "\<And>m. spin_ok m s" using inv by (auto simp: spin_inv_def)
  have flt: "flat t" by (rule flat_step [OF step fl])
  have held: "sp_held s i = {}" if "sp_pc s i \<noteq> Idle" for i using fl that by (simp add: flat_def)
  note frame = frame_inv [OF step inv flt]
  have alive: "\<exists>q. spin_live m q s" if "owns s m i" for m i
    using ok [of m] that by (auto simp: spin_ok_def spin_dead_def)
  have dead: "spin_dead m t" if "spin_dead m s" "owns s m i" for m i
    using that by (simp add: spin_dead_def)
  show ?thesis
    using step
  proof cases
    case (s_exchange i m)
    then have "sp_held s i = {}" by simp
    note ex = exchange_keeps [OF fl ok s_exchange(2) this, of m] dead_exchange [OF _ s_exchange(2) this]
    show ?thesis by (rule frame) (use ex s_exchange(1) in auto)
  next
    case (s_set i m p)
    have "local_to i m s t" using s_set held [of i] by (auto simp: local_to_def lock_set_def spin_places)
    moreover have "spin_ok m t"
      using ok [of m] live_set [OF fl _ s_set(2)] dead_set [OF _ s_set(2)]
      unfolding s_set(1) spin_ok_def by blast
    ultimately show ?thesis by (rule frame) (use s_set dead_set in blast)
  next
    case (s_link i m p)
    have "local_to i m s t" using s_link held [of i] by (auto simp: local_to_def lock_link_def spin_places)
    moreover have "spin_ok m t"
      using ok [of m] live_link [OF fl _ s_link(2)] dead_link [OF _ s_link(2)]
      unfolding s_link(1) spin_ok_def by blast
    ultimately show ?thesis by (rule frame) (use s_link dead_link in blast)
  next
    case (s_return i m)
    have "local_to i m s t" using s_return held [of i]
      by (auto simp: local_to_def lock_return_def enter_def spin_places)
    moreover have dd: "spin_dead m s \<Longrightarrow> t = s"
      using s_return deadD(3) by (auto simp: lock_return_def)
    then have "spin_ok m t" using ok [of m] s_return live_return [OF fl]
      by (auto simp: spin_ok_def)
    ultimately show ?thesis by (rule frame) (use dd in simp)
  next
    case (s_try i m)
    then have h: "sp_held s i = {}" by simp
    note ex = exchange_keeps [OF fl ok s_try(2) h, of m] dead_exchange [OF _ s_try(2) h]
    have "t = s \<or> t = lock_exchange m i s"
      using s_try(1) by (cases "sp_tail s m") (auto simp: try_lock_def lock_exchange_def)
    then show ?thesis
    proof
      assume "t = lock_exchange m i s"
      then show ?thesis using frame ex by metis
    qed (use inv in simp)
  next
    case (s_unlock i m)
    have "m' \<notin> sp_held s i" if "m' \<noteq> m" for m' using fl s_unlock(3) that unfolding flat_def by fastforce
    then have "local_to i m s t" using s_unlock
      by (auto simp: local_to_def unlock_test_def Let_def spin_places)
    moreover have ow: "owns s m i" using s_unlock by (simp add: owns_def)
    then obtain q where live: "spin_live m q s" using alive by blast
    have "spin_ok m t"
    proof (cases "sp_next s i = None")
      case True
      with live_move [OF fl live ow, of "UCas m"] s_unlock(1) show ?thesis
        by (auto simp: spin_ok_def unlock_test_def Let_def)
    next
      case False
      with unlock_forgets [OF fl live s_unlock(3)] s_unlock(1) show ?thesis by (simp add: spin_ok_def)
    qed
    ultimately show ?thesis by (rule frame) (erule dead [OF _ ow])
  next
    case (s_cas i m)
    have "local_to i m s t" using s_cas held [of i] by (auto simp: local_to_def unlock_cas_def spin_places)
    moreover have ow: "owns s m i" and un: "unlocking s m i" using s_cas by (simp_all add: owns_def unlocking_def)
    then obtain q where live: "spin_live m q s" using alive by blast
    have "spin_ok m t"
      using live_move [OF fl live ow, of "USpin m"] live_cas_success [OF fl live] un s_cas held [of i]
      by (auto simp: spin_ok_def unlock_cas_def fun_upd_idem)
    ultimately show ?thesis by (rule frame) (erule dead [OF _ ow])
  next
    case (s_next i m)
    have "local_to i m s t" using s_next held [of i]
      by (auto simp: local_to_def unlock_spin_def spin_places)
    moreover have ow: "owns s m i" and un: "unlocking s m i" using s_next by (simp_all add: owns_def unlocking_def)
    then obtain q where live: "spin_live m q s" using alive by blast
    have "spin_ok m t"
      using live live_move [OF fl live ow, of "UHand m"] un s_next held [of i]
      by (auto simp: spin_ok_def unlock_spin_def fun_upd_idem)
    ultimately show ?thesis by (rule frame) (erule dead [OF _ ow])
  next
    case (s_hand i m j)
    have ow: "owns s m i" using s_hand by (simp add: owns_def unlocking_def)
    then obtain q where live: "spin_live m q s" using alive by blast
    note hand = live_hand [OF fl live s_hand(2,3)]
    have "local_to i m s t" using s_hand held [of i] hand(2)
      by (auto simp: local_to_def unlock_hand_def spin_places)
    moreover have "spin_ok m t" using hand(1) s_hand(1) by (auto simp: spin_ok_def)
    ultimately show ?thesis by (rule frame) (erule dead [OF _ ow])
  next
    case (s_clear i m)
    have "local_to i m s t" using s_clear held [of i]
      by (auto simp: local_to_def unlock_clear_def spin_places)
    moreover have "spin_ok m t"
      using ok [of m] live_clear [OF fl _ s_clear(2)] dead_clear [OF _ s_clear(2)]
      unfolding s_clear(1) spin_ok_def by blast
    ultimately show ?thesis by (rule frame) (use s_clear dead_clear in blast)
  qed
qed

lemma spin_steps_keep:
  "spin_steps False s t \<Longrightarrow> spin_inv s \<Longrightarrow>
     spin_inv t \<and> (\<forall>n. spin_dead n s \<longrightarrow> spin_dead n t)"
  by (induction rule: spin_steps.induct) (use spin_step_keeps in blast)+

lemma spin_inv_init: "spin_inv spin_init"
proof -
  have "spin_live m [] spin_init" for m
    by (simp add: spin_live_def spin_init_def spin_places)
  then show ?thesis unfolding spin_inv_def spin_ok_def
    by (auto simp: flat_def spin_init_def)
qed

lemma spin_inv_reachable: "spin_reachable False s \<Longrightarrow> spin_inv s"
  unfolding spin_reachable_def using spin_steps_keep spin_inv_init by blast

lemma spin_inv_owner_unique: "spin_inv s \<Longrightarrow> owns s m i \<Longrightarrow> owns s m j \<Longrightarrow> i = j"
  unfolding spin_inv_def spin_ok_def spin_dead_def using live_owner_hd by metis

section \<open>Properties\<close>


text \<open>An unlock that finds its successor already linked never hands the lock over. In flat
  runs, from any reachable state in which the \<open>_next\<close> of a thread that holds the mutex is set,
  after its \<open>unlock\<close> returns no thread ever holds the mutex again, in any continuation:
  \<open>try_lock\<close> fails and every \<open>lock\<close> spins for ever. (The hand-over code is inside the branch for
  a null \<open>_next\<close>.)\<close>

theorem spin_unlock_deadlocks:
  assumes "spin_reachable False s" and "m \<in> sp_held s i" and "sp_next s i \<noteq> None"
    and "spin_steps False (unlock_test m i s) t"
  shows "m \<notin> sp_held t j \<and> fst (try_lock m j t) = False"
proof -
  note inv = spin_inv_reachable [OF assms(1)]
  then have fl: "flat s" and "spin_ok m s" by (simp_all add: spin_inv_def)
  then obtain q where "spin_live m q s"
    using assms(2) by (auto simp: spin_ok_def spin_dead_def owns_def)
  from unlock_forgets [OF fl this assms(2,3)] have dead: "spin_dead m (unlock_test m i s)" .
  have "sp_pc s i = Idle" using fl assms(2) unfolding flat_def by fastforce
  then have "spin_inv (unlock_test m i s)"
    using spin_step_keeps [OF s_unlock inv] assms(2) by blast
  from spin_steps_keep [OF assms(4) this] dead have "spin_dead m t" by blast
  then show ?thesis by (auto simp: spin_dead_def owns_def try_lock_def)
qed

text \<open>The hand-over is right when the successor links late. In flat runs, if the owner saw a
  null \<open>_next\<close>, lost the compare-and-swap and then sees the link, its last two accesses take it
  out of the lock with its node clean, and the successor alone can return from \<open>lock\<close> next.\<close>

theorem spin_handover:
  assumes "spin_reachable False s" and "sp_pc s i = UHand m" and "sp_next s i = Some j"
  shows "m \<in> sp_held (lock_return m j (unlock_hand m i j s)) j
    \<and> sp_pc (unlock_hand m i j s) j = LSpin m
    \<and> sp_next (unlock_clear i (unlock_hand m i j s)) i = None
    \<and> (\<forall>k. owns (unlock_hand m i j s) m k \<longleftrightarrow> k = j)"
proof -
  note inv = spin_inv_reachable [OF assms(1)]
  then have fl: "flat s" and "spin_ok m s" by (simp_all add: spin_inv_def)
  then obtain q where live: "spin_live m q s"
    using assms(2) by (auto simp: spin_ok_def spin_dead_def owns_def unlocking_def)
  note jpc = live_hand(2) [OF fl live assms(2,3)]
  have ij: "i \<noteq> j" using jpc assms(2) by auto
  then have pc: "sp_pc (unlock_hand m i j s) j = LSpin m" "\<not> sp_locked (unlock_hand m i j s) j"
    using jpc by (auto simp: unlock_hand_def)
  have "spin_inv (unlock_hand m i j s)" using spin_step_keeps [OF s_hand inv] assms(2,3) by blast
  moreover have "owns (unlock_hand m i j s) m j" using pc by (simp add: owns_def)
  ultimately have "owns (unlock_hand m i j s) m k \<longleftrightarrow> k = j" for k
    using spin_inv_owner_unique by blast
  then show ?thesis using pc by (simp add: lock_return_def enter_def unlock_clear_def)
qed

section \<open>Concrete runs\<close>

text \<open>A move names the thread and, when it is not inside a member function, the call it makes.\<close>

datatype spin_move = Lock nat nat | Try nat nat | Unlock nat nat | Go nat

fun spin_do :: "bool \<Rightarrow> spin_move \<Rightarrow> spin_state \<Rightarrow> spin_state option" where
  "spin_do nested (Lock m i) s =
     (if sp_pc s i = Idle \<and> (nested \<or> sp_held s i = {}) then Some (lock_exchange m i s) else None)"
| "spin_do nested (Try m i) s =
     (if sp_pc s i = Idle \<and> (nested \<or> sp_held s i = {}) then Some (snd (try_lock m i s)) else None)"
| "spin_do nested (Unlock m i) s =
     (if sp_pc s i = Idle \<and> m \<in> sp_held s i then Some (unlock_test m i s) else None)"
| "spin_do nested (Go i) s =
     (case sp_pc s i of
        Idle \<Rightarrow> None
      | LSet m p \<Rightarrow> Some (lock_set m i p s)
      | LLink m p \<Rightarrow> Some (lock_link m i p s)
      | LSpin m \<Rightarrow> Some (lock_return m i s)
      | UCas m \<Rightarrow> Some (unlock_cas m i s)
      | USpin m \<Rightarrow> Some (unlock_spin m i s)
      | UHand m \<Rightarrow> map_option (\<lambda>j. unlock_hand m i j s) (sp_next s i)
      | UClear m \<Rightarrow> Some (unlock_clear i s))"

fun spin_run :: "bool \<Rightarrow> spin_move list \<Rightarrow> spin_state \<Rightarrow> spin_state option" where
  "spin_run nested [] s = Some s"
| "spin_run nested (a # as) s =
     (case spin_do nested a s of None \<Rightarrow> None | Some t \<Rightarrow> spin_run nested as t)"

lemma spin_do_step: "spin_do nested a s = Some t \<Longrightarrow> spin_step nested s t"
  by (cases a) (auto intro: spin_step.intros split: spin_pc.splits if_splits)

lemma spin_run_reachable:
  "spin_run nested as s = Some t \<Longrightarrow> spin_reachable nested s \<Longrightarrow> spin_reachable nested t"
  by (induction as arbitrary: s)
     (auto simp: spin_reachable_def split: option.splits intro: spin_trans [OF _ spin_do_step])

lemma spin_reachable_init: "spin_reachable nested spin_init"
  by (simp add: spin_reachable_def spin_refl)

text \<open>Thread 0 holds mutex 7 and thread 1 queues behind it, up to its spin loop.\<close>

definition spin_contended :: spin_state where
  "spin_contended = the (spin_run False [Lock 7 0, Lock 7 1, Go 1, Go 1] spin_init)"

lemma spin_contended_run:
  "spin_run False [Lock 7 0, Lock 7 1, Go 1, Go 1] spin_init = Some spin_contended"
  by (simp add: spin_contended_def spin_ops spin_init_def)

lemma spin_contended_reachable: "spin_reachable False spin_contended"
  by (rule spin_run_reachable [OF spin_contended_run spin_reachable_init])


theorem spin_unlock_deadlocks_witness:
  "sp_pc (unlock_test 7 0 spin_contended) 1 = LSpin 7 \<and>
   fst (try_lock 7 2 (unlock_test 7 0 spin_contended)) = False"
proof -
  have "7 \<in> sp_held spin_contended 0" and "sp_next spin_contended 0 \<noteq> None"
    by (simp_all add: spin_contended_def spin_ops spin_init_def)
  from spin_unlock_deadlocks [OF spin_contended_reachable this spin_refl, of 2]
  show ?thesis by (simp add: spin_contended_def spin_ops spin_init_def)
qed

text \<open>Thread 0 tests a null \<open>_next\<close>, thread 1 queues, thread 0 loses its swap and sees the link.\<close>

definition spin_late_link :: spin_state where
  "spin_late_link =
     the (spin_run False [Lock 7 0, Unlock 7 0, Lock 7 1, Go 0, Go 1, Go 1, Go 0] spin_init)"

lemma spin_late_link_run:
  "spin_run False [Lock 7 0, Unlock 7 0, Lock 7 1, Go 0, Go 1, Go 1, Go 0] spin_init =
     Some spin_late_link"
  by (simp add: spin_late_link_def spin_ops spin_init_def)

theorem spin_handover_witness:
  "\<forall>k. owns (unlock_hand 7 0 1 spin_late_link) 7 k \<longleftrightarrow> k = 1"
proof -
  have "sp_pc spin_late_link 0 = UHand 7" and "sp_next spin_late_link 0 = Some 1"
    by (simp_all add: spin_late_link_def spin_ops spin_init_def)
  from spin_handover [OF spin_run_reachable [OF spin_late_link_run spin_reachable_init] this]
  show ?thesis by blast
qed

text \<open>The node is shared by all mutexes, so nested locks break exclusion. Thread 1
  holds mutexes 0 and 1; thread 2 has exchanged the tail of mutex 0 and thread 3 the tail of
  mutex 1, neither linked yet. The \<open>unlock\<close> of mutex 1 loses its compare-and-swap to thread 3
  and waits for \<open>_next\<close>, but thread 2 links first: the hand-over of mutex 1 lets thread 2 return
  from its \<open>lock\<close> of mutex 0 while thread 1 still holds it.\<close>

theorem spin_nested_breaks_exclusion:
  "\<exists>s. spin_reachable True s \<and> 0 \<in> sp_held s 1 \<and> 0 \<in> sp_held s 2"
proof -
  let ?run = "[Lock 0 1, Lock 1 1, Lock 0 2, Lock 1 3, Unlock 1 1, Go 1, Go 2, Go 2, Go 1, Go 1, Go 2]"
  obtain s where s: "spin_run True ?run spin_init = Some s" "0 \<in> sp_held s 1" "0 \<in> sp_held s 2"
    by (simp add: spin_ops spin_init_def)
  with spin_run_reachable [OF s(1) spin_reachable_init] show ?thesis by blast
qed

end
