(* ===== verification/AppendArray.thy ===== *)
theory AppendArray
  imports Prelude
begin

text \<open>
  Model of \<open>ustevent::detail::AppendOnlyArray\<close> (\<open>core/detail/AppendOnlyArray.hpp\<close>): a
  growing array of 32 buckets of doubling size, filled by concurrent \<open>emplace\<close> calls.

  First the index arithmetic (the two tables of the source as literal lists, the logarithm by
  count-leading-zeros), then the object with \<open>at\<close> and \<open>emplace\<close>, then \<open>emplace\<close> as a step
  relation in which every atomic access is a step of its own. The element type has a default
  value (\<open>new T[n]\<close> default-constructs); \<open>size_t\<close> is a natural number, since the tables end the
  array at 2^32 - 1 elements.
\<close>

section \<open>Index arithmetic\<close>

definition BUCKETS :: nat where
  "BUCKETS = 32"

definition bucket_length_data :: "nat list" where
  "bucket_length_data =
    [0x1, 0x2, 0x4, 0x8, 0x10, 0x20, 0x40, 0x80, 0x100, 0x200, 0x400, 0x800,
     0x1000, 0x2000, 0x4000, 0x8000, 0x10000, 0x20000, 0x40000, 0x80000,
     0x100000, 0x200000, 0x400000, 0x800000, 0x1000000, 0x2000000, 0x4000000, 0x8000000,
     0x10000000, 0x20000000, 0x40000000, 0x80000000]"

definition bucket_length_sum_data :: "nat list" where
  "bucket_length_sum_data =
    [0x1, 0x3, 0x7, 0xF, 0x1F, 0x3F, 0x7F, 0xFF, 0x1FF, 0x3FF, 0x7FF, 0xFFF,
     0x1FFF, 0x3FFF, 0x7FFF, 0xFFFF, 0x1FFFF, 0x3FFFF, 0x7FFFF, 0xFFFFF,
     0x1FFFFF, 0x3FFFFF, 0x7FFFFF, 0xFFFFFF, 0x1FFFFFF, 0x3FFFFFF, 0x7FFFFFF, 0xFFFFFFF,
     0x1FFFFFFF, 0x3FFFFFFF, 0x7FFFFFFF, 0xFFFFFFFF]"

text \<open>\<open>__builtin_clzll\<close>: the leading zero bits of a nonzero 64-bit value.\<close>

fun bit_length :: "nat \<Rightarrow> nat" where
  "bit_length n = (if n = 0 then 0 else Suc (bit_length (n div 2)))"

declare bit_length.simps [simp del]

definition clzll :: "nat \<Rightarrow> nat" where
  "clzll x = 64 - bit_length x"

definition log2 :: "nat \<Rightarrow> nat" where
  "log2 x = 8 * 8 - clzll x - 1"

definition array_index :: "nat \<Rightarrow> nat" where
  "array_index i = log2 (i + 1)"

text \<open>The bucket of an index and the position in it, as \<open>at\<close> and \<open>emplace\<close> compute them.\<close>

definition locate :: "nat \<Rightarrow> nat \<times> nat" where
  "locate i = (let ai = array_index i
               in (ai, if 0 < ai then i - bucket_length_sum_data ! (ai - 1) else i))"

lemma length_tables [simp]:
  "length bucket_length_data = 32" "length bucket_length_sum_data = 32"
  by (simp_all add: bucket_length_data_def bucket_length_sum_data_def)

lemma table_eqs:
  "bucket_length_data = map (\<lambda>k. 2 ^ k) [0..<32]"
  "bucket_length_sum_data = map (\<lambda>k. 2 ^ (k + 1) - 1) [0..<32]"
  by (simp_all add: bucket_length_data_def bucket_length_sum_data_def upt_rec)

lemma bucket_length_nth: "k < 32 \<Longrightarrow> bucket_length_data ! k = 2 ^ k"
  and bucket_sum_nth: "k < 32 \<Longrightarrow> bucket_length_sum_data ! k = 2 ^ (k + 1) - 1"
  by (simp_all add: table_eqs)

lemma power2_less_cancel: "(2::nat) ^ a < 2 ^ b \<Longrightarrow> a < b"
  by simp

lemma halve_power_bounds: "2 ^ e \<le> n div 2 \<Longrightarrow> n div 2 < 2 ^ Suc e \<Longrightarrow>
    2 ^ Suc e \<le> n \<and> n < 2 ^ Suc (Suc e)" for n :: nat
  by (auto simp: less_mult_imp_div_less)

lemma bit_length_bounds: "0 < n \<Longrightarrow> 2 ^ (bit_length n - 1) \<le> n \<and> n < 2 ^ bit_length n \<and> 0 < bit_length n"
proof (induction n rule: bit_length.induct)
  case (1 n)
  show ?case
  proof (cases "n = 1")
    case True
    then show ?thesis by (simp add: bit_length.simps)
  next
    case False
    with 1 have ih: "2 ^ (bit_length (n div 2) - 1) \<le> n div 2" "n div 2 < 2 ^ bit_length (n div 2)"
      "0 < bit_length (n div 2)" by auto
    have "bit_length n = Suc (bit_length (n div 2))"
      using 1(2) by (subst bit_length.simps) simp
    moreover obtain e where e: "bit_length (n div 2) = Suc e" using ih(3) by (cases "bit_length (n div 2)") auto
    moreover have "2 ^ Suc e \<le> n \<and> n < 2 ^ Suc (Suc e)"
      using ih e by (intro halve_power_bounds) simp_all
    ultimately show ?thesis by simp
  qed
qed

lemma bit_length_unique:
  assumes "2 ^ k \<le> n" and "n < 2 ^ Suc k"
  shows "bit_length n = Suc k"
proof -
  have pos: "0 < n" using assms(1) by (metis le_zero_eq neq0_conv power_not_zero zero_neq_numeral)
  note b = bit_length_bounds [OF pos]
  have "2 ^ (bit_length n - 1) < (2::nat) ^ Suc k" "2 ^ k < (2::nat) ^ bit_length n"
    using b assms by (blast intro: le_less_trans)+
  then have "bit_length n - 1 < Suc k" "k < bit_length n"
    by (blast dest: power2_less_cancel)+
  then show ?thesis by simp
qed

lemma log2_bounds:
  assumes "0 < x" and "x < 2 ^ 64"
  shows "2 ^ log2 x \<le> x" and "x < 2 ^ Suc (log2 x)"
proof -
  note b = bit_length_bounds [OF assms(1)]
  have "2 ^ (bit_length x - 1) < (2::nat) ^ 64" using b assms(2) by simp
  then have "bit_length x - 1 < 64" by (rule power2_less_cancel)
  then have "bit_length x \<le> 64" by simp
  then have "log2 x = bit_length x - 1" by (simp add: log2_def clzll_def)
  with b show "2 ^ log2 x \<le> x" and "x < 2 ^ Suc (log2 x)" by simp_all
qed

lemma locate_bounds:
  assumes "i < 2 ^ 32 - 1" and "locate i = (ai, off)"
  shows "ai < 32" and "off < bucket_length_data ! ai" and "i + 1 = 2 ^ ai + off"
proof -
  have ai: "ai = log2 (i + 1)" using assms(2) by (auto simp: locate_def array_index_def Let_def)
  have l: "2 ^ ai \<le> i + 1" "i + 1 < 2 ^ Suc ai"
    using log2_bounds [of "i + 1"] assms(1) unfolding ai by simp_all
  have "2 ^ ai < (2::nat) ^ 32" using l(1) assms(1) by simp
  then show lt: "ai < 32" by (rule power2_less_cancel)
  show eq: "i + 1 = 2 ^ ai + off"
  proof (cases ai)
    case 0
    with assms(2) l show ?thesis by (auto simp: locate_def Let_def)
  next
    case (Suc k)
    with assms(2) have "off = i - bucket_length_sum_data ! k" by (auto simp: locate_def Let_def)
    with Suc lt l show ?thesis by (simp add: bucket_sum_nth)
  qed
  from eq l(2) show "off < bucket_length_data ! ai" using lt by (simp add: bucket_length_nth)
qed

lemma locate_inj:
  assumes "i < 2 ^ 32 - 1" and "j < 2 ^ 32 - 1" and "locate i = locate j"
  shows "i = j"
  using locate_bounds(3) [OF assms(1), of "fst (locate i)" "snd (locate i)"]
    locate_bounds(3) [OF assms(2), of "fst (locate i)" "snd (locate i)"] assms(3)
  by (metis add_right_cancel prod.collapse)

section \<open>The object\<close>

datatype aoa_error = OutOfRange nat nat | BadBucket

record 'a aoa =
  aoa_index :: nat
  aoa_size :: nat
  aoa_buckets :: "'a list option list"

definition aoa_new :: "'a aoa" where
  "aoa_new = \<lparr>aoa_index = 0, aoa_size = 0, aoa_buckets = replicate BUCKETS None\<rparr>"

definition aoa_slot :: "'a aoa \<Rightarrow> nat \<Rightarrow> aoa_error + 'a" where
  "aoa_slot a i =
     (case locate i of (ai, off) \<Rightarrow>
        if ai < length (aoa_buckets a) then
          (case aoa_buckets a ! ai of
             None \<Rightarrow> Inl BadBucket
           | Some b \<Rightarrow> if off < length b then Inr (b ! off) else Inl BadBucket)
        else Inl BadBucket)"

definition aoa_at :: "'a aoa \<Rightarrow> nat \<Rightarrow> aoa_error + 'a" where
  "aoa_at a i = (if aoa_size a \<le> i then Inl (OutOfRange i (aoa_size a)) else aoa_slot a i)"

text \<open>The atomic accesses of \<open>emplace\<close>: claiming an index, publishing a bucket (the new one is
  dropped when another caller installed one first), writing the element, and raising the size
  once all earlier indices are published.\<close>

definition aoa_claim :: "'a aoa \<Rightarrow> nat \<times> 'a aoa" where
  "aoa_claim a = (aoa_index a, a\<lparr>aoa_index := aoa_index a + 1\<rparr>)"

definition aoa_install :: "'a \<Rightarrow> nat \<Rightarrow> 'a aoa \<Rightarrow> 'a aoa" where
  "aoa_install dflt ai a =
     (case aoa_buckets a ! ai of
        None \<Rightarrow> a\<lparr>aoa_buckets := (aoa_buckets a)[ai := Some (replicate (bucket_length_data ! ai) dflt)]\<rparr>
      | Some b \<Rightarrow> a)"

definition aoa_write :: "'a \<Rightarrow> nat \<Rightarrow> 'a aoa \<Rightarrow> 'a aoa" where
  "aoa_write x i a =
     (case locate i of (ai, off) \<Rightarrow>
        a\<lparr>aoa_buckets := (aoa_buckets a)[ai := map_option (\<lambda>b. b[off := x]) (aoa_buckets a ! ai)]\<rparr>)"

definition aoa_publish :: "nat \<Rightarrow> 'a aoa \<Rightarrow> 'a aoa option" where
  "aoa_publish i a = (if i = aoa_size a then Some (a\<lparr>aoa_size := i + 1\<rparr>) else None)"

text \<open>\<open>emplace\<close> run by one caller. \<open>Inl BadBucket\<close> stands for the access past the bucket table.\<close>

definition aoa_emplace :: "'a \<Rightarrow> 'a \<Rightarrow> 'a aoa \<Rightarrow> aoa_error + (nat \<times> 'a aoa)" where
  "aoa_emplace dflt x a =
     (case aoa_claim a of (i, a1) \<Rightarrow>
        if array_index i < BUCKETS then
          (case aoa_publish i (aoa_write x i (aoa_install dflt (array_index i) a1)) of
             None \<Rightarrow> Inl BadBucket
           | Some a2 \<Rightarrow> Inr (i, a2))
        else Inl BadBucket)"

lemmas aoa_ops = aoa_claim_def aoa_install_def aoa_write_def aoa_publish_def

section \<open>Concurrent callers\<close>

datatype 'a aoa_pc = ALoad nat 'a | ACas nat 'a | AWrite nat 'a | APublish nat 'a

fun pc_index :: "'a aoa_pc \<Rightarrow> nat" where
  "pc_index (ALoad i x) = i"
| "pc_index (ACas i x) = i"
| "pc_index (AWrite i x) = i"
| "pc_index (APublish i x) = i"

text \<open>The system: the object, the callers inside \<open>emplace\<close>, and the history of the values in the
  order their indices were claimed.\<close>

record 'a aoa_system =
  aoa :: "'a aoa"
  inflight :: "'a aoa_pc list"
  pushed :: "'a list"

definition aoa_start :: "'a aoa_system" where
  "aoa_start = \<lparr>aoa = aoa_new, inflight = [], pushed = []\<rparr>"

inductive aoa_step :: "'a \<Rightarrow> 'a aoa_system \<Rightarrow> 'a aoa_system \<Rightarrow> bool" for dflt where
  a_claim: "aoa_claim (aoa \<sigma>) = (i, a) \<Longrightarrow> array_index i < BUCKETS \<Longrightarrow>
     aoa_step dflt \<sigma> (\<sigma>\<lparr>aoa := a, inflight := inflight \<sigma> @ [ALoad i x], pushed := pushed \<sigma> @ [x]\<rparr>)"
| a_load: "inflight \<sigma> = P @ ALoad i x # Q \<Longrightarrow>
     aoa_step dflt \<sigma> (\<sigma>\<lparr>inflight := P @ (if aoa_buckets (aoa \<sigma>) ! array_index i = None
                                            then ACas i x else AWrite i x) # Q\<rparr>)"
| a_cas: "inflight \<sigma> = P @ ACas i x # Q \<Longrightarrow>
     aoa_step dflt \<sigma> (\<sigma>\<lparr>aoa := aoa_install dflt (array_index i) (aoa \<sigma>),
                          inflight := P @ AWrite i x # Q\<rparr>)"
| a_write: "inflight \<sigma> = P @ AWrite i x # Q \<Longrightarrow>
     aoa_step dflt \<sigma> (\<sigma>\<lparr>aoa := aoa_write x i (aoa \<sigma>), inflight := P @ APublish i x # Q\<rparr>)"
| a_publish: "inflight \<sigma> = P @ APublish i x # Q \<Longrightarrow> aoa_publish i (aoa \<sigma>) = Some a \<Longrightarrow>
     aoa_step dflt \<sigma> (\<sigma>\<lparr>aoa := a, inflight := P @ Q\<rparr>)"

inductive aoa_reachable :: "'a \<Rightarrow> 'a aoa_system \<Rightarrow> bool" for dflt where
  aoa_init: "aoa_reachable dflt aoa_start"
| aoa_next: "aoa_reachable dflt \<sigma> \<Longrightarrow> aoa_step dflt \<sigma> \<tau> \<Longrightarrow> aoa_reachable dflt \<tau>"

inductive_cases aoa_step_cases: "aoa_step dflt \<sigma> \<tau>"

subsection \<open>Slots under the accesses\<close>

definition aoa_wf :: "'a aoa \<Rightarrow> bool" where
  "aoa_wf a \<longleftrightarrow> length (aoa_buckets a) = 32 \<and>
     (\<forall>k<32. \<forall>b. aoa_buckets a ! k = Some b \<longrightarrow> length b = bucket_length_data ! k) \<and>
     aoa_size a \<le> aoa_index a \<and> aoa_index a \<le> 2 ^ 32 - 1"

definition has_bucket :: "'a aoa \<Rightarrow> nat \<Rightarrow> bool" where
  "has_bucket a i \<longleftrightarrow> aoa_buckets a ! array_index i \<noteq> None"

lemma locate_fst [simp]: "fst (locate i) = array_index i"
  by (simp add: locate_def Let_def)

lemma array_index_small:
  assumes "array_index i < 32" and "i + 1 < 2 ^ 64"
  shows "i < 2 ^ 32 - 1"
proof -
  have "i + 1 < 2 ^ Suc (array_index i)" using log2_bounds(2) [of "i + 1"] assms(2)
    by (simp add: array_index_def)
  also have "(2::nat) ^ Suc (array_index i) \<le> 2 ^ 32"
    using assms(1) by (intro power_increasing) simp_all
  finally show ?thesis by simp
qed

lemma array_index_lt:
  assumes "i < 2 ^ 32 - 1"
  shows "array_index i < 32"
proof -
  obtain ai off where l: "locate i = (ai, off)" by (cases "locate i")
  from locate_bounds(1) [OF assms l] show ?thesis by (metis l locate_fst fst_conv)
qed

lemma slot_ok:
  assumes "aoa_wf a" and "i < 2 ^ 32 - 1"
  shows "aoa_slot a i = (case aoa_buckets a ! array_index i of
           None \<Rightarrow> Inl BadBucket | Some b \<Rightarrow> Inr (b ! snd (locate i)))"
proof -
  obtain ai off where l: "locate i = (ai, off)" by (cases "locate i")
  then have ai: "ai = array_index i" by (metis locate_fst fst_conv)
  from locate_bounds [OF assms(2) l] assms(1) l ai show ?thesis
    by (auto simp: aoa_slot_def aoa_wf_def split: option.splits)
qed

lemma install_wf: "aoa_wf a \<Longrightarrow> k < 32 \<Longrightarrow> aoa_wf (aoa_install dflt k a)"
  by (auto simp: aoa_wf_def aoa_install_def nth_list_update split: option.splits)

lemma install_slot:
  "aoa_wf a \<Longrightarrow> k < 32 \<Longrightarrow> i < 2 ^ 32 - 1 \<Longrightarrow> has_bucket a i \<Longrightarrow>
   aoa_slot (aoa_install dflt k a) i = aoa_slot a i \<and> has_bucket (aoa_install dflt k a) i"
  by (simp add: slot_ok install_wf)
     (auto simp: aoa_wf_def aoa_install_def has_bucket_def array_index_lt nth_list_update
           split: option.splits)

lemma install_has: "aoa_wf a \<Longrightarrow> i < 2 ^ 32 - 1 \<Longrightarrow> has_bucket (aoa_install dflt (array_index i) a) i"
  by (auto simp: aoa_wf_def aoa_install_def has_bucket_def array_index_lt nth_list_update
           split: option.splits)

lemma install_fields [simp]:
  "aoa_size (aoa_install dflt k a) = aoa_size a" "aoa_index (aoa_install dflt k a) = aoa_index a"
  by (simp_all add: aoa_install_def split: option.splits)

lemma write_fields [simp]:
  "aoa_size (aoa_write x i a) = aoa_size a" "aoa_index (aoa_write x i a) = aoa_index a"
  by (simp_all add: aoa_write_def split: prod.splits)

lemma write_buckets:
  "aoa_buckets (aoa_write x i a) = (aoa_buckets a)[array_index i :=
     map_option (\<lambda>b. b[snd (locate i) := x]) (aoa_buckets a ! array_index i)]"
  by (cases "locate i") (auto simp: aoa_write_def dest: arg_cong [where f = fst])

lemma write_wf: "aoa_wf a \<Longrightarrow> i < 2 ^ 32 - 1 \<Longrightarrow> aoa_wf (aoa_write x i a)"
  by (auto simp: aoa_wf_def write_buckets array_index_lt split: if_splits)

lemma write_has:
  "aoa_wf a \<Longrightarrow> i < 2 ^ 32 - 1 \<Longrightarrow> has_bucket (aoa_write x i a) j = has_bucket a j"
  by (auto simp: has_bucket_def write_buckets aoa_wf_def array_index_lt split: if_splits)

lemma write_slot:
  assumes wf: "aoa_wf a" and i: "i < 2 ^ 32 - 1" and j: "j < 2 ^ 32 - 1" and has: "has_bucket a i"
  shows "aoa_slot (aoa_write x i a) j = (if j = i then Inr x else aoa_slot a j)"
proof -
  obtain b where b: "aoa_buckets a ! array_index i = Some b" using has by (auto simp: has_bucket_def)
  have off: "snd (locate i) < length b"
    using locate_bounds(2) [OF i, of "array_index i" "snd (locate i)"] wf b array_index_lt [OF i]
    by (auto simp: aoa_wf_def) (metis locate_fst prod.collapse)
  have neq: "snd (locate j) \<noteq> snd (locate i)" if "array_index j = array_index i" "j \<noteq> i"
    using locate_inj [OF j i] that by (metis locate_fst prod.collapse)
  show ?thesis
    using wf i j b off neq
    by (auto simp: slot_ok write_wf write_buckets nth_list_update aoa_wf_def array_index_lt
          split: option.splits)
qed

subsection \<open>Invariant\<close>

definition pc_ok :: "'a aoa_system \<Rightarrow> 'a aoa_pc \<Rightarrow> bool" where
  "pc_ok \<sigma> p = (case p of
       ALoad i x \<Rightarrow> pushed \<sigma> ! i = x
     | ACas i x \<Rightarrow> pushed \<sigma> ! i = x
     | AWrite i x \<Rightarrow> pushed \<sigma> ! i = x \<and> has_bucket (aoa \<sigma>) i
     | APublish i x \<Rightarrow> pushed \<sigma> ! i = x \<and> has_bucket (aoa \<sigma>) i \<and> aoa_slot (aoa \<sigma>) i = Inr x)"

definition aoa_inv :: "'a aoa_system \<Rightarrow> bool" where
  "aoa_inv \<sigma> \<longleftrightarrow> aoa_wf (aoa \<sigma>) \<and> length (pushed \<sigma>) = aoa_index (aoa \<sigma>) \<and>
     mset (map pc_index (inflight \<sigma>)) = mset [aoa_size (aoa \<sigma>)..<aoa_index (aoa \<sigma>)] \<and>
     (\<forall>p \<in> set (inflight \<sigma>). pc_ok \<sigma> p) \<and>
     (\<forall>i < aoa_size (aoa \<sigma>). has_bucket (aoa \<sigma>) i \<and> aoa_slot (aoa \<sigma>) i = Inr (pushed \<sigma> ! i))"

lemma inflight_bounds:
  assumes "aoa_inv \<sigma>" and "p \<in> set (inflight \<sigma>)"
  shows "aoa_size (aoa \<sigma>) \<le> pc_index p" and "pc_index p < aoa_index (aoa \<sigma>)"
    and "pc_index p < 2 ^ 32 - 1"
proof -
  have "set (map pc_index (inflight \<sigma>)) = {aoa_size (aoa \<sigma>)..<aoa_index (aoa \<sigma>)}"
    using assms(1) unfolding aoa_inv_def by (metis set_mset_mset set_upt)
  with assms(2) have "pc_index p \<in> {aoa_size (aoa \<sigma>)..<aoa_index (aoa \<sigma>)}" by auto
  then show "aoa_size (aoa \<sigma>) \<le> pc_index p" and lt: "pc_index p < aoa_index (aoa \<sigma>)" by auto
  moreover have "aoa_index (aoa \<sigma>) \<le> 2 ^ 32 - 1" using assms(1) by (simp add: aoa_inv_def aoa_wf_def)
  ultimately show "pc_index p < 2 ^ 32 - 1" by linarith
qed

lemma inflight_distinct:
  assumes "aoa_inv \<sigma>"
  shows "distinct (map pc_index (inflight \<sigma>))"
  using assms unfolding aoa_inv_def by (metis distinct_upt mset_eq_imp_distinct_iff)

lemma slot_index_size [simp]:
  "aoa_slot (a\<lparr>aoa_index := n\<rparr>) i = aoa_slot a i" "aoa_slot (a\<lparr>aoa_size := n\<rparr>) i = aoa_slot a i"
  "has_bucket (a\<lparr>aoa_index := n\<rparr>) i = has_bucket a i" "has_bucket (a\<lparr>aoa_size := n\<rparr>) i = has_bucket a i"
  by (simp_all add: aoa_slot_def has_bucket_def split: prod.splits)

text \<open>A caller at \<open>p\<close> keeps what it knows when the object changes around it.\<close>

lemma pc_ok_mono:
  assumes "pc_ok \<sigma> p" and "pushed \<tau> ! pc_index p = pushed \<sigma> ! pc_index p"
    and "has_bucket (aoa \<sigma>) (pc_index p) \<Longrightarrow>
           has_bucket (aoa \<tau>) (pc_index p) \<and>
           aoa_slot (aoa \<tau>) (pc_index p) = aoa_slot (aoa \<sigma>) (pc_index p)"
  shows "pc_ok \<tau> p"
  using assms by (cases p) (auto simp: pc_ok_def)

lemma aoa_inv_claim:
  assumes inv: "aoa_inv \<sigma>" and cl: "aoa_claim (aoa \<sigma>) = (i, a)" and b: "array_index i < BUCKETS"
  shows "aoa_inv (\<sigma>\<lparr>aoa := a, inflight := inflight \<sigma> @ [ALoad i x], pushed := pushed \<sigma> @ [x]\<rparr>)"
    (is "aoa_inv ?\<tau>")
proof -
  have i: "i = aoa_index (aoa \<sigma>)" and a: "a = (aoa \<sigma>)\<lparr>aoa_index := i + 1\<rparr>"
    using cl by (auto simp: aoa_claim_def)
  have wf: "aoa_wf (aoa \<sigma>)" and len: "length (pushed \<sigma>) = i" using inv i by (auto simp: aoa_inv_def)
  have small: "i < 2 ^ 32 - 1"
    using b wf i by (intro array_index_small) (auto simp: BUCKETS_def aoa_wf_def)
  have "pc_ok ?\<tau> p" if "p \<in> set (inflight \<sigma>)" for p
    by (rule pc_ok_mono [of \<sigma>])
      (use that inv inflight_bounds(2) [OF inv that] len i a in \<open>auto simp: aoa_inv_def nth_append\<close>)
  moreover have "pc_ok ?\<tau> (ALoad i x)" using len by (simp add: pc_ok_def nth_append)
  moreover have "aoa_wf a" using wf small i by (simp add: aoa_wf_def a)
  moreover have "aoa_size (aoa \<sigma>) \<le> i" using wf i by (simp add: aoa_wf_def)
  ultimately show ?thesis
    using inv i a len by (auto simp: aoa_inv_def nth_append)
qed

lemma aoa_inv_goto:
  assumes inv: "aoa_inv \<sigma>" and fl: "inflight \<sigma> = P @ p # Q"
    and ix: "pc_index p' = pc_index p" and ok: "pc_ok (\<sigma>\<lparr>aoa := a, inflight := P @ p' # Q\<rparr>) p'"
    and wf: "aoa_wf a" and sz: "aoa_size a = aoa_size (aoa \<sigma>)" "aoa_index a = aoa_index (aoa \<sigma>)"
    and keep: "\<And>i. has_bucket (aoa \<sigma>) i \<Longrightarrow> i < 2 ^ 32 - 1 \<Longrightarrow> i \<noteq> pc_index p \<Longrightarrow>
       has_bucket a i \<and> aoa_slot a i = aoa_slot (aoa \<sigma>) i"
  shows "aoa_inv (\<sigma>\<lparr>aoa := a, inflight := P @ p' # Q\<rparr>)" (is "aoa_inv ?\<tau>")
proof -
  have others: "pc_ok ?\<tau> r" if "r \<in> set P \<union> set Q" for r
  proof (rule pc_ok_mono [of \<sigma>])
    show "pc_ok \<sigma> r" using inv fl that by (auto simp: aoa_inv_def)
    have "r \<in> set (inflight \<sigma>)" using that fl by auto
    moreover have "pc_index r \<noteq> pc_index p"
      using inflight_distinct [OF inv] that fl by (auto simp: image_iff)
    ultimately show "has_bucket (aoa ?\<tau>) (pc_index r) \<and>
        aoa_slot (aoa ?\<tau>) (pc_index r) = aoa_slot (aoa \<sigma>) (pc_index r)"
      if "has_bucket (aoa \<sigma>) (pc_index r)"
      using that inflight_bounds(3) [OF inv] keep by auto
  qed simp
  have slots: "has_bucket a i \<and> aoa_slot a i = Inr (pushed \<sigma> ! i)" if "i < aoa_size (aoa \<sigma>)" for i
  proof -
    have "p \<in> set (inflight \<sigma>)" using fl by simp
    then have "i \<noteq> pc_index p" using inflight_bounds(1) [OF inv] that by fastforce
    moreover have "i < 2 ^ 32 - 1" using inv that by (auto simp: aoa_inv_def aoa_wf_def)
    ultimately show ?thesis using keep inv that by (auto simp: aoa_inv_def)
  qed
  show ?thesis
    using inv fl ix ok wf sz others slots by (auto simp: aoa_inv_def)
qed

lemma aoa_inv_publish:
  assumes inv: "aoa_inv \<sigma>" and fl: "inflight \<sigma> = P @ APublish i x # Q"
    and pub: "aoa_publish i (aoa \<sigma>) = Some a"
  shows "aoa_inv (\<sigma>\<lparr>aoa := a, inflight := P @ Q\<rparr>)" (is "aoa_inv ?\<tau>")
proof -
  have i: "i = aoa_size (aoa \<sigma>)" and a: "a = (aoa \<sigma>)\<lparr>aoa_size := i + 1\<rparr>"
    using pub by (auto simp: aoa_publish_def split: if_splits)
  have p: "APublish i x \<in> set (inflight \<sigma>)" using fl by simp
  have lt: "i < aoa_index (aoa \<sigma>)" using inflight_bounds(2) [OF inv p] by simp
  then have up: "mset [i..<aoa_index (aoa \<sigma>)] = add_mset i (mset [i + 1..<aoa_index (aoa \<sigma>)])"
    by (simp add: upt_conv_Cons)
  have "pc_ok ?\<tau> r" if "r \<in> set P \<union> set Q" for r
    by (rule pc_ok_mono [of \<sigma>]) (use that inv fl a in \<open>auto simp: aoa_inv_def\<close>)
  moreover have "pc_ok \<sigma> (APublish i x)" using inv p by (auto simp: aoa_inv_def)
  then have "has_bucket a i \<and> aoa_slot a i = Inr (pushed \<sigma> ! i)" by (simp add: pc_ok_def a)
  moreover have "aoa_wf a" using inv lt by (simp add: aoa_inv_def aoa_wf_def a)
  moreover have "mset (map pc_index (P @ Q)) = mset [i + 1..<aoa_index (aoa \<sigma>)]"
    using inv fl up i by (simp add: aoa_inv_def)
  ultimately show ?thesis
    using inv i a by (auto simp: aoa_inv_def less_Suc_eq)
qed

lemma aoa_inv_step:
  assumes step: "aoa_step dflt \<sigma> \<tau>" and inv: "aoa_inv \<sigma>"
  shows "aoa_inv \<tau>"
  using step
proof cases
  case (a_claim i a x)
  then show ?thesis using aoa_inv_claim [OF inv] by simp
next
  case (a_load P i x Q)
  have "aoa_inv (\<sigma>\<lparr>aoa := aoa \<sigma>, inflight := P @ (if aoa_buckets (aoa \<sigma>) ! array_index i = None
          then ACas i x else AWrite i x) # Q\<rparr>)"
    by (rule aoa_inv_goto [OF inv a_load(2)])
       (use inv a_load(2) in \<open>auto simp: aoa_inv_def pc_ok_def has_bucket_def\<close>)
  then show ?thesis using a_load by simp
next
  case (a_cas P i x Q)
  then have "ACas i x \<in> set (inflight \<sigma>)" by simp
  then have i: "i < 2 ^ 32 - 1" using inflight_bounds(3) [OF inv] by fastforce
  have wf: "aoa_wf (aoa \<sigma>)" using inv by (simp add: aoa_inv_def)
  show ?thesis unfolding a_cas(1)
  proof (rule aoa_inv_goto [OF inv a_cas(2)])
    show "pc_ok (\<sigma>\<lparr>aoa := aoa_install dflt (array_index i) (aoa \<sigma>), inflight := P @ AWrite i x # Q\<rparr>)
            (AWrite i x)"
      using inv a_cas(2) install_has [OF wf i] by (auto simp: aoa_inv_def pc_ok_def)
    show "has_bucket (aoa_install dflt (array_index i) (aoa \<sigma>)) j \<and>
          aoa_slot (aoa_install dflt (array_index i) (aoa \<sigma>)) j = aoa_slot (aoa \<sigma>) j"
      if "has_bucket (aoa \<sigma>) j" "j < 2 ^ 32 - 1" for j
      using install_slot [OF wf array_index_lt [OF i] that(2,1)] by blast
  qed (simp_all add: install_wf [OF wf] array_index_lt [OF i])
next
  case (a_write P i x Q)
  then have p: "AWrite i x \<in> set (inflight \<sigma>)" by simp
  then have i: "i < 2 ^ 32 - 1" using inflight_bounds(3) [OF inv] by fastforce
  have wf: "aoa_wf (aoa \<sigma>)" using inv by (simp add: aoa_inv_def)
  have has: "has_bucket (aoa \<sigma>) i" "pushed \<sigma> ! i = x"
    using inv p by (auto simp: aoa_inv_def pc_ok_def)
  show ?thesis unfolding a_write(1)
    by (rule aoa_inv_goto [OF inv a_write(2)])
       (use has write_slot [OF wf i _ has(1)] i in
         \<open>auto simp: pc_ok_def write_wf [OF wf i] write_has [OF wf i]\<close>)
next
  case (a_publish P i x Q a)
  then show ?thesis using aoa_inv_publish [OF inv] by simp
qed

lemma aoa_inv_start: "aoa_inv aoa_start"
  by (simp add: aoa_inv_def aoa_start_def aoa_new_def aoa_wf_def BUCKETS_def)

lemma aoa_inv_reachable: "aoa_reachable dflt \<sigma> \<Longrightarrow> aoa_inv \<sigma>"
  by (induction rule: aoa_reachable.induct) (blast intro: aoa_inv_start aoa_inv_step)+

section \<open>Properties\<close>

text \<open>The two tables and the logarithm place every index. For every index below 2^32 - 1
  the bucket and offset that \<open>at\<close> and \<open>emplace\<close> compute are inside the bucket table and the
  bucket, different indices get different places, and the first index outside is 2^32 - 1: the
  array holds 2^32 - 1 elements.\<close>

theorem append_array_places:
  assumes "i < 2 ^ 32 - 1" and "j < 2 ^ 32 - 1"
  shows "fst (locate i) < BUCKETS \<and> snd (locate i) < bucket_length_data ! fst (locate i)
    \<and> (locate i = locate j \<longleftrightarrow> i = j) \<and> \<not> fst (locate (2 ^ 32 - 1)) < BUCKETS"
proof -
  have "2 ^ log2 (2 ^ 32) \<le> (2::nat) ^ 32" and up: "(2::nat) ^ 32 < 2 ^ Suc (log2 (2 ^ 32))"
    using log2_bounds [of "2 ^ 32"] by simp_all
  from up have "32 < Suc (log2 (2 ^ 32))" by (rule power2_less_cancel)
  then have "\<not> fst (locate (2 ^ 32 - 1)) < BUCKETS" by (simp add: BUCKETS_def array_index_def)
  moreover have l: "locate i = (fst (locate i), snd (locate i))" by (rule surjective_pairing)
  ultimately show ?thesis
    using locate_bounds(1,2) [OF assms(1) l] locate_inj [OF assms] unfolding BUCKETS_def by blast
qed

theorem append_array_places_witness: "fst (locate 6) = 2 \<and> snd (locate 6) < 4"
proof -
  have "log2 7 = 2" by code_simp
  then have "fst (locate 6) = 2" by (simp add: array_index_def)
  with append_array_places [of 6 6] show ?thesis by (simp add: bucket_length_nth)
qed

text \<open>Claim C14: The array is a linearizable append-only log. In every state reachable by any
  interleaving of \<open>emplace\<close> calls, \<open>at\<close> below the size returns the value whose call claimed that
  index, and above it reports the index and the size; the calls in flight own exactly the indices
  from the size up to the next one to claim, one each.\<close>

theorem append_array_log:
  assumes "aoa_reachable dflt \<sigma>"
  shows "aoa_at (aoa \<sigma>) i =
      (if i < aoa_size (aoa \<sigma>) then Inr (pushed \<sigma> ! i) else Inl (OutOfRange i (aoa_size (aoa \<sigma>))))
    \<and> mset (map pc_index (inflight \<sigma>)) = mset [aoa_size (aoa \<sigma>)..<length (pushed \<sigma>)]"
  using aoa_inv_reachable [OF assms] by (auto simp: aoa_inv_def aoa_at_def)

text \<open>One call that has published its value and two that have claimed their indices.\<close>

lemma one_published:
  "\<exists>\<sigma>. aoa_reachable 0 \<sigma> \<and> pushed \<sigma> = [7, 8, 9 :: nat] \<and> aoa_size (aoa \<sigma>) = 1 \<and> inflight \<sigma> = [ALoad 1 8, ALoad 2 9]"
proof -
  have b: "array_index 0 = 0" "array_index 1 = 1" "array_index 2 = 1" by code_simp+
  have z: "locate 0 = (0, 0)" by code_simp
  let ?s0 = "aoa_start :: nat aoa_system"
  let ?s1 = "?s0\<lparr>aoa := (aoa ?s0)\<lparr>aoa_index := 1\<rparr>, inflight := [ALoad 0 7], pushed := [7]\<rparr>"
  let ?s2 = "?s1\<lparr>inflight := [ACas 0 7]\<rparr>"
  let ?s3 = "?s2\<lparr>aoa := aoa_install 0 (array_index 0) (aoa ?s2), inflight := [AWrite 0 7]\<rparr>"
  let ?s4 = "?s3\<lparr>aoa := aoa_write 7 0 (aoa ?s3), inflight := [APublish 0 7]\<rparr>"
  let ?s5 = "?s4\<lparr>aoa := (aoa ?s4)\<lparr>aoa_size := 1\<rparr>, inflight := []\<rparr>"
  let ?s6 = "?s5\<lparr>aoa := (aoa ?s5)\<lparr>aoa_index := 2\<rparr>, inflight := [ALoad 1 8], pushed := [7, 8]\<rparr>"
  let ?s7 = "?s6\<lparr>aoa := (aoa ?s6)\<lparr>aoa_index := 3\<rparr>, inflight := [ALoad 1 8, ALoad 2 9], pushed := [7, 8, 9]\<rparr>"
  have keep: "aoa_size (aoa_install d k a) = aoa_size a" "aoa_index (aoa_install d k a) = aoa_index a"
    "aoa_size (aoa_write x i a) = aoa_size a" "aoa_index (aoa_write x i a) = aoa_index a" for d k x i and a :: "nat aoa"
    by (simp_all add: aoa_install_def aoa_write_def Let_def split: option.splits prod.splits)
  have "aoa_step 0 ?s0 ?s1" using a_claim [of ?s0 0 _ 0 7] b by (simp add: aoa_claim_def aoa_start_def aoa_new_def BUCKETS_def)
  moreover have "aoa_step 0 ?s1 ?s2"
    using a_load [of ?s1 "[]" 0 7 "[]" 0] b by (simp add: aoa_start_def aoa_new_def BUCKETS_def)
  moreover have "aoa_step 0 ?s2 ?s3" using a_cas [of ?s2 "[]" 0 7 "[]" 0] by simp
  moreover have "aoa_step 0 ?s3 ?s4" using a_write [of ?s3 "[]" 0 7 "[]" 0] by simp
  moreover have "aoa_step 0 ?s4 ?s5"
    using a_publish [of ?s4 "[]" 0 7 "[]" _ 0] by (simp add: aoa_publish_def keep aoa_start_def aoa_new_def)
  moreover have "aoa_step 0 ?s5 ?s6"
    using a_claim [of ?s5 1 _ 0 8] b by (simp add: aoa_claim_def keep BUCKETS_def numeral_2_eq_2)
  moreover have "aoa_step 0 ?s6 ?s7"
    using a_claim [of ?s6 2 _ 0 9] b by (simp add: aoa_claim_def keep BUCKETS_def numeral_3_eq_3)
  ultimately have "aoa_reachable 0 ?s7" by (meson aoa_init aoa_next)
  then show ?thesis by (intro exI [of _ ?s7]) (simp add: keep)
qed

theorem append_array_log_witness:
  "\<exists>\<sigma>. aoa_reachable 0 \<sigma> \<and> aoa_at (aoa \<sigma>) 0 = Inr (7 :: nat) \<and> aoa_at (aoa \<sigma>) 1 = Inl (OutOfRange 1 1) \<and>
     mset (map pc_index (inflight \<sigma>)) = {#1, 2#}"
proof -
  obtain \<sigma> where s: "aoa_reachable 0 \<sigma>" "pushed \<sigma> = [7, 8, 9 :: nat]" "aoa_size (aoa \<sigma>) = 1"
    "inflight \<sigma> = [ALoad 1 8, ALoad 2 9]" using one_published by blast
  from append_array_log [OF s(1), of 0] append_array_log [OF s(1), of 1] s show ?thesis by (intro exI [of _ \<sigma>]) auto
qed

text \<open>\<open>emplace\<close> calls do not block one another for ever: while some call is in flight,
  some call in flight has an enabled step (if all are at the publishing loop, the one holding the
  current size leaves it).\<close>

theorem append_array_progress:
  assumes "aoa_reachable dflt \<sigma>" and "inflight \<sigma> \<noteq> []"
  shows "\<exists>\<tau>. aoa_step dflt \<sigma> \<tau> \<and> length (inflight \<tau>) \<le> length (inflight \<sigma>)"
proof -
  have inv: "aoa_inv \<sigma>" using assms(1) by (rule aoa_inv_reachable)
  have lt: "aoa_size (aoa \<sigma>) < aoa_index (aoa \<sigma>)"
  proof -
    obtain p where "p \<in> set (inflight \<sigma>)" using assms(2) by (meson list.set_sel(1))
    from inflight_bounds(1,2) [OF inv this] show ?thesis by simp
  qed
  have "set (map pc_index (inflight \<sigma>)) = {aoa_size (aoa \<sigma>)..<aoa_index (aoa \<sigma>)}"
    using inv unfolding aoa_inv_def by (metis set_mset_mset set_upt)
  then have "aoa_size (aoa \<sigma>) \<in> set (map pc_index (inflight \<sigma>))" using lt by simp
  then obtain p where p: "p \<in> set (inflight \<sigma>)" "pc_index p = aoa_size (aoa \<sigma>)" by auto
  then obtain P Q where fl: "inflight \<sigma> = P @ p # Q" by (meson split_list)
  show ?thesis
  proof (cases p)
    case (ALoad i x)
    then show ?thesis using a_load [of \<sigma> P i x Q dflt] fl by (intro exI conjI) (auto split: if_splits)
  next
    case (ACas i x)
    then show ?thesis using a_cas [of \<sigma> P i x Q dflt] fl by (intro exI conjI) auto
  next
    case (AWrite i x)
    then show ?thesis using a_write [of \<sigma> P i x Q dflt] fl by (intro exI conjI) auto
  next
    case (APublish i x)
    then have "aoa_publish i (aoa \<sigma>) = Some ((aoa \<sigma>)\<lparr>aoa_size := i + 1\<rparr>)"
      using p by (simp add: aoa_publish_def)
    then show ?thesis using a_publish [of \<sigma> P i x Q _ dflt] fl APublish by (intro exI conjI) auto
  qed
qed

lemma aoa_one_claimed:
  "aoa_reachable (0::nat) (aoa_start\<lparr>aoa := aoa_new\<lparr>aoa_index := 1\<rparr>, inflight := [ALoad 0 7], pushed := [7]\<rparr>)"
proof -
  have "array_index 0 < BUCKETS" by code_simp
  then have "aoa_step (0::nat) aoa_start
      (aoa_start\<lparr>aoa := aoa_new\<lparr>aoa_index := 1\<rparr>, inflight := [ALoad 0 7], pushed := [7]\<rparr>)"
    using a_claim [of "aoa_start :: nat aoa_system" 0 "aoa_new\<lparr>aoa_index := 1\<rparr>" 0 7]
    by (simp add: aoa_start_def aoa_claim_def aoa_new_def)
  then show ?thesis by (rule aoa_next [OF aoa_init])
qed

theorem append_array_progress_witness:
  "\<exists>\<tau>. aoa_step (0::nat) (aoa_start\<lparr>aoa := aoa_new\<lparr>aoa_index := 1\<rparr>, inflight := [ALoad 0 7],
                             pushed := [7]\<rparr>) \<tau>"
  using append_array_progress [OF aoa_one_claimed] by auto

text \<open>A call that runs alone: the index returned is the old size, the new element is there, the old
  ones are where they were.\<close>

definition aoa_quiet :: "'a aoa \<Rightarrow> 'a list \<Rightarrow> bool" where
  "aoa_quiet a xs \<longleftrightarrow> aoa_inv \<lparr>aoa = a, inflight = [], pushed = xs\<rparr>"

lemma aoa_quiet_new: "aoa_quiet aoa_new []"
  using aoa_inv_start by (simp add: aoa_quiet_def aoa_start_def)

lemma aoa_quiet_length: "aoa_quiet a xs \<Longrightarrow> aoa_size a = length xs \<and> aoa_index a = length xs"
  by (simp add: aoa_quiet_def aoa_inv_def aoa_wf_def mset_set_empty_iff)

lemma aoa_emplace_quiet:
  assumes q: "aoa_quiet a xs" and room: "length xs < 2 ^ 32 - 1"
  shows "\<exists>a'. aoa_emplace dflt x a = Inr (length xs, a') \<and> aoa_quiet a' (xs @ [x])"
proof -
  let ?i = "length xs"
  let ?\<sigma>0 = "\<lparr>aoa = a, inflight = [], pushed = xs\<rparr>"
  note n = aoa_quiet_length [OF q]
  have b: "array_index ?i < BUCKETS" using array_index_lt [OF room] by (simp add: BUCKETS_def)
  let ?a1 = "a\<lparr>aoa_index := ?i + 1\<rparr>"
  let ?\<sigma>1 = "\<lparr>aoa = ?a1, inflight = [ALoad ?i x], pushed = xs @ [x]\<rparr>"
  have i0: "aoa_inv ?\<sigma>0" using q by (simp add: aoa_quiet_def)
  have c: "aoa_claim a = (?i, ?a1)" using n by (simp add: aoa_claim_def)
  have i1: "aoa_inv ?\<sigma>1" using aoa_inv_claim [OF i0, of ?i ?a1 x] c b by simp
  let ?a2 = "aoa_install dflt (array_index ?i) ?a1"
  let ?\<sigma>2 = "?\<sigma>1\<lparr>inflight := [ACas ?i x]\<rparr>"
  have i2': "aoa_inv ?\<sigma>2"
    using i1 by (auto simp: aoa_inv_def pc_ok_def)
  have i2: "aoa_inv (?\<sigma>2\<lparr>aoa := ?a2, inflight := [AWrite ?i x]\<rparr>)"
    using aoa_inv_step [OF a_cas [of ?\<sigma>2 "[]" ?i x "[]" dflt] i2'] by simp
  have i3: "aoa_inv (?\<sigma>2\<lparr>aoa := aoa_write x ?i ?a2, inflight := [APublish ?i x]\<rparr>)"
    using aoa_inv_step [OF a_write [of "?\<sigma>2\<lparr>aoa := ?a2, inflight := [AWrite ?i x]\<rparr>" "[]" ?i x "[]" dflt] i2]
    by simp
  let ?a4 = "(aoa_write x ?i ?a2)\<lparr>aoa_size := ?i + 1\<rparr>"
  have p: "aoa_publish ?i (aoa_write x ?i ?a2) = Some ?a4" using n by (simp add: aoa_publish_def)
  have "aoa_inv (?\<sigma>2\<lparr>aoa := ?a4, inflight := []\<rparr>)"
    using aoa_inv_publish [OF i3, of "[]" ?i x "[]" ?a4] p by simp
  then have "aoa_quiet ?a4 (xs @ [x])" by (simp add: aoa_quiet_def)
  moreover have "aoa_emplace dflt x a = Inr (?i, ?a4)"
    using b p n by (simp add: aoa_emplace_def aoa_claim_def)
  ultimately show ?thesis by blast
qed

section \<open>The interface: an append-only log\<close>

fun push_all :: "('a \<Rightarrow> 's \<Rightarrow> 'e + (nat \<times> 's)) \<Rightarrow> 'a list \<Rightarrow> 's \<Rightarrow> 'e + (nat list \<times> 's)" where
  "push_all push [] s = Inr ([], s)"
| "push_all push (x # xs) s = (case push x s of Inl e \<Rightarrow> Inl e | Inr (i, s') \<Rightarrow>
     (case push_all push xs s' of Inl e \<Rightarrow> Inl e | Inr (is, t) \<Rightarrow> Inr (i # is, t)))"

text \<open>What a user of the array relies on: \<open>push\<close> returns the number of elements before it and
  appends, \<open>at\<close> reads back what was pushed and fails past the end.\<close>

locale append_log =
  fixes push :: "'a \<Rightarrow> 's \<Rightarrow> 'e + (nat \<times> 's)"
    and at :: "'s \<Rightarrow> nat \<Rightarrow> 'e + 'a"
    and rep :: "'s \<Rightarrow> 'a list \<Rightarrow> bool"
    and cap :: nat
  assumes push_rep: "rep s xs \<Longrightarrow> length xs < cap \<Longrightarrow>
      \<exists>s'. push x s = Inr (length xs, s') \<and> rep s' (xs @ [x])"
    and at_rep: "rep s xs \<Longrightarrow> i < length xs \<Longrightarrow> at s i = Inr (xs ! i)"
    and at_past: "rep s xs \<Longrightarrow> length xs \<le> i \<Longrightarrow> \<exists>e. at s i = Inl e"
begin

lemma push_all_rep:
  "rep s xs \<Longrightarrow> length xs + length ys \<le> cap \<Longrightarrow>
   \<exists>t. push_all push ys s = Inr ([length xs..<length xs + length ys], t) \<and> rep t (xs @ ys)"
proof (induction ys arbitrary: s xs)
  case Nil
  then show ?case by simp
next
  case (Cons y ys)
  then obtain s' where s': "push y s = Inr (length xs, s')" "rep s' (xs @ [y])"
    using push_rep [of s xs y] by auto
  then obtain t where "push_all push ys s' = Inr ([Suc (length xs)..<Suc (length xs + length ys)], t)"
    "rep t ((xs @ [y]) @ ys)"
    using Cons.IH [of s' "xs @ [y]"] Cons.prems by auto
  with s' show ?case by (simp add: upt_rec)
qed

end

lemma aoa_at_quiet:
  assumes "aoa_quiet a xs"
  shows "aoa_at a i = (if i < length xs then Inr (xs ! i) else Inl (OutOfRange i (length xs)))"
  using assms aoa_quiet_length [OF assms] by (auto simp: aoa_quiet_def aoa_inv_def aoa_at_def)

interpretation aoa_log: append_log "aoa_emplace dflt" aoa_at aoa_quiet "2 ^ 32 - 1" for dflt
  by unfold_locales (simp_all add: aoa_emplace_quiet aoa_at_quiet)

text \<open>Elements pushed one after the other into a new array are read back at the
  indices \<open>emplace\<close> returned for them, as long as they fit.\<close>

theorem append_array_roundtrip:
  assumes "length ys \<le> 2 ^ 32 - 1"
  shows "\<exists>a. push_all (aoa_emplace dflt) ys aoa_new = Inr ([0..<length ys], a)
           \<and> (\<forall>i < length ys. aoa_at a i = Inr (ys ! i))"
  using aoa_log.push_all_rep [OF aoa_quiet_new, of ys dflt] assms aoa_at_quiet by fastforce

theorem append_array_roundtrip_witness:
  "\<exists>a. push_all (aoa_emplace 0) [5, 6, 7 :: nat] aoa_new = Inr ([0..<length [5, 6, 7 :: nat]], a)
       \<and> aoa_at a 2 = Inr 7"
proof -
  have "\<exists>a. push_all (aoa_emplace 0) [5, 6, 7 :: nat] aoa_new = Inr ([0..<length [5, 6, 7 :: nat]], a)
      \<and> (\<forall>i < length [5, 6, 7 :: nat]. aoa_at a i = Inr ([5, 6, 7] ! i))"
    by (rule append_array_roundtrip) simp
  then obtain a where
    "push_all (aoa_emplace 0) [5, 6, 7 :: nat] aoa_new = Inr ([0..<length [5, 6, 7 :: nat]], a)"
    and at: "\<forall>i < length [5, 6, 7 :: nat]. aoa_at a i = Inr ([5, 6, 7] ! i)" by blast
  moreover have "aoa_at a 2 = Inr 7" using at [rule_format, of 2] by simp
  ultimately show ?thesis by blast
qed

end
