(* ===== verification/MpscRing.thy ===== *)
theory MpscRing
  imports Prelude
begin

text \<open>
  Model of \<open>ustevent::detail::MpscRingBuffer\<close> and its writer and reader handles
  (\<open>core/detail/MpscRingBuffer.cpp\<close>), the ring buffer every context receives its tasks through.

  Offsets are the 64-bit words of the source (lock bit, wrap counter, index). An \<open>assert\<close> is
  an error branch of the model, and so is spinning on a lock bit nobody will clear. The first
  part holds the operations, each a composition of its shared accesses; the second the queue
  of byte offsets they maintain, the system of one consumer and any number of producers, and
  the invariant; the last the handles and the properties.
\<close>

section \<open>Offsets\<close>

definition INDEX_MASK :: u64 where "INDEX_MASK = 0x00000000ffffffff"
definition WRAP_COUNTER_MASK :: u64 where "WRAP_COUNTER_MASK = 0x7fffffff00000000"
definition WRAP_LOCK_BIT :: u64 where "WRAP_LOCK_BIT = 0x8000000000000000"
definition MAX_OFFSET :: u64 where "MAX_OFFSET = (NOT 0) AND NOT WRAP_LOCK_BIT"

definition unlock_wrap_bit :: "u64 \<Rightarrow> u64" where
  "unlock_wrap_bit off = off AND NOT WRAP_LOCK_BIT"

definition lock_wrap_bit :: "u64 \<Rightarrow> u64" where
  "lock_wrap_bit off = off OR WRAP_LOCK_BIT"

definition is_locked :: "u64 \<Rightarrow> bool" where
  "is_locked off \<longleftrightarrow> off AND WRAP_LOCK_BIT \<noteq> 0"

definition get_wrap_counter :: "u64 \<Rightarrow> u64" where
  "get_wrap_counter off = off AND WRAP_COUNTER_MASK"

definition increase_wrap_counter :: "u64 \<Rightarrow> u64" where
  "increase_wrap_counter c = get_wrap_counter (c + 0x100000000)"

definition buffer_index :: "u64 \<Rightarrow> u64" where
  "buffer_index off = off AND INDEX_MASK"

text \<open>\<open>_setWrapCounter\<close> takes its first parameter by value: the pair is the parameter after the
  body and the caller's variable, which the call leaves as it was.\<close>

definition set_wrap_counter :: "u64 \<Rightarrow> u64 \<Rightarrow> u64 \<times> u64" where
  "set_wrap_counter off c = (off OR c, off)"

section \<open>The object\<close>

record worker =
  seen :: u64
  registered :: bool

record ring =
  capacity :: u64
  producer_num :: u32
  producer_barrier :: u64
  end_mark :: u64
  consumer_barrier :: u64
  workers :: "worker list"
  buffer :: "u8 list"

definition worker_new :: worker where
  "worker_new = \<lparr>seen = 0, registered = False\<rparr>"

definition ring_new :: "u64 \<Rightarrow> u32 \<Rightarrow> ring" where
  "ring_new cap n = \<lparr>capacity = cap, producer_num = n, producer_barrier = 0,
     end_mark = MAX_OFFSET, consumer_barrier = 0,
     workers = replicate (unat n) worker_new, buffer = replicate (unat cap) 0\<rparr>"

datatype ring_fail = Spins | AssertFails | BadWorker

definition current :: "ring \<Rightarrow> u64" where
  "current r = consumer_barrier r"

definition set_seen :: "nat \<Rightarrow> u64 \<Rightarrow> ring \<Rightarrow> ring" where
  "set_seen i s r = r\<lparr>workers := (workers r)[i := (workers r ! i)\<lparr>seen := s\<rparr>]\<rparr>"

definition set_registered :: "nat \<Rightarrow> bool \<Rightarrow> ring \<Rightarrow> ring" where
  "set_registered i b r = r\<lparr>workers := (workers r)[i := (workers r ! i)\<lparr>registered := b\<rparr>]\<rparr>"

text \<open>\<open>registerWorker\<close>: the index into the vector of workers is not checked; past the end the
  code has no defined result.\<close>

definition register_worker :: "nat \<Rightarrow> ring \<Rightarrow> ring_fail + ring" where
  "register_worker i r =
     (if i < length (workers r) then Inr (set_registered i True (set_seen i MAX_OFFSET r))
      else Inl BadWorker)"

definition unregister_worker :: "nat \<Rightarrow> ring \<Rightarrow> ring" where
  "unregister_worker i r = set_registered i False r"

text \<open>\<open>_getStableSeen\<close> and \<open>_getStableNext\<close>: \<open>None\<close> when the value is locked (the loop
  goes round); the second asserts that the index is inside the buffer.\<close>

definition stable_seen :: "worker \<Rightarrow> u64 option" where
  "stable_seen w = (if is_locked (seen w) then None else Some (seen w))"

definition stable_next :: "ring \<Rightarrow> ring_fail + u64" where
  "stable_next r =
     (if is_locked (producer_barrier r) then Inl Spins
      else if buffer_index (producer_barrier r) < capacity r then Inr (producer_barrier r)
      else Inl AssertFails)"

subsection \<open>acquire\<close>

text \<open>The target offset computed from the values read, \<open>None\<close> when there is no space.\<close>

definition acq_target :: "u64 \<Rightarrow> u64 \<Rightarrow> u64 \<Rightarrow> u64 \<Rightarrow> u64 option" where
  "acq_target cap sn len written =
     (let next = buffer_index sn; target = next + len in
      if next < written \<and> written \<le> target then None
      else if cap \<le> target then
        (let target = (if cap < target then lock_wrap_bit len else 0) in
         if written \<le> buffer_index target then None
         else Some (snd (set_wrap_counter target (increase_wrap_counter (get_wrap_counter sn)))))
      else Some (snd (set_wrap_counter target (get_wrap_counter sn))))"

definition acq_cas :: "u64 \<Rightarrow> u64 \<Rightarrow> ring \<Rightarrow> ring option" where
  "acq_cas sn target r =
     (if producer_barrier r = sn then Some (r\<lparr>producer_barrier := target\<rparr>) else None)"

text \<open>After the exchange: the worker's offset becomes stable; a target with the lock bit records
  the end of the data and restarts at zero. The result is the address written through
  \<open>*address\<close>, as an index into the buffer.\<close>

definition acq_commit :: "nat \<Rightarrow> u64 \<Rightarrow> u64 \<Rightarrow> ring \<Rightarrow> ring_fail + (u64 \<times> ring)" where
  "acq_commit i next target r0 =
     (let r = set_seen i (unlock_wrap_bit (seen (workers r0 ! i))) r0 in
      if is_locked target then
        (if current r \<le> next \<and> end_mark r = MAX_OFFSET then
           (if buffer_index target \<le> capacity r then
              Inr (0, r\<lparr>end_mark := next, producer_barrier := unlock_wrap_bit target\<rparr>)
            else Inl AssertFails)
         else Inl AssertFails)
      else if buffer_index target \<le> capacity r then Inr (next, r) else Inl AssertFails)"

text \<open>The loop: \<open>compare_exchange_weak\<close> may fail spuriously, here \<open>k\<close> times. The result is
  \<open>None\<close> for the value false.\<close>

fun acq_loop :: "nat \<Rightarrow> nat \<Rightarrow> u64 \<Rightarrow> ring \<Rightarrow> ring_fail + (u64 option \<times> ring)" where
  "acq_loop k i len r =
     (case stable_next r of
        Inl e \<Rightarrow> Inl e
      | Inr sn \<Rightarrow>
          (let next = buffer_index sn; r1 = set_seen i (lock_wrap_bit next) r in
           if \<not> next < capacity r then Inl AssertFails
           else (case acq_target (capacity r) sn len (current r1) of
                   None \<Rightarrow> Inr (None, set_seen i MAX_OFFSET r1)
                 | Some target \<Rightarrow>
                     (case k of
                        Suc k' \<Rightarrow> acq_loop k' i len r1
                      | 0 \<Rightarrow> (case acq_cas sn target r1 of
                                None \<Rightarrow> Inl Spins
                              | Some r2 \<Rightarrow> (case acq_commit i next target r2 of
                                              Inl e \<Rightarrow> Inl e
                                            | Inr (a, r3) \<Rightarrow> Inr (Some a, r3)))))))"

definition acquire :: "nat \<Rightarrow> nat \<Rightarrow> u64 \<Rightarrow> ring \<Rightarrow> ring_fail + (u64 option \<times> ring)" where
  "acquire k i len r =
     (if capacity r < len then Inr (None, r)
      else if seen (workers r ! i) \<noteq> MAX_OFFSET then Inl AssertFails
      else acq_loop k i len r)"

definition produce :: "nat \<Rightarrow> ring \<Rightarrow> ring_fail + ring" where
  "produce i r =
     (if registered (workers r ! i) \<and> seen (workers r ! i) \<noteq> MAX_OFFSET
      then Inr (set_seen i MAX_OFFSET r) else Inl AssertFails)"

subsection \<open>consume and release\<close>

fun scan_ready :: "u64 \<Rightarrow> worker list \<Rightarrow> u64 \<Rightarrow> ring_fail + u64" where
  "scan_ready written [] ready = Inr ready"
| "scan_ready written (w # ws) ready =
     (if \<not> registered w then scan_ready written ws ready
      else (case stable_seen w of
              None \<Rightarrow> Inl Spins
            | Some s \<Rightarrow>
                (let ready' = (if written \<le> s then min s ready else ready) in
                 if ready' < written then Inl AssertFails else scan_ready written ws ready')))"

text \<open>One iteration of the loop of \<open>consume\<close>: a size with the address (not written when the
  producers did not advance), or another round after the consumer wrapped around.\<close>

datatype consumed = Got u64 "u64 option" | Wrapped

definition consume_check :: "u64 \<Rightarrow> u64 \<Rightarrow> ring \<Rightarrow> ring_fail + (consumed \<times> ring)" where
  "consume_check written ready r =
     (if ready < written \<or> capacity r < ready - written then Inl AssertFails
      else Inr (Got (ready - written) (Some written), r))"

definition consume_iter :: "u64 \<Rightarrow> ring \<Rightarrow> ring_fail + (consumed \<times> ring)" where
  "consume_iter written r =
     (case stable_next r of
        Inl e \<Rightarrow> Inl e
      | Inr sn \<Rightarrow>
          (let next = buffer_index sn in
           if written = next then Inr (Got 0 None, r)
           else (case scan_ready written (workers r) MAX_OFFSET of
                   Inl e \<Rightarrow> Inl e
                 | Inr ready \<Rightarrow>
                     if next < written then
                       (let e = min (capacity r) (end_mark r) in
                        if ready = MAX_OFFSET \<and> written = e then
                          Inr (Wrapped, r\<lparr>end_mark := (if end_mark r \<noteq> MAX_OFFSET then MAX_OFFSET
                                                      else end_mark r),
                                          consumer_barrier := 0\<rparr>)
                        else if \<not> next < ready then Inl AssertFails
                        else consume_check written (min ready e) r)
                     else consume_check written (min ready next) r)))"

fun consume_loop :: "nat \<Rightarrow> u64 \<Rightarrow> ring \<Rightarrow> ring_fail + (u64 \<times> u64 option \<times> ring)" where
  "consume_loop 0 written r = Inl Spins"
| "consume_loop (Suc n) written r =
     (case consume_iter written r of
        Inl e \<Rightarrow> Inl e
      | Inr (Got n' a, r') \<Rightarrow> Inr (n', a, r')
      | Inr (Wrapped, r') \<Rightarrow> consume_loop n 0 r')"

text \<open>Two rounds are enough: after wrapping the consumer is at zero and cannot wrap again.\<close>

definition consume :: "ring \<Rightarrow> ring_fail + (u64 \<times> u64 option \<times> ring)" where
  "consume r = consume_loop 2 (current r) r"

definition release :: "u64 \<Rightarrow> ring \<Rightarrow> ring_fail + ring" where
  "release bytes r =
     (let written = current r; released = written + bytes in
      if written \<le> capacity r \<and> written \<le> end_mark r \<and> released \<le> capacity r
      then Inr (r\<lparr>consumer_barrier := (if released = capacity r then 0 else released)\<rparr>)
      else Inl AssertFails)"

subsection \<open>Bits of an offset\<close>

lemma small_bit: 
  assumes "unat (x::u64) < 2 ^ n" "n \<le> k" shows "\<not> bit x k"
proof -
  have "unat x < 2 ^ k" using assms
    by (meson less_le_trans power_increasing one_le_numeral)
  then have "\<not> bit (unat x) k" by (simp add: bit_iff_odd)
  then show ?thesis by (simp add: bit_unsigned_iff)
qed

lemma bit_lock: "bit WRAP_LOCK_BIT n \<longleftrightarrow> n = 63"
proof -
  have "WRAP_LOCK_BIT = push_bit 63 1" by (simp add: WRAP_LOCK_BIT_def push_bit_eq_mult)
  then have "bit WRAP_LOCK_BIT n = bit (push_bit 63 1 :: u64) n" by simp
  then show ?thesis unfolding bit_push_bit_iff by (auto simp: bit_1_iff simp flip: One_nat_def)
qed
lemma bit_index: "bit INDEX_MASK n \<longleftrightarrow> n < 32"
proof -
  have "INDEX_MASK = mask 32" by (simp add: INDEX_MASK_def mask_eq_exp_minus_1)
  then have "bit INDEX_MASK n = bit (mask 32 :: u64) n" by simp
  then show ?thesis unfolding bit_mask_iff by auto
qed
lemma max_offset: "MAX_OFFSET = mask 63"
  by (rule bit_word_eqI) (auto simp: MAX_OFFSET_def bit_lock bit_simps)
lemma is_locked_bit: "is_locked x \<longleftrightarrow> bit x 63"
  unfolding is_locked_def bit_eq_iff [of "x AND WRAP_LOCK_BIT" 0]
  by (simp add: bit_and_iff bit_lock)

lemma not_locked: "unat x < 2 ^ 63 \<Longrightarrow> \<not> is_locked x"
  using small_bit [of x 63 63] by (simp add: is_locked_bit)
lemma buffer_index_small: "unat x < 2 ^ 32 \<Longrightarrow> buffer_index x = x"
  by (rule bit_word_eqI) (use small_bit [of x 32] in \<open>auto simp: buffer_index_def bit_index bit_and_iff not_less [symmetric]\<close>)
lemma unlock_small: "unat x < 2 ^ 63 \<Longrightarrow> unlock_wrap_bit x = x"
  by (rule bit_word_eqI) (use small_bit [of x 63] in \<open>auto simp: unlock_wrap_bit_def bit_lock bit_simps\<close>)
lemma unlock_lock: "unat x < 2 ^ 63 \<Longrightarrow> unlock_wrap_bit (lock_wrap_bit x) = x"
  by (rule bit_word_eqI) (use small_bit [of x 63] in \<open>auto simp: unlock_wrap_bit_def lock_wrap_bit_def bit_lock bit_simps\<close>)
lemma index_lock: "unat x < 2 ^ 32 \<Longrightarrow> buffer_index (lock_wrap_bit x) = x"
  by (rule bit_word_eqI) (use small_bit [of x 32] in \<open>auto simp: buffer_index_def lock_wrap_bit_def bit_lock bit_index bit_simps  not_less [symmetric]\<close>)
lemma locked_lock: "is_locked (lock_wrap_bit x)"
  by (simp add: is_locked_bit lock_wrap_bit_def bit_lock bit_or_iff)
lemma unat_max: "unat MAX_OFFSET = 2 ^ 63 - 1"
  by (simp add: max_offset mask_eq_exp_minus_1)

section \<open>The offsets as numbers\<close>

abbreviation nx :: "ring \<Rightarrow> nat" where "nx r \<equiv> unat (producer_barrier r)"
abbreviation wr :: "ring \<Rightarrow> nat" where "wr r \<equiv> unat (consumer_barrier r)"
abbreviation cap_of :: "ring \<Rightarrow> nat" where "cap_of r \<equiv> unat (capacity r)"
abbreviation en :: "ring \<Rightarrow> nat" where "en r \<equiv> unat (end_mark r)"

text \<open>Between operations: indices are inside the buffer and carry no lock bit and no wrap
  counter, and the end mark is set exactly while the data wraps around before the capacity.\<close>

definition ring_wf :: "ring \<Rightarrow> bool" where
  "ring_wf r \<longleftrightarrow> cap_of r < 2 ^ 32 \<and> nx r < cap_of r \<and> wr r < cap_of r \<and>
     length (buffer r) = cap_of r \<and>
     (wr r \<le> nx r \<longrightarrow> end_mark r = MAX_OFFSET) \<and>
     (nx r < wr r \<longrightarrow> end_mark r = MAX_OFFSET \<or> (wr r \<le> en r \<and> en r < cap_of r))"

definition place :: "nat \<Rightarrow> nat \<Rightarrow> nat \<Rightarrow> nat \<Rightarrow> (nat \<times> nat \<times> bool) option" where
  "place cap n w len =
     (if n < w then (if n + len < w then Some (n, n + len, False) else None)
      else if n + len < cap then Some (n, n + len, False)
      else if n + len = cap then (if 0 < w then Some (n, 0, False) else None)
      else if len < w then Some (0, len, True) else None)"

lemma unat_add_small: "unat a + unat b < 2 ^ 64 \<Longrightarrow> unat (a + b :: u64) = unat a + unat b"
  by (simp add: unat_add_lem [THEN iffD1])

lemma acq_target_place:
  assumes "unat cap < 2 ^ 32" and "unat sn < unat cap" and "unat len \<le> unat cap"
    and "unat w < unat cap"
  shows "acq_target cap sn len w =
    (case place (unat cap) (unat sn) (unat w) (unat len) of
       None \<Rightarrow> None
     | Some (a, n', wrap) \<Rightarrow> Some (if wrap then lock_wrap_bit len else of_nat n'))"
proof -
  have s: "unat (sn + len) = unat sn + unat len" using assms by (intro unat_add_small) simp
  have i: "buffer_index sn = sn" using assms by (intro buffer_index_small) simp
  have l: "buffer_index (lock_wrap_bit len) = len" using assms by (intro index_lock) simp
  have z: "buffer_index 0 = 0" by (simp add: buffer_index_small)
  show ?thesis
    using assms s i l z
    by (auto simp: acq_target_def place_def Let_def set_wrap_counter_def word_less_nat_alt
        word_le_nat_alt s simp flip: s)
qed

lemma place_bounds:
  assumes "place cap n w len = Some (a, n', wrap)" and "n < cap" and "len \<le> cap" and "w < cap"
  shows "n' < cap" and "a + len \<le> cap" and "a < cap" and "wrap \<Longrightarrow> a = 0 \<and> n' = len \<and> w \<le> n"
    and "\<not> wrap \<Longrightarrow> a = n"
  using assms by (auto simp: place_def split: if_splits)

lemma worker_fields: "(w::worker)\<lparr>seen := s, registered := b\<rparr> = \<lparr>seen = s, registered = b\<rparr>"
  by (cases w) simp

lemma set_seen_simps [simp]:
  "capacity (set_seen i s r) = capacity r" "producer_barrier (set_seen i s r) = producer_barrier r"
  "end_mark (set_seen i s r) = end_mark r" "consumer_barrier (set_seen i s r) = consumer_barrier r"
  "buffer (set_seen i s r) = buffer r" "current (set_seen i s r) = consumer_barrier r"
  "length (workers (set_seen i s r)) = length (workers r)"
  by (simp_all add: set_seen_def current_def)

lemma set_seen_twice [simp]: "set_seen i s (set_seen i s' r) = set_seen i s r"
proof (cases "i < length (workers r)")
  case False
  then have "xs[i := x] = workers r" if "xs = workers r" for xs x
    using that by (simp add: list_update_beyond)
  then show ?thesis by (simp add: set_seen_def)
qed (simp add: set_seen_def)

lemma set_seen_nth [simp]:
  "i < length (workers r) \<Longrightarrow>
   workers (set_seen i s r) ! j = (if i = j then (workers r ! i)\<lparr>seen := s\<rparr> else workers r ! j)"
  by (simp add: set_seen_def)

lemma set_seen_same: "seen (workers r ! i) = s \<Longrightarrow> set_seen i s r = r"
  by (cases r; cases "i < length (workers r)") (auto simp: set_seen_def)

lemma stable_next_wf: "ring_wf r \<Longrightarrow> stable_next r = Inr (producer_barrier r)"
  by (simp add: ring_wf_def stable_next_def not_locked buffer_index_small word_less_nat_alt)

lemma set_seen_wf [simp]: "ring_wf (set_seen i s r) = ring_wf r"
  by (simp add: ring_wf_def)

definition placed :: "nat \<Rightarrow> (nat \<times> nat \<times> bool) option \<Rightarrow> ring \<Rightarrow> u64 option \<times> ring" where
  "placed i p r =
     (case p of
        None \<Rightarrow> (None, set_seen i MAX_OFFSET r)
      | Some (a, n', wrap) \<Rightarrow>
          (Some (of_nat a), (set_seen i (producer_barrier r) r)
             \<lparr>producer_barrier := of_nat n',
              end_mark := (if wrap then producer_barrier r else end_mark r)\<rparr>))"

lemma acq_commit_placed:
  assumes wf: "ring_wf r" and i: "i < length (workers r)" and len: "unat len \<le> cap_of r"
    and p: "place (cap_of r) (nx r) (wr r) (unat len) = Some (a, n', wrap)"
  shows "acq_commit i (producer_barrier r) (if wrap then lock_wrap_bit len else of_nat n')
           ((set_seen i (lock_wrap_bit (producer_barrier r)) r)
              \<lparr>producer_barrier := (if wrap then lock_wrap_bit len else of_nat n')\<rparr>)
         = Inr (of_nat a, snd (placed i (Some (a, n', wrap)) r))"
proof -
  have cap: "cap_of r < 2 ^ 32" "nx r < cap_of r" "wr r < cap_of r" using wf by (simp_all add: ring_wf_def)
  note b = place_bounds [OF p cap(2) len cap(3)]
  have u: "unlock_wrap_bit (lock_wrap_bit (producer_barrier r)) = producer_barrier r"
    "unlock_wrap_bit (lock_wrap_bit len) = len" "buffer_index (lock_wrap_bit len) = len"
    using cap len by (simp_all add: unlock_lock index_lock)
  show ?thesis
  proof (cases wrap)
    case True
    with b cap have "a = 0" "n' = unat len" "wr r \<le> nx r" by simp_all
    with True wf i u len show ?thesis
      by (simp add: acq_commit_def placed_def Let_def locked_lock ring_wf_def word_le_nat_alt
          set_seen_def current_def)
  next
    case False
    with b cap have "a = nx r" "unat (of_nat n' :: u64) = n'" "n' < cap_of r"
      by (simp_all add: unat_of_nat take_bit_nat_eq_self)
    with False wf i u cap show ?thesis
      by (simp add: acq_commit_def placed_def Let_def not_locked buffer_index_small word_le_nat_alt
          set_seen_def current_def)
  qed
qed

declare acq_loop.simps [simp del]

lemma acq_round:
  assumes wf: "ring_wf r" and i: "i < length (workers r)" and len: "unat len \<le> cap_of r"
  shows "place (cap_of r) (nx r) (wr r) (unat len) = None \<Longrightarrow>
           acq_loop k i len r = Inr (placed i None r)"
    and "place (cap_of r) (nx r) (wr r) (unat len) = Some (a, n', wrap) \<Longrightarrow>
           acq_loop 0 i len r = Inr (placed i (Some (a, n', wrap)) r)"
    and "place (cap_of r) (nx r) (wr r) (unat len) = Some (a, n', wrap) \<Longrightarrow>
           acq_loop (Suc k) i len r
             = acq_loop k i len (set_seen i (lock_wrap_bit (producer_barrier r)) r)"
proof -
  have cap: "cap_of r < 2 ^ 32" "nx r < cap_of r" "wr r < cap_of r"
    using wf by (simp_all add: ring_wf_def)
  note t = acq_target_place [OF cap(1,2) len cap(3)]
  have n: "buffer_index (producer_barrier r) = producer_barrier r" "producer_barrier r < capacity r"
    using cap by (simp_all add: buffer_index_small word_less_nat_alt)
  show "acq_loop k i len r = Inr (placed i None r)"
    if "place (cap_of r) (nx r) (wr r) (unat len) = None"
    using that n wf by (subst acq_loop.simps) (simp add: stable_next_wf t placed_def)
  assume p: "place (cap_of r) (nx r) (wr r) (unat len) = Some (a, n', wrap)"
  show "acq_loop (Suc k) i len r
             = acq_loop k i len (set_seen i (lock_wrap_bit (producer_barrier r)) r)"
    using p n wf by (subst acq_loop.simps) (simp add: stable_next_wf t)
  show "acq_loop 0 i len r = Inr (placed i (Some (a, n', wrap)) r)"
    using p n wf acq_commit_placed [OF wf i len p]
    by (subst acq_loop.simps) (simp add: stable_next_wf t acq_cas_def placed_def Let_def)
qed

lemma acq_loop_placed:
  assumes wf: "ring_wf r" and i: "i < length (workers r)" and len: "unat len \<le> cap_of r"
  shows "acq_loop k i len r = Inr (placed i (place (cap_of r) (nx r) (wr r) (unat len)) r)"
  using wf i len
proof (induction k arbitrary: r)
  case (Suc k)
  have "acq_loop k i len (set_seen i (lock_wrap_bit (producer_barrier r)) r)
      = Inr (placed i (place (cap_of r) (nx r) (wr r) (unat len)) r)"
    using Suc.IH [of "set_seen i (lock_wrap_bit (producer_barrier r)) r"] Suc.prems
    by (simp add: placed_def split: option.splits prod.splits)
  with acq_round [OF Suc.prems] show ?case
    by (cases "place (cap_of r) (nx r) (wr r) (unat len)") (auto simp del: split_paired_All)
next
  case 0
  with acq_round [OF 0] show ?case
    by (cases "place (cap_of r) (nx r) (wr r) (unat len)") auto
qed

section \<open>The queue of live offsets\<close>

text \<open>\<open>top_of\<close> is where the data at the consumer's offset ends; \<open>live\<close> lists the offsets
  acquired and not released, oldest first.\<close>

definition top_of :: "ring \<Rightarrow> nat" where
  "top_of r = (if wr r \<le> nx r then nx r else min (cap_of r) (en r))"

definition live :: "ring \<Rightarrow> nat list" where
  "live r = (if wr r \<le> nx r then [wr r..<nx r] else [wr r..<top_of r] @ [0..<nx r])"

lemma live_run: "\<exists>m. live r = [wr r..<top_of r] @ [0..<m]"
proof (cases "wr r \<le> nx r")
  case True
  then show ?thesis by (intro exI [of _ 0]) (simp add: live_def top_of_def)
qed (auto simp: live_def)

lemma live_distinct: "ring_wf r \<Longrightarrow> distinct (live r)"
  by (auto simp: live_def)

lemma live_in_buffer: "ring_wf r \<Longrightarrow> k \<in> set (live r) \<Longrightarrow> k < length (buffer r)"
  by (auto simp: live_def ring_wf_def top_of_def split: if_splits)

lemma en_max [simp]: "end_mark r = MAX_OFFSET \<Longrightarrow> en r = 2 ^ 63 - 1"
  by (simp add: unat_max)

definition after_place :: "nat \<Rightarrow> nat \<Rightarrow> bool \<Rightarrow> nat \<Rightarrow> ring \<Rightarrow> ring" where
  "after_place a n' wrap i r = snd (placed i (Some (a, n', wrap)) r)"

lemma after_place_simps [simp]:
  "capacity (after_place a n' wrap i r) = capacity r"
  "producer_barrier (after_place a n' wrap i r) = of_nat n'"
  "consumer_barrier (after_place a n' wrap i r) = consumer_barrier r"
  "end_mark (after_place a n' wrap i r) = (if wrap then producer_barrier r else end_mark r)"
  "buffer (after_place a n' wrap i r) = buffer r"
  "workers (after_place a n' wrap i r) = workers (set_seen i (producer_barrier r) r)"
  by (simp_all add: after_place_def placed_def)

lemma after_place_nx:
  assumes "ring_wf r" and "place (cap_of r) (nx r) (wr r) len = Some (a, n', wrap)" and "len \<le> cap_of r"
  shows "unat (of_nat n' :: u64) = n'"
proof -
  have "n' < cap_of r" "cap_of r < 2 ^ 32"
    using place_bounds(1) [OF assms(2) _ assms(3)] assms(1) unfolding ring_wf_def by blast+
  then show ?thesis by (simp add: unat_of_nat take_bit_nat_eq_self)
qed

lemma place_cases:
  assumes "place cap n w len = Some (a, n', wrap)"
  obtains (behind) "n < w" "n + len < w" "a = n" "n' = n + len" "\<not> wrap"
  | (ahead) "w \<le> n" "n + len < cap" "a = n" "n' = n + len" "\<not> wrap"
  | (exact) "w \<le> n" "n + len = cap" "0 < w" "a = n" "n' = 0" "\<not> wrap"
  | (wraps) "w \<le> n" "cap < n + len" "len < w" "a = 0" "n' = len" "wrap"
  using assms by (auto simp: place_def split: if_splits)

lemma place_wf:
  assumes wf: "ring_wf r" and p: "place (cap_of r) (nx r) (wr r) len = Some (a, n', wrap)"
    and len: "len \<le> cap_of r"
  shows "ring_wf (after_place a n' wrap i r)"
  using p
proof (cases rule: place_cases)
  case behind
  with wf after_place_nx [OF wf p len] show ?thesis by (simp add: ring_wf_def)
next
  case ahead
  with wf after_place_nx [OF wf p len] show ?thesis by (simp add: ring_wf_def)
next
  case exact
  with wf show ?thesis by (simp add: ring_wf_def)
next
  case wraps
  with wf after_place_nx [OF wf p len] show ?thesis by (simp add: ring_wf_def)
qed

lemma upt_split: "i \<le> j \<Longrightarrow> [i..<j + k] = [i..<j] @ [j..<j + k]"
  by (rule upt_add_eq_append)

lemma place_live:
  assumes wf: "ring_wf r" and p: "place (cap_of r) (nx r) (wr r) len = Some (a, n', wrap)"
    and len: "len \<le> cap_of r" and pos: "0 < len"
  shows "live (after_place a n' wrap i r) = live r @ [a..<a + len]"
    and "top_of (after_place a n' wrap i r) = (if a = nx r \<and> wr r \<le> nx r then nx r + len else top_of r)"
proof -
  note n = after_place_nx [OF wf p len]
  from wf have c: "cap_of r < 2 ^ 32" "nx r < cap_of r" "wr r < cap_of r"
    "wr r \<le> nx r \<Longrightarrow> en r = 2 ^ 63 - 1" by (simp_all add: ring_wf_def unat_max)
  have "live (after_place a n' wrap i r) = live r @ [a..<a + len] \<and>
    top_of (after_place a n' wrap i r) = (if a = nx r \<and> wr r \<le> nx r then nx r + len else top_of r)"
    using p
  proof (cases rule: place_cases)
    case behind
    with n show ?thesis by (simp add: live_def top_of_def upt_split [of 0 "nx r" len])
  next
    case ahead
    with n show ?thesis by (simp add: live_def top_of_def upt_split [of "wr r" "nx r" len])
  next
    case exact
    with c have m: "min (cap_of r) (en r) = nx r + len" by (simp add: min_def)
    from exact have w: "wr r \<le> nx r" "0 < wr r" "a = nx r" "\<not> wrap" "n' = 0" by blast+
    from w m pos show ?thesis by (simp add: live_def top_of_def upt_split [of "wr r" "nx r" len])
  next
    case wraps
    with n c show ?thesis by (simp add: live_def top_of_def min_def)
  qed
  then show "live (after_place a n' wrap i r) = live r @ [a..<a + len]"
    and "top_of (after_place a n' wrap i r) = (if a = nx r \<and> wr r \<le> nx r then nx r + len else top_of r)"
    by blast+
qed

section \<open>One consumer and any number of producers\<close>

text \<open>\<open>pending\<close> holds the region each worker acquired and has not produced, \<open>granted\<close> how
  many bytes of the last \<open>consume\<close> are not released yet. A client registers and unregisters a
  worker only between its acquire and produce, acquires a positive size, writes inside its
  region, and releases at most what it was granted.\<close>

record ring_sys =
  rng :: ring
  pending :: "nat \<Rightarrow> (nat \<times> nat) option"
  granted :: nat

definition ring_start :: "u64 \<Rightarrow> u32 \<Rightarrow> ring_sys" where
  "ring_start cap n = \<lparr>rng = ring_new cap n, pending = (\<lambda>_. None), granted = 0\<rparr>"

inductive ring_step :: "ring_sys \<Rightarrow> ring_sys \<Rightarrow> bool" where
  r_register: "pending s i = None \<Longrightarrow> register_worker i (rng s) = Inr r \<Longrightarrow>
     ring_step s (s\<lparr>rng := r\<rparr>)"
| r_unregister: "pending s i = None \<Longrightarrow> ring_step s (s\<lparr>rng := unregister_worker i (rng s)\<rparr>)"
| r_acquire: "i < length (workers (rng s)) \<Longrightarrow> registered (workers (rng s) ! i) \<Longrightarrow>
     pending s i = None \<Longrightarrow> 0 < len \<Longrightarrow> acquire k i len (rng s) = Inr (Some a, r) \<Longrightarrow>
     ring_step s (s\<lparr>rng := r, pending := (pending s)(i \<mapsto> (unat a, unat len))\<rparr>)"
| r_refused: "i < length (workers (rng s)) \<Longrightarrow> registered (workers (rng s) ! i) \<Longrightarrow>
     pending s i = None \<Longrightarrow> 0 < len \<Longrightarrow> acquire k i len (rng s) = Inr (None, r) \<Longrightarrow>
     ring_step s (s\<lparr>rng := r\<rparr>)"
| r_write: "pending s i = Some (a, l) \<Longrightarrow> j < l \<Longrightarrow>
     ring_step s (s\<lparr>rng := (rng s)\<lparr>buffer := (buffer (rng s))[a + j := b]\<rparr>\<rparr>)"
| r_produce: "pending s i = Some (a, l) \<Longrightarrow> produce i (rng s) = Inr r \<Longrightarrow>
     ring_step s (s\<lparr>rng := r, pending := (pending s)(i := None)\<rparr>)"
| r_consume: "consume (rng s) = Inr (n, adr, r) \<Longrightarrow>
     ring_step s (s\<lparr>rng := r, granted := unat n\<rparr>)"
| r_release: "unat n \<le> granted s \<Longrightarrow> release n (rng s) = Inr r \<Longrightarrow>
     ring_step s (s\<lparr>rng := r, granted := granted s - unat n\<rparr>)"

inductive ring_reachable :: "u64 \<Rightarrow> u32 \<Rightarrow> ring_sys \<Rightarrow> bool" for cap n where
  ring_init: "ring_reachable cap n (ring_start cap n)"
| ring_next: "ring_reachable cap n s \<Longrightarrow> ring_step s t \<Longrightarrow> ring_reachable cap n t"

inductive_cases ring_step_cases: "ring_step s t"

text \<open>Where the region of a pending worker lies, and what its \<open>_seen\<close> tells the consumer.\<close>

definition region_ok :: "ring \<Rightarrow> nat \<Rightarrow> nat \<Rightarrow> nat \<Rightarrow> bool" where
  "region_ok r g a l \<longleftrightarrow> 0 < l \<and>
     ((wr r + g \<le> a \<and> a + l \<le> top_of r) \<or> (nx r < wr r \<and> a + l \<le> nx r))"

definition seen_ok :: "ring \<Rightarrow> nat \<Rightarrow> nat \<Rightarrow> bool" where
  "seen_ok r a s \<longleftrightarrow> s = a \<or> (a = 0 \<and> nx r < wr r \<and> s = en r \<and> en r < cap_of r)"

definition worker_ok :: "ring \<Rightarrow> nat \<Rightarrow> (nat \<times> nat) option \<Rightarrow> worker \<Rightarrow> bool" where
  "worker_ok r g p w \<longleftrightarrow>
     (case p of
        None \<Rightarrow> registered w \<longrightarrow> seen w = MAX_OFFSET
      | Some (a, l) \<Rightarrow> registered w \<and> region_ok r g a l \<and> seen_ok r a (unat (seen w)))"

definition ring_inv :: "ring_sys \<Rightarrow> bool" where
  "ring_inv s \<longleftrightarrow> ring_wf (rng s) \<and> wr (rng s) + granted s \<le> top_of (rng s) \<and>
     (\<forall>i < length (workers (rng s)).
        worker_ok (rng s) (granted s) (pending s i) (workers (rng s) ! i)) \<and>
     (\<forall>i. length (workers (rng s)) \<le> i \<longrightarrow> pending s i = None)"

subsection \<open>The scan of the workers\<close>

lemma unat_min: "unat (min a b) = min (unat a) (unat (b :: u64))"
  by (simp add: min_def word_le_nat_alt)

lemma scan_ready_spec:
  assumes "\<And>w. w \<in> set ws \<Longrightarrow> registered w \<Longrightarrow> unat (seen w) < 2 ^ 63" and "written \<le> ready"
  shows "\<exists>rd. scan_ready written ws ready = Inr rd \<and> written \<le> rd \<and> rd \<le> ready \<and>
    (\<forall>w \<in> set ws. registered w \<longrightarrow> written \<le> seen w \<longrightarrow> rd \<le> seen w) \<and>
    (rd = ready \<or> (\<exists>w \<in> set ws. registered w \<and> written \<le> seen w \<and> rd = seen w))"
  using assms
proof (induction ws arbitrary: ready)
  case (Cons w ws)
  show ?case
  proof (cases "registered w \<and> written \<le> seen w")
    case True
    with Cons.prems have m: "written \<le> min (seen w) ready" "\<not> is_locked (seen w)"
      using not_locked [of "seen w"] by (simp_all add: min_def)
    from Cons.IH [OF Cons.prems(1) m(1)] obtain rd where
      "scan_ready written ws (min (seen w) ready) = Inr rd" "written \<le> rd" "rd \<le> min (seen w) ready"
      "\<forall>w \<in> set ws. registered w \<longrightarrow> written \<le> seen w \<longrightarrow> rd \<le> seen w"
      "rd = min (seen w) ready \<or> (\<exists>w \<in> set ws. registered w \<and> written \<le> seen w \<and> rd = seen w)"
      by auto
    with True m show ?thesis
      by (auto simp: stable_seen_def Let_def not_less min_def split: if_splits)
  next
    case False
    from Cons.IH [OF Cons.prems(1,2)] obtain rd where
      "scan_ready written ws ready = Inr rd" "written \<le> rd" "rd \<le> ready"
      "\<forall>w \<in> set ws. registered w \<longrightarrow> written \<le> seen w \<longrightarrow> rd \<le> seen w"
      "rd = ready \<or> (\<exists>w \<in> set ws. registered w \<and> written \<le> seen w \<and> rd = seen w)"
      by auto
    with False Cons.prems not_locked [of "seen w"] show ?thesis
      by (cases "registered w") (auto simp: stable_seen_def Let_def not_less)
  qed
qed simp

lemma ring_inv_worker:
  assumes "ring_inv s" and "w \<in> set (workers (rng s))" and "registered w"
  obtains "seen w = MAX_OFFSET"
  | i a l where "pending s i = Some (a, l)" "region_ok (rng s) (granted s) a l"
      "seen_ok (rng s) a (unat (seen w))" "w = workers (rng s) ! i"
proof -
  from assms(2) obtain i where i: "i < length (workers (rng s))" "w = workers (rng s) ! i"
    by (metis in_set_conv_nth)
  with assms(1) have "worker_ok (rng s) (granted s) (pending s i) w" by (auto simp: ring_inv_def)
  with i assms(3) that show thesis by (auto simp: worker_ok_def split: option.splits)
qed

lemma region_small:
  assumes "ring_wf r" and "region_ok r g a l"
  shows "a + l \<le> cap_of r" and "a < cap_of r" and "unat (capacity r) < 2 ^ 32"
  using assms by (auto simp: ring_wf_def region_ok_def top_of_def split: if_splits)

lemma ring_inv_seen_small:
  assumes "ring_inv s" and "w \<in> set (workers (rng s))" and "registered w"
  shows "unat (seen w) < 2 ^ 63"
  using assms
proof (cases rule: ring_inv_worker)
  case (2 i a l)
  from region_small [OF _ 2(2)] assms(1) 2(3) show ?thesis by (auto simp: ring_inv_def seen_ok_def)
qed (simp add: unat_max)

lemma ring_inv_pending:
  assumes "ring_inv s" and "pending s i = Some (a, l)"
  shows "workers (rng s) ! i \<in> set (workers (rng s))" and "registered (workers (rng s) ! i)"
    and "region_ok (rng s) (granted s) a l" and "seen_ok (rng s) a (unat (seen (workers (rng s) ! i)))"
    and "i < length (workers (rng s))"
proof -
  show "i < length (workers (rng s))" using assms unfolding ring_inv_def by (metis leI option.distinct(1))
  then show "workers (rng s) ! i \<in> set (workers (rng s))" by simp
  have "worker_ok (rng s) (granted s) (pending s i) (workers (rng s) ! i)"
    using \<open>i < length (workers (rng s))\<close> assms(1) by (simp add: ring_inv_def)
  then show "registered (workers (rng s) ! i)" "region_ok (rng s) (granted s) a l"
    "seen_ok (rng s) a (unat (seen (workers (rng s) ! i)))"
    using assms(2) by (simp_all add: worker_ok_def)
qed

text \<open>What a scan tells: no pending region is between the consumer's offset and the result.\<close>

lemma scan_pending:
  assumes inv: "ring_inv s"
  obtains rd where "scan_ready (consumer_barrier (rng s)) (workers (rng s)) MAX_OFFSET = Inr rd"
    "wr (rng s) \<le> unat rd" "unat rd \<le> unat MAX_OFFSET"
    "\<And>i a l. pending s i = Some (a, l) \<Longrightarrow>
       wr (rng s) \<le> unat (seen (workers (rng s) ! i)) \<Longrightarrow> unat rd \<le> unat (seen (workers (rng s) ! i))"
    "rd = MAX_OFFSET \<or> (\<exists>i a l. pending s i = Some (a, l) \<and> unat rd = unat (seen (workers (rng s) ! i)))"
proof -
  have le: "consumer_barrier (rng s) \<le> MAX_OFFSET"
    using inv by (simp add: ring_inv_def ring_wf_def word_le_nat_alt unat_max)
  from scan_ready_spec [OF ring_inv_seen_small [OF inv] le] obtain rd where rd:
    "scan_ready (consumer_barrier (rng s)) (workers (rng s)) MAX_OFFSET = Inr rd"
    "consumer_barrier (rng s) \<le> rd" "rd \<le> MAX_OFFSET"
    "\<forall>w \<in> set (workers (rng s)). registered w \<longrightarrow> consumer_barrier (rng s) \<le> seen w \<longrightarrow> rd \<le> seen w"
    "rd = MAX_OFFSET \<or> (\<exists>w \<in> set (workers (rng s)). registered w \<and> rd = seen w)"
    by blast
  show thesis
  proof (rule that [OF rd(1)])
    show "wr (rng s) \<le> unat rd" "unat rd \<le> unat MAX_OFFSET" using rd(2,3) by (simp_all add: word_le_nat_alt)
    show "unat rd \<le> unat (seen (workers (rng s) ! i))"
      if "pending s i = Some (a, l)" "wr (rng s) \<le> unat (seen (workers (rng s) ! i))" for i a l
      using rd(4) ring_inv_pending(1,2) [OF inv that(1)] that(2) by (simp add: word_le_nat_alt)
    show "rd = MAX_OFFSET \<or> (\<exists>i a l. pending s i = Some (a, l) \<and> unat rd = unat (seen (workers (rng s) ! i)))"
      using rd(5) ring_inv_worker [OF inv] by metis
  qed
qed

lemma region_ok_grant:
  assumes "region_ok r g a l" and "seen_ok r a x" and "wr r \<le> x \<Longrightarrow> wr r + n \<le> x"
  shows "region_ok r n a l"
  using assms by (auto simp: region_ok_def seen_ok_def)

definition grants :: "ring_sys \<Rightarrow> ring \<Rightarrow> nat \<Rightarrow> bool" where
  "grants s r n \<longleftrightarrow> wr r + n \<le> top_of r \<and>
     (\<forall>i a l. pending s i = Some (a, l) \<longrightarrow> region_ok r n a l) \<and>
     (n = top_of r - wr r \<or> (\<exists>i a l. pending s i = Some (a, l) \<and> a = wr r + n)) \<and>
     ((\<forall>i. pending s i = None) \<longrightarrow> n = top_of r - wr r \<and> (live r \<noteq> [] \<longrightarrow> 0 < n))"

lemma consume_check_ok:
  assumes "wr r \<le> unat e" and "unat e \<le> cap_of r"
  shows "consume_check (consumer_barrier r) e r
    = Inr (Got (e - consumer_barrier r) (Some (consumer_barrier r)), r)"
proof -
  have "unat (e - consumer_barrier r) = unat e - wr r"
    using assms(1) by (subst unat_sub) (simp_all add: word_le_nat_alt)
  with assms show ?thesis by (simp add: consume_check_def word_less_nat_alt)
qed

lemma consume_iter_spec:
  assumes inv: "ring_inv s"
  shows "(\<exists>n a. consume_iter (current (rng s)) (rng s) = Inr (Got n a, rng s) \<and>
            grants s (rng s) (unat n) \<and> (0 < unat n \<longrightarrow> a = Some (consumer_barrier (rng s))))
       \<or> (consume_iter (current (rng s)) (rng s) =
            Inr (Wrapped, (rng s)\<lparr>end_mark := MAX_OFFSET, consumer_barrier := 0\<rparr>) \<and>
          nx (rng s) < wr (rng s) \<and> wr (rng s) = top_of (rng s) \<and>
          (\<forall>i a l. pending s i = Some (a, l) \<longrightarrow> unat (seen (workers (rng s) ! i)) < wr (rng s)))"
proof -
  let ?r = "rng s"
  from inv have wf: "ring_wf ?r" by (simp add: ring_inv_def)
  then have c: "cap_of ?r < 2 ^ 32" "nx ?r < cap_of ?r" "wr ?r < cap_of ?r" by (simp_all add: ring_wf_def)
  then have idx: "buffer_index (producer_barrier ?r) = producer_barrier ?r"
    by (simp add: buffer_index_small)
  obtain rd where rd: "scan_ready (consumer_barrier ?r) (workers ?r) MAX_OFFSET = Inr rd"
    "wr ?r \<le> unat rd" "unat rd \<le> unat MAX_OFFSET"
    "\<And>i a l. pending s i = Some (a, l) \<Longrightarrow>
       wr ?r \<le> unat (seen (workers ?r ! i)) \<Longrightarrow> unat rd \<le> unat (seen (workers ?r ! i))"
    "rd = MAX_OFFSET \<or> (\<exists>i a l. pending s i = Some (a, l) \<and> unat rd = unat (seen (workers ?r ! i)))"
    by (rule scan_pending [OF inv]) blast
  have quiet: "rd = MAX_OFFSET" if "\<And>i. pending s i = None" using rd(5) that by auto
  consider (empty) "wr ?r = nx ?r" | (linear) "wr ?r < nx ?r" | (wrapped) "nx ?r < wr ?r" by linarith
  then show ?thesis
  proof cases
    case empty
    then have "consumer_barrier ?r = producer_barrier ?r" by (simp add: word_unat_eq_iff)
    then have "consume_iter (current ?r) ?r = Inr (Got 0 None, ?r)"
      by (simp add: consume_iter_def current_def stable_next_wf [OF wf] idx)
    moreover have "grants s ?r 0"
      using empty
      by (auto simp: grants_def top_of_def live_def region_ok_def dest!: ring_inv_pending(3) [OF inv])
    ultimately show ?thesis by auto
  next
    case linear
    let ?n = "min rd (producer_barrier ?r) - consumer_barrier ?r"
    have n: "unat ?n = min (unat rd) (nx ?r) - wr ?r"
      using linear rd(2) by (subst unat_sub) (simp_all add: word_le_nat_alt unat_min)
    have "consume_iter (current ?r) ?r = Inr (Got ?n (Some (consumer_barrier ?r)), ?r)"
      using linear rd(1,2) c consume_check_ok [of ?r "min rd (producer_barrier ?r)"]
      by (simp add: consume_iter_def current_def stable_next_wf [OF wf] idx
          word_less_nat_alt word_unat_eq_iff unat_min Let_def)
    moreover have "grants s ?r (unat ?n)"
      unfolding grants_def
    proof (intro conjI allI impI)
      fix i a l assume p: "pending s i = Some (a, l)"
      show "region_ok ?r (unat ?n) a l"
        using ring_inv_pending(3,4) [OF inv p] by (rule region_ok_grant) (use rd(2) rd(4) [OF p] n linear in \<open>auto simp: min_def\<close>)
    next
      show "unat ?n = top_of ?r - wr ?r \<or> (\<exists>i a l. pending s i = Some (a, l) \<and> a = wr ?r + unat ?n)"
      proof (cases "unat rd < nx ?r")
        case True
        then have "unat rd \<noteq> unat MAX_OFFSET" using c by (simp add: unat_max)
        then obtain i a l where p: "pending s i = Some (a, l)" "unat rd = unat (seen (workers ?r ! i))" using rd(5) by auto
        have "a = unat rd" using ring_inv_pending(4) [OF inv p(1)] p(2) linear by (auto simp: seen_ok_def)
        with p(1) True n rd(2) linear show ?thesis by auto
      qed (use n linear in \<open>simp add: top_of_def\<close>)
    qed (use linear rd(1-4) quiet n c in \<open>auto simp: top_of_def live_def unat_max\<close>)
    ultimately show ?thesis by auto
  next
    case wrapped
    let ?e = "min (capacity ?r) (end_mark ?r)"
    have e: "unat ?e = top_of ?r" "wr ?r \<le> top_of ?r" "top_of ?r < 2 ^ 32"
      using wrapped wf by (auto simp: unat_min top_of_def ring_wf_def unat_max)
    show ?thesis
    proof (cases "rd = MAX_OFFSET \<and> wr ?r = top_of ?r")
      case True
      then have eq: "?e = consumer_barrier ?r" using e by (simp add: word_unat_eq_iff)
      have lt: "producer_barrier ?r < consumer_barrier ?r" "consumer_barrier ?r \<noteq> producer_barrier ?r"
        using wrapped by (auto simp: word_less_nat_alt)
      have m: "(if end_mark ?r \<noteq> MAX_OFFSET then MAX_OFFSET else end_mark ?r) = MAX_OFFSET" by simp
      have "consume_iter (current ?r) ?r
          = Inr (Wrapped, ?r\<lparr>end_mark := MAX_OFFSET, consumer_barrier := 0\<rparr>)"
        unfolding consume_iter_def current_def stable_next_wf [OF wf] sum.case Let_def idx m eq rd(1)
        using lt True by simp
      moreover have "unat (seen (workers ?r ! i)) < wr ?r" if "pending s i = Some (a, l)" for i a l
      proof (rule ccontr)
        assume "\<not> ?thesis"
        then have "unat MAX_OFFSET \<le> unat (seen (workers ?r ! i))" using rd(4) [OF that] True by simp
        moreover have "a < cap_of ?r" using region_small(2) [OF wf ring_inv_pending(3) [OF inv that]] .
        ultimately show False using ring_inv_pending(4) [OF inv that] c
          by (auto simp: seen_ok_def unat_max)
      qed
      ultimately show ?thesis using True wrapped by blast
    next
      case False
      let ?n = "min rd ?e - consumer_barrier ?r"
      have n: "unat ?n = min (unat rd) (top_of ?r) - wr ?r"
        using rd(2) e by (subst unat_sub) (simp_all add: word_le_nat_alt unat_min)
      have m: "\<not> (rd = MAX_OFFSET \<and> consumer_barrier ?r = ?e)" using False e by auto
      have "consume_iter (current ?r) ?r = Inr (Got ?n (Some (consumer_barrier ?r)), ?r)"
        using wrapped rd(1,2) c e m consume_check_ok [of ?r "min rd ?e"]
        by (auto simp: consume_iter_def current_def stable_next_wf [OF wf] idx
            word_less_nat_alt unat_min Let_def)
      moreover have "grants s ?r (unat ?n)"
        unfolding grants_def
      proof (intro conjI allI impI)
        fix i a l assume p: "pending s i = Some (a, l)"
        show "region_ok ?r (unat ?n) a l"
          using ring_inv_pending(3,4) [OF inv p] by (rule region_ok_grant) (use rd(2) rd(4) [OF p] n e(2) in \<open>auto simp: min_def\<close>)
      next
        show "unat ?n = top_of ?r - wr ?r \<or> (\<exists>i a l. pending s i = Some (a, l) \<and> a = wr ?r + unat ?n)"
        proof (cases "unat rd < top_of ?r")
          case True
          then have "unat rd \<noteq> unat MAX_OFFSET" using e by (simp add: unat_max)
          then obtain i a l where p: "pending s i = Some (a, l)" "unat rd = unat (seen (workers ?r ! i))" using rd(5) by auto
          have "top_of ?r \<le> en ?r" using wrapped by (simp add: top_of_def)
          then have "a = unat rd" using ring_inv_pending(4) [OF inv p(1)] p(2) True by (auto simp: seen_ok_def)
          with p(1) True n rd(2) show ?thesis by auto
        qed (use n in simp)
      qed (use wrapped rd(1-4) quiet n e False c in \<open>auto simp: live_def unat_max\<close>)
      ultimately show ?thesis by auto
    qed
  qed
qed

lemma consume_wrapped_inv:
  assumes inv: "ring_inv s" and wrap: "nx (rng s) < wr (rng s)" "wr (rng s) = top_of (rng s)"
    and seen: "\<And>i a l. pending s i = Some (a, l) \<Longrightarrow> unat (seen (workers (rng s) ! i)) < wr (rng s)"
  defines "r \<equiv> (rng s)\<lparr>end_mark := MAX_OFFSET, consumer_barrier := 0\<rparr>"
  shows "ring_inv (s\<lparr>rng := r, granted := 0\<rparr>)" and "live r = live (rng s)"
proof -
  show "live r = live (rng s)" using wrap by (simp add: live_def r_def)
  have ok: "region_ok r 0 a l \<and> seen_ok r a (unat (seen (workers (rng s) ! i)))"
    if "pending s i = Some (a, l)" for i a l
  proof -
    have r: "top_of r = nx (rng s)" "wr r = 0" by (simp_all add: r_def top_of_def)
    have "top_of (rng s) \<le> en (rng s)" using wrap(1) by (simp add: top_of_def)
    then have a: "unat (seen (workers (rng s) ! i)) = a" "a < wr (rng s)"
      using ring_inv_pending(4) [OF inv that] seen [OF that] wrap(2) by (auto simp: seen_ok_def)
    then have "0 < l" "a + l \<le> nx (rng s)"
      using ring_inv_pending(3) [OF inv that] by (auto simp: region_ok_def)
    with a r show ?thesis by (simp add: region_ok_def seen_ok_def)
  qed
  have "worker_ok r 0 (pending s i) (workers (rng s) ! i)" if "i < length (workers (rng s))" for i
  proof (cases "pending s i")
    case None
    with inv that show ?thesis unfolding ring_inv_def worker_ok_def by fastforce
  next
    case (Some p)
    then show ?thesis using ok [of i "fst p" "snd p"] ring_inv_pending(2) [OF inv, of i "fst p" "snd p"]
      by (cases p) (simp add: worker_ok_def)
  qed
  moreover have "ring_wf r" using inv wrap(1) by (simp add: ring_inv_def ring_wf_def r_def)
  ultimately show "ring_inv (s\<lparr>rng := r, granted := 0\<rparr>)"
    using inv by (simp add: ring_inv_def r_def top_of_def)
qed

lemma consume_spec:
  assumes inv: "ring_inv s"
  obtains n a r where "consume (rng s) = Inr (n, a, r)" "ring_inv (s\<lparr>rng := r, granted := unat n\<rparr>)"
    "live r = live (rng s)" "buffer r = buffer (rng s)" "grants s r (unat n)"
    "0 < unat n \<longrightarrow> a = Some (consumer_barrier r)" "nx r = nx (rng s)" "workers r = workers (rng s)"
proof -
  have got: "ring_inv (t\<lparr>granted := unat n\<rparr>)" if "ring_inv t" "grants t (rng t) (unat n)" for t n
    using that unfolding ring_inv_def grants_def worker_ok_def
    by (auto split: option.splits)
  have two: "consume (rng s) = (case consume_iter (current (rng s)) (rng s) of
      Inl e \<Rightarrow> Inl e | Inr (Got n a, r') \<Rightarrow> Inr (n, a, r') | Inr (Wrapped, r') \<Rightarrow> consume_loop (Suc 0) 0 r')"
    by (simp add: consume_def numeral_2_eq_2)
  from consume_iter_spec [OF inv] show thesis
  proof (elim disjE exE conjE)
    fix n a assume "consume_iter (current (rng s)) (rng s) = Inr (Got n a, rng s)"
      and "grants s (rng s) (unat n)" "0 < unat n \<longrightarrow> a = Some (consumer_barrier (rng s))"
    then show thesis using that [of n a "rng s"] two got [OF inv, of n] by simp
  next
    let ?r = "(rng s)\<lparr>end_mark := MAX_OFFSET, consumer_barrier := 0\<rparr>"
    let ?s = "s\<lparr>rng := ?r, granted := 0\<rparr>"
    assume w: "consume_iter (current (rng s)) (rng s) = Inr (Wrapped, ?r)"
      "nx (rng s) < wr (rng s)" "wr (rng s) = top_of (rng s)"
      "\<forall>i a l. pending s i = Some (a, l) \<longrightarrow> unat (seen (workers (rng s) ! i)) < wr (rng s)"
    then have inv': "ring_inv ?s" and live: "live ?r = live (rng s)"
      using consume_wrapped_inv [OF inv w(2,3)] by blast+
    have "\<not> nx ?r < wr ?r" by simp
    with consume_iter_spec [OF inv'] obtain n a where
      g: "consume_iter 0 ?r = Inr (Got n a, ?r)" "grants ?s ?r (unat n)"
         "0 < unat n \<longrightarrow> a = Some (consumer_barrier ?r)"
      by (auto simp: current_def)
    have "consume (rng s) = Inr (n, a, ?r)" using two w(1) g(1) by simp
    moreover have "ring_inv (s\<lparr>rng := ?r, granted := unat n\<rparr>)"
      using got [OF inv', of n] g(2) by simp
    moreover have "grants ?s ?r (unat n) = grants s ?r (unat n)" by (simp add: grants_def)
    then have "grants s ?r (unat n)" using g(2) by blast
    ultimately show thesis using that [of n a ?r] live g(3) by simp
  qed
qed

subsection \<open>Every step keeps the invariant\<close>

lemma ring_inv_start:
  assumes "0 < cap" and "unat cap < 2 ^ 32"
  shows "ring_inv (ring_start cap n)"
proof -
  have "0 < unat cap" using assms(1) by (simp add: word_less_nat_alt)
  with assms show ?thesis
    by (simp add: ring_inv_def ring_start_def ring_new_def ring_wf_def top_of_def worker_ok_def worker_new_def)
qed

lemma worker_ok_frame:
  assumes "ring_inv s" and "ring_wf r" and "wr r + g \<le> top_of r"
    and "length (workers r) = length (workers (rng s))"
    and "\<And>j. j < length (workers r) \<Longrightarrow> worker_ok r g (p j) (workers r ! j)"
    and "\<And>j. length (workers r) \<le> j \<Longrightarrow> p j = None"
  shows "ring_inv \<lparr>rng = r, pending = p, granted = g\<rparr>"
  using assms by (simp add: ring_inv_def)

lemma acquire_placed:
  assumes "ring_inv s" and "i < length (workers (rng s))" and "registered (workers (rng s) ! i)"
    and "pending s i = None" and "unat len \<le> cap_of (rng s)"
  shows "acquire k i len (rng s)
    = Inr (placed i (place (cap_of (rng s)) (nx (rng s)) (wr (rng s)) (unat len)) (rng s))"
proof -
  have "worker_ok (rng s) (granted s) None (workers (rng s) ! i)"
    using assms(1,2,4) unfolding ring_inv_def by fastforce
  then have "seen (workers (rng s) ! i) = MAX_OFFSET" using assms(3) by (simp add: worker_ok_def)
  then show ?thesis
    using assms(1,2,5) acq_loop_placed [of "rng s" i len k]
    by (simp add: acquire_def ring_inv_def word_less_nat_alt not_less)
qed

lemma acquire_refused_same:
  assumes "ring_inv s" and "i < length (workers (rng s))" and "registered (workers (rng s) ! i)"
    and "pending s i = None" and "acquire k i len (rng s) = Inr (None, r)"
  shows "r = rng s"
proof (cases "unat len \<le> cap_of (rng s)")
  case True
  have "worker_ok (rng s) (granted s) None (workers (rng s) ! i)"
    using assms(1,2,4) unfolding ring_inv_def by fastforce
  then have "set_seen i MAX_OFFSET (rng s) = rng s" using assms(3) by (simp add: worker_ok_def set_seen_same)
  then show ?thesis using acquire_placed [OF assms(1-4) True, of k] assms(5)
    by (auto simp: placed_def split: option.splits)
next
  case False
  with assms(5) show ?thesis by (simp add: acquire_def word_less_nat_alt)
qed

lemma acquire_some:
  assumes "ring_inv s" and "i < length (workers (rng s))" and "registered (workers (rng s) ! i)"
    and "pending s i = None" and "acquire k i len (rng s) = Inr (Some a, r)"
  obtains n' wrap where "place (cap_of (rng s)) (nx (rng s)) (wr (rng s)) (unat len) = Some (unat a, n', wrap)"
    "r = after_place (unat a) n' wrap i (rng s)" "unat len \<le> cap_of (rng s)"
proof (cases "unat len \<le> cap_of (rng s)")
  case True
  from acquire_placed [OF assms(1-4) True, of k] assms(5) obtain b n' wrap where
    b: "place (cap_of (rng s)) (nx (rng s)) (wr (rng s)) (unat len) = Some (b, n', wrap)"
      "a = of_nat b" "r = after_place b n' wrap i (rng s)"
    by (auto simp: placed_def after_place_def split: option.splits)
  have w: "cap_of (rng s) < 2 ^ 32" "nx (rng s) < cap_of (rng s)" "wr (rng s) < cap_of (rng s)"
    using assms(1) by (simp_all add: ring_inv_def ring_wf_def)
  then have "b < 2 ^ 32" using place_bounds(3) [OF b(1) w(2) True w(3)] by simp
  then have "unat a = b" using b(2) by (simp add: unat_of_nat take_bit_nat_eq_self)
  with b that True show thesis by simp
next
  case False
  with assms(5) show ?thesis by (simp add: acquire_def word_less_nat_alt)
qed

lemma ring_inv_acquire:
  assumes inv: "ring_inv s" and i: "i < length (workers (rng s))" "registered (workers (rng s) ! i)"
    "pending s i = None" and len: "0 < unat len"
    and p: "place (cap_of (rng s)) (nx (rng s)) (wr (rng s)) (unat len) = Some (a, n', wrap)"
    and le: "unat len \<le> cap_of (rng s)"
  shows "ring_inv (s\<lparr>rng := after_place a n' wrap i (rng s), pending := (pending s)(i \<mapsto> (a, unat len))\<rparr>)"
proof -
  let ?r = "rng s" and ?r' = "after_place a n' wrap i (rng s)"
  have wf: "ring_wf ?r" and g: "wr ?r + granted s \<le> top_of ?r" using inv by (simp_all add: ring_inv_def)
  note wf' = place_wf [OF wf p le, of i] and top = place_live(2) [OF wf p le len, of i]
    and n = after_place_nx [OF wf p le]
  have old: "region_ok ?r' (granted s) b l \<and> seen_ok ?r' b x"
    if "region_ok ?r (granted s) b l" "seen_ok ?r b x" for b l x
    using p
    by (cases rule: place_cases) (use that n top in \<open>auto simp: region_ok_def seen_ok_def top_of_def\<close>)
  have new: "region_ok ?r' (granted s) a (unat len) \<and> seen_ok ?r' a (nx ?r)"
    using p
    by (cases rule: place_cases)
       (use len g n top wf in \<open>auto simp: region_ok_def seen_ok_def top_of_def ring_wf_def unat_max\<close>)
  have "worker_ok ?r' (granted s) (((pending s)(i \<mapsto> (a, unat len))) j) (workers ?r' ! j)"
    if j: "j < length (workers ?r)" for j
  proof (cases "j = i")
    case True
    with new i show ?thesis by (simp add: worker_ok_def)
  next
    case False
    from inv j have "worker_ok ?r (granted s) (pending s j) (workers ?r ! j)" by (simp add: ring_inv_def)
    with False j i(1) old show ?thesis by (auto simp: worker_ok_def split: option.splits)
  qed
  moreover have "wr ?r' + granted s \<le> top_of ?r'" using top g by (auto simp: top_of_def)
  ultimately show ?thesis using inv wf' i(1) by (simp add: ring_inv_def)
qed

subsection \<open>Release and the whole step relation\<close>

lemma release_spec:
  assumes inv: "ring_inv s" and n: "unat n \<le> granted s"
  obtains r where "release n (rng s) = Inr r"
    "ring_inv (s\<lparr>rng := r, granted := granted s - unat n\<rparr>)" "live r = drop (unat n) (live (rng s))"
    "buffer r = buffer (rng s)"
proof -
  let ?r = "rng s" and ?w = "wr (rng s) + unat n"
  have wf: "ring_wf ?r" and g: "wr ?r + granted s \<le> top_of ?r" using inv by (simp_all add: ring_inv_def)
  then have c: "cap_of ?r < 2 ^ 32" "nx ?r < cap_of ?r" "wr ?r < cap_of ?r" "top_of ?r \<le> cap_of ?r"
    "wr ?r \<le> en ?r" by (auto simp: ring_wf_def top_of_def unat_max)
  have w: "unat (consumer_barrier ?r + n) = ?w" "?w \<le> top_of ?r"
    using g n c by (simp_all add: unat_add_small)
  let ?r' = "?r\<lparr>consumer_barrier := (if consumer_barrier ?r + n = capacity ?r then 0 else consumer_barrier ?r + n)\<rparr>"
  have rel: "release n ?r = Inr ?r'"
    using c w by (simp add: release_def Let_def current_def word_le_nat_alt)
  have wr': "wr ?r' = (if ?w = cap_of ?r then 0 else ?w)" using w by (simp add: word_unat_eq_iff)
  have same: "nx ?r' = nx ?r" "en ?r' = en ?r" "cap_of ?r' = cap_of ?r" "workers ?r' = workers ?r" by simp_all
  have "ring_wf ?r' \<and> live ?r' = drop (unat n) (live ?r) \<and> wr ?r' + (granted s - unat n) \<le> top_of ?r' \<and>
    (\<forall>a l x. region_ok ?r (granted s) a l \<longrightarrow> seen_ok ?r a x \<longrightarrow>
       region_ok ?r' (granted s - unat n) a l \<and> seen_ok ?r' a x)"
  proof (cases "?w = cap_of ?r")
    case True
    then have t: "top_of ?r = cap_of ?r" using w c by linarith
    then have lt: "nx ?r < wr ?r" using c by (auto simp: top_of_def split: if_splits)
    with t have e: "cap_of ?r \<le> en ?r" by (simp add: top_of_def)
    have z: "wr ?r' = 0" "granted s - unat n = 0" using wr' True g t by simp_all
    have top: "top_of ?r' = nx ?r" unfolding top_of_def z(1) by simp
    have "live ?r' = [0..<nx ?r]" unfolding live_def z(1) by simp
    moreover have "live ?r = [wr ?r..<wr ?r + unat n] @ [0..<nx ?r]"
      using lt t True by (simp add: live_def)
    moreover have "end_mark ?r = MAX_OFFSET" using wf lt e c by (auto simp: ring_wf_def)
    moreover have "region_ok ?r' 0 a l \<and> seen_ok ?r' a x"
      if "region_ok ?r (granted s) a l" "seen_ok ?r a x" for a l x
      using that True t g n e z(1) top unfolding region_ok_def seen_ok_def by auto
    ultimately show ?thesis using wf z top unfolding ring_wf_def by auto
  next
    case False
    then have z: "wr ?r' = ?w" using wr' by simp
    have cmp: "?w \<le> nx ?r \<longleftrightarrow> wr ?r \<le> nx ?r" using w(2) by (auto simp: top_of_def split: if_splits)
    have top: "top_of ?r' = top_of ?r" unfolding top_of_def z same using cmp by simp
    have "ring_wf ?r'" using wf cmp w(2) c False z
      by (auto simp: ring_wf_def top_of_def split: if_splits)
    moreover have "live ?r' = drop (unat n) (live ?r)"
      using cmp w(2) unfolding live_def z same top by auto
    moreover have "region_ok ?r' (granted s - unat n) a l \<and> seen_ok ?r' a x"
      if "region_ok ?r (granted s) a l" "seen_ok ?r a x" for a l x
      using that n cmp unfolding region_ok_def seen_ok_def z same top by auto
    ultimately show ?thesis using g n z top by auto
  qed
  then have k: "ring_wf ?r'" "live ?r' = drop (unat n) (live ?r)" "wr ?r' + (granted s - unat n) \<le> top_of ?r'"
    and reg: "\<And>a l x. region_ok ?r (granted s) a l \<Longrightarrow> seen_ok ?r a x \<Longrightarrow>
       region_ok ?r' (granted s - unat n) a l \<and> seen_ok ?r' a x" by blast+
  have "worker_ok ?r' (granted s - unat n) (pending s i) (workers ?r ! i)" if "i < length (workers ?r)" for i
    using inv that reg unfolding ring_inv_def worker_ok_def
    by (fastforce split: option.splits)
  with k inv have "ring_inv (s\<lparr>rng := ?r', granted := granted s - unat n\<rparr>)"
    by (simp add: ring_inv_def)
  with that rel k(2) show thesis by simp
qed

text \<open>Pending regions of different workers are disjoint; every pending region is live.\<close>

definition pending_apart :: "ring_sys \<Rightarrow> bool" where
  "pending_apart s \<longleftrightarrow> (\<forall>i j a l b m. i \<noteq> j \<longrightarrow> pending s i = Some (a, l) \<longrightarrow>
     pending s j = Some (b, m) \<longrightarrow> {a..<a + l} \<inter> {b..<b + m} = {})"

lemma region_live: "region_ok r g a l \<Longrightarrow> {a..<a + l} \<subseteq> set (live r)"
  by (auto simp: region_ok_def live_def top_of_def split: if_splits)

lemma region_not_granted:
  assumes "ring_wf r" and "region_ok r g a l"
  shows "{a..<a + l} \<inter> {wr r..<wr r + g} = {}"
  using assms by (auto simp: region_ok_def)

lemma pending_apart_acquire:
  assumes inv: "ring_inv s" "pending_apart s"
    and p: "place (cap_of (rng s)) (nx (rng s)) (wr (rng s)) len = Some (a, n', wrap)"
    and len: "len \<le> cap_of (rng s)" "0 < len"
  shows "pending_apart (s\<lparr>rng := r, pending := (pending s)(i \<mapsto> (a, len))\<rparr>)"
proof -
  have wf: "ring_wf (rng s)" using inv(1) by (simp add: ring_inv_def)
  have "distinct (live (rng s) @ [a..<a + len])"
    using live_distinct [OF place_wf [OF wf p len(1), of i]] place_live(1) [OF wf p len, of i] by simp
  then have "set (live (rng s)) \<inter> {a..<a + len} = {}" by simp
  then have "{b..<b + m} \<inter> {a..<a + len} = {}" if "pending s j = Some (b, m)" for j b m
    using region_live [OF ring_inv_pending(3) [OF inv(1) that]] by blast
  with inv(2) show ?thesis by (fastforce simp: pending_apart_def)
qed

lemma ring_view_cong:
  assumes "capacity r' = capacity r" "producer_barrier r' = producer_barrier r"
    "consumer_barrier r' = consumer_barrier r" "end_mark r' = end_mark r"
    "length (buffer r') = length (buffer r)"
  shows "ring_wf r' = ring_wf r" and "top_of r' = top_of r" and "live r' = live r"
    and "worker_ok r' g p w = worker_ok r g p w"
  using assms
  by (simp_all add: ring_wf_def top_of_def live_def worker_ok_def region_ok_def seen_ok_def
      cong: option.case_cong)

lemma set_seen_inv:
  assumes "ring_inv s" and "r = set_registered i b (set_seen i x (rng s))"
    and "b \<Longrightarrow> x = MAX_OFFSET"
  shows "ring_inv (s\<lparr>rng := r, pending := (pending s)(i := None)\<rparr>)"
proof -
  have nth: "workers r ! j = (if j = i then \<lparr>seen = x, registered = b\<rparr> else workers (rng s) ! j)"
    if "j < length (workers (rng s))" for j
    using assms(2) that
    by (cases "i < length (workers (rng s))")
       (auto simp: set_registered_def set_seen_def list_update_beyond not_less)
  have "worker_ok (rng s) (granted s) (((pending s)(i := None)) j) (workers r ! j)"
    if "j < length (workers (rng s))" for j
    using assms(1,3) that nth [OF that] unfolding ring_inv_def
    by (auto simp: worker_ok_def)
  moreover have eqs: "capacity r = capacity (rng s)" "producer_barrier r = producer_barrier (rng s)"
    "consumer_barrier r = consumer_barrier (rng s)" "end_mark r = end_mark (rng s)"
    "length (buffer r) = length (buffer (rng s))" "length (workers r) = length (workers (rng s))"
    using assms(2) by (simp_all add: set_registered_def)
  ultimately show ?thesis using assms(1) ring_view_cong [OF eqs(1-5)]
    by (simp add: ring_inv_def eqs)
qed

lemma ring_inv_step:
  assumes step: "ring_step s t" and inv: "ring_inv s" "pending_apart s"
  shows "ring_inv t \<and> pending_apart t"
  using step
proof cases
  case (r_register i r)
  then have "r = set_registered i True (set_seen i MAX_OFFSET (rng s))" "(pending s)(i := None) = pending s"
    by (auto simp: register_worker_def split: if_splits)
  with r_register set_seen_inv [OF inv(1), of r i True MAX_OFFSET] inv(2) show ?thesis
    by (simp add: pending_apart_def)
next
  case (r_unregister i)
  have "set_registered i False (set_seen i (seen (workers (rng s) ! i)) (rng s)) = unregister_worker i (rng s)"
    "(pending s)(i := None) = pending s"
    using r_unregister by (auto simp: set_seen_same unregister_worker_def)
  with r_unregister set_seen_inv [OF inv(1) refl, where i = i and b = False
      and x = "seen (workers (rng s) ! i)"] inv(2) show ?thesis
    by (simp add: pending_apart_def)
next
  case (r_acquire i len k a r)
  from acquire_some [OF inv(1) r_acquire(2,3,4,6)] obtain n' wrap where
    "place (cap_of (rng s)) (nx (rng s)) (wr (rng s)) (unat len) = Some (unat a, n', wrap)"
    "r = after_place (unat a) n' wrap i (rng s)" "unat len \<le> cap_of (rng s)" by blast
  with r_acquire ring_inv_acquire [OF inv(1)] pending_apart_acquire [OF inv] show ?thesis
    by (simp add: word_less_nat_alt)
next
  case (r_refused i len k r)
  with acquire_refused_same [OF inv(1) r_refused(2,3,4,6)] inv show ?thesis by simp
next
  case (r_write i a l j b)
  then show ?thesis using inv ring_view_cong [of "rng t" "rng s"]
    by (simp add: ring_inv_def pending_apart_def)
next
  case (r_produce i a l r)
  have i: "i < length (workers (rng s))" by (rule ring_inv_pending(5) [OF inv(1) r_produce(2)])
  have "registered (workers (rng s) ! i)" by (rule ring_inv_pending(2) [OF inv(1) r_produce(2)])
  then have "(workers (rng s) ! i)\<lparr>seen := MAX_OFFSET, registered := True\<rparr>
      = (workers (rng s) ! i)\<lparr>seen := MAX_OFFSET\<rparr>" by (cases "workers (rng s) ! i") simp
  with i r_produce(3) have "r = set_registered i True (set_seen i MAX_OFFSET (rng s))"
    by (auto simp: produce_def set_registered_def set_seen_def split: if_splits)
  with r_produce set_seen_inv [OF inv(1), of r i True MAX_OFFSET] inv(2) show ?thesis
    by (simp add: pending_apart_def)
next
  case (r_consume n adr r)
  from consume_spec [OF inv(1)] obtain n' a' r' where
    "consume (rng s) = Inr (n', a', r')" "ring_inv (s\<lparr>rng := r', granted := unat n'\<rparr>)" by blast
  with r_consume inv(2) show ?thesis by (simp add: pending_apart_def)
next
  case (r_release n r)
  from release_spec [OF inv(1) r_release(2)] obtain r' where
    "release n (rng s) = Inr r'" "ring_inv (s\<lparr>rng := r', granted := granted s - unat n\<rparr>)" by blast
  with r_release inv(2) show ?thesis by (simp add: pending_apart_def)
qed

lemma ring_inv_reachable:
  "ring_reachable cap n s \<Longrightarrow> 0 < cap \<Longrightarrow> unat cap < 2 ^ 32 \<Longrightarrow> ring_inv s \<and> pending_apart s"
proof (induction rule: ring_reachable.induct)
  case ring_init
  then show ?case using ring_inv_start by (simp add: pending_apart_def ring_start_def)
next
  case (ring_next s t)
  then show ?case using ring_inv_step by blast
qed

section \<open>Writer and reader handles\<close>

text \<open>A handle holds two pointers that are null or not null; there is one ring, so the pointer to
  it is a flag, and the pointer to a worker is its index.\<close>

record ring_writer =
  w_buffer :: bool
  w_worker :: "nat option"

definition writer_null :: ring_writer where
  "writer_null = \<lparr>w_buffer = False, w_worker = None\<rparr>"

definition writer_make :: "nat \<Rightarrow> ring \<Rightarrow> ring_fail + (ring_writer \<times> ring)" where
  "writer_make i r = (case register_worker i r of
     Inl e \<Rightarrow> Inl e | Inr r' \<Rightarrow> Inr (\<lparr>w_buffer = True, w_worker = Some i\<rparr>, r'))"

definition writer_drop :: "ring_writer \<Rightarrow> ring \<Rightarrow> ring" where
  "writer_drop w r =
     (if w_buffer w then (case w_worker w of None \<Rightarrow> r | Some i \<Rightarrow> unregister_worker i r) else r)"

text \<open>Move construction gives the new handle and the emptied source; move assignment (to a
  different object) overwrites the target's pointers.\<close>

definition writer_move :: "ring_writer \<Rightarrow> ring_writer \<times> ring_writer" where
  "writer_move rhs = (rhs, writer_null)"

definition writer_assign :: "ring_writer \<Rightarrow> ring_writer \<Rightarrow> ring_writer \<times> ring_writer" where
  "writer_assign self rhs = (rhs, writer_null)"

definition writer_acquire :: "nat \<Rightarrow> u64 \<Rightarrow> ring_writer \<Rightarrow> ring \<Rightarrow> ring_fail + (u64 option \<times> ring)" where
  "writer_acquire k len w r =
     (if w_buffer w then (case w_worker w of None \<Rightarrow> Inr (None, r) | Some i \<Rightarrow> acquire k i len r)
      else Inr (None, r))"

definition writer_produce :: "ring_writer \<Rightarrow> ring \<Rightarrow> ring_fail + ring" where
  "writer_produce w r =
     (if w_buffer w then (case w_worker w of None \<Rightarrow> Inr r | Some i \<Rightarrow> produce i r) else Inr r)"

text \<open>Claim C2: A reader always has a buffer: its only constructor takes a reference.\<close>

definition reader_consume :: "ring \<Rightarrow> ring_fail + (u64 \<times> u64 option \<times> ring)" where
  "reader_consume r = consume r"

definition reader_release :: "u64 \<Rightarrow> ring \<Rightarrow> ring_fail + ring" where
  "reader_release n r = release n r"

section \<open>Properties\<close>

lemma ring_acquire_fresh':
  assumes inv: "ring_inv s"
    and i: "i < length (workers (rng s))" "registered (workers (rng s) ! i)" "pending s i = None"
    and len: "0 < len" and a: "acquire k i len (rng s) = Inr (Some a, r)"
  shows "\<exists>n' wrap. place (cap_of (rng s)) (nx (rng s)) (wr (rng s)) (unat len) = Some (unat a, n', wrap) \<and>
    unat len \<le> cap_of (rng s) \<and> unat a + unat len \<le> length (buffer (rng s)) \<and>
    live r = live (rng s) @ [unat a..<unat a + unat len] \<and> distinct (live r) \<and> buffer r = buffer (rng s)"
proof -
  have wf: "ring_wf (rng s)" using inv by (simp add: ring_inv_def)
  then have c: "nx (rng s) < cap_of (rng s)" "wr (rng s) < cap_of (rng s)"
    "length (buffer (rng s)) = cap_of (rng s)" by (simp_all add: ring_wf_def)
  have len: "0 < unat len" using len by (simp add: word_less_nat_alt)
  obtain n' wrap where p:
    "place (cap_of (rng s)) (nx (rng s)) (wr (rng s)) (unat len) = Some (unat a, n', wrap)"
    "r = after_place (unat a) n' wrap i (rng s)" "unat len \<le> cap_of (rng s)"
    by (rule acquire_some [OF inv i a])
  show ?thesis
    using place_live(1) [OF wf p(1,3) len] place_bounds(2) [OF p(1) c(1) p(3) c(2)]
      live_distinct [OF place_wf [OF wf p(1,3)]] c(3) p(1,3)
    by (simp add: p(2))
qed


lemma acquire_returns:
  assumes inv: "ring_inv s" and i: "i < length (workers (rng s))" "registered (workers (rng s) ! i)"
    "pending s i = None"
  shows "\<exists>a r. acquire k i len (rng s) = Inr (a, r) \<and> (a = None \<longrightarrow> r = rng s) \<and>
    (a = None \<longleftrightarrow> unat len > cap_of (rng s) \<or>
       place (cap_of (rng s)) (nx (rng s)) (wr (rng s)) (unat len) = None)"
proof (cases "unat len \<le> cap_of (rng s)")
  case True
  with acquire_placed [OF inv i True, of k] acquire_refused_same [OF inv i, of k len]
  show ?thesis by (auto simp: placed_def split: option.splits)
qed (simp add: acquire_def word_less_nat_alt)

text \<open>\<open>acquire\<close> is total and decides by first fit. In every reachable state it returns
  (no assertion fails, no spin is endless when it runs alone), it grants exactly when the size
  fits before the consumer's offset, before the end of the buffer, or at the start of it, and a
  refusal leaves the ring as it was.\<close>

theorem ring_acquire_total:
  assumes "ring_reachable cap n s" and "0 < cap" and "unat cap < 2 ^ 32"
    and "i < length (workers (rng s))" and "registered (workers (rng s) ! i)" and "pending s i = None"
  shows "\<exists>a r. acquire k i len (rng s) = Inr (a, r) \<and>
    (a = None \<longrightarrow> r = rng s) \<and>
    (a = None \<longleftrightarrow> unat len > cap_of (rng s) \<or>
       place (cap_of (rng s)) (nx (rng s)) (wr (rng s)) (unat len) = None)"
  using acquire_returns [OF _ assms(4-6)] ring_inv_reachable [OF assms(1-3)] by blast

lemma consume_oldest:
  assumes inv: "ring_inv s"
  shows "\<exists>m a r. consume (rng s) = Inr (m, a, r) \<and> live r = live (rng s) \<and> buffer r = buffer (rng s) \<and>
    (0 < unat m \<longrightarrow> a = Some (consumer_barrier r)) \<and>
    take (unat m) (live r) = [wr r..<wr r + unat m] \<and>
    (\<forall>i b l. pending s i = Some (b, l) \<longrightarrow> {b..<b + l} \<inter> {wr r..<wr r + unat m} = {}) \<and>
    ((\<forall>i. pending s i = None) \<longrightarrow> live r \<noteq> [] \<longrightarrow> 0 < unat m)"
proof -
  obtain m a r where c: "consume (rng s) = Inr (m, a, r)" "ring_inv (s\<lparr>rng := r, granted := unat m\<rparr>)"
    "live r = live (rng s)" "buffer r = buffer (rng s)" "grants s r (unat m)"
    "0 < unat m \<longrightarrow> a = Some (consumer_barrier r)" "nx r = nx (rng s)" "workers r = workers (rng s)"
    by (rule consume_spec [OF inv], rule that)
  have "take (unat m) (live r) = [wr r..<wr r + unat m]"
    using c(5) by (auto simp: grants_def live_def top_of_def split: if_splits)
  moreover have "{b..<b + l} \<inter> {wr r..<wr r + unat m} = {}" if "pending s i = Some (b, l)" for i b l
  proof (rule region_not_granted)
    show "ring_wf r" using c(2) by (simp add: ring_inv_def)
    show "region_ok r (unat m) b l" using c(5) that unfolding grants_def by blast
  qed
  moreover have "(\<forall>i. pending s i = None) \<longrightarrow> live r \<noteq> [] \<longrightarrow> 0 < unat m"
    using c(5) unfolding grants_def by blast
  ultimately show ?thesis
    by (intro exI [of _ m] exI [of _ a] exI [of _ r]) (use c in simp)
qed

text \<open>\<open>consume\<close> returns produced bytes in order. In every reachable state it returns
  (at most one wrap-around and two rounds, no assertion fails), with a region that starts at
  the consumer's offset, is the oldest part of the live bytes and holds no byte of a region
  still being written; when no producer is writing and bytes are live it is not empty.\<close>

theorem ring_consume_fifo:
  assumes "ring_reachable cap n s" and "0 < cap" and "unat cap < 2 ^ 32"
  shows "\<exists>m a r. consume (rng s) = Inr (m, a, r) \<and> live r = live (rng s) \<and> buffer r = buffer (rng s) \<and>
    (0 < unat m \<longrightarrow> a = Some (consumer_barrier r)) \<and>
    take (unat m) (live r) = [wr r..<wr r + unat m] \<and>
    (\<forall>i b l. pending s i = Some (b, l) \<longrightarrow> {b..<b + l} \<inter> {wr r..<wr r + unat m} = {}) \<and>
    ((\<forall>i. pending s i = None) \<longrightarrow> live r \<noteq> [] \<longrightarrow> 0 < unat m)"
  using consume_oldest ring_inv_reachable [OF assms] by blast

text \<open>\<open>release\<close> of bytes that were granted succeeds and removes exactly the oldest bytes.\<close>

theorem ring_release_drops:
  assumes "ring_reachable cap n s" and "0 < cap" and "unat cap < 2 ^ 32" and "unat m \<le> granted s"
  shows "\<exists>r. release m (rng s) = Inr r \<and> live r = drop (unat m) (live (rng s)) \<and> buffer r = buffer (rng s)"
  using release_spec [OF _ assms(4)] ring_inv_reachable [OF assms(1-3)] by metis

text \<open>Producers never write into each other's regions nor into what the consumer reads.
  In every reachable state the regions being written are live, pairwise disjoint and disjoint
  from the bytes granted to the consumer.\<close>

theorem ring_regions_disjoint:
  assumes "ring_reachable cap n s" and "0 < cap" and "unat cap < 2 ^ 32"
    and "pending s i = Some (a, l)"
  shows "{a..<a + l} \<subseteq> set (live (rng s)) \<and> {a..<a + l} \<inter> {wr (rng s)..<wr (rng s) + granted s} = {}
    \<and> (\<forall>j b m. j \<noteq> i \<longrightarrow> pending s j = Some (b, m) \<longrightarrow> {a..<a + l} \<inter> {b..<b + m} = {})"
proof -
  have inv: "ring_inv s" "pending_apart s" using ring_inv_reachable [OF assms(1-3)] by simp_all
  note reg = ring_inv_pending(3) [OF inv(1) assms(4)]
  have "ring_wf (rng s)" using inv(1) by (simp add: ring_inv_def)
  from region_live [OF reg] region_not_granted [OF this reg] inv(2) assms(4)
  show ?thesis unfolding pending_apart_def by blast
qed

text \<open>An idle ring accepts any message of at most half its capacity, wherever its offset
  stands; a larger one may be refused although the ring is empty, and then stays refused: the
  consumer has nothing to consume and the offset never moves.\<close>

theorem ring_idle_accepts_half:
  assumes "ring_reachable cap n s" and "0 < cap" and "unat cap < 2 ^ 32"
    and "i < length (workers (rng s))" and "registered (workers (rng s) ! i)" and "pending s i = None"
    and "live (rng s) = []" and "0 < len" and "unat len \<le> cap_of (rng s)"
    and "consumer_barrier (rng s) = producer_barrier (rng s)"
  shows "(2 * unat len \<le> cap_of (rng s) \<longrightarrow> (\<exists>a r. acquire k i len (rng s) = Inr (Some a, r))) \<and>
    (wr (rng s) \<le> unat len \<and> cap_of (rng s) < wr (rng s) + unat len \<longrightarrow>
       acquire k i len (rng s) = Inr (None, rng s) \<and>
       (\<exists>a. consume (rng s) = Inr (0, a, rng s)))"
proof -
  have inv: "ring_inv s" using ring_inv_reachable [OF assms(1-3)] by simp
  then have wf: "ring_wf (rng s)" by (simp add: ring_inv_def)
  obtain a r where a: "acquire k i len (rng s) = Inr (a, r)" "a = None \<longrightarrow> r = rng s"
    "a = None \<longleftrightarrow> unat len > cap_of (rng s) \<or>
       place (cap_of (rng s)) (nx (rng s)) (wr (rng s)) (unat len) = None"
    using acquire_returns [OF inv assms(4-6)] by blast
  have "consume (rng s) = Inr (0, None, rng s)"
    using assms(10) wf
    by (simp add: consume_def numeral_2_eq_2 consume_iter_def current_def stable_next_wf
        buffer_index_small ring_wf_def)
  with a assms(8-10) wf show ?thesis
    by (cases a) (auto simp: place_def ring_wf_def word_less_nat_alt split: if_splits)
qed

text \<open>The wrap counter does not exist. \<open>_setWrapCounter\<close> works on a copy, so the
  offset shared by the producers never carries a counter, and the exchange of \<open>acquire\<close> cannot
  tell a producer offset from the same one a round later. In the run below worker 0 reads the
  offset, the consumer is granted bytes before worker 0 marks itself, worker 1 goes once round
  the ring, and the exchange of worker 0 then succeeds with a region over live bytes.\<close>

definition aba_run :: "ring_fail + (ring \<times> u64)" where
  "aba_run =
    (case acquire 0 1 5 (set_registered 1 True (set_seen 1 MAX_OFFSET
            (set_registered 0 True (set_seen 0 MAX_OFFSET (ring_new 16 2))))) of
       Inl e \<Rightarrow> Inl e
     | Inr (_, r1) \<Rightarrow>
     (case stable_next (set_seen 1 MAX_OFFSET r1) of
       Inl e \<Rightarrow> Inl e
     | Inr sn \<Rightarrow>
     (case acquire 0 1 4 (set_seen 1 MAX_OFFSET r1) of
       Inl e \<Rightarrow> Inl e
     | Inr (_, r2) \<Rightarrow>
     (case consume (set_seen 1 MAX_OFFSET r2) of
       Inl e \<Rightarrow> Inl e
     | Inr (granted_bytes, _, r3) \<Rightarrow>
     (let r4 = set_seen 0 (lock_wrap_bit (buffer_index sn)) r3; written = current r4 in
     (case release granted_bytes r4 of
       Inl e \<Rightarrow> Inl e
     | Inr r5 \<Rightarrow>
     (case acquire 0 1 7 r5 of
       Inl e \<Rightarrow> Inl e
     | Inr (_, r6) \<Rightarrow>
     (case acquire 0 1 5 (set_seen 1 MAX_OFFSET r6) of
       Inl e \<Rightarrow> Inl e
     | Inr (_, r7) \<Rightarrow>
     (case acq_target (capacity r7) sn 6 written of
       None \<Rightarrow> Inl AssertFails
     | Some target \<Rightarrow>
     (case acq_cas sn target (set_seen 1 MAX_OFFSET r7) of
       None \<Rightarrow> Inl AssertFails
     | Some r8 \<Rightarrow>
     (case acq_commit 0 (buffer_index sn) target r8 of
       Inl e \<Rightarrow> Inl e
     | Inr (a, r9) \<Rightarrow> Inr (set_seen 1 MAX_OFFSET r7, a))))))))))))"

definition ring16 :: "u64 \<Rightarrow> u64 \<Rightarrow> u64 \<Rightarrow> u64 \<Rightarrow> ring" where
  "ring16 n w s0 s1 = \<lparr>capacity = 16, producer_num = 2, producer_barrier = n, end_mark = MAX_OFFSET,
     consumer_barrier = w, workers = [\<lparr>seen = s0, registered = True\<rparr>, \<lparr>seen = s1, registered = True\<rparr>],
     buffer = replicate 16 0\<rparr>"

lemma ring16_wf: "n < 16 \<Longrightarrow> w < 16 \<Longrightarrow> ring_wf (ring16 n w s0 s1)"
  by (simp add: ring_wf_def ring16_def word_less_nat_alt)

lemma ring16_simps [simp]:
  "set_seen 0 x (ring16 n w s0 s1) = ring16 n w x s1" "set_seen (Suc 0) x (ring16 n w s0 s1) = ring16 n w s0 x"
  "set_seen 1 x (ring16 n w s0 s1) = ring16 n w s0 x"
  "current (ring16 n w s0 s1) = w" "capacity (ring16 n w s0 s1) = 16"
  "producer_barrier (ring16 n w s0 s1) = n" "consumer_barrier (ring16 n w s0 s1) = w"
  "end_mark (ring16 n w s0 s1) = MAX_OFFSET"
  "workers (ring16 n w s0 s1) = [\<lparr>seen = s0, registered = True\<rparr>, \<lparr>seen = s1, registered = True\<rparr>]"
  "(ring16 n w s0 s1)\<lparr>producer_barrier := n'\<rparr> = ring16 n' w s0 s1"
  "(ring16 n w s0 s1)\<lparr>producer_barrier := n', end_mark := MAX_OFFSET\<rparr> = ring16 n' w s0 s1"
  "(ring16 n w s0 s1)\<lparr>consumer_barrier := w'\<rparr> = ring16 n w' s0 s1"
  "(ring16 n w s0 s1)\<lparr>end_mark := MAX_OFFSET\<rparr> = ring16 n w s0 s1"
  by (simp_all add: ring16_def set_seen_def current_def)

lemma replicate_2: "replicate (unat (2 :: u32)) x = [x, x]"
proof -
  have "unat (2 :: u32) = Suc (Suc 0)" by simp
  then show ?thesis by (simp only: replicate.simps)
qed

lemma ring16_new:
  "set_registered 1 True (set_seen 1 MAX_OFFSET
     (set_registered 0 True (set_seen 0 MAX_OFFSET (ring_new 16 2)))) = ring16 0 0 MAX_OFFSET MAX_OFFSET"
proof -
  have "ring_new 16 2 = (ring16 0 0 0 0)\<lparr>workers := [worker_new, worker_new]\<rparr>"
    unfolding ring_new_def replicate_2 by (simp add: ring16_def)
  then show ?thesis by (simp add: ring16_def set_seen_def set_registered_def worker_new_def)
qed

lemma ring16_acquire:
  assumes "n < 16" and "w < 16" and "len \<le> 16"
  shows "acquire k 1 len (ring16 n w s MAX_OFFSET)
    = Inr (placed 1 (place 16 (unat n) (unat w) (unat len)) (ring16 n w s MAX_OFFSET))"
  using acq_loop_placed [OF ring16_wf [OF assms(1,2)], where i = 1 and len = len and k = k] assms
  by (simp add: acquire_def word_le_nat_alt word_less_nat_alt not_less)

lemma ring16_stable: "n < 16 \<Longrightarrow> w < 16 \<Longrightarrow> stable_next (ring16 n w s0 s1) = Inr n"
  by (simp add: stable_next_wf ring16_wf)

lemma ring16_consume:
  "consume (ring16 9 0 MAX_OFFSET MAX_OFFSET) = Inr (9, Some 0, ring16 9 0 MAX_OFFSET MAX_OFFSET)"
proof -
  have "\<not> is_locked MAX_OFFSET" by (rule not_locked) (simp add: unat_max)
  moreover have "buffer_index 9 = 9" by (rule buffer_index_small) simp
  moreover have "min MAX_OFFSET 9 = 9" "\<not> MAX_OFFSET < 0" by (simp_all add: min_def word_le_nat_alt unat_max)
  ultimately have "consume_iter 0 (ring16 9 0 MAX_OFFSET MAX_OFFSET)
      = Inr (Got 9 (Some 0), ring16 9 0 MAX_OFFSET MAX_OFFSET)"
    by (simp add: consume_iter_def ring16_stable stable_seen_def consume_check_def Let_def)
  then show ?thesis by (simp add: consume_def numeral_2_eq_2)
qed

lemma ring16_release:
  "release 9 (ring16 9 0 s0 s1) = Inr (ring16 9 9 s0 s1)"
  by (simp add: release_def Let_def)

lemma ring16_aba_commit:
  "acq_target 16 5 6 0 = Some 11"
  "acq_commit 0 5 11 (ring16 11 9 (lock_wrap_bit 5) MAX_OFFSET) = Inr (5, ring16 11 9 5 MAX_OFFSET)"
  "buffer_index 5 = 5"
proof -
  show "acq_target 16 5 6 0 = Some 11" by (subst acq_target_place) (simp_all add: place_def)
  show b: "buffer_index 5 = 5" by (rule buffer_index_small) simp
  have "buffer_index 11 = 11" "\<not> is_locked 11" "unlock_wrap_bit (lock_wrap_bit 5) = 5"
    by (rule buffer_index_small not_locked unlock_lock; simp)+
  then show "acq_commit 0 5 11 (ring16 11 9 (lock_wrap_bit 5) MAX_OFFSET) = Inr (5, ring16 11 9 5 MAX_OFFSET)"
    by (simp add: acq_commit_def Let_def)
qed

lemma aba_value: "aba_run = Inr (ring16 5 9 (lock_wrap_bit 5) MAX_OFFSET, 5)"
  by (simp add: aba_run_def ring16_new ring16_acquire ring16_stable ring16_consume ring16_release
      ring16_aba_commit acq_cas_def place_def placed_def Let_def del: One_nat_def)

text \<open>A ring of 16 bytes with two registered workers.\<close>

theorem ring_aba_overlap:
  "snd (set_wrap_counter off c) = off \<and>
   (\<exists>r a. aba_run = Inr (r, a) \<and> get_wrap_counter (producer_barrier r) = 0 \<and>
      live r = [9..<16] @ [0..<5] \<and> {unat a..<unat a + 6} \<inter> set (live r) = {9, 10})"
proof -
  have "get_wrap_counter 5 = 0" by (simp add: get_wrap_counter_def WRAP_COUNTER_MASK_def)
  moreover have "live (ring16 5 9 (lock_wrap_bit 5) MAX_OFFSET) = [9..<16] @ [0..<5]"
    by (simp add: live_def top_of_def unat_max)
  moreover have "{5..<11} \<inter> set ([9..<16] @ [0..<5]) = {9, 10::nat}" by auto
  ultimately show ?thesis by (simp add: set_wrap_counter_def aba_value del: upt_conv_Cons)
qed

text \<open>Assigning to a writer forgets the worker it held. The target's old worker stays
  registered when both handles are dropped, while dropping a writer that was never assigned to
  unregisters its worker.\<close>

theorem writer_assign_leaks:
  assumes "i < length (workers r0)" and "j < length (workers r0)" and "i \<noteq> j"
    and "writer_make i r0 = Inr (self, r1)" and "writer_make j r1 = Inr (rhs, r2)"
    and "writer_assign self rhs = (self', rhs')"
  shows "registered (workers (writer_drop rhs' (writer_drop self' r2)) ! i)
    \<and> \<not> registered (workers (writer_drop rhs' (writer_drop self' r2)) ! j)
    \<and> \<not> registered (workers (writer_drop self r2) ! i)"
  using assms
  by (auto simp: writer_make_def register_worker_def writer_assign_def writer_drop_def writer_null_def
      unregister_worker_def set_registered_def split: if_splits)

subsection \<open>Concrete runs\<close>

abbreviation sys16 :: "u64 \<Rightarrow> u64 \<Rightarrow> u64 \<Rightarrow> (nat \<Rightarrow> (nat \<times> nat) option) \<Rightarrow> nat \<Rightarrow> ring_sys" where
  "sys16 n w s1 p g \<equiv> \<lparr>rng = ring16 n w MAX_OFFSET s1, pending = p, granted = g\<rparr>"

lemma sys16_ready: "ring_reachable 16 2 (sys16 0 0 MAX_OFFSET (\<lambda>_. None) 0)"
proof -
  let ?r = "ring_new 16 2"
  have ws: "length (workers ?r) = 2" unfolding ring_new_def replicate_2 by simp
  let ?a = "set_registered 0 True (set_seen 0 MAX_OFFSET ?r)"
  have "ring_step (ring_start 16 2) ((ring_start 16 2)\<lparr>rng := ?a\<rparr>)"
    by (rule r_register [where i = 0]) (simp_all add: ring_start_def register_worker_def ws)
  moreover have "ring_step ((ring_start 16 2)\<lparr>rng := ?a\<rparr>) (sys16 0 0 MAX_OFFSET (\<lambda>_. None) 0)"
    using r_register [of "(ring_start 16 2)\<lparr>rng := ?a\<rparr>" 1 "ring16 0 0 MAX_OFFSET MAX_OFFSET"]
    by (simp add: ring_start_def register_worker_def ws set_registered_def flip: ring16_new)
  ultimately show ?thesis by (blast intro: ring_reachable.intros)
qed

lemma sys16_acquired: "ring_reachable 16 2 (sys16 5 0 0 [1 \<mapsto> (0, 5)] 0)"
proof -
  have "acquire 0 1 5 (ring16 0 0 MAX_OFFSET MAX_OFFSET) = Inr (Some 0, ring16 5 0 MAX_OFFSET 0)"
    by (simp add: ring16_acquire place_def placed_def del: One_nat_def)
  with r_acquire [of 1 "sys16 0 0 MAX_OFFSET (\<lambda>_. None) 0" 5 0 0] show ?thesis
    by (intro ring_next [OF sys16_ready]) simp
qed

lemma sys16_granted: "ring_reachable 16 2 (sys16 5 0 MAX_OFFSET (\<lambda>_. None) 5)"
proof -
  have m: "0 \<noteq> MAX_OFFSET" using unat_max by fastforce
  then have "produce 1 (ring16 5 0 MAX_OFFSET 0) = Inr (ring16 5 0 MAX_OFFSET MAX_OFFSET)"
    by (simp add: produce_def)
  then have 1: "ring_step (sys16 5 0 0 [1 \<mapsto> (0, 5)] 0) (sys16 5 0 MAX_OFFSET (\<lambda>_. None) 0)"
    using r_produce [of "sys16 5 0 0 [1 \<mapsto> (0, 5)] 0" 1 0 5] by simp
  have "consume (ring16 5 0 MAX_OFFSET MAX_OFFSET) = Inr (5, Some 0, ring16 5 0 MAX_OFFSET MAX_OFFSET)"
  proof -
    have "\<not> is_locked MAX_OFFSET" by (rule not_locked) (simp add: unat_max)
    moreover have "min MAX_OFFSET 5 = 5" "\<not> MAX_OFFSET < 0"
      by (simp_all add: min_def word_le_nat_alt unat_max)
    ultimately have "consume_iter 0 (ring16 5 0 MAX_OFFSET MAX_OFFSET)
        = Inr (Got 5 (Some 0), ring16 5 0 MAX_OFFSET MAX_OFFSET)"
      by (simp add: consume_iter_def ring16_stable stable_seen_def consume_check_def Let_def
          ring16_aba_commit(3))
    then show ?thesis by (simp add: consume_def numeral_2_eq_2)
  qed
  then have 2: "ring_step (sys16 5 0 MAX_OFFSET (\<lambda>_. None) 0) (sys16 5 0 MAX_OFFSET (\<lambda>_. None) 5)"
    using r_consume [of "sys16 5 0 MAX_OFFSET (\<lambda>_. None) 0"] by simp
  show ?thesis by (rule ring_next [OF ring_next [OF sys16_acquired 1] 2])
qed

lemma sys16_idle: "ring_reachable 16 2 (sys16 5 5 MAX_OFFSET (\<lambda>_. None) 0)"
proof -
  have "release 5 (ring16 5 0 MAX_OFFSET MAX_OFFSET) = Inr (ring16 5 5 MAX_OFFSET MAX_OFFSET)"
    by (simp add: release_def Let_def)
  then show ?thesis using r_release [of 5 "sys16 5 0 MAX_OFFSET (\<lambda>_. None) 5"]
    by (intro ring_next [OF sys16_granted]) simp
qed


theorem ring_acquire_total_witness:
  "acquire 7 1 12 (ring16 5 5 MAX_OFFSET MAX_OFFSET) = Inr (None, ring16 5 5 MAX_OFFSET MAX_OFFSET)"
  using ring_acquire_total [OF sys16_idle, of 1 7 12] by (auto simp: place_def)

theorem ring_consume_fifo_witness:
  "\<exists>m a r. consume (ring16 5 0 MAX_OFFSET 0) = Inr (m, a, r) \<and> unat m = 0"
proof -
  have p: "0 < (16::u64)" "unat (16::u64) < 2 ^ 32" by simp_all
  have l: "live (ring16 5 0 MAX_OFFSET 0) = [0..<5]" by (simp add: live_def)
  from ring_consume_fifo [OF sys16_acquired p] obtain m a r where
    c: "consume (ring16 5 0 MAX_OFFSET 0) = Inr (m, a, r)" "live r = live (ring16 5 0 MAX_OFFSET 0)"
      "take (unat m) (live r) = [wr r..<wr r + unat m]" and
    d: "\<forall>i b l. [1::nat \<mapsto> (0, 5)] i = Some (b, l) \<longrightarrow> {b..<b + l} \<inter> {wr r..<wr r + unat m} = {}"
    unfolding ring_sys.select_convs by - (elim exE conjE, rule that)
  have "[1::nat \<mapsto> (0::nat, 5::nat)] 1 = Some (0, 5)" by simp
  with d have e: "{0..<0 + 5} \<inter> {wr r..<wr r + unat m} = {}" by blast
  have "unat m = 0"
  proof (rule ccontr)
    assume "unat m \<noteq> 0"
    with c(2,3) l have "wr r \<in> set (take (unat m) [0..<5])" by simp
    then have "wr r < 5" by (auto dest: in_set_takeD)
    with e \<open>unat m \<noteq> 0\<close> show False by auto
  qed
  with c(1) show ?thesis by blast
qed

theorem ring_release_drops_witness:
  "\<exists>r. release 3 (ring16 5 0 MAX_OFFSET MAX_OFFSET) = Inr r \<and> live r = [3, 4]"
  using ring_release_drops [OF sys16_granted, of 3] by (auto simp: live_def)

theorem ring_regions_disjoint_witness: "{0..<5} \<subseteq> set (live (ring16 5 0 MAX_OFFSET 0))"
  using ring_regions_disjoint [OF sys16_acquired, of 1 0 5] by simp

theorem ring_idle_accepts_half_witness:
  "(\<exists>a r. acquire 0 1 8 (ring16 5 5 MAX_OFFSET MAX_OFFSET) = Inr (Some a, r)) \<and>
   acquire 0 1 12 (ring16 5 5 MAX_OFFSET MAX_OFFSET) = Inr (None, ring16 5 5 MAX_OFFSET MAX_OFFSET)"
  using ring_idle_accepts_half [OF sys16_idle, of 1 8 0] ring_idle_accepts_half [OF sys16_idle, of 1 12 0]
  by (simp add: live_def)

lemma ring16_writers:
  "writer_make 0 (ring16 0 0 MAX_OFFSET MAX_OFFSET)
     = Inr (\<lparr>w_buffer = True, w_worker = Some 0\<rparr>, ring16 0 0 MAX_OFFSET MAX_OFFSET)"
  "writer_make 1 (ring16 0 0 MAX_OFFSET MAX_OFFSET)
     = Inr (\<lparr>w_buffer = True, w_worker = Some 1\<rparr>, ring16 0 0 MAX_OFFSET MAX_OFFSET)"
  by (simp_all add: writer_make_def register_worker_def set_registered_def set_seen_def ring16_def)

theorem writer_assign_leaks_witness:
  "\<exists>r::ring. registered (workers r ! 0) \<and> \<not> registered (workers r ! 1)"
  using writer_assign_leaks [OF _ _ _ ring16_writers writer_assign_def]
  by (simp del: One_nat_def) blast

end
