(* ===== verification/RingThreads.thy ===== *)
theory RingThreads
  imports MpscRing
begin

text \<open>
  The ring buffer access by access (core/detail/MpscRingBuffer.cpp): any number of producers inside \<open>acquire\<close>, each
  before one of its loads, stores or its exchange, and one consumer inside \<open>consume\<close>, between the workers of its
  scan. Theory MpscRing has the same operations in one piece; here the state of the accesses is related to a state
  of that theory, in which an \<open>acquire\<close> takes effect at its exchange and a \<open>consume\<close> where it ends.

  The exchange cannot tell a producer offset from the same offset a round later (see \<open>ring_aba_overlap\<close> there), so
  the runs considered are those in which no exchange succeeds on an offset that changed since it was read.
\<close>

section \<open>The accesses of acquire and of consume\<close>

text \<open>Where a producer is: the size, the stable offset it read and the target it computed. Loads for assertions
  are part of the access they precede.\<close>

datatype acq_pc =
    AcqNext u64
  | AcqSeen u64 u64
  | AcqLoad u64 u64
  | AcqRefuse
  | AcqCas u64 u64 u64
  | AcqStable u64 u64
  | AcqEnd u64 u64
  | AcqOpen u64
  | AcqDone "u64 option"

definition acq_enter :: "nat \<Rightarrow> u64 \<Rightarrow> ring \<Rightarrow> ring_fail + acq_pc" where
  "acq_enter i len r =
     (if capacity r < len then Inr (AcqDone None)
      else if seen (workers r ! i) \<noteq> MAX_OFFSET then Inl AssertFails
      else Inr (AcqNext len))"

fun acq_access :: "nat \<Rightarrow> bool \<Rightarrow> acq_pc \<Rightarrow> ring \<Rightarrow> ring_fail + (acq_pc \<times> ring)" where
  "acq_access i weak (AcqNext len) r =
     (case stable_next r of
        Inl Spins \<Rightarrow> Inr (AcqNext len, r)
      | Inl e \<Rightarrow> Inl e
      | Inr sn \<Rightarrow> if buffer_index sn < capacity r then Inr (AcqSeen len sn, r) else Inl AssertFails)"
| "acq_access i weak (AcqSeen len sn) r = Inr (AcqLoad len sn, set_seen i (lock_wrap_bit (buffer_index sn)) r)"
| "acq_access i weak (AcqLoad len sn) r =
     (case acq_target (capacity r) sn len (current r) of
        None \<Rightarrow> Inr (AcqRefuse, r)
      | Some target \<Rightarrow> Inr (AcqCas len sn target, r))"
| "acq_access i weak AcqRefuse r = Inr (AcqDone None, set_seen i MAX_OFFSET r)"
| "acq_access i weak (AcqCas len sn target) r =
     (if weak then Inr (AcqNext len, r)
      else case acq_cas sn target r of
             None \<Rightarrow> Inr (AcqNext len, r)
           | Some r' \<Rightarrow> Inr (AcqStable sn target, r'))"
| "acq_access i weak (AcqStable sn target) r =
     (let r' = set_seen i (unlock_wrap_bit (seen (workers r ! i))) r in
      if is_locked target then Inr (AcqEnd sn target, r')
      else if buffer_index target \<le> capacity r then Inr (AcqDone (Some (buffer_index sn)), r')
      else Inl AssertFails)"
| "acq_access i weak (AcqEnd sn target) r =
     (if current r \<le> buffer_index sn \<and> end_mark r = MAX_OFFSET
      then Inr (AcqOpen target, r\<lparr>end_mark := buffer_index sn\<rparr>) else Inl AssertFails)"
| "acq_access i weak (AcqOpen target) r =
     (if buffer_index target \<le> capacity r
      then Inr (AcqDone (Some 0), r\<lparr>producer_barrier := unlock_wrap_bit target\<rparr>) else Inl AssertFails)"
| "acq_access i weak (AcqDone x) r = Inr (AcqDone x, r)"

text \<open>Where the consumer is: \<open>written\<close>, the index it read, the worker it looks at and \<open>ready\<close> so far.\<close>

datatype con_pc =
    ConNext u64
  | ConReg u64 u64 nat u64
  | ConSeen u64 u64 nat u64
  | ConEnd u64 u64 u64
  | ConWrap
  | ConDone u64 "u64 option"

fun con_access :: "con_pc \<Rightarrow> ring \<Rightarrow> ring_fail + (con_pc \<times> ring)" where
  "con_access (ConNext written) r =
     (case stable_next r of
        Inl Spins \<Rightarrow> Inr (ConNext written, r)
      | Inl e \<Rightarrow> Inl e
      | Inr sn \<Rightarrow> if written = buffer_index sn then Inr (ConDone 0 None, r)
                 else Inr (ConReg written (buffer_index sn) 0 MAX_OFFSET, r))"
| "con_access (ConReg written next k ready) r =
     (if length (workers r) \<le> k then Inr (ConEnd written next ready, r)
      else if registered (workers r ! k) then Inr (ConSeen written next k ready, r)
      else Inr (ConReg written next (Suc k) ready, r))"
| "con_access (ConSeen written next k ready) r =
     (case stable_seen (workers r ! k) of
        None \<Rightarrow> Inr (ConSeen written next k ready, r)
      | Some s \<Rightarrow> (let ready' = (if written \<le> s then min s ready else ready) in
                  if ready' < written then Inl AssertFails else Inr (ConReg written next (Suc k) ready', r)))"
| "con_access (ConEnd written next ready) r =
     (let found = (\<lambda>rd. case consume_check written rd r of
                           Inr (Got n a, r') \<Rightarrow> Inr (ConDone n a, r') | Inr (Wrapped, r') \<Rightarrow> Inl AssertFails | Inl e \<Rightarrow> Inl e)
      in if next < written then
           (let e = min (capacity r) (end_mark r) in
            if ready = MAX_OFFSET \<and> written = e then Inr (ConWrap, r\<lparr>end_mark := MAX_OFFSET\<rparr>)
            else if \<not> next < ready then Inl AssertFails
            else found (min ready e))
         else found (min ready next))"
| "con_access ConWrap r = Inr (ConNext 0, r\<lparr>consumer_barrier := 0\<rparr>)"
| "con_access (ConDone n a) r = Inr (ConDone n a, r)"

section \<open>Any number of producers and one consumer\<close>

text \<open>Besides the ring and the places: the region of a worker from its exchange to its \<open>produce\<close>, whether the
  producer offset is unchanged since a worker read it, the bytes granted to the consumer, and the offsets claimed by
  exchanges and released, in order.\<close>

record rt_sys =
  rt_ring :: ring
  rt_acq :: "nat \<Rightarrow> acq_pc option"
  rt_held :: "nat \<Rightarrow> (nat \<times> nat) option"
  rt_fresh :: "nat \<Rightarrow> bool"
  rt_con :: "con_pc option"
  rt_granted :: nat
  rt_claimed :: "nat list"
  rt_released :: "nat list"

definition rt_start :: "u64 \<Rightarrow> u32 \<Rightarrow> rt_sys" where
  "rt_start cap n = \<lparr>rt_ring = ring_new cap n, rt_acq = (\<lambda>_. None), rt_held = (\<lambda>_. None), rt_fresh = (\<lambda>_. False),
     rt_con = None, rt_granted = 0, rt_claimed = [], rt_released = []\<rparr>"

fun note_access :: "nat \<Rightarrow> acq_pc \<Rightarrow> acq_pc \<Rightarrow> rt_sys \<Rightarrow> rt_sys" where
  "note_access i (AcqNext len) (AcqSeen len' sn) s = s\<lparr>rt_fresh := (rt_fresh s)(i := True)\<rparr>"
| "note_access i (AcqCas len sn target) (AcqStable sn' target') s =
     (let a = (if is_locked target then 0 else unat sn) in
      s\<lparr>rt_fresh := (\<lambda>_. False), rt_held := (rt_held s)(i \<mapsto> (a, unat len)),
        rt_claimed := rt_claimed s @ [a..<a + unat len]\<rparr>)"
| "note_access i pc pc' s = s"

fun granted_by :: "con_pc \<Rightarrow> con_pc \<Rightarrow> nat \<Rightarrow> nat" where
  "granted_by (ConDone n a) pc' g = g"
| "granted_by pc (ConDone n a) g = unat n"
| "granted_by pc pc' g = g"

inductive rt_step :: "rt_sys \<Rightarrow> rt_sys \<Rightarrow> bool" where
  rt_prepare: "i < length (workers (rt_ring s)) \<Longrightarrow> rt_acq s i = None \<Longrightarrow> rt_held s i = None \<Longrightarrow>
     rt_step s (s\<lparr>rt_ring := set_seen i MAX_OFFSET (rt_ring s)\<rparr>)"
| rt_register: "i < length (workers (rt_ring s)) \<Longrightarrow> rt_acq s i = None \<Longrightarrow> rt_held s i = None \<Longrightarrow>
     seen (workers (rt_ring s) ! i) = MAX_OFFSET \<Longrightarrow>
     rt_step s (s\<lparr>rt_ring := set_registered i True (rt_ring s)\<rparr>)"
| rt_unregister: "i < length (workers (rt_ring s)) \<Longrightarrow> rt_acq s i = None \<Longrightarrow> rt_held s i = None \<Longrightarrow>
     rt_step s (s\<lparr>rt_ring := unregister_worker i (rt_ring s)\<rparr>)"
| rt_enter: "i < length (workers (rt_ring s)) \<Longrightarrow> registered (workers (rt_ring s) ! i) \<Longrightarrow> rt_acq s i = None \<Longrightarrow>
     rt_held s i = None \<Longrightarrow> 0 < len \<Longrightarrow> acq_enter i len (rt_ring s) = Inr pc \<Longrightarrow>
     rt_step s (s\<lparr>rt_acq := (rt_acq s)(i \<mapsto> pc)\<rparr>)"
| rt_access: "rt_acq s i = Some pc \<Longrightarrow> acq_access i weak pc (rt_ring s) = Inr (pc', r) \<Longrightarrow>
     rt_step s (note_access i pc pc' (s\<lparr>rt_ring := r, rt_acq := (rt_acq s)(i \<mapsto> pc')\<rparr>))"
| rt_leave: "rt_acq s i = Some (AcqDone x) \<Longrightarrow> rt_step s (s\<lparr>rt_acq := (rt_acq s)(i := None)\<rparr>)"
| rt_write: "rt_acq s i = None \<Longrightarrow> rt_held s i = Some (a, l) \<Longrightarrow> j < l \<Longrightarrow>
     rt_step s (s\<lparr>rt_ring := (rt_ring s)\<lparr>buffer := (buffer (rt_ring s))[a + j := b]\<rparr>\<rparr>)"
| rt_produce: "rt_acq s i = None \<Longrightarrow> rt_held s i = Some (a, l) \<Longrightarrow> produce i (rt_ring s) = Inr r \<Longrightarrow>
     rt_step s (s\<lparr>rt_ring := r, rt_held := (rt_held s)(i := None)\<rparr>)"
| rt_consume: "rt_con s = None \<Longrightarrow> rt_step s (s\<lparr>rt_con := Some (ConNext (current (rt_ring s)))\<rparr>)"
| rt_scan: "rt_con s = Some pc \<Longrightarrow> con_access pc (rt_ring s) = Inr (pc', r) \<Longrightarrow>
     rt_step s (s\<lparr>rt_ring := r, rt_con := Some pc', rt_granted := granted_by pc pc' (rt_granted s)\<rparr>)"
| rt_got: "rt_con s = Some (ConDone n a) \<Longrightarrow> rt_step s (s\<lparr>rt_con := None\<rparr>)"
| rt_release: "rt_con s = None \<Longrightarrow> unat n \<le> rt_granted s \<Longrightarrow> release n (rt_ring s) = Inr r \<Longrightarrow>
     rt_step s (s\<lparr>rt_ring := r, rt_granted := rt_granted s - unat n,
                 rt_released := rt_released s @ [wr (rt_ring s)..<wr (rt_ring s) + unat n]\<rparr>)"

inductive_cases rt_step_cases: "rt_step s t"

text \<open>No exchange that is about to happen would succeed on an offset that changed and came back.\<close>

definition no_aba :: "rt_sys \<Rightarrow> bool" where
  "no_aba s \<longleftrightarrow> (\<forall>i len sn target. rt_acq s i = Some (AcqCas len sn target) \<longrightarrow> producer_barrier (rt_ring s) = sn \<longrightarrow> rt_fresh s i)"

inductive rt_reachable :: "u64 \<Rightarrow> u32 \<Rightarrow> rt_sys \<Rightarrow> bool" for cap n where
  rt_init: "rt_reachable cap n (rt_start cap n)"
| rt_next: "rt_reachable cap n s \<Longrightarrow> no_aba s \<Longrightarrow> rt_step s t \<Longrightarrow> rt_reachable cap n t"

section \<open>The relation to the operations in one piece\<close>

definition target_of :: "u64 \<Rightarrow> nat \<Rightarrow> bool \<Rightarrow> u64" where
  "target_of len n' wrap = (if wrap then lock_wrap_bit len else of_nat n')"

abbreviation len_ok :: "ring \<Rightarrow> u64 \<Rightarrow> bool" where "len_ok C len \<equiv> 0 < unat len \<and> unat len \<le> cap_of C"

text \<open>A worker whose accesses see the ring \<open>R\<close>, with its entry \<open>w\<close> there and \<open>v\<close> in the ring \<open>C\<close> of the other
  theory; \<open>h\<close> is the region it holds, \<open>f\<close> its freshness.\<close>

fun pc_ok :: "ring \<Rightarrow> ring \<Rightarrow> (nat \<times> nat) option \<Rightarrow> bool \<Rightarrow> worker \<Rightarrow> worker \<Rightarrow> acq_pc \<Rightarrow> bool" where
  "pc_ok R C h f w v (AcqNext len) \<longleftrightarrow> h = None \<and> registered v \<and> len_ok C len"
| "pc_ok R C h f w v (AcqSeen len sn) \<longleftrightarrow> h = None \<and> registered v \<and> len_ok C len \<and> unat sn < cap_of C \<and>
     (f \<longrightarrow> producer_barrier R = sn)"
| "pc_ok R C h f w v (AcqLoad len sn) \<longleftrightarrow> h = None \<and> registered v \<and> len_ok C len \<and> unat sn < cap_of C \<and>
     (f \<longrightarrow> producer_barrier R = sn) \<and> seen w = lock_wrap_bit sn"
| "pc_ok R C h f w v AcqRefuse \<longleftrightarrow> h = None \<and> registered v"
| "pc_ok R C h f w v (AcqCas len sn t) \<longleftrightarrow> h = None \<and> registered v \<and> len_ok C len \<and> unat sn < cap_of C \<and>
     (f \<longrightarrow> producer_barrier R = sn) \<and> seen w = lock_wrap_bit sn \<and>
     (f \<longrightarrow> (\<exists>a n' wrap. place (cap_of C) (unat sn) (wr C) (unat len) = Some (a, n', wrap) \<and> t = target_of len n' wrap))"
| "pc_ok R C h f w v (AcqStable sn t) \<longleftrightarrow> (\<exists>l. h = Some (if is_locked t then 0 else unat sn, l)) \<and> registered v \<and>
     unat sn < cap_of C \<and> seen w = lock_wrap_bit sn \<and> seen v = sn \<and> buffer_index t \<le> capacity C \<and>
     (is_locked t \<longrightarrow> producer_barrier R = t \<and> end_mark R = MAX_OFFSET \<and> end_mark C = sn)"
| "pc_ok R C h f w v (AcqEnd sn t) \<longleftrightarrow> w = v \<and> (\<exists>l. h = Some (0, l)) \<and> unat sn < cap_of C \<and> is_locked t \<and>
     buffer_index t \<le> capacity C \<and> producer_barrier R = t \<and> end_mark R = MAX_OFFSET \<and> end_mark C = sn"
| "pc_ok R C h f w v (AcqOpen t) \<longleftrightarrow> w = v \<and> (\<exists>l. h = Some (0, l)) \<and> is_locked t \<and> buffer_index t \<le> capacity C \<and>
     producer_barrier R = t \<and> end_mark R = end_mark C"
| "pc_ok R C h f w v (AcqDone x) \<longleftrightarrow> w = v \<and> map_option unat x = map_option fst h"

text \<open>The scan: regions of the workers already looked at that start in the run at the consumer's offset are not
  below \<open>ready\<close>, or they were claimed after the offset was read.\<close>

definition scan_ok :: "ring \<Rightarrow> bool \<Rightarrow> (nat \<Rightarrow> (nat \<times> nat) option) \<Rightarrow> u64 \<Rightarrow> u64 \<Rightarrow> nat \<Rightarrow> u64 \<Rightarrow> bool" where
  "scan_ok C locked h w next k ready \<longleftrightarrow> w = consumer_barrier C \<and> w \<le> ready \<and> unat ready \<le> unat MAX_OFFSET \<and>
     (if wr C \<le> unat next then unat next \<le> top_of C else nx C < wr C \<and> \<not> locked) \<and>
     (\<forall>j a l. j < k \<longrightarrow> h j = Some (a, l) \<longrightarrow> wr C \<le> unat (seen (workers C ! j)) \<longrightarrow>
        unat ready \<le> unat (seen (workers C ! j)) \<or> (wr C \<le> unat next \<and> unat next \<le> unat (seen (workers C ! j))))"

fun con_ok :: "ring \<Rightarrow> ring \<Rightarrow> (nat \<Rightarrow> (nat \<times> nat) option) \<Rightarrow> con_pc \<Rightarrow> bool" where
  "con_ok R C h (ConNext w) \<longleftrightarrow> w = consumer_barrier C"
| "con_ok R C h (ConReg w next k ready) \<longleftrightarrow> scan_ok C (is_locked (producer_barrier R)) h w next k ready"
| "con_ok R C h (ConSeen w next k ready) \<longleftrightarrow> scan_ok C (is_locked (producer_barrier R)) h w next k ready \<and> k < length (workers C)"
| "con_ok R C h (ConEnd w next ready) \<longleftrightarrow> scan_ok C (is_locked (producer_barrier R)) h w next (length (workers C)) ready"
| "con_ok R C h ConWrap \<longleftrightarrow> nx C < wr C \<and> wr C = top_of C \<and> \<not> is_locked (producer_barrier R) \<and> end_mark R = MAX_OFFSET \<and>
     (\<forall>j a l. h j = Some (a, l) \<longrightarrow> unat (seen (workers C ! j)) < wr C)"
| "con_ok R C h (ConDone n a) \<longleftrightarrow> True"

fun wrapping :: "acq_pc option \<Rightarrow> bool" where
  "wrapping (Some (AcqStable sn t)) \<longleftrightarrow> is_locked t"
| "wrapping (Some (AcqEnd sn t)) \<longleftrightarrow> True"
| "wrapping (Some (AcqOpen t)) \<longleftrightarrow> True"
| "wrapping _ \<longleftrightarrow> False"

definition same_ring :: "ring \<Rightarrow> ring \<Rightarrow> bool" where
  "same_ring R C \<longleftrightarrow> capacity R = capacity C \<and> buffer R = buffer C \<and> length (workers R) = length (workers C) \<and>
     unlock_wrap_bit (producer_barrier R) = producer_barrier C \<and> consumer_barrier R = consumer_barrier C \<and>
     (\<forall>i < length (workers C). registered (workers R ! i) = registered (workers C ! i))"

definition workers_match :: "ring \<Rightarrow> rt_sys \<Rightarrow> bool" where
  "workers_match C s \<longleftrightarrow> (\<forall>i. case rt_acq s i of
       None \<Rightarrow> i < length (workers C) \<longrightarrow> workers (rt_ring s) ! i = workers C ! i
     | Some pc \<Rightarrow> i < length (workers C) \<and>
         pc_ok (rt_ring s) C (rt_held s i) (rt_fresh s i) (workers (rt_ring s) ! i) (workers C ! i) pc)"

definition lock_match :: "rt_sys \<Rightarrow> bool" where
  "lock_match s \<longleftrightarrow> (is_locked (producer_barrier (rt_ring s)) \<longrightarrow> (\<exists>i. wrapping (rt_acq s i))) \<and>
     (\<forall>i j. wrapping (rt_acq s i) \<longrightarrow> wrapping (rt_acq s j) \<longrightarrow> i = j)"

definition rt_inv :: "ring \<Rightarrow> rt_sys \<Rightarrow> bool" where
  "rt_inv C s \<longleftrightarrow> ring_inv \<lparr>rng = C, pending = rt_held s, granted = rt_granted s\<rparr> \<and>
     pending_apart \<lparr>rng = C, pending = rt_held s, granted = rt_granted s\<rparr> \<and>
     same_ring (rt_ring s) C \<and> workers_match C s \<and> lock_match s \<and>
     (\<not> is_locked (producer_barrier (rt_ring s)) \<and> rt_con s \<noteq> Some ConWrap \<longrightarrow> end_mark (rt_ring s) = end_mark C) \<and>
     (\<forall>pc. rt_con s = Some pc \<longrightarrow> con_ok (rt_ring s) C (rt_held s) pc) \<and>
     rt_claimed s = rt_released s @ live C"

section \<open>The accesses keep the relation\<close>

lemma rt_invD:
  assumes "rt_inv C s"
  shows "ring_inv \<lparr>rng = C, pending = rt_held s, granted = rt_granted s\<rparr>"
    "pending_apart \<lparr>rng = C, pending = rt_held s, granted = rt_granted s\<rparr>"
    "same_ring (rt_ring s) C" "workers_match C s" "lock_match s"
    "\<not> is_locked (producer_barrier (rt_ring s)) \<Longrightarrow> rt_con s \<noteq> Some ConWrap \<Longrightarrow> end_mark (rt_ring s) = end_mark C"
    "\<And>pc. rt_con s = Some pc \<Longrightarrow> con_ok (rt_ring s) C (rt_held s) pc"
    "rt_claimed s = rt_released s @ live C"
  using assms by (simp_all add: rt_inv_def)

lemma rt_invI:
  assumes "ring_inv \<lparr>rng = C, pending = rt_held s, granted = rt_granted s\<rparr>"
    "pending_apart \<lparr>rng = C, pending = rt_held s, granted = rt_granted s\<rparr>"
    "same_ring (rt_ring s) C" "workers_match C s" "lock_match s"
    "\<not> is_locked (producer_barrier (rt_ring s)) \<Longrightarrow> rt_con s \<noteq> Some ConWrap \<Longrightarrow> end_mark (rt_ring s) = end_mark C"
    "\<And>pc. rt_con s = Some pc \<Longrightarrow> con_ok (rt_ring s) C (rt_held s) pc"
    "rt_claimed s = rt_released s @ live C"
  shows "rt_inv C s"
  using assms by (simp add: rt_inv_def)

lemma same_ringD:
  assumes "same_ring R C"
  shows "capacity R = capacity C" "buffer R = buffer C" "length (workers R) = length (workers C)"
    "unlock_wrap_bit (producer_barrier R) = producer_barrier C" "consumer_barrier R = consumer_barrier C"
    "\<And>i. i < length (workers C) \<Longrightarrow> registered (workers R ! i) = registered (workers C ! i)"
  using assms by (simp_all add: same_ring_def)

lemma workers_matchD:
  assumes "workers_match C s"
  shows "rt_acq s i = None \<Longrightarrow> i < length (workers C) \<Longrightarrow> workers (rt_ring s) ! i = workers C ! i"
    "rt_acq s i = Some pc \<Longrightarrow> i < length (workers C)"
    "rt_acq s i = Some pc \<Longrightarrow> pc_ok (rt_ring s) C (rt_held s i) (rt_fresh s i) (workers (rt_ring s) ! i) (workers C ! i) pc"
proof -
  have "case rt_acq s i of None \<Rightarrow> i < length (workers C) \<longrightarrow> workers (rt_ring s) ! i = workers C ! i
     | Some pc \<Rightarrow> i < length (workers C) \<and>
         pc_ok (rt_ring s) C (rt_held s i) (rt_fresh s i) (workers (rt_ring s) ! i) (workers C ! i) pc"
    using assms unfolding workers_match_def by (rule spec)
  then show "rt_acq s i = None \<Longrightarrow> i < length (workers C) \<Longrightarrow> workers (rt_ring s) ! i = workers C ! i"
    "rt_acq s i = Some pc \<Longrightarrow> i < length (workers C)"
    "rt_acq s i = Some pc \<Longrightarrow> pc_ok (rt_ring s) C (rt_held s i) (rt_fresh s i) (workers (rt_ring s) ! i) (workers C ! i) pc"
    by simp_all
qed

lemma workers_matchI:
  assumes "\<And>i. rt_acq s i = None \<Longrightarrow> i < length (workers C) \<Longrightarrow> workers (rt_ring s) ! i = workers C ! i"
    "\<And>i pc. rt_acq s i = Some pc \<Longrightarrow> i < length (workers C) \<and>
       pc_ok (rt_ring s) C (rt_held s i) (rt_fresh s i) (workers (rt_ring s) ! i) (workers C ! i) pc"
  shows "workers_match C s"
  using assms unfolding workers_match_def by (auto split: option.split)

lemma pc_ok_cong:
  assumes "producer_barrier R' = producer_barrier R" "end_mark R' = end_mark R"
  shows "pc_ok R' C h f w v pc = pc_ok R C h f w v pc"
  by (cases pc) (simp_all add: assms)

lemma con_ok_cong:
  assumes "producer_barrier R' = producer_barrier R" "end_mark R' = end_mark R"
  shows "con_ok R' C h pc = con_ok R C h pc"
  by (cases pc) (simp_all add: assms)

text \<open>An access that changes at most the worker's own entry, and nothing in \<open>C\<close>.\<close>

lemma local_access:
  assumes inv: "rt_inv C s" and i: "i < length (workers C)"
    and R: "capacity R' = capacity (rt_ring s)" "buffer R' = buffer (rt_ring s)"
      "producer_barrier R' = producer_barrier (rt_ring s)" "consumer_barrier R' = consumer_barrier (rt_ring s)"
      "end_mark R' = end_mark (rt_ring s)" "length (workers R') = length (workers (rt_ring s))"
    and w: "\<And>j. j < length (workers C) \<Longrightarrow> j \<noteq> i \<Longrightarrow> workers R' ! j = workers (rt_ring s) ! j"
      "registered (workers R' ! i) = registered (workers (rt_ring s) ! i)"
    and f: "\<And>j. j \<noteq> i \<Longrightarrow> f' j = rt_fresh s j"
    and pc: "pc_ok (rt_ring s) C (rt_held s i) (f' i) (workers R' ! i) (workers C ! i) pc'"
    and l: "wrapping (Some pc') = wrapping (rt_acq s i)"
  shows "rt_inv C (s\<lparr>rt_ring := R', rt_acq := (rt_acq s)(i \<mapsto> pc'), rt_fresh := f'\<rparr>)" (is "rt_inv C ?s")
proof (rule rt_invI)
  note d = rt_invD [OF inv] and sr = same_ringD [OF rt_invD(3) [OF inv]]
  have "registered (workers R' ! j) = registered (workers C ! j)" if "j < length (workers C)" for j
    using w sr(6) that by (cases "j = i") simp_all
  then show "same_ring (rt_ring ?s) C" using sr(1-5) R by (simp add: same_ring_def)
  show "workers_match C ?s"
  proof (rule workers_matchI)
    fix j assume "rt_acq ?s j = None" "j < length (workers C)"
    then show "workers (rt_ring ?s) ! j = workers C ! j"
      using workers_matchD(1) [OF d(4), of j] w(1) by (cases "j = i") simp_all
  next
    fix j p assume p: "rt_acq ?s j = Some p"
    show "j < length (workers C) \<and>
       pc_ok (rt_ring ?s) C (rt_held ?s j) (rt_fresh ?s j) (workers (rt_ring ?s) ! j) (workers C ! j) p"
    proof (cases "j = i")
      case True
      then show ?thesis using p i pc pc_ok_cong [OF R(3,5)] by simp
    next
      case False
      then have a: "rt_acq s j = Some p" using p by simp
      then show ?thesis using workers_matchD(2,3) [OF d(4) a] w(1) [of j] f False pc_ok_cong [OF R(3,5)] by simp
    qed
  qed
  have o: "wrapping (rt_acq ?s j) = wrapping (rt_acq s j)" for j using l by simp
  show "lock_match ?s" using d(5) R(3) unfolding lock_match_def o by simp
  show "end_mark (rt_ring ?s) = end_mark C" if "\<not> is_locked (producer_barrier (rt_ring ?s))" "rt_con ?s \<noteq> Some ConWrap"
    using d(6) that R(3,5) by simp
  show "con_ok (rt_ring ?s) C (rt_held ?s) p" if "rt_con ?s = Some p" for p
    using d(7) that con_ok_cong [OF R(3,5)] by simp
qed (use rt_invD [OF inv] in simp_all)

lemma next_stable:
  assumes inv: "rt_inv C s"
  shows "is_locked (producer_barrier (rt_ring s)) \<Longrightarrow> stable_next (rt_ring s) = Inl Spins"
    "\<not> is_locked (producer_barrier (rt_ring s)) \<Longrightarrow> stable_next (rt_ring s) = Inr (producer_barrier C) \<and>
       producer_barrier (rt_ring s) = producer_barrier C"
    "nx C < cap_of C" "cap_of C < 2 ^ 32" "buffer_index (producer_barrier C) = producer_barrier C" "wr C < cap_of C"
proof -
  note d = rt_invD [OF inv] and sr = same_ringD [OF rt_invD(3) [OF inv]]
  show c: "nx C < cap_of C" "cap_of C < 2 ^ 32" "wr C < cap_of C" using d(1) by (simp_all add: ring_inv_def ring_wf_def)
  then show b: "buffer_index (producer_barrier C) = producer_barrier C" by (intro buffer_index_small) simp
  show "stable_next (rt_ring s) = Inl Spins" if "is_locked (producer_barrier (rt_ring s))"
    using that by (simp add: stable_next_def)
  assume n: "\<not> is_locked (producer_barrier (rt_ring s))"
  have "unlock_wrap_bit x = x" if "\<not> is_locked x" for x
    by (rule bit_word_eqI) (use that in \<open>auto simp: unlock_wrap_bit_def bit_lock bit_simps is_locked_bit\<close>)
  then have e: "producer_barrier (rt_ring s) = producer_barrier C" using n sr(4) by metis
  then show "stable_next (rt_ring s) = Inr (producer_barrier C) \<and> producer_barrier (rt_ring s) = producer_barrier C"
    using n b c(1) sr(1) by (simp add: stable_next_def word_less_nat_alt)
qed

lemma lock_index: "unat sn < 2 ^ 32 \<Longrightarrow> unlock_wrap_bit (lock_wrap_bit sn) = sn"
  by (rule unlock_lock) simp

text \<open>Accesses before the exchange, and a failed exchange.\<close>

lemma early_access:
  assumes inv: "rt_inv C s" and a: "rt_acq s i = Some pc" "acq_access i weak pc (rt_ring s) = Inr (pc', r)"
    and k: "(\<exists>len. pc = AcqNext len) \<or> (\<exists>len sn. pc = AcqSeen len sn) \<or> (\<exists>len sn. pc = AcqLoad len sn) \<or> pc = AcqRefuse \<or>
      (\<exists>len. pc' = AcqNext len) \<or> (\<exists>x. pc = AcqDone x)"
  shows "rt_inv C (note_access i pc pc' (s\<lparr>rt_ring := r, rt_acq := (rt_acq s)(i \<mapsto> pc')\<rparr>))"
proof -
  note d = rt_invD [OF inv] and sr = same_ringD [OF rt_invD(3) [OF inv]] and nw = next_stable [OF inv]
  have i: "i < length (workers C)" by (rule workers_matchD(2) [OF d(4) a(1)])
  have iR: "i < length (workers (rt_ring s))" using i sr(3) by simp
  note pk = workers_matchD(3) [OF d(4) a(1)]
  have reg: "registered (workers (rt_ring s) ! i) = registered (workers C ! i)" by (rule sr(6) [OF i])
  have idle: "registered (workers C ! i) \<Longrightarrow> rt_held s i = None \<Longrightarrow> seen (workers C ! i) = MAX_OFFSET"
    using d(1) i by (auto simp: ring_inv_def worker_ok_def split: option.splits)
  have small: "buffer_index sn = sn" if "unat sn < cap_of C" for sn
    using that nw(4) by (intro buffer_index_small) simp
  note loc = local_access [OF inv i, where f' = "rt_fresh s"]
  show ?thesis
  proof (cases pc)
    case (AcqNext len)
    show ?thesis
    proof (cases "is_locked (producer_barrier (rt_ring s))")
      case True
      then have "r = rt_ring s" "pc' = pc" using a(2) AcqNext nw(1) by auto
      then show ?thesis using inv a(1) AcqNext by (simp add: fun_upd_idem)
    next
      case False
      then have "r = rt_ring s" "pc' = AcqSeen len (producer_barrier C)" "producer_barrier (rt_ring s) = producer_barrier C"
        using a(2) AcqNext nw(2,3,5) sr(1) by (auto split: if_splits)
      then show ?thesis
        using local_access [OF inv i, of "rt_ring s" "(rt_fresh s)(i := True)" pc'] pk AcqNext a(1) nw(3)
        by (simp add: fun_upd_def)
    qed
  next
    case (AcqSeen len sn)
    then have "pc' = AcqLoad len sn" "r = set_seen i (lock_wrap_bit sn) (rt_ring s)" using a(2) pk small by auto
    then show ?thesis using loc [of r pc'] pk AcqSeen a(1) iR by simp
  next
    case (AcqLoad len sn)
    have t: "acq_target (capacity (rt_ring s)) sn len (current (rt_ring s)) =
      (case place (cap_of C) (unat sn) (wr C) (unat len) of None \<Rightarrow> None | Some (a, n', wrap) \<Rightarrow> Some (target_of len n' wrap))"
      using acq_target_place [of "capacity C" sn len "consumer_barrier C"] pk AcqLoad nw(4,6) sr(1,5)
      by (simp add: current_def target_of_def split: option.split)
    show ?thesis
    proof (cases "place (cap_of C) (unat sn) (wr C) (unat len)")
      case None
      then have "pc' = AcqRefuse" "r = rt_ring s" using a(2) t AcqLoad by auto
      then show ?thesis using loc [of r pc'] pk AcqLoad a(1) by simp
    next
      case (Some p)
      obtain b n' wrap where p: "p = (b, n', wrap)" by (cases p)
      then have "pc' = AcqCas len sn (target_of len n' wrap)" "r = rt_ring s" using a(2) t AcqLoad Some by auto
      then show ?thesis using loc [of r pc'] pk AcqLoad a(1) Some p by simp
    qed
  next
    case AcqRefuse
    then have "pc' = AcqDone None" "r = set_seen i MAX_OFFSET (rt_ring s)" using a(2) by auto
    moreover have "(workers (rt_ring s) ! i)\<lparr>seen := MAX_OFFSET\<rparr> = workers C ! i"
      using idle reg pk AcqRefuse by (cases "workers (rt_ring s) ! i"; cases "workers C ! i") simp
    ultimately show ?thesis using loc [of r pc'] pk AcqRefuse a(1) iR reg by simp
  next
    case (AcqCas len sn t)
    then obtain len' where "pc' = AcqNext len'" using k by auto
    then have "pc' = AcqNext len" "r = rt_ring s" using a(2) AcqCas by (auto split: if_splits option.splits)
    then show ?thesis using loc [of r pc'] pk AcqCas a(1) by simp
  next
    case (AcqDone x)
    then have "pc' = AcqDone x" "r = rt_ring s" using a(2) by simp_all
    then show ?thesis using inv a(1) AcqDone by (simp add: fun_upd_idem)
  qed (use k a(2) in \<open>auto split: if_splits simp: Let_def\<close>)
qed

lemma lock_matchD:
  assumes "lock_match s"
  shows "is_locked (producer_barrier (rt_ring s)) \<Longrightarrow> \<exists>i. wrapping (rt_acq s i)"
    "wrapping (rt_acq s i) \<Longrightarrow> wrapping (rt_acq s j) \<Longrightarrow> i = j"
  using assms unfolding lock_match_def by blast+

lemma wrapping_locked:
  assumes "rt_inv C s" "wrapping (rt_acq s i)" shows "is_locked (producer_barrier (rt_ring s))"
proof (cases "rt_acq s i")
  case (Some pc)
  then show ?thesis
    using workers_matchD(3) [OF rt_invD(4) [OF assms(1)] Some] assms(2) by (cases pc) simp_all
qed (use assms(2) in simp)

lemma not_locked_unlocked: "\<not> is_locked (unlock_wrap_bit x)"
  by (simp add: is_locked_bit unlock_wrap_bit_def bit_simps bit_lock)

lemma unlock_idem [simp]: "unlock_wrap_bit (unlock_wrap_bit x) = unlock_wrap_bit x"
  by (simp add: unlock_wrap_bit_def and.assoc)

text \<open>After the exchange: the worker's offset becomes stable.\<close>

lemma stable_access:
  assumes inv: "rt_inv C s" and a: "rt_acq s i = Some (AcqStable sn t)"
  shows "\<exists>pc' r. acq_access i weak (AcqStable sn t) (rt_ring s) = Inr (pc', r) \<and>
    rt_inv C (s\<lparr>rt_ring := r, rt_acq := (rt_acq s)(i \<mapsto> pc')\<rparr>)"
proof -
  note d = rt_invD [OF inv] and sr = same_ringD [OF rt_invD(3) [OF inv]] and nw = next_stable [OF inv]
  have i: "i < length (workers C)" by (rule workers_matchD(2) [OF d(4) a])
  have iR: "i < length (workers (rt_ring s))" using i sr(3) by simp
  have pk: "\<exists>l. rt_held s i = Some (if is_locked t then 0 else unat sn, l)" "registered (workers C ! i)" "unat sn < cap_of C"
    "seen (workers (rt_ring s) ! i) = lock_wrap_bit sn" "seen (workers C ! i) = sn" "buffer_index t \<le> capacity C"
    "is_locked t \<Longrightarrow> producer_barrier (rt_ring s) = t \<and> end_mark (rt_ring s) = MAX_OFFSET \<and> end_mark C = sn"
    using workers_matchD(3) [OF d(4) a] by simp_all
  let ?r = "set_seen i sn (rt_ring s)"
  have u: "unlock_wrap_bit (lock_wrap_bit sn) = sn" using pk(3) nw(4) by (intro lock_index) simp
  have b: "buffer_index sn = sn" using pk(3) nw(4) by (intro buffer_index_small) simp
  have e: "(workers (rt_ring s) ! i)\<lparr>seen := sn\<rparr> = workers C ! i"
    using sr(6) [OF i] pk(2,5) by (cases "workers (rt_ring s) ! i"; cases "workers C ! i") simp
  have reg: "registered (workers ?r ! i) = registered (workers (rt_ring s) ! i)" using iR by simp
  show ?thesis
  proof (cases "is_locked t")
    case True
    have "rt_inv C (s\<lparr>rt_ring := ?r, rt_acq := (rt_acq s)(i \<mapsto> AcqEnd sn t), rt_fresh := rt_fresh s\<rparr>)"
      by (rule local_access [OF inv i]) (use pk a iR e True reg in auto)
    then show ?thesis using pk(4) u True by simp
  next
    case False
    have "rt_inv C (s\<lparr>rt_ring := ?r, rt_acq := (rt_acq s)(i \<mapsto> AcqDone (Some sn)), rt_fresh := rt_fresh s\<rparr>)"
      by (rule local_access [OF inv i]) (use pk a iR e False reg in auto)
    then show ?thesis using pk(4,6) u b False sr(1) by (simp add: Let_def)
  qed
qed

lemma end_access:
  assumes inv: "rt_inv C s" and a: "rt_acq s i = Some (AcqEnd sn t)"
  shows "\<exists>pc' r. acq_access i weak (AcqEnd sn t) (rt_ring s) = Inr (pc', r) \<and>
    rt_inv C (s\<lparr>rt_ring := r, rt_acq := (rt_acq s)(i \<mapsto> pc')\<rparr>)"
proof -
  note d = rt_invD [OF inv] and sr = same_ringD [OF rt_invD(3) [OF inv]] and nw = next_stable [OF inv]
  have i: "i < length (workers C)" by (rule workers_matchD(2) [OF d(4) a])
  have pk: "workers (rt_ring s) ! i = workers C ! i" "\<exists>l. rt_held s i = Some (0, l)" "unat sn < cap_of C" "is_locked t"
    "buffer_index t \<le> capacity C" "producer_barrier (rt_ring s) = t" "end_mark (rt_ring s) = MAX_OFFSET" "end_mark C = sn"
    using workers_matchD(3) [OF d(4) a] by simp_all
  have b: "buffer_index sn = sn" using pk(3) nw(4) by (intro buffer_index_small) simp
  have "sn \<noteq> MAX_OFFSET" using pk(3) nw(4) unat_max by fastforce
  then have "wr C \<le> unat sn" using d(1) pk(8) by (auto simp: ring_inv_def ring_wf_def)
  then have acc: "acq_access i weak (AcqEnd sn t) (rt_ring s) = Inr (AcqOpen t, (rt_ring s)\<lparr>end_mark := sn\<rparr>)"
    using pk(7) b sr(5) by (simp add: current_def word_le_nat_alt)
  let ?R = "(rt_ring s)\<lparr>end_mark := sn\<rparr>"
  let ?s = "s\<lparr>rt_ring := ?R, rt_acq := (rt_acq s)(i \<mapsto> AcqOpen t)\<rparr>"
  have only: "\<not> wrapping (rt_acq s j)" if "j \<noteq> i" for j using lock_matchD(2) [OF d(5), of i j] a that by auto
  have "rt_inv C ?s"
  proof (rule rt_invI)
    show "same_ring (rt_ring ?s) C" using d(3) by (simp add: same_ring_def)
    show "workers_match C ?s"
    proof (rule workers_matchI)
      fix j assume "rt_acq ?s j = None" "j < length (workers C)"
      then show "workers (rt_ring ?s) ! j = workers C ! j"
        using workers_matchD(1) [OF d(4), of j] by (simp split: if_splits)
    next
      fix j p assume p: "rt_acq ?s j = Some p"
      show "j < length (workers C) \<and>
         pc_ok (rt_ring ?s) C (rt_held ?s j) (rt_fresh ?s j) (workers (rt_ring ?s) ! j) (workers C ! j) p"
      proof (cases "j = i")
        case True
        then show ?thesis using p i pk by auto
      next
        case False
        then have aj: "rt_acq s j = Some p" using p by simp
        have "\<not> wrapping (Some p)" using only [OF False] aj by simp
        then show ?thesis using workers_matchD(2,3) [OF d(4) aj] by (cases p) simp_all
      qed
    qed
    have o: "wrapping (rt_acq ?s j) = wrapping (rt_acq s j)" for j using a by simp
    show "lock_match ?s" using d(5) unfolding lock_match_def o by simp
    show "con_ok (rt_ring ?s) C (rt_held ?s) p" if "rt_con ?s = Some p" for p
    proof -
      have "con_ok (rt_ring s) C (rt_held s) p" using d(7) that by simp
      then show ?thesis using pk(4,6) by (cases p) simp_all
    qed
  qed (use d pk in simp_all)
  then show ?thesis using acc by blast
qed

lemma open_access:
  assumes inv: "rt_inv C s" and a: "rt_acq s i = Some (AcqOpen t)"
  shows "\<exists>pc' r. acq_access i weak (AcqOpen t) (rt_ring s) = Inr (pc', r) \<and>
    rt_inv C (s\<lparr>rt_ring := r, rt_acq := (rt_acq s)(i \<mapsto> pc')\<rparr>) \<and> \<not> is_locked (producer_barrier r)"
proof -
  note d = rt_invD [OF inv] and sr = same_ringD [OF rt_invD(3) [OF inv]] and nw = next_stable [OF inv]
  have i: "i < length (workers C)" by (rule workers_matchD(2) [OF d(4) a])
  have pk: "workers (rt_ring s) ! i = workers C ! i" "\<exists>l. rt_held s i = Some (0, l)" "is_locked t"
    "buffer_index t \<le> capacity C" "producer_barrier (rt_ring s) = t" "end_mark (rt_ring s) = end_mark C"
    using workers_matchD(3) [OF d(4) a] by simp_all
  let ?R = "(rt_ring s)\<lparr>producer_barrier := unlock_wrap_bit t\<rparr>"
  let ?s = "s\<lparr>rt_ring := ?R, rt_acq := (rt_acq s)(i \<mapsto> AcqDone (Some 0))\<rparr>"
  have acc: "acq_access i weak (AcqOpen t) (rt_ring s) = Inr (AcqDone (Some 0), ?R)" using pk(4) sr(1) by simp
  have only: "\<not> wrapping (rt_acq s j)" if "j \<noteq> i" for j using lock_matchD(2) [OF d(5), of i j] a that by auto
  have stale: "producer_barrier (rt_ring s) \<noteq> sn" if "unat sn < cap_of C" for sn
    using pk(3,5) not_locked [of sn] that nw(4) by auto
  have "rt_inv C ?s"
  proof (rule rt_invI)
    have "unlock_wrap_bit t = producer_barrier C" using sr(4) pk(5) by simp
    then have "unlock_wrap_bit (unlock_wrap_bit t) = producer_barrier C" by (rule trans [OF unlock_idem])
    then show "same_ring (rt_ring ?s) C" using sr(1-3,5,6) unfolding same_ring_def by (simp del: unlock_idem)
    show "workers_match C ?s"
    proof (rule workers_matchI)
      fix j assume "rt_acq ?s j = None" "j < length (workers C)"
      then show "workers (rt_ring ?s) ! j = workers C ! j"
        using workers_matchD(1) [OF d(4), of j] by (simp split: if_splits)
    next
      fix j p assume p: "rt_acq ?s j = Some p"
      show "j < length (workers C) \<and>
         pc_ok (rt_ring ?s) C (rt_held ?s j) (rt_fresh ?s j) (workers (rt_ring ?s) ! j) (workers C ! j) p"
      proof (cases "j = i")
        case True
        then show ?thesis using p i pk by auto
      next
        case False
        then have aj: "rt_acq s j = Some p" using p by simp
        have "\<not> wrapping (Some p)" using only [OF False] aj by simp
        then show ?thesis using workers_matchD(2,3) [OF d(4) aj] stale by (cases p) auto
      qed
    qed
    show "lock_match ?s" using only by (auto simp: lock_match_def not_locked_unlocked split: if_splits)
    show "con_ok (rt_ring ?s) C (rt_held ?s) p" if "rt_con ?s = Some p" for p
    proof -
      have "con_ok (rt_ring s) C (rt_held s) p" using d(7) that by simp
      then show ?thesis using pk(3,5) by (cases p) (simp_all add: scan_ok_def not_locked_unlocked split: if_splits)
    qed
  qed (use d pk in simp_all)
  then show ?thesis using acc not_locked_unlocked by auto
qed

text \<open>A claim leaves the consumer's view true: what it claims lies beyond what the scan is about.\<close>

lemma con_ok_place:
  assumes ok: "con_ok R C h pc" and wf: "ring_wf C" and i: "i < length (workers C)"
    and p: "place (cap_of C) (nx C) (wr C) len = Some (a, n', wrap)" and len: "len \<le> cap_of C" "0 < len"
    and R: "is_locked (producer_barrier R') = wrap" "end_mark R' = end_mark R"
  shows "con_ok R' (after_place a n' wrap i C) (h(i \<mapsto> (a, len))) pc"
proof -
  let ?C = "after_place a n' wrap i C"
  note n = after_place_nx [OF wf p len(1)] and top = place_live(2) [OF wf p len, of i]
  have behind: "n' < wr C \<and> \<not> wrap \<and> a = nx C" if "nx C < wr C"
    using p by (cases rule: place_cases) (use that in auto)
  have scan: "scan_ok ?C (is_locked (producer_barrier R')) (h(i \<mapsto> (a, len))) w m k ready"
    if s: "scan_ok C (is_locked (producer_barrier R)) h w m k ready" for w m k ready
  proof -
    have X: "if wr ?C \<le> unat m then unat m \<le> top_of ?C else nx ?C < wr ?C \<and> \<not> is_locked (producer_barrier R')"
    proof (cases "wr C \<le> unat m")
      case True
      then have "unat m \<le> top_of C" using s by (simp add: scan_ok_def)
      then have "unat m \<le> top_of ?C" using top by (auto simp: top_of_def)
      then show ?thesis using True by simp
    next
      case False
      then have "nx C < wr C" using s by (simp add: scan_ok_def)
      with False show ?thesis using behind R(1) n by simp
    qed
    have Y: "unat ready \<le> unat (seen (workers ?C ! j)) \<or> (wr ?C \<le> unat m \<and> unat m \<le> unat (seen (workers ?C ! j)))"
      if j: "j < k" "(h(i \<mapsto> (a, len))) j = Some (b, l)" "wr ?C \<le> unat (seen (workers ?C ! j))" for j b l
    proof (cases "j = i")
      case True
      then have sn: "seen (workers ?C ! j) = producer_barrier C" using i by simp
      then have "wr C \<le> nx C" using j(3) by simp
      then have t: "top_of C = nx C" "\<not> nx C < wr C" by (simp_all add: top_of_def)
      then have "wr C \<le> unat m" "unat m \<le> nx C" using s by (auto simp: scan_ok_def split: if_splits)
      then show ?thesis using sn by simp
    next
      case False
      then have "workers ?C ! j = workers C ! j" using i by simp
      then show ?thesis using s j False unfolding scan_ok_def by auto
    qed
    have "w = consumer_barrier C" "w \<le> ready" "unat ready \<le> unat MAX_OFFSET" using s unfolding scan_ok_def by blast+
    moreover have "consumer_barrier ?C = consumer_barrier C" by simp
    ultimately show ?thesis using X Y unfolding scan_ok_def by metis
  qed
  show ?thesis
  proof (cases pc)
    case ConWrap
    then have w: "nx C < wr C" "wr C = top_of C" "end_mark R = MAX_OFFSET"
      "\<And>j b l. h j = Some (b, l) \<Longrightarrow> unat (seen (workers C ! j)) < wr C" using ok by auto
    have "unat (seen (workers ?C ! j)) < wr C" if "(h(i \<mapsto> (a, len))) j = Some (b, l)" for j b l
    proof (cases "j = i")
      case True
      then show ?thesis using i w(1) by simp
    next
      case False
      then show ?thesis using that w(4) i by simp
    qed
    moreover have "top_of ?C = top_of C" using top w(1) by simp
    ultimately show ?thesis using ConWrap w(2,3) behind [OF w(1)] R n by simp
  qed (use ok scan i in auto)
qed

lemma cas_access:
  assumes inv: "rt_inv C s" and a: "rt_acq s i = Some (AcqCas len sn t)" "producer_barrier (rt_ring s) = sn" "rt_fresh s i"
  shows "\<exists>C'. rt_inv C' (note_access i (AcqCas len sn t) (AcqStable sn t)
    (s\<lparr>rt_ring := (rt_ring s)\<lparr>producer_barrier := t\<rparr>, rt_acq := (rt_acq s)(i \<mapsto> AcqStable sn t)\<rparr>))"
proof -
  note d = rt_invD [OF inv] and sr = same_ringD [OF rt_invD(3) [OF inv]] and nw = next_stable [OF inv]
  have i: "i < length (workers C)" by (rule workers_matchD(2) [OF d(4) a(1)])
  have pk: "rt_held s i = None" "registered (workers C ! i)" "len_ok C len" "unat sn < cap_of C"
    "seen (workers (rt_ring s) ! i) = lock_wrap_bit sn"
    "\<exists>a n' wrap. place (cap_of C) (unat sn) (wr C) (unat len) = Some (a, n', wrap) \<and> t = target_of len n' wrap"
    using workers_matchD(3) [OF d(4) a(1)] a(3) by simp_all
  have unl: "\<not> is_locked (producer_barrier (rt_ring s))" using a(2) pk(4) nw(4) not_locked [of sn] by simp
  then have sn: "producer_barrier C = sn" using nw(2) a(2) by simp
  obtain b n' wrap where p: "place (cap_of C) (nx C) (wr C) (unat len) = Some (b, n', wrap)" and t: "t = target_of len n' wrap"
    using pk(6) sn by auto
  have wf: "ring_wf C" using d(1) by (simp add: ring_inv_def)
  have len: "unat len \<le> cap_of C" "0 < unat len" using pk(3) by simp_all
  note pb = place_bounds [OF p nw(3) len(1) nw(6)] and n = after_place_nx [OF wf p len(1)]
  have small: "unat (of_nat n' :: u64) < 2 ^ 32" "unat len < 2 ^ 32" using n pb(1) nw(4) len(1) by simp_all
  have lt: "is_locked t = wrap" using t small not_locked [of "of_nat n'"] by (simp add: target_of_def locked_lock)
  have ut: "unlock_wrap_bit t = of_nat n'" "buffer_index t \<le> capacity C"
  proof -
    show "unlock_wrap_bit t = of_nat n'"
      using t small pb(4) by (cases wrap) (simp_all add: target_of_def unlock_lock unlock_small)
    show "buffer_index t \<le> capacity C"
      using t small pb(1) len(1) n by (cases wrap) (simp_all add: target_of_def index_lock buffer_index_small word_le_nat_alt)
  qed
  have b: "b = (if is_locked t then 0 else unat sn)" using pb(4,5) lt sn by simp
  let ?C = "after_place b n' wrap i C" and ?h = "(rt_held s)(i \<mapsto> (b, unat len))"
  let ?s = "s\<lparr>rt_ring := (rt_ring s)\<lparr>producer_barrier := t\<rparr>, rt_acq := (rt_acq s)(i \<mapsto> AcqStable sn t),
      rt_fresh := (\<lambda>_. False), rt_held := ?h, rt_claimed := rt_claimed s @ [b..<b + unat len]\<rparr>"
  have nwrap: "\<not> wrapping (rt_acq s j)" for j using wrapping_locked [OF inv] unl by blast
  have other: "workers ?C ! j = workers C ! j" if "j \<noteq> i" for j using that i by simp
  have endR: "end_mark (rt_ring s) = MAX_OFFSET" if wrap
  proof -
    have "wr C \<le> nx C" using pb(4) that by simp
    then have "end_mark C = MAX_OFFSET" "rt_con s \<noteq> Some ConWrap" using wf d(7) by (auto simp: ring_wf_def)
    then show ?thesis using d(6) [OF unl] by simp
  qed
  have "rt_inv ?C ?s"
  proof (rule rt_invI)
    show "ring_inv \<lparr>rng = ?C, pending = rt_held ?s, granted = rt_granted ?s\<rparr>"
      using ring_inv_acquire [OF d(1), of i len b n' wrap] i pk(1,2) len p by simp
    show "pending_apart \<lparr>rng = ?C, pending = rt_held ?s, granted = rt_granted ?s\<rparr>"
      using pending_apart_acquire [OF d(1,2), where len = "unat len" and a = b and n' = n' and wrap = wrap and r = ?C and i = i] p len by simp
    have "registered (workers ?C ! j) = registered (workers C ! j)" if "j < length (workers C)" for j
      using i by (cases "j = i") simp_all
    then show "same_ring (rt_ring ?s) ?C" using sr ut(1) by (simp add: same_ring_def)
    show "workers_match ?C ?s"
    proof (rule workers_matchI)
      fix j assume "rt_acq ?s j = None" "j < length (workers ?C)"
      then show "workers (rt_ring ?s) ! j = workers ?C ! j"
        using workers_matchD(1) [OF d(4), of j] other by (auto split: if_splits)
    next
      fix j q assume q: "rt_acq ?s j = Some q"
      show "j < length (workers ?C) \<and>
         pc_ok (rt_ring ?s) ?C (rt_held ?s j) (rt_fresh ?s j) (workers (rt_ring ?s) ! j) (workers ?C ! j) q"
      proof (cases "j = i")
        case True
        have "is_locked t \<Longrightarrow> end_mark ?C = sn" using lt sn by simp
        then show ?thesis using True q i pk(2,4,5) b lt endR sn ut(2) by auto
      next
        case False
        then have aj: "rt_acq s j = Some q" using q by simp
        have "\<not> wrapping (Some q)" using nwrap [of j] aj by simp
        then show ?thesis using workers_matchD(2,3) [OF d(4) aj] other [OF False] False by (cases q) simp_all
      qed
    qed
    show "lock_match ?s" using nwrap by (auto simp: lock_match_def split: if_splits)
    show "end_mark (rt_ring ?s) = end_mark ?C"
      if "\<not> is_locked (producer_barrier (rt_ring ?s))" "rt_con ?s \<noteq> Some ConWrap"
      using that lt d(6) [OF unl] by simp
    show "con_ok (rt_ring ?s) ?C (rt_held ?s) q" if "rt_con ?s = Some q" for q
      using con_ok_place [OF d(7) wf i p len, of q] that lt by simp
    show "rt_claimed ?s = rt_released ?s @ live ?C"
      using d(8) place_live(1) [OF wf p len, of i] by simp
  qed
  moreover have "note_access i (AcqCas len sn t) (AcqStable sn t)
    (s\<lparr>rt_ring := (rt_ring s)\<lparr>producer_barrier := t\<rparr>, rt_acq := (rt_acq s)(i \<mapsto> AcqStable sn t)\<rparr>) = ?s"
    using b by (simp add: Let_def)
  ultimately show ?thesis by auto
qed

lemma scan_okD:
  assumes "scan_ok C locked h w m k ready"
  shows "w = consumer_barrier C" "w \<le> ready" "unat ready \<le> unat MAX_OFFSET"
    "wr C \<le> unat m \<Longrightarrow> unat m \<le> top_of C" "\<not> wr C \<le> unat m \<Longrightarrow> nx C < wr C \<and> \<not> locked"
    "\<And>j a l. j < k \<Longrightarrow> h j = Some (a, l) \<Longrightarrow> wr C \<le> unat (seen (workers C ! j)) \<Longrightarrow>
       unat ready \<le> unat (seen (workers C ! j)) \<or> (wr C \<le> unat m \<and> unat m \<le> unat (seen (workers C ! j)))"
  using assms unfolding scan_ok_def by (auto split: if_splits)

lemma scan_ok_move:
  assumes s: "scan_ok C locked h w m k ready" and r: "w \<le> ready'" "ready' \<le> ready"
    and k: "\<And>j a l. j < k' \<Longrightarrow> h j = Some (a, l) \<Longrightarrow> wr C \<le> unat (seen (workers C ! j)) \<Longrightarrow> j < k \<or> unat ready' \<le> unat (seen (workers C ! j))"
  shows "scan_ok C locked h w m k' ready'"
proof -
  note d = scan_okD [OF s]
  have "unat ready' \<le> unat ready" using r(2) by (simp add: word_le_nat_alt)
  then have "unat ready' \<le> unat MAX_OFFSET" "\<And>j a l. j < k' \<Longrightarrow> h j = Some (a, l) \<Longrightarrow> wr C \<le> unat (seen (workers C ! j)) \<Longrightarrow>
       unat ready' \<le> unat (seen (workers C ! j)) \<or> (wr C \<le> unat m \<and> unat m \<le> unat (seen (workers C ! j)))"
    using d(3,6) k le_trans by blast+
  then show ?thesis using d(1,4,5) r(1) unfolding scan_ok_def by auto
qed

lemma ring_inv_grant:
  assumes inv: "ring_inv \<lparr>rng = C, pending = h, granted = g\<rparr>" and n: "wr C + n \<le> top_of C"
    and s: "\<And>i a l. h i = Some (a, l) \<Longrightarrow> wr C \<le> unat (seen (workers C ! i)) \<Longrightarrow> wr C + n \<le> unat (seen (workers C ! i))"
  shows "ring_inv \<lparr>rng = C, pending = h, granted = n\<rparr>"
proof -
  have "worker_ok C n (h i) (workers C ! i)" if i: "i < length (workers C)" for i
  proof (cases "h i")
    case None
    then show ?thesis using inv i unfolding ring_inv_def worker_ok_def by fastforce
  next
    case (Some p)
    obtain a l where p: "h i = Some (a, l)" using Some by (cases p) simp
    have k: "registered (workers C ! i)" "region_ok C g a l" "seen_ok C a (unat (seen (workers C ! i)))"
      using ring_inv_pending(2-4) [OF inv, of i a l] p by simp_all
    then have "region_ok C n a l" using region_ok_grant s [OF p] by blast
    then show ?thesis using p k by (simp add: worker_ok_def)
  qed
  then show ?thesis using inv n by (simp add: ring_inv_def)
qed

lemma apart_same: "pending_apart \<lparr>rng = C, pending = h, granted = g\<rparr> \<Longrightarrow> pending_apart \<lparr>rng = C', pending = h, granted = g'\<rparr>"
  by (simp add: pending_apart_def)

text \<open>A step of the consumer alone.\<close>

lemma con_move:
  assumes inv: "rt_inv C s" and g: "ring_inv \<lparr>rng = C, pending = rt_held s, granted = g'\<rparr>"
    and c: "con_ok (rt_ring s) C (rt_held s) pc'" "rt_con s \<noteq> Some ConWrap" "pc' \<noteq> ConWrap"
  shows "rt_inv C (s\<lparr>rt_con := Some pc', rt_granted := g'\<rparr>)"
proof (rule rt_invI)
  note d = rt_invD [OF inv]
  let ?s = "s\<lparr>rt_con := Some pc', rt_granted := g'\<rparr>"
  show "workers_match C ?s" using d(4) by (simp add: workers_match_def cong: option.case_cong)
  show "lock_match ?s" using d(5) by (simp add: lock_match_def)
  show "pending_apart \<lparr>rng = C, pending = rt_held ?s, granted = rt_granted ?s\<rparr>" using d(2) by (simp add: pending_apart_def)
qed (use rt_invD [OF inv] g c in simp_all)

lemma held_seen:
  assumes inv: "rt_inv C s" and h: "rt_held s k = Some (a, l)" and u: "\<not> is_locked (seen (workers (rt_ring s) ! k))"
  shows "workers (rt_ring s) ! k = workers C ! k"
proof (cases "rt_acq s k")
  case None
  have "k < length (workers C)" using ring_inv_pending(5) [OF rt_invD(1) [OF inv], of k a l] h by simp
  then show ?thesis using workers_matchD(1) [OF rt_invD(4) [OF inv] None] by simp
next
  case (Some pc)
  note pk = workers_matchD(3) [OF rt_invD(4) [OF inv] Some]
  show ?thesis using pk h u by (cases pc) (simp_all add: locked_lock)
qed

lemma consume_check_same:
  "consume_check w rd R = (case consume_check w rd C of Inl e \<Rightarrow> Inl e | Inr (c, r) \<Rightarrow> Inr (c, R))" if "capacity R = capacity C"
  using that by (simp add: consume_check_def)

lemma scan_access:
  assumes inv: "rt_inv C s" and c: "rt_con s = Some pc"
    and k: "(\<exists>w. pc = ConNext w) \<or> (\<exists>w m j rd. pc = ConReg w m j rd) \<or> (\<exists>w m j rd. pc = ConSeen w m j rd)"
  shows "\<exists>pc'. con_access pc (rt_ring s) = Inr (pc', rt_ring s) \<and>
    rt_inv C (s\<lparr>rt_con := Some pc', rt_granted := granted_by pc pc' (rt_granted s)\<rparr>)"
proof -
  note d = rt_invD [OF inv] and sr = same_ringD [OF rt_invD(3) [OF inv]] and nw = next_stable [OF inv]
  note ok = d(7) [OF c]
  have "s\<lparr>rt_con := Some pc, rt_granted := rt_granted s\<rparr> = s" using c by (cases s) simp
  then have stay: "rt_inv C (s\<lparr>rt_con := Some pc, rt_granted := rt_granted s\<rparr>)" using inv by simp
  note move = con_move [OF inv d(1)]
  have nm: "unat MAX_OFFSET = 2 ^ 63 - 1" by (rule unat_max)
  show ?thesis
  proof (cases pc)
    case (ConNext w)
    then have w: "w = consumer_barrier C" using ok by simp
    show ?thesis
    proof (cases "is_locked (producer_barrier (rt_ring s))")
      case True
      then show ?thesis using nw(1) ConNext stay by simp
    next
      case False
      then have sn: "stable_next (rt_ring s) = Inr (producer_barrier C)" using nw(2) by blast
      show ?thesis
      proof (cases "w = producer_barrier C")
        case True
        have "ring_inv \<lparr>rng = C, pending = rt_held s, granted = 0\<rparr>"
          using ring_inv_grant [OF d(1), of 0] d(1) by (simp add: ring_inv_def)
        from con_move [OF inv this, of "ConDone 0 None"] show ?thesis
          using sn True nw(5) ConNext c by (intro exI [of _ "ConDone 0 None"]) simp
      next
        case nz: False
        have "scan_ok C (is_locked (producer_barrier (rt_ring s))) (rt_held s) w (producer_barrier C) 0 MAX_OFFSET"
          using w False nw nm by (simp add: scan_ok_def top_of_def word_le_nat_alt)
        then show ?thesis using sn nz nw(5) ConNext c move [of "ConReg w (producer_barrier C) 0 MAX_OFFSET"]
          by (intro exI [of _ "ConReg w (producer_barrier C) 0 MAX_OFFSET"]) simp
      qed
    qed
  next
    case (ConReg w m j rd)
    then have sc: "scan_ok C (is_locked (producer_barrier (rt_ring s))) (rt_held s) w m j rd" using ok by simp
    show ?thesis
    proof (cases "length (workers C) \<le> j")
      case True
      have "scan_ok C (is_locked (producer_barrier (rt_ring s))) (rt_held s) w m (length (workers C)) rd"
        by (rule scan_ok_move [OF sc]) (use scan_okD(2) [OF sc] True in auto)
      then show ?thesis using True sr(3) ConReg c move [of "ConEnd w m rd"] by (intro exI [of _ "ConEnd w m rd"]) simp
    next
      case False
      then have jl: "j < length (workers C)" by simp
      show ?thesis
      proof (cases "registered (workers (rt_ring s) ! j)")
        case True
        then show ?thesis using sc jl sr(3) ConReg c move [of "ConSeen w m j rd"]
          by (intro exI [of _ "ConSeen w m j rd"]) simp
      next
        case nr: False
        have "rt_held s j = None"
        proof (rule ccontr)
          assume "rt_held s j \<noteq> None"
          then obtain a l where "rt_held s j = Some (a, l)" by auto
          then show False using ring_inv_pending(2) [OF d(1), of j a l] nr sr(6) [OF jl] by simp
        qed
        then have "scan_ok C (is_locked (producer_barrier (rt_ring s))) (rt_held s) w m (Suc j) rd"
          by (intro scan_ok_move [OF sc]) (use scan_okD(2) [OF sc] in \<open>auto simp: less_Suc_eq\<close>)
        then show ?thesis using nr jl sr(3) ConReg c move [of "ConReg w m (Suc j) rd"]
          by (intro exI [of _ "ConReg w m (Suc j) rd"]) simp
      qed
    qed
  next
    case (ConSeen w m j rd)
    then have sc: "scan_ok C (is_locked (producer_barrier (rt_ring s))) (rt_held s) w m j rd" "j < length (workers C)" using ok by simp_all
    let ?x = "seen (workers (rt_ring s) ! j)"
    show ?thesis
    proof (cases "is_locked ?x")
      case True
      then show ?thesis using ConSeen stay by (simp add: stable_seen_def)
    next
      case False
      let ?rd = "if w \<le> ?x then min ?x rd else rd"
      have r: "w \<le> ?rd" "?rd \<le> rd" "w \<le> ?x \<Longrightarrow> ?rd \<le> ?x" using scan_okD(2) [OF sc(1)] by auto
      have "scan_ok C (is_locked (producer_barrier (rt_ring s))) (rt_held s) w m (Suc j) ?rd"
      proof (rule scan_ok_move [OF sc(1) r(1,2)])
        fix i a l assume i: "i < Suc j" "rt_held s i = Some (a, l)" "wr C \<le> unat (seen (workers C ! i))"
        show "i < j \<or> unat ?rd \<le> unat (seen (workers C ! i))"
        proof (cases "i = j")
          case True
          then have e: "workers C ! i = workers (rt_ring s) ! j" using held_seen [OF inv i(2)] False by simp
          then have "w \<le> ?x" using i(3) scan_okD(1) [OF sc(1)] by (simp add: word_le_nat_alt)
          then show ?thesis using r(3) e by (simp add: word_le_nat_alt)
        qed (use i(1) in simp)
      qed
      moreover have "con_access pc (rt_ring s) = Inr (ConReg w m (Suc j) ?rd, rt_ring s)"
        using False r(1) ConSeen by (simp add: stable_seen_def Let_def not_less)
      ultimately show ?thesis using ConSeen c move [of "ConReg w m (Suc j) ?rd"]
        by (intro exI [of _ "ConReg w m (Suc j) ?rd"]) simp
    qed
  qed (use k in simp_all)
qed

text \<open>The end of the scan.\<close>

lemma end_of_scan:
  assumes inv: "rt_inv C s" and c: "rt_con s = Some (ConEnd w m rd)"
  shows "\<exists>pc' r. con_access (ConEnd w m rd) (rt_ring s) = Inr (pc', r) \<and>
    rt_inv C (s\<lparr>rt_ring := r, rt_con := Some pc', rt_granted := granted_by (ConEnd w m rd) pc' (rt_granted s)\<rparr>)"
proof -
  note d = rt_invD [OF inv] and sr = same_ringD [OF rt_invD(3) [OF inv]] and nw = next_stable [OF inv]
  have sc: "scan_ok C (is_locked (producer_barrier (rt_ring s))) (rt_held s) w m (length (workers C)) rd" using d(7) [OF c] by simp
  note so = scan_okD [OF sc]
  have wf: "ring_wf C" using d(1) by (simp add: ring_inv_def)
  have hl: "j < length (workers C)" if "rt_held s j = Some (a, l)" for j a l
    using ring_inv_pending(5) [OF d(1), of j a l] that by simp
  have fin: "\<exists>pc' r. Inr (ConDone (rd' - w) (Some w), rt_ring s) = Inr (pc', r) \<and>
      rt_inv C (s\<lparr>rt_ring := r, rt_con := Some pc', rt_granted := granted_by (ConEnd w m rd) pc' (rt_granted s)\<rparr>)"
    if r: "wr C \<le> unat rd'" "unat rd' \<le> top_of C"
      "\<And>j a l. rt_held s j = Some (a, l) \<Longrightarrow> wr C \<le> unat (seen (workers C ! j)) \<Longrightarrow> unat rd' \<le> unat (seen (workers C ! j))" for rd'
  proof -
    have n: "unat (rd' - w) = unat rd' - wr C" using r(1) so(1) by (subst unat_sub) (simp_all add: word_le_nat_alt)
    have "ring_inv \<lparr>rng = C, pending = rt_held s, granted = unat (rd' - w)\<rparr>"
      by (rule ring_inv_grant [OF d(1)]) (use n r in auto)
    from con_move [OF inv this, of "ConDone (rd' - w) (Some w)"] c show ?thesis by simp
  qed
  have chk: "consume_check w rd' (rt_ring s) = Inr (Got (rd' - w) (Some w), rt_ring s)"
    if "wr C \<le> unat rd'" "unat rd' \<le> cap_of C" for rd'
    using consume_check_ok [of "rt_ring s" rd'] that so(1) sr(1,5) by simp
  have tc: "top_of C \<le> cap_of C" using wf by (auto simp: top_of_def ring_wf_def)
  show ?thesis
  proof (cases "wr C \<le> unat m")
    case True
    let ?rd = "min rd m"
    have r: "wr C \<le> unat ?rd" "unat ?rd \<le> top_of C" "unat ?rd \<le> cap_of C"
      using so(1,2) True so(4) [OF True] tc by (auto simp: unat_min word_le_nat_alt)
    have "unat ?rd \<le> unat (seen (workers C ! j))"
      if "rt_held s j = Some (a, l)" "wr C \<le> unat (seen (workers C ! j))" for j a l
      using so(6) [OF hl [OF that(1)] that] by (auto simp: unat_min)
    moreover have "con_access (ConEnd w m rd) (rt_ring s) = Inr (ConDone (?rd - w) (Some w), rt_ring s)"
      using True so(1) chk [OF r(1,3)] by (simp add: word_less_nat_alt Let_def)
    ultimately show ?thesis using fin [OF r(1,2)] by simp
  next
    case False
    then have lt: "nx C < wr C" "\<not> is_locked (producer_barrier (rt_ring s))" using so(5) by simp_all
    have eR: "end_mark (rt_ring s) = end_mark C" using d(6) [OF lt(2)] c by simp
    have mw: "m < w" using False so(1) by (simp add: word_less_nat_alt)
    let ?e = "min (capacity C) (end_mark C)"
    have e: "unat ?e = top_of C" "wr C \<le> top_of C" "top_of C < 2 ^ 32"
      using lt(1) wf by (auto simp: unat_min top_of_def ring_wf_def unat_max)
    have sd: "rd = MAX_OFFSET \<longrightarrow> \<not> wr C \<le> unat (seen (workers C ! j))" if h: "rt_held s j = Some (a, l)" for j a l
    proof (intro impI notI)
      assume x: "rd = MAX_OFFSET" "wr C \<le> unat (seen (workers C ! j))"
      then have "unat MAX_OFFSET \<le> unat (seen (workers C ! j))" using so(6) [OF hl [OF h] h x(2)] False by simp
      moreover have "a < cap_of C" using region_small(2) [OF wf] ring_inv_pending(3) [OF d(1), of j a l] h by simp
      ultimately show False using ring_inv_pending(4) [OF d(1), of j a l] h nw(4) by (auto simp: seen_ok_def unat_max)
    qed
    show ?thesis
    proof (cases "rd = MAX_OFFSET \<and> w = ?e")
      case True
      let ?R = "(rt_ring s)\<lparr>end_mark := MAX_OFFSET\<rparr>"
      let ?s = "s\<lparr>rt_ring := ?R, rt_con := Some ConWrap, rt_granted := rt_granted s\<rparr>"
      have acc: "con_access (ConEnd w m rd) (rt_ring s) = Inr (ConWrap, ?R)"
        using True mw eR sr(1) by (simp add: Let_def)
      have nwrap: "\<not> wrapping (rt_acq s j)" for j using wrapping_locked [OF inv] lt(2) by blast
      have "rt_inv C ?s"
      proof (rule rt_invI)
        show "same_ring (rt_ring ?s) C" using d(3) by (simp add: same_ring_def)
        show "workers_match C ?s"
        proof (rule workers_matchI)
          fix j assume "rt_acq ?s j = None" "j < length (workers C)"
          then show "workers (rt_ring ?s) ! j = workers C ! j" using workers_matchD(1) [OF d(4), of j] by simp
        next
          fix j p assume p: "rt_acq ?s j = Some p"
          then have aj: "rt_acq s j = Some p" by simp
          have "\<not> wrapping (Some p)" using nwrap [of j] aj by simp
          then show "j < length (workers C) \<and>
             pc_ok (rt_ring ?s) C (rt_held ?s j) (rt_fresh ?s j) (workers (rt_ring ?s) ! j) (workers C ! j) p"
            using workers_matchD(2,3) [OF d(4) aj] by (cases p) simp_all
        qed
        show "lock_match ?s" using d(5) by (simp add: lock_match_def)
        show "con_ok (rt_ring ?s) C (rt_held ?s) p" if "rt_con ?s = Some p" for p
        proof -
          have "wr C = top_of C" using True e(1) so(1) by simp
          moreover have "unat (seen (workers C ! j)) < wr C" if "rt_held s j = Some (a, l)" for j a l
            using sd [OF that] True by simp
          ultimately show ?thesis using that lt by auto
        qed
      qed (use d in simp_all)
      then show ?thesis using acc by simp
    next
      case nt: False
      let ?rd = "min rd ?e"
      have r: "wr C \<le> unat ?rd" "unat ?rd \<le> top_of C" "unat ?rd \<le> cap_of C"
        using so(1,2) e tc by (auto simp: unat_min word_le_nat_alt)
      have "unat ?rd \<le> unat (seen (workers C ! j))"
        if "rt_held s j = Some (a, l)" "wr C \<le> unat (seen (workers C ! j))" for j a l
        using so(6) [OF hl [OF that(1)] that] False by (auto simp: unat_min)
      moreover have "m < rd" using mw so(2) by (rule less_le_trans)
      then have "con_access (ConEnd w m rd) (rt_ring s) = Inr (ConDone (?rd - w) (Some w), rt_ring s)"
        using mw nt chk [OF r(1,3)] eR sr(1) by (auto simp: Let_def)
      ultimately show ?thesis using fin [OF r(1,2)] by simp
    qed
  qed
qed

lemma place_to_zero: "place cap n w len = Some x \<Longrightarrow> n < w \<Longrightarrow> w \<le> cap \<Longrightarrow> place cap n 0 len = Some x"
  by (auto simp: place_def split: if_splits)

text \<open>The consumer's offset moved in \<open>C\<close> and in the ring: what the producers computed stays true.\<close>

lemma pc_ok_consumer:
  assumes "pc_ok R C h f w v pc" "capacity C' = capacity C" "end_mark C' = end_mark C \<or> \<not> wrapping (Some pc)"
    "producer_barrier R' = producer_barrier R" "end_mark R' = end_mark R \<or> \<not> wrapping (Some pc)"
    "\<And>len a n' wrap. producer_barrier R = sn \<Longrightarrow> place (cap_of C) (unat sn) (wr C) len = Some (a, n', wrap) \<Longrightarrow>
       place (cap_of C) (unat sn) (wr C') len = Some (a, n', wrap)"
    and sn: "sn = producer_barrier R"
  shows "pc_ok R' C' h f w v pc"
  using assms by (cases pc) auto

lemma wrap_access:
  assumes inv: "rt_inv C s" and c: "rt_con s = Some ConWrap"
  shows "\<exists>C'. rt_inv C' (s\<lparr>rt_ring := (rt_ring s)\<lparr>consumer_barrier := 0\<rparr>, rt_con := Some (ConNext 0), rt_granted := rt_granted s\<rparr>)"
proof -
  note d = rt_invD [OF inv] and sr = same_ringD [OF rt_invD(3) [OF inv]] and nw = next_stable [OF inv]
  have ok: "nx C < wr C" "wr C = top_of C" "\<not> is_locked (producer_barrier (rt_ring s))" "end_mark (rt_ring s) = MAX_OFFSET"
    "\<And>j a l. rt_held s j = Some (a, l) \<Longrightarrow> unat (seen (workers C ! j)) < wr C" using d(7) [OF c] by auto
  have P: "producer_barrier (rt_ring s) = producer_barrier C" using nw(2) ok(3) by blast
  let ?C = "C\<lparr>end_mark := MAX_OFFSET, consumer_barrier := 0\<rparr>"
  have g: "rt_granted s = 0" using d(1) ok(2) by (simp add: ring_inv_def)
  have w: "ring_inv \<lparr>rng = ?C, pending = rt_held s, granted = 0\<rparr>" "live ?C = live C"
    using consume_wrapped_inv [OF d(1)] ok by simp_all
  let ?s = "s\<lparr>rt_ring := (rt_ring s)\<lparr>consumer_barrier := 0\<rparr>, rt_con := Some (ConNext 0), rt_granted := rt_granted s\<rparr>"
  have nwrap: "\<not> wrapping (rt_acq s j)" for j using wrapping_locked [OF inv] ok(3) by blast
  have "rt_inv ?C ?s"
  proof (rule rt_invI)
    show "workers_match ?C ?s"
    proof (rule workers_matchI)
      fix j assume "rt_acq ?s j = None" "j < length (workers ?C)"
      then show "workers (rt_ring ?s) ! j = workers ?C ! j" using workers_matchD(1) [OF d(4), of j] by simp
    next
      fix j p assume "rt_acq ?s j = Some p"
      then have aj: "rt_acq s j = Some p" by simp
      have nwp: "\<not> wrapping (Some p)" using nwrap [of j] aj by simp
      have "pc_ok (rt_ring ?s) ?C (rt_held s j) (rt_fresh s j) (workers (rt_ring s) ! j) (workers C ! j) p"
        by (rule pc_ok_consumer [OF workers_matchD(3) [OF d(4) aj]])
          (use nwp P ok(1) nw(6) place_to_zero in auto)
      then show "j < length (workers ?C) \<and>
         pc_ok (rt_ring ?s) ?C (rt_held ?s j) (rt_fresh ?s j) (workers (rt_ring ?s) ! j) (workers ?C ! j) p"
        using workers_matchD(2) [OF d(4) aj] by simp
    qed
    show "lock_match ?s" using d(5) by (simp add: lock_match_def)
    show "same_ring (rt_ring ?s) ?C" using d(3) by (simp add: same_ring_def)
    show "pending_apart \<lparr>rng = ?C, pending = rt_held ?s, granted = rt_granted ?s\<rparr>" using d(2) by (simp add: pending_apart_def)
  qed (use d w g ok in simp_all)
  then show ?thesis by blast
qed

text \<open>A worker outside of \<open>acquire\<close> changes its own entry.\<close>

lemma worker_step:
  assumes inv: "rt_inv C s" and a: "rt_acq s i = None" and i: "i < length (workers C)" and b: "b \<Longrightarrow> y = MAX_OFFSET"
    and r: "r = (rt_ring s)\<lparr>workers := (workers (rt_ring s))[i := \<lparr>seen = y, registered = b\<rparr>]\<rparr>"
  shows "\<exists>C'. rt_inv C' (s\<lparr>rt_ring := r, rt_held := (rt_held s)(i := None)\<rparr>)"
proof -
  note d = rt_invD [OF inv] and sr = same_ringD [OF rt_invD(3) [OF inv]]
  let ?C = "C\<lparr>workers := (workers C)[i := \<lparr>seen = y, registered = b\<rparr>]\<rparr>" and ?h = "(rt_held s)(i := None)"
  let ?s = "s\<lparr>rt_ring := r, rt_held := ?h\<rparr>"
  have C: "?C = set_registered i b (set_seen i y C)"
    using i by (simp add: set_registered_def set_seen_def worker_fields)
  have view: "top_of ?C = top_of C" "live ?C = live C" by (rule ring_view_cong; simp)+
  have "rt_inv ?C ?s"
  proof (rule rt_invI)
    show "ring_inv \<lparr>rng = ?C, pending = rt_held ?s, granted = rt_granted ?s\<rparr>"
      using set_seen_inv [OF d(1), of ?C i b y] C b by simp
    show "pending_apart \<lparr>rng = ?C, pending = rt_held ?s, granted = rt_granted ?s\<rparr>"
      using d(2) by (simp add: pending_apart_def)
    have "registered (workers r ! j) = registered (workers ?C ! j)" if "j < length (workers C)" for j
      using sr(3,6) that i r by (cases "j = i") simp_all
    then show "same_ring (rt_ring ?s) ?C" using sr(1-5) r by (simp add: same_ring_def)
    show "workers_match ?C ?s"
    proof (rule workers_matchI)
      fix j assume "rt_acq ?s j = None" "j < length (workers ?C)"
      then show "workers (rt_ring ?s) ! j = workers ?C ! j"
        using workers_matchD(1) [OF d(4), of j] i sr(3) r by (cases "j = i") simp_all
    next
      fix j p assume "rt_acq ?s j = Some p"
      then have aj: "rt_acq s j = Some p" by simp
      then have "j \<noteq> i" using a by auto
      then show "j < length (workers ?C) \<and>
         pc_ok (rt_ring ?s) ?C (rt_held ?s j) (rt_fresh ?s j) (workers (rt_ring ?s) ! j) (workers ?C ! j) p"
        using workers_matchD(2,3) [OF d(4) aj] r by (cases p) simp_all
    qed
    show "lock_match ?s" using d(5) r by (simp add: lock_match_def)
    show "con_ok (rt_ring ?s) ?C (rt_held ?s) p" if "rt_con ?s = Some p" for p
    proof -
      have sc: "scan_ok ?C l ?h w m k rd" if "scan_ok C l (rt_held s) w m k rd" for l w m k rd
        using that view(1) unfolding scan_ok_def by auto
      have "con_ok (rt_ring s) C (rt_held s) p" using d(7) that by simp
      then show ?thesis using sc view(1) r by (cases p) auto
    qed
  qed (use d view r in simp_all)
  then show ?thesis by blast
qed

lemma write_step:
  assumes inv: "rt_inv C s" and l: "length b = length (buffer (rt_ring s))"
  shows "rt_inv (C\<lparr>buffer := b\<rparr>) (s\<lparr>rt_ring := (rt_ring s)\<lparr>buffer := b\<rparr>\<rparr>)" (is "rt_inv ?C ?s")
proof (rule rt_invI)
  note d = rt_invD [OF inv] and sr = same_ringD [OF rt_invD(3) [OF inv]]
  have lb: "length b = length (buffer C)" using l sr(2) by simp
  have view: "ring_wf ?C = ring_wf C" "top_of ?C = top_of C" "live ?C = live C" "worker_ok ?C g p w = worker_ok C g p w" for g p w
    by (rule ring_view_cong; simp add: lb)+
  show "ring_inv \<lparr>rng = ?C, pending = rt_held ?s, granted = rt_granted ?s\<rparr>"
    using d(1) by (simp add: ring_inv_def view)
  show "pending_apart \<lparr>rng = ?C, pending = rt_held ?s, granted = rt_granted ?s\<rparr>"
    using d(2) by (simp add: pending_apart_def)
  show "same_ring (rt_ring ?s) ?C" using sr by (simp add: same_ring_def)
  show "workers_match ?C ?s"
  proof (rule workers_matchI)
    fix j assume "rt_acq ?s j = None" "j < length (workers ?C)"
    then show "workers (rt_ring ?s) ! j = workers ?C ! j" using workers_matchD(1) [OF d(4), of j] by simp
  next
    fix j p assume "rt_acq ?s j = Some p"
    then have aj: "rt_acq s j = Some p" by simp
    then show "j < length (workers ?C) \<and>
       pc_ok (rt_ring ?s) ?C (rt_held ?s j) (rt_fresh ?s j) (workers (rt_ring ?s) ! j) (workers ?C ! j) p"
      using workers_matchD(2,3) [OF d(4) aj] by (cases p) simp_all
  qed
  show "lock_match ?s" using d(5) by (simp add: lock_match_def)
  show "con_ok (rt_ring ?s) ?C (rt_held ?s) p" if "rt_con ?s = Some p" for p
  proof -
    have sc: "scan_ok ?C = scan_ok C" by (intro ext) (simp add: scan_ok_def view)
    have "con_ok (rt_ring s) C (rt_held s) p" using d(7) that by simp
    then show ?thesis by (cases p) (auto simp: sc view)
  qed
  show "rt_claimed ?s = rt_released ?s @ live ?C" using d(8) view(3) by simp
qed (use rt_invD [OF inv] in simp_all)

lemma enter_step:
  assumes inv: "rt_inv C s" and i: "i < length (workers (rt_ring s))" "registered (workers (rt_ring s) ! i)"
    "rt_acq s i = None" "rt_held s i = None" "0 < len"
  shows "\<exists>pc. acq_enter i len (rt_ring s) = Inr pc \<and> rt_inv C (s\<lparr>rt_acq := (rt_acq s)(i \<mapsto> pc)\<rparr>)"
proof -
  note d = rt_invD [OF inv] and sr = same_ringD [OF rt_invD(3) [OF inv]]
  have iC: "i < length (workers C)" using i(1) sr(3) by simp
  have w: "workers (rt_ring s) ! i = workers C ! i" by (rule workers_matchD(1) [OF d(4) i(3) iC])
  have r: "registered (workers C ! i)" using w i(2) by simp
  then have "seen (workers (rt_ring s) ! i) = MAX_OFFSET"
    using d(1) iC w i(4) by (auto simp: ring_inv_def worker_ok_def split: option.splits)
  moreover have "rt_inv C (s\<lparr>rt_ring := rt_ring s, rt_acq := (rt_acq s)(i \<mapsto> pc), rt_fresh := rt_fresh s\<rparr>)"
    if "pc = AcqDone None \<or> (pc = AcqNext len \<and> unat len \<le> cap_of C)" for pc
    using that by (intro local_access [OF inv iC]) (use w r i in \<open>auto simp: word_less_nat_alt\<close>)
  then have "rt_inv C (s\<lparr>rt_acq := (rt_acq s)(i \<mapsto> pc)\<rparr>)"
    if "pc = AcqDone None \<or> (pc = AcqNext len \<and> unat len \<le> cap_of C)" for pc using that by simp
  ultimately show ?thesis using sr(1) by (simp add: acq_enter_def word_less_nat_alt)
qed

lemma leave_step:
  assumes inv: "rt_inv C s" and a: "rt_acq s i = Some (AcqDone x)"
  shows "rt_inv C (s\<lparr>rt_acq := (rt_acq s)(i := None)\<rparr>)" (is "rt_inv C ?s")
proof (rule rt_invI)
  note d = rt_invD [OF inv]
  show "workers_match C ?s"
  proof (rule workers_matchI)
    fix j assume "rt_acq ?s j = None" "j < length (workers C)"
    then show "workers (rt_ring ?s) ! j = workers C ! j"
      using workers_matchD(1) [OF d(4), of j] workers_matchD(3) [OF d(4) a] by (cases "j = i") simp_all
  next
    fix j p assume "rt_acq ?s j = Some p"
    then have aj: "rt_acq s j = Some p" by (simp split: if_splits)
    then show "j < length (workers C) \<and>
       pc_ok (rt_ring ?s) C (rt_held ?s j) (rt_fresh ?s j) (workers (rt_ring ?s) ! j) (workers C ! j) p"
      using workers_matchD(2,3) [OF d(4) aj] by simp
  qed
  have o: "wrapping (rt_acq ?s j) = wrapping (rt_acq s j)" for j using a by simp
  show "lock_match ?s" using d(5) unfolding lock_match_def o by simp
qed (use rt_invD [OF inv] in simp_all)

lemma place_release:
  assumes wf: "ring_wf C" and g: "wr C + g \<le> top_of C" and n: "unat n \<le> g"
    and w': "w' = (if wr C + unat n = cap_of C then 0 else wr C + unat n)"
    and p: "place (cap_of C) (nx C) (wr C) len = Some x"
  shows "place (cap_of C) (nx C) w' len = Some x"
proof (cases "nx C < wr C")
  case True
  then show ?thesis using p w' wf by (auto simp: place_def ring_wf_def split: if_splits)
next
  case False
  then have "wr C + unat n \<le> nx C" using g n by (simp add: top_of_def)
  then show ?thesis using p w' wf False by (auto simp: place_def ring_wf_def split: if_splits)
qed

lemma release_step:
  assumes inv: "rt_inv C s" and c: "rt_con s = None" and n: "unat n \<le> rt_granted s"
  shows "\<exists>C' r. release n (rt_ring s) = Inr r \<and> rt_inv C' (s\<lparr>rt_ring := r, rt_granted := rt_granted s - unat n,
    rt_released := rt_released s @ [wr (rt_ring s)..<wr (rt_ring s) + unat n]\<rparr>)"
proof -
  note d = rt_invD [OF inv] and sr = same_ringD [OF rt_invD(3) [OF inv]] and nw = next_stable [OF inv]
  have wf: "ring_wf C" and g: "wr C + rt_granted s \<le> top_of C" using d(1) by (simp_all add: ring_inv_def)
  obtain C' where C': "release n C = Inr C'" "ring_inv \<lparr>rng = C', pending = rt_held s, granted = rt_granted s - unat n\<rparr>"
    "live C' = drop (unat n) (live C)" "buffer C' = buffer C"
    using release_spec [OF d(1), of n] n by auto
  let ?b = "if consumer_barrier C + n = capacity C then 0 else consumer_barrier C + n"
  have C: "C' = C\<lparr>consumer_barrier := ?b\<rparr>" "consumer_barrier C \<le> capacity C \<and> consumer_barrier C \<le> end_mark C \<and>
      consumer_barrier C + n \<le> capacity C"
    using C'(1) by (auto simp: release_def Let_def current_def split: if_splits)
  let ?r = "(rt_ring s)\<lparr>consumer_barrier := ?b\<rparr>"
  have "end_mark (rt_ring s) = end_mark C \<or> end_mark (rt_ring s) = MAX_OFFSET"
  proof (cases "is_locked (producer_barrier (rt_ring s))")
    case True
    then obtain i where i: "wrapping (rt_acq s i)" using lock_matchD(1) [OF d(5)] by blast
    then obtain pc where pc: "rt_acq s i = Some pc" by (cases "rt_acq s i") simp_all
    show ?thesis using workers_matchD(3) [OF d(4) pc] i pc by (cases pc) auto
  qed (use d(6) c in simp)
  moreover have "consumer_barrier C \<le> MAX_OFFSET" using nw(4,6) by (simp add: word_le_nat_alt unat_max)
  ultimately have r: "release n (rt_ring s) = Inr ?r"
    using C(2) sr(1,5) by (auto simp: release_def Let_def current_def)
  have s': "unat (consumer_barrier C + n) = wr C + unat n"
    using g n wf by (subst unat_add_small) (auto simp: ring_wf_def top_of_def split: if_splits)
  then have wb: "wr C' = (if wr C + unat n = cap_of C then 0 else wr C + unat n)"
    using C(1) by (simp add: word_unat_eq_iff)
  let ?s = "s\<lparr>rt_ring := ?r, rt_granted := rt_granted s - unat n,
    rt_released := rt_released s @ [wr (rt_ring s)..<wr (rt_ring s) + unat n]\<rparr>"
  have cc: "capacity C' = capacity C" "end_mark C' = end_mark C" "producer_barrier C' = producer_barrier C" "workers C' = workers C"
    using C(1) by simp_all
  have P: "producer_barrier (rt_ring s) = producer_barrier C" if "producer_barrier (rt_ring s) = sn" "unat sn < cap_of C" for sn
    using nw(2) not_locked [of sn] that nw(4) by auto
  have "rt_inv C' ?s"
  proof (rule rt_invI)
    show "ring_inv \<lparr>rng = C', pending = rt_held ?s, granted = rt_granted ?s\<rparr>" using C'(2) by simp
    show "pending_apart \<lparr>rng = C', pending = rt_held ?s, granted = rt_granted ?s\<rparr>" using d(2) by (simp add: pending_apart_def)
    show "same_ring (rt_ring ?s) C'" using sr C(1) by (simp add: same_ring_def)
    show "workers_match C' ?s"
    proof (rule workers_matchI)
      fix j assume "rt_acq ?s j = None" "j < length (workers C')"
      then show "workers (rt_ring ?s) ! j = workers C' ! j" using workers_matchD(1) [OF d(4), of j] cc by simp
    next
      fix j p assume "rt_acq ?s j = Some p"
      then have aj: "rt_acq s j = Some p" by simp
      note pk = workers_matchD(3) [OF d(4) aj]
      have pl: "place (cap_of C) (unat sn) (wr C') len = Some (a, n', wrap)"
        if "producer_barrier (rt_ring s) = sn" "unat sn < cap_of C" "place (cap_of C) (unat sn) (wr C) len = Some (a, n', wrap)" for sn len a n' wrap
        using place_release [OF wf g n wb, of len "(a, n', wrap)"] P [OF that(1,2)] that by simp
      have "pc_ok (rt_ring ?s) C' (rt_held s j) (rt_fresh s j) (workers (rt_ring s) ! j) (workers C ! j) p"
      proof (cases p)
        case (AcqCas len sn t)
        then show ?thesis using pk pl [of sn] cc by auto
      qed (use pk cc in simp_all)
      then show "j < length (workers C') \<and>
         pc_ok (rt_ring ?s) C' (rt_held ?s j) (rt_fresh ?s j) (workers (rt_ring ?s) ! j) (workers C' ! j) p"
        using workers_matchD(2) [OF d(4) aj] cc by simp
    qed
    show "lock_match ?s" using d(5) by (simp add: lock_match_def)
    show "rt_claimed ?s = rt_released ?s @ live C'"
    proof -
      obtain m where m: "live C = [wr C..<top_of C] @ [0..<m]" using live_run by blast
      have "take (unat n) (live C) = [wr C..<wr C + unat n]" using m g n by simp
      then have "live C = [wr C..<wr C + unat n] @ live C'" using C'(3) by (metis append_take_drop_id)
      then show ?thesis using d(8) sr(5) by simp
    qed
  qed (use d c cc in simp_all)
  then show ?thesis using r by blast
qed

section \<open>Every step keeps the relation\<close>

lemma access_returns:
  assumes inv: "rt_inv C s" and a: "rt_acq s i = Some pc"
  shows "\<exists>pc' r. acq_access i weak pc (rt_ring s) = Inr (pc', r)"
proof (cases pc)
  case (AcqNext len)
  show ?thesis
    using next_stable [OF inv] same_ringD(1) [OF rt_invD(3) [OF inv]] AcqNext
    by (cases "is_locked (producer_barrier (rt_ring s))") (auto simp: word_less_nat_alt)
next
  case (AcqLoad len sn)
  then show ?thesis by (auto split: option.splits)
next
  case (AcqCas len sn t)
  then show ?thesis by (auto split: option.splits)
next
  case (AcqStable sn t)
  then show ?thesis using stable_access [OF inv] a by blast
next
  case (AcqEnd sn t)
  then show ?thesis using end_access [OF inv] a by blast
next
  case (AcqOpen t)
  then show ?thesis using open_access [OF inv] a by blast
qed simp_all

lemma access_step:
  assumes inv: "rt_inv C s" and na: "no_aba s" and a: "rt_acq s i = Some pc" "acq_access i weak pc (rt_ring s) = Inr (pc', r)"
  shows "\<exists>C'. rt_inv C' (note_access i pc pc' (s\<lparr>rt_ring := r, rt_acq := (rt_acq s)(i \<mapsto> pc')\<rparr>))"
proof -
  note early = early_access [OF inv a]
  show ?thesis
  proof (cases pc)
    case (AcqCas len sn t)
    show ?thesis
    proof (cases "\<exists>l. pc' = AcqNext l")
      case True
      then show ?thesis using early by blast
    next
      case False
      then have k: "producer_barrier (rt_ring s) = sn" "pc' = AcqStable sn t" "r = (rt_ring s)\<lparr>producer_barrier := t\<rparr>"
        using a(2) AcqCas by (auto simp: acq_cas_def split: if_splits)
      moreover have "rt_fresh s i" using na a(1) AcqCas k(1) unfolding no_aba_def by blast
      ultimately show ?thesis using cas_access [OF inv, of i len sn t] a(1) AcqCas by simp
    qed
  next
    case (AcqStable sn t)
    then show ?thesis using stable_access [OF inv, of i sn t weak] a by auto
  next
    case (AcqEnd sn t)
    then show ?thesis using end_access [OF inv, of i sn t weak] a by auto
  next
    case (AcqOpen t)
    then show ?thesis using open_access [OF inv, of i t weak] a by auto
  qed (use early in auto)
qed

lemma con_step:
  assumes inv: "rt_inv C s" and c: "rt_con s = Some pc"
  shows "\<exists>pc' r. con_access pc (rt_ring s) = Inr (pc', r) \<and>
    (\<exists>C'. rt_inv C' (s\<lparr>rt_ring := r, rt_con := Some pc', rt_granted := granted_by pc pc' (rt_granted s)\<rparr>))"
proof (cases pc)
  case (ConEnd w m rd)
  then show ?thesis using end_of_scan [OF inv] c by blast
next
  case ConWrap
  then show ?thesis using wrap_access [OF inv] c by simp
next
  case (ConDone n a)
  have "s\<lparr>rt_ring := rt_ring s, rt_con := Some pc, rt_granted := rt_granted s\<rparr> = s" using c by (cases s) simp
  then have "rt_inv C (s\<lparr>rt_ring := rt_ring s, rt_con := Some pc, rt_granted := granted_by pc pc (rt_granted s)\<rparr>)"
    using inv ConDone by simp
  then show ?thesis using ConDone by auto
qed (use scan_access [OF inv c] in \<open>fastforce\<close>)+

lemma produce_step:
  assumes inv: "rt_inv C s" and a: "rt_acq s i = None" "rt_held s i = Some (b, l)"
  shows "\<exists>r. produce i (rt_ring s) = Inr r \<and> (\<exists>C'. rt_inv C' (s\<lparr>rt_ring := r, rt_held := (rt_held s)(i := None)\<rparr>))"
proof -
  note d = rt_invD [OF inv] and sr = same_ringD [OF rt_invD(3) [OF inv]] and nw = next_stable [OF inv]
  have k: "i < length (workers C)" "registered (workers C ! i)" "seen_ok C b (unat (seen (workers C ! i)))" "region_ok C (rt_granted s) b l"
    using ring_inv_pending(2-5) [OF d(1), of i b l] a(2) by simp_all
  have w: "workers (rt_ring s) ! i = workers C ! i" by (rule workers_matchD(1) [OF d(4) a(1) k(1)])
  have "b < cap_of C" using region_small(2) [OF _ k(4)] d(1) by (simp add: ring_inv_def)
  then have "unat (seen (workers C ! i)) < cap_of C" using k(3) by (auto simp: seen_ok_def)
  then have "seen (workers C ! i) \<noteq> MAX_OFFSET" using nw(4) unat_max by fastforce
  then have "produce i (rt_ring s) = Inr (set_seen i MAX_OFFSET (rt_ring s))" using w k(2) by (simp add: produce_def)
  moreover have "set_seen i MAX_OFFSET (rt_ring s)
      = (rt_ring s)\<lparr>workers := (workers (rt_ring s))[i := \<lparr>seen = MAX_OFFSET, registered = registered (workers C ! i)\<rparr>]\<rparr>"
    using w by (cases "workers C ! i") (simp add: set_seen_def)
  ultimately show ?thesis using worker_step [OF inv a(1) k(1), of _ MAX_OFFSET] by blast
qed

lemma rt_inv_step:
  assumes st: "rt_step s t" and inv: "rt_inv C s" and na: "no_aba s"
  shows "\<exists>C'. rt_inv C' t"
proof -
  note d = rt_invD [OF inv] and sr = same_ringD [OF rt_invD(3) [OF inv]]
  have own: "\<exists>C'. rt_inv C' (s\<lparr>rt_ring := r\<rparr>)"
    if "rt_acq s i = None" "rt_held s i = None" "i < length (workers (rt_ring s))" "b \<Longrightarrow> y = MAX_OFFSET"
      "r = (rt_ring s)\<lparr>workers := (workers (rt_ring s))[i := \<lparr>seen = y, registered = b\<rparr>]\<rparr>" for i b y r
    using worker_step [OF inv that(1) _ that(4,5)] that(2,3) sr(3) by (simp add: fun_upd_idem)
  show ?thesis
    using st
  proof cases
    case (rt_prepare i)
    have "set_seen i MAX_OFFSET (rt_ring s)
      = (rt_ring s)\<lparr>workers := (workers (rt_ring s))[i := \<lparr>seen = MAX_OFFSET, registered = registered (workers (rt_ring s) ! i)\<rparr>]\<rparr>"
      by (cases "workers (rt_ring s) ! i") (simp add: set_seen_def)
    then show ?thesis using own [OF rt_prepare(3,4,2), of _ MAX_OFFSET] rt_prepare(1) by blast
  next
    case (rt_register i)
    have "set_registered i True (rt_ring s)
      = (rt_ring s)\<lparr>workers := (workers (rt_ring s))[i := \<lparr>seen = MAX_OFFSET, registered = True\<rparr>]\<rparr>"
      using rt_register(5) by (cases "workers (rt_ring s) ! i") (simp add: set_registered_def)
    then show ?thesis using own [OF rt_register(3,4,2), of True MAX_OFFSET] rt_register(1) by blast
  next
    case (rt_unregister i)
    have "unregister_worker i (rt_ring s)
      = (rt_ring s)\<lparr>workers := (workers (rt_ring s))[i := \<lparr>seen = seen (workers (rt_ring s) ! i), registered = False\<rparr>]\<rparr>"
      by (cases "workers (rt_ring s) ! i") (simp add: set_registered_def unregister_worker_def)
    then show ?thesis using own [OF rt_unregister(3,4,2), of False] rt_unregister(1) by blast
  next
    case (rt_enter i len pc)
    then show ?thesis using enter_step [OF inv rt_enter(2-6)] by auto
  next
    case (rt_access i pc weak pc' r)
    then show ?thesis using access_step [OF inv na rt_access(2,3)] by simp
  next
    case (rt_leave i x)
    then show ?thesis using leave_step [OF inv] by blast
  next
    case (rt_write i a l j b)
    then show ?thesis using write_step [OF inv, of "(buffer (rt_ring s))[a + j := b]"] by auto
  next
    case (rt_produce i a l r)
    then show ?thesis using produce_step [OF inv rt_produce(2,3)] by simp
  next
    case rt_consume
    have "con_ok (rt_ring s) C (rt_held s) (ConNext (current (rt_ring s)))" using sr(5) by (simp add: current_def)
    from con_move [OF inv d(1) this] show ?thesis using rt_consume by auto
  next
    case (rt_scan pc pc' r)
    then show ?thesis using con_step [OF inv rt_scan(2)] by auto
  next
    case (rt_got n a)
    have "rt_inv C t"
    proof (rule rt_invI)
      show "workers_match C t" using d(4) rt_got(1) by (simp add: workers_match_def cong: option.case_cong)
      show "lock_match t" using d(5) rt_got(1) by (simp add: lock_match_def)
    qed (use d rt_got in simp_all)
    then show ?thesis by blast
  next
    case (rt_release n r)
    then show ?thesis using release_step [OF inv rt_release(2,3)] by auto
  qed
qed

lemma rt_inv_start:
  assumes "0 < cap" "unat cap < 2 ^ 32"
  shows "rt_inv (ring_new cap n) (rt_start cap n)"
proof -
  have "ring_inv \<lparr>rng = ring_new cap n, pending = \<lambda>_. None, granted = 0\<rparr>"
    using ring_inv_start [OF assms, of n] by (simp add: ring_start_def)
  moreover have "\<not> is_locked 0" "unlock_wrap_bit 0 = 0" by (simp_all add: not_locked unlock_small)
  ultimately show ?thesis
    by (simp add: rt_inv_def rt_start_def pending_apart_def same_ring_def workers_match_def lock_match_def)
      (simp add: ring_new_def live_def)
qed

lemma rt_inv_reachable:
  assumes "rt_reachable cap n s" "0 < cap" "unat cap < 2 ^ 32"
  shows "\<exists>C. rt_inv C s"
  using assms(1)
proof induction
  case rt_init
  then show ?case using rt_inv_start [OF assms(2,3)] by blast
next
  case (rt_next s t)
  then show ?case using rt_inv_step by blast
qed

section \<open>Accesses that run alone\<close>

fun acq_run :: "nat \<Rightarrow> nat \<Rightarrow> acq_pc \<Rightarrow> ring \<Rightarrow> ring_fail + (acq_pc \<times> ring)" where
  "acq_run 0 i pc r = Inr (pc, r)"
| "acq_run (Suc k) i pc r = (case acq_access i False pc r of Inl e \<Rightarrow> Inl e | Inr (pc', r') \<Rightarrow> acq_run k i pc' r')"

fun con_run :: "nat \<Rightarrow> con_pc \<Rightarrow> ring \<Rightarrow> ring_fail + (con_pc \<times> ring)" where
  "con_run 0 pc r = Inr (pc, r)"
| "con_run (Suc k) pc r = (case con_access pc r of Inl e \<Rightarrow> Inl e | Inr (pc', r') \<Rightarrow> con_run k pc' r')"

lemma acq_run_done [simp]: "acq_run k i (AcqDone x) r = Inr (AcqDone x, r)"
  by (induction k) simp_all

lemma commit_run:
  assumes "acq_commit i (buffer_index sn) t r = Inr (x, r')"
  shows "acq_run 3 i (AcqStable sn t) r = Inr (AcqDone (Some x), r')"
  using assms by (auto simp: acq_commit_def eval_nat_numeral Let_def split: if_splits)

lemma acquire_run:
  assumes "acquire 0 i len r = Inr (a, r')"
  shows "\<exists>pc. acq_enter i len r = Inr pc \<and> acq_run 7 i pc r = Inr (AcqDone a, r')"
proof (cases "capacity r < len")
  case True
  with assms show ?thesis by (simp add: acquire_def acq_enter_def)
next
  case False
  then have seen: "seen (workers r ! i) = MAX_OFFSET" and l: "acq_loop 0 i len r = Inr (a, r')"
    using assms by (auto simp: acquire_def split: if_splits)
  then obtain sn where sn: "stable_next r = Inr sn" "buffer_index sn < capacity r"
    by (subst (asm) acq_loop.simps) (auto simp: Let_def split: sum.splits if_splits)
  let ?r = "set_seen i (lock_wrap_bit (buffer_index sn)) r"
  have "acq_run 7 i (AcqNext len) r = Inr (AcqDone a, r')"
  proof (cases "acq_target (capacity r) sn len (current ?r)")
    case None
    with l sn show ?thesis by (subst (asm) acq_loop.simps) (auto simp: eval_nat_numeral Let_def)
  next
    case (Some t)
    with l sn obtain r2 x where r2: "acq_cas sn t ?r = Some r2" "acq_commit i (buffer_index sn) t r2 = Inr (x, r')" "a = Some x"
      by (subst (asm) acq_loop.simps) (auto simp: Let_def split: option.splits sum.splits)
    have "acq_run 7 i (AcqNext len) r = acq_run 3 i (AcqStable sn t) r2"
      using sn Some r2(1) by (simp add: eval_nat_numeral)
    then show ?thesis using commit_run [OF r2(2)] r2(3) by simp
  qed
  then show ?thesis using False seen by (simp add: acq_enter_def)
qed

lemma con_run_add: "con_run (j + k) pc r = (case con_run j pc r of Inl e \<Rightarrow> Inl e | Inr (pc', r') \<Rightarrow> con_run k pc' r')"
  by (induction j arbitrary: pc r) (auto split: sum.splits)

lemma con_run_trans:
  "con_run j pc r = Inr (pc', r') \<Longrightarrow> con_run k pc' r' = Inr x \<Longrightarrow> \<exists>n. con_run n pc r = Inr x"
  by (metis (no_types, lifting) con_run_add old.sum.simps(6) prod.simps(2))

lemma con_run_step: "con_access pc r = Inr (pc', r') \<Longrightarrow> con_run k pc' r' = Inr x \<Longrightarrow> \<exists>n. con_run n pc r = Inr x"
  by (intro exI [of _ "Suc k"]) simp

lemma scan_run:
  assumes "scan_ready w (drop k (workers r)) rd = Inr rd'"
  shows "\<exists>n. con_run n (ConReg w m k rd) r = Inr (ConEnd w m rd', r)"
  using assms
proof (induction "length (workers r) - k" arbitrary: k rd)
  case 0
  then have "con_run 1 (ConReg w m k rd) r = Inr (ConEnd w m rd', r)" by simp
  then show ?case by blast
next
  case (Suc j)
  then have k: "k < length (workers r)" by simp
  let ?v = "workers r ! k"
  have d: "drop k (workers r) = ?v # drop (Suc k) (workers r)" using k by (simp add: Cons_nth_drop_Suc)
  have j: "j = length (workers r) - Suc k" using Suc.hyps(2) by simp
  show ?case
  proof (cases "registered ?v")
    case False
    then obtain n where "con_run n (ConReg w m (Suc k) rd) r = Inr (ConEnd w m rd', r)"
      using Suc.hyps(1) [OF j, of rd] Suc.prems d by auto
    then show ?thesis using False k by (intro con_run_step [where pc' = "ConReg w m (Suc k) rd"]) simp_all
  next
    case True
    then obtain s where s: "stable_seen ?v = Some s" using Suc.prems d by (auto split: option.splits)
    let ?rd = "if w \<le> s then min s rd else rd"
    have ok: "\<not> ?rd < w" "scan_ready w (drop (Suc k) (workers r)) ?rd = Inr rd'"
      using Suc.prems True s unfolding d by (auto simp: Let_def split: if_splits)
    obtain n where n: "con_run n (ConReg w m (Suc k) ?rd) r = Inr (ConEnd w m rd', r)"
      using Suc.hyps(1) [OF j ok(2)] by blast
    have "con_access (ConSeen w m k rd) r = Inr (ConReg w m (Suc k) ?rd, r)" using s ok(1) by (simp add: Let_def)
    from con_run_step [OF this n] obtain n' where "con_run n' (ConSeen w m k rd) r = Inr (ConEnd w m rd', r)" by blast
    then show ?thesis using True k by (intro con_run_step [where pc' = "ConSeen w m k rd"]) simp_all
  qed
qed

lemma iter_run:
  assumes "consume_iter w r = Inr (c, r')"
  shows "case c of Got n a \<Rightarrow> \<exists>k. con_run k (ConNext w) r = Inr (ConDone n a, r')
     | Wrapped \<Rightarrow> \<exists>k. con_run k (ConNext w) r = Inr (ConNext 0, r')"
proof -
  obtain sn where sn: "stable_next r = Inr sn" using assms by (auto simp: consume_iter_def split: sum.splits)
  let ?m = "buffer_index sn"
  show ?thesis
  proof (cases "w = ?m")
    case True
    then have "c = Got 0 None" "r' = r" using assms sn by (auto simp: consume_iter_def Let_def)
    moreover have "\<exists>k. con_run k (ConNext w) r = Inr (ConDone 0 None, r)"
      by (rule con_run_step [where k = 0]) (use True sn in simp_all)
    ultimately show ?thesis by (simp del: con_run.simps)
  next
    case False
    then obtain rd where rd: "scan_ready w (workers r) MAX_OFFSET = Inr rd"
      using assms sn by (auto simp: consume_iter_def Let_def split: sum.splits)
    obtain k where k: "con_run k (ConReg w ?m 0 MAX_OFFSET) r = Inr (ConEnd w ?m rd, r)"
      using scan_run [of w 0 r MAX_OFFSET rd ?m] rd by auto
    have "con_access (ConNext w) r = Inr (ConReg w ?m 0 MAX_OFFSET, r)" using False sn by simp
    from con_run_step [OF this k] obtain j where j: "con_run j (ConNext w) r = Inr (ConEnd w ?m rd, r)" by blast
    have e: "case c of Got n a \<Rightarrow> con_access (ConEnd w ?m rd) r = Inr (ConDone n a, r')
        | Wrapped \<Rightarrow> \<exists>r1. con_access (ConEnd w ?m rd) r = Inr (ConWrap, r1) \<and> con_access ConWrap r1 = Inr (ConNext 0, r')"
      using assms sn False rd by (auto simp: consume_iter_def Let_def consume_check_def split: if_splits)
    show ?thesis
    proof (cases c)
      case (Got n a)
      then have "con_access (ConEnd w ?m rd) r = Inr (ConDone n a, r')" using e by simp
      from con_run_step [OF this con_run.simps(1)] obtain k' where "con_run k' (ConEnd w ?m rd) r = Inr (ConDone n a, r')" by blast
      from con_run_trans [OF j this] show ?thesis using Got by simp
    next
      case Wrapped
      then obtain r1 where r1: "con_access (ConEnd w ?m rd) r = Inr (ConWrap, r1)" "con_access ConWrap r1 = Inr (ConNext 0, r')"
        using e by auto
      from con_run_step [OF r1(2) con_run.simps(1)] obtain k1 where "con_run k1 ConWrap r1 = Inr (ConNext 0, r')" by blast
      from con_run_step [OF r1(1) this] obtain k2 where "con_run k2 (ConEnd w ?m rd) r = Inr (ConNext 0, r')" by blast
      from con_run_trans [OF j this] show ?thesis using Wrapped by simp
    qed
  qed
qed

lemma consume_run:
  assumes "consume r = Inr (n, a, r')"
  shows "\<exists>k. con_run k (ConNext (current r)) r = Inr (ConDone n a, r')"
proof -
  have loop: "\<exists>k. con_run k (ConNext w) r = Inr (ConDone n a, r')" if "consume_loop j w r = Inr (n, a, r')" for j w r
    using that
  proof (induction j arbitrary: w r)
    case (Suc j)
    then obtain c r1 where c: "consume_iter w r = Inr (c, r1)" by (auto split: sum.splits)
    show ?case
    proof (cases c)
      case (Got n' a')
      then show ?thesis using iter_run [OF c] Suc.prems c by auto
    next
      case Wrapped
      then obtain k where k: "con_run k (ConNext w) r = Inr (ConNext 0, r1)" using iter_run [OF c] by auto
      have "consume_loop j 0 r1 = Inr (n, a, r')" using Suc.prems c Wrapped by simp
      from Suc.IH [OF this] obtain k' where "con_run k' (ConNext 0) r1 = Inr (ConDone n a, r')" by blast
      then show ?thesis using con_run_trans [OF k] by blast
    qed
  qed simp
  then show ?thesis using assms unfolding consume_def by blast
qed

section \<open>Properties\<close>

text \<open>Claim C1: The ring buffer delivers bytes in order under any interleaving of the single accesses of its
  producers and its consumer, as long as no exchange succeeds on an offset that changed and came back. The offsets
  claimed by the exchanges are those released, in the same order, followed by offsets that are distinct and inside
  the buffer; the bytes granted to the consumer are the oldest of these, at its offset; and no byte of a region whose
  writer has not called \<open>produce\<close> is among them.\<close>

theorem ring_threads_fifo:
  assumes "rt_reachable cap n s" "0 < cap" "unat cap < 2 ^ 32"
  shows "\<exists>rest. rt_claimed s = rt_released s @ rest \<and> distinct rest \<and> set rest \<subseteq> {..<length (buffer (rt_ring s))} \<and>
    take (rt_granted s) rest = [wr (rt_ring s)..<wr (rt_ring s) + rt_granted s] \<and>
    (\<forall>i a l. rt_held s i = Some (a, l) \<longrightarrow> {a..<a + l} \<subseteq> set (drop (rt_granted s) rest))"
proof -
  obtain C where inv: "rt_inv C s" using rt_inv_reachable [OF assms] by blast
  note d = rt_invD [OF inv] and sr = same_ringD [OF rt_invD(3) [OF inv]]
  have wf: "ring_wf C" and g: "wr C + rt_granted s \<le> top_of C" using d(1) by (simp_all add: ring_inv_def)
  obtain m where m: "live C = [wr C..<top_of C] @ [0..<m]" using live_run by blast
  have t: "take (rt_granted s) (live C) = [wr C..<wr C + rt_granted s]" using m g by simp
  have "{a..<a + l} \<subseteq> set (drop (rt_granted s) (live C))" if "rt_held s i = Some (a, l)" for i a l
  proof -
    have r: "region_ok C (rt_granted s) a l" using ring_inv_pending(3) [OF d(1), of i a l] that by simp
    have "set (live C) = set (take (rt_granted s) (live C)) \<union> set (drop (rt_granted s) (live C))"
      by (metis append_take_drop_id set_append)
    then show ?thesis using region_live [OF r] region_not_granted [OF wf r] t by auto
  qed
  then show ?thesis using d(8) live_distinct [OF wf] live_in_buffer [OF wf] t sr(2,5)
    by (intro exI [of _ "live C"]) auto
qed

text \<open>Claim C4: Under the same interleavings two producers never write to the same byte, and what \<open>acquire\<close> returns
  is the region its exchange claimed: nothing when it was refused, else the region's address.\<close>

theorem ring_threads_regions:
  assumes "rt_reachable cap n s" "0 < cap" "unat cap < 2 ^ 32"
  shows "(\<forall>i j a l b m. i \<noteq> j \<longrightarrow> rt_held s i = Some (a, l) \<longrightarrow> rt_held s j = Some (b, m) \<longrightarrow>
      {a..<a + l} \<inter> {b..<b + m} = {}) \<and>
    (\<forall>i x. rt_acq s i = Some (AcqDone x) \<longrightarrow> map_option unat x = map_option fst (rt_held s i))"
proof -
  obtain C where inv: "rt_inv C s" using rt_inv_reachable [OF assms] by blast
  note d = rt_invD [OF inv]
  have "map_option unat x = map_option fst (rt_held s i)" if "rt_acq s i = Some (AcqDone x)" for i x
    using workers_matchD(3) [OF d(4) that] by simp
  then show ?thesis using d(2) unfolding pending_apart_def by simp
qed

text \<open>Claim C19: Under the same interleavings no assertion of the ring fails: each access of \<open>acquire\<close> and of
  \<open>consume\<close> returns, wherever the other threads are, and so do \<open>produce\<close> by a worker that holds a region and
  \<open>release\<close> of granted bytes.\<close>

theorem ring_threads_never_fail:
  assumes "rt_reachable cap n s" "0 < cap" "unat cap < 2 ^ 32"
  shows "(\<forall>i pc weak. rt_acq s i = Some pc \<longrightarrow> (\<exists>x. acq_access i weak pc (rt_ring s) = Inr x)) \<and>
    (\<forall>pc. rt_con s = Some pc \<longrightarrow> (\<exists>x. con_access pc (rt_ring s) = Inr x)) \<and>
    (\<forall>i a l. rt_acq s i = None \<longrightarrow> rt_held s i = Some (a, l) \<longrightarrow> (\<exists>r. produce i (rt_ring s) = Inr r)) \<and>
    (\<forall>m. rt_con s = None \<longrightarrow> unat m \<le> rt_granted s \<longrightarrow> (\<exists>r. release m (rt_ring s) = Inr r))"
proof -
  obtain C where inv: "rt_inv C s" using rt_inv_reachable [OF assms] by blast
  show ?thesis
    using access_returns [OF inv] con_step [OF inv] produce_step [OF inv] release_step [OF inv] by blast
qed


text \<open>Claim C38: Run alone, the accesses do what the operations promise. In every state of a ring between
  operations, in which other producers may hold regions they still write, a worker's accesses return from \<open>acquire\<close>
  within seven of them: with nothing, and the ring as it was, exactly when the size fits neither before the
  consumer's offset, nor before the end of the buffer, nor at its start (so that writers never catch up with the reader),
  else with the first of these places, which is inside the buffer, overlaps no live byte and becomes the youngest
  of them. The consumer's accesses return from \<open>consume\<close> with the oldest live bytes, none of them in a region still
  written, and with some when nobody writes and some are live.\<close>

theorem accesses_alone:
  assumes "ring_reachable cap n s" and "0 < cap" and "unat cap < 2 ^ 32"
    and "i < length (workers (rng s))" and "registered (workers (rng s) ! i)" and "pending s i = None" and "0 < len"
  shows "(\<exists>pc x r. acq_enter i len (rng s) = Inr pc \<and> acq_run 7 i pc (rng s) = Inr (AcqDone x, r) \<and>
      (case if unat len \<le> cap_of (rng s) then place (cap_of (rng s)) (nx (rng s)) (wr (rng s)) (unat len) else None of
         None \<Rightarrow> x = None \<and> r = rng s
       | Some (a, n', wrap) \<Rightarrow> x = Some (of_nat a) \<and> a + unat len \<le> length (buffer (rng s)) \<and>
           live r = live (rng s) @ [a..<a + unat len] \<and> distinct (live r) \<and> buffer r = buffer (rng s)))
    \<and> (\<exists>k m b r. con_run k (ConNext (current (rng s))) (rng s) = Inr (ConDone m b, r) \<and>
      live r = live (rng s) \<and> take (unat m) (live r) = [wr r..<wr r + unat m] \<and>
      (\<forall>j a l. pending s j = Some (a, l) \<longrightarrow> {a..<a + l} \<inter> {wr r..<wr r + unat m} = {}) \<and>
      ((\<forall>j. pending s j = None) \<longrightarrow> live r \<noteq> [] \<longrightarrow> 0 < unat m))"
proof
  have inv: "ring_inv s" using ring_inv_reachable [OF assms(1-3)] by simp
  obtain x r where x: "acquire 0 i len (rng s) = Inr (x, r)" "x = None \<longrightarrow> r = rng s"
    "x = None \<longleftrightarrow> unat len > cap_of (rng s) \<or>
       place (cap_of (rng s)) (nx (rng s)) (wr (rng s)) (unat len) = None"
    using acquire_returns [OF inv assms(4-6)] by blast
  obtain pc where pc: "acq_enter i len (rng s) = Inr pc" "acq_run 7 i pc (rng s) = Inr (AcqDone x, r)"
    using acquire_run [OF x(1)] by blast
  have "case if unat len \<le> cap_of (rng s) then place (cap_of (rng s)) (nx (rng s)) (wr (rng s)) (unat len) else None of
         None \<Rightarrow> x = None \<and> r = rng s
       | Some (a, n', wrap) \<Rightarrow> x = Some (of_nat a) \<and> a + unat len \<le> length (buffer (rng s)) \<and>
           live r = live (rng s) @ [a..<a + unat len] \<and> distinct (live r) \<and> buffer r = buffer (rng s)"
  proof (cases x)
    case None
    with x(2,3) show ?thesis by (auto split: option.split)
  next
    case (Some v)
    then have "acquire 0 i len (rng s) = Inr (Some v, r)" using x(1) by simp
    from ring_acquire_fresh' [OF inv assms(4-7) this] obtain n' wrap where
      "place (cap_of (rng s)) (nx (rng s)) (wr (rng s)) (unat len) = Some (unat v, n', wrap)" "unat len \<le> cap_of (rng s)"
      "unat v + unat len \<le> length (buffer (rng s))" "live r = live (rng s) @ [unat v..<unat v + unat len]"
      "distinct (live r)" "buffer r = buffer (rng s)" by blast
    with Some show ?thesis by simp
  qed
  with pc show "\<exists>pc x r. acq_enter i len (rng s) = Inr pc \<and> acq_run 7 i pc (rng s) = Inr (AcqDone x, r) \<and>
      (case if unat len \<le> cap_of (rng s) then place (cap_of (rng s)) (nx (rng s)) (wr (rng s)) (unat len) else None of
         None \<Rightarrow> x = None \<and> r = rng s
       | Some (a, n', wrap) \<Rightarrow> x = Some (of_nat a) \<and> a + unat len \<le> length (buffer (rng s)) \<and>
           live r = live (rng s) @ [a..<a + unat len] \<and> distinct (live r) \<and> buffer r = buffer (rng s))" by blast
  obtain m b r' where c: "consume (rng s) = Inr (m, b, r')" "live r' = live (rng s)"
    "take (unat m) (live r') = [wr r'..<wr r' + unat m]"
    "\<forall>j a l. pending s j = Some (a, l) \<longrightarrow> {a..<a + l} \<inter> {wr r'..<wr r' + unat m} = {}"
    "(\<forall>j. pending s j = None) \<longrightarrow> live r' \<noteq> [] \<longrightarrow> 0 < unat m"
    using consume_oldest [OF inv] by blast
  obtain k where "con_run k (ConNext (current (rng s))) (rng s) = Inr (ConDone m b, r')" using consume_run [OF c(1)] by blast
  with c(2-5) show "\<exists>k m b r. con_run k (ConNext (current (rng s))) (rng s) = Inr (ConDone m b, r) \<and>
      live r = live (rng s) \<and> take (unat m) (live r) = [wr r..<wr r + unat m] \<and>
      (\<forall>j a l. pending s j = Some (a, l) \<longrightarrow> {a..<a + l} \<inter> {wr r..<wr r + unat m} = {}) \<and>
      ((\<forall>j. pending s j = None) \<longrightarrow> live r \<noteq> [] \<longrightarrow> 0 < unat m)" by blast
qed

subsection \<open>Concrete runs\<close>

text \<open>A ring of 16 bytes with two registered workers, of which worker 1 acts.\<close>

definition solo :: "ring \<Rightarrow> acq_pc option \<Rightarrow> (nat \<times> nat) option \<Rightarrow> bool \<Rightarrow> con_pc option \<Rightarrow> nat \<Rightarrow> nat list \<Rightarrow> nat list \<Rightarrow> rt_sys" where
  "solo r pc h f c g cl rl = \<lparr>rt_ring = r, rt_acq = (\<lambda>_. None)(1 := pc), rt_held = (\<lambda>_. None)(1 := h),
     rt_fresh = (\<lambda>_. False)(1 := f), rt_con = c, rt_granted = g, rt_claimed = cl, rt_released = rl\<rparr>"

abbreviation reaches :: "rt_sys \<Rightarrow> bool" where "reaches s \<equiv> rt_reachable 16 2 s"

lemma solo_no_aba: "f \<or> (\<forall>len sn t. pc \<noteq> Some (AcqCas len sn t)) \<Longrightarrow> no_aba (solo r pc h f c g cl rl)"
  by (auto simp: no_aba_def solo_def split: if_splits)

lemma solo_access:
  assumes "reaches (solo r (Some pc) h f c g cl rl)" "acq_access 1 False pc r = Inr (pc', r')"
    "f \<or> (\<forall>len sn t. pc \<noteq> AcqCas len sn t)"
    "note_access 1 pc pc' (solo r' (Some pc') h f c g cl rl) = solo r' (Some pc') h' f' c g cl' rl"
  shows "reaches (solo r' (Some pc') h' f' c g cl' rl)"
proof -
  have "rt_step (solo r (Some pc) h f c g cl rl) (note_access 1 pc pc' (solo r' (Some pc') h f c g cl rl))"
    using rt_access [of "solo r (Some pc) h f c g cl rl" 1 pc False pc' r'] assms(2) by (simp add: solo_def)
  then show ?thesis using rt_next [OF assms(1) solo_no_aba] assms(3,4) by auto
qed

lemma solo_scan:
  assumes "reaches (solo r pc h f (Some c) g cl rl)" "con_access c r = Inr (c', r')" "f \<or> (\<forall>len sn t. pc \<noteq> Some (AcqCas len sn t))"
  shows "reaches (solo r' pc h f (Some c') (granted_by c c' g) cl rl)"
  using rt_next [OF assms(1) solo_no_aba [OF assms(3)]] rt_scan [of "solo r pc h f (Some c) g cl rl" c c' r'] assms(2)
  by (simp add: solo_def)

lemma solo_step:
  assumes "reaches (solo r pc h f c g cl rl)" "rt_step (solo r pc h f c g cl rl) t" "f \<or> (\<forall>len sn t. pc \<noteq> Some (AcqCas len sn t))"
  shows "reaches t"
  using rt_next [OF assms(1) solo_no_aba [OF assms(3)] assms(2)] .

lemma solo_fun [simp]: "(\<lambda>_. None)(1 := None) = (\<lambda>_. None :: 'a option)" "(\<lambda>_. False)(1 := False) = (\<lambda>_. False)"
  "(\<lambda>_. None)(Suc 0 := None) = (\<lambda>_. None :: 'a option)" "(\<lambda>_. False)(Suc 0 := False) = (\<lambda>_. False)"
  by auto

lemma solo_ready: "reaches (solo (ring16 0 0 MAX_OFFSET MAX_OFFSET) None None False None 0 [] [])"
proof -
  let ?r0 = "ring_new 16 2"
  let ?r1 = "set_seen 0 MAX_OFFSET ?r0" let ?r2 = "set_registered 0 True ?r1"
  let ?r3 = "set_seen 1 MAX_OFFSET ?r2" let ?r4 = "set_registered 1 True ?r3"
  let ?s = "\<lambda>r. solo r None None False None 0 [] []"
  have ws: "length (workers ?r0) = 2" unfolding ring_new_def replicate_2 by simp
  have "reaches (?s ?r0)" using rt_init [of 16 2] by (simp add: solo_def rt_start_def)
  then have "reaches (?s ?r1)"
    by (rule solo_step) (use rt_prepare [of 0 "?s ?r0"] ws in \<open>simp_all add: solo_def\<close>)
  then have "reaches (?s ?r2)"
    by (rule solo_step) (use rt_register [of 0 "?s ?r1"] ws in \<open>simp_all add: solo_def\<close>)
  then have "reaches (?s ?r3)"
    by (rule solo_step) (use rt_prepare [of 1 "?s ?r2"] ws in \<open>simp_all add: solo_def set_registered_def\<close>)
  then have "reaches (?s ?r4)"
    by (rule solo_step) (use rt_register [of 1 "?s ?r3"] ws in \<open>simp_all add: solo_def set_registered_def\<close>)
  then show ?thesis by (simp only: ring16_new)
qed

lemma ring16_words: "buffer_index 0 = 0" "buffer_index 10 = 10" "unlock_wrap_bit (lock_wrap_bit 0) = 0" "\<not> is_locked MAX_OFFSET"
  "\<not> is_locked 10" "min MAX_OFFSET 10 = 10" "\<not> MAX_OFFSET < 0" "0 \<noteq> MAX_OFFSET"
  "acq_target 16 0 10 0 = Some 10" "acq_target 16 10 8 10 = Some (lock_wrap_bit 8)"
proof -
  show "buffer_index 0 = 0" "buffer_index 10 = 10" by (simp_all add: buffer_index_small)
  show "unlock_wrap_bit (lock_wrap_bit 0) = 0" by (simp add: unlock_lock)
  show "\<not> is_locked MAX_OFFSET" "\<not> is_locked 10" by (simp_all add: not_locked unat_max)
  show "min MAX_OFFSET 10 = 10" "\<not> MAX_OFFSET < 0" by (simp_all add: min_def word_le_nat_alt unat_max)
  show "0 \<noteq> MAX_OFFSET" using unat_max by fastforce
  show "acq_target 16 0 10 0 = Some 10" "acq_target 16 10 8 10 = Some (lock_wrap_bit 8)"
    by (subst acq_target_place; simp add: place_def)+
qed

abbreviation claim10 :: "nat list" where "claim10 \<equiv> [0..<10]"

lemma solo_claimed:
  "reaches (solo (ring16 10 0 MAX_OFFSET (lock_wrap_bit 0)) (Some (AcqStable 0 10)) (Some (0, 10)) False None 0 claim10 [])"
proof -
  let ?r = "ring16 0 0 MAX_OFFSET MAX_OFFSET" and ?q = "ring16 0 0 MAX_OFFSET (lock_wrap_bit 0)"
  have "reaches (solo ?r (Some (AcqNext 10)) None False None 0 [] [])"
    by (rule solo_step [OF solo_ready])
      (use rt_enter [of 1 "solo ?r None None False None 0 [] []" 10 "AcqNext 10"] in \<open>simp_all add: solo_def acq_enter_def\<close>)
  then have "reaches (solo ?r (Some (AcqSeen 10 0)) None True None 0 [] [])"
    by (rule solo_access) (simp_all add: ring16_stable ring16_words solo_def)
  then have "reaches (solo ?q (Some (AcqLoad 10 0)) None True None 0 [] [])"
    by (rule solo_access) (simp_all add: ring16_words solo_def)
  then have "reaches (solo ?q (Some (AcqCas 10 0 10)) None True None 0 [] [])"
    by (rule solo_access) (simp_all add: ring16_words solo_def)
  then show ?thesis
    by (rule solo_access) (simp_all add: ring16_words solo_def acq_cas_def)
qed

lemma solo_returned:
  "reaches (solo (ring16 10 0 MAX_OFFSET 0) (Some (AcqDone (Some 0))) (Some (0, 10)) False None 0 claim10 [])"
  by (rule solo_access [OF solo_claimed]) (simp_all add: ring16_words solo_def Let_def)

lemma solo_scanning:
  "reaches (solo (ring16 10 0 MAX_OFFSET (lock_wrap_bit 0)) (Some (AcqStable 0 10)) (Some (0, 10)) False
     (Some (ConReg 0 10 0 MAX_OFFSET)) 0 claim10 [])"
proof -
  let ?s = "\<lambda>c. solo (ring16 10 0 MAX_OFFSET (lock_wrap_bit 0)) (Some (AcqStable 0 10)) (Some (0, 10)) False c 0 claim10 []"
  have "reaches (?s (Some (ConNext 0)))"
    by (rule solo_step [OF solo_claimed]) (use rt_consume [of "?s None"] in \<open>simp_all add: solo_def\<close>)
  from solo_scan [OF this, of "ConReg 0 10 0 MAX_OFFSET" "ring16 10 0 MAX_OFFSET (lock_wrap_bit 0)"] show ?thesis
    by (simp add: ring16_stable ring16_words)
qed

lemma solo_locked:
  "reaches (solo (ring16 (lock_wrap_bit 8) 10 MAX_OFFSET (lock_wrap_bit 10)) (Some (AcqStable 10 (lock_wrap_bit 8))) (Some (0, 8))
     False None 0 (claim10 @ [0..<8]) claim10)"
proof -
  let ?r = "ring16 10 0 MAX_OFFSET MAX_OFFSET" and ?q = "ring16 10 10 MAX_OFFSET MAX_OFFSET"
  have "reaches (solo (ring16 10 0 MAX_OFFSET 0) None (Some (0, 10)) False None 0 claim10 [])"
    by (rule solo_step [OF solo_returned])
      (use rt_leave [of "solo (ring16 10 0 MAX_OFFSET 0) (Some (AcqDone (Some 0))) (Some (0, 10)) False None 0 claim10 []" 1]
        in \<open>simp_all add: solo_def\<close>)
  then have "reaches (solo ?r None None False None 0 claim10 [])"
    by (rule solo_step)
      (use rt_produce [of "solo (ring16 10 0 MAX_OFFSET 0) None (Some (0, 10)) False None 0 claim10 []" 1 0 10 ?r]
        in \<open>simp_all add: solo_def produce_def ring16_words\<close>)
  then have "reaches (solo ?r None None False (Some (ConNext 0)) 0 claim10 [])"
    by (rule solo_step) (use rt_consume [of "solo ?r None None False None 0 claim10 []"] in \<open>simp_all add: solo_def\<close>)
  from solo_scan [OF this, of "ConReg 0 10 0 MAX_OFFSET" ?r]
  have "reaches (solo ?r None None False (Some (ConReg 0 10 0 MAX_OFFSET)) 0 claim10 [])"
    by (simp add: ring16_stable ring16_words)
  from solo_scan [OF this, of "ConSeen 0 10 0 MAX_OFFSET" ?r]
  have "reaches (solo ?r None None False (Some (ConSeen 0 10 0 MAX_OFFSET)) 0 claim10 [])" by simp
  from solo_scan [OF this, of "ConReg 0 10 1 MAX_OFFSET" ?r]
  have "reaches (solo ?r None None False (Some (ConReg 0 10 1 MAX_OFFSET)) 0 claim10 [])"
    by (simp add: stable_seen_def ring16_words)
  from solo_scan [OF this, of "ConSeen 0 10 1 MAX_OFFSET" ?r]
  have "reaches (solo ?r None None False (Some (ConSeen 0 10 1 MAX_OFFSET)) 0 claim10 [])" by simp
  from solo_scan [OF this, of "ConReg 0 10 2 MAX_OFFSET" ?r]
  have "reaches (solo ?r None None False (Some (ConReg 0 10 2 MAX_OFFSET)) 0 claim10 [])"
    by (simp add: stable_seen_def ring16_words numeral_2_eq_2)
  from solo_scan [OF this, of "ConEnd 0 10 MAX_OFFSET" ?r]
  have "reaches (solo ?r None None False (Some (ConEnd 0 10 MAX_OFFSET)) 0 claim10 [])" by simp
  from solo_scan [OF this, of "ConDone 10 (Some 0)" ?r]
  have "reaches (solo ?r None None False (Some (ConDone 10 (Some 0))) 10 claim10 [])"
    by (simp add: ring16_words consume_check_def Let_def)
  then have "reaches (solo ?r None None False None 10 claim10 [])"
    by (rule solo_step) (use rt_got [of "solo ?r None None False (Some (ConDone 10 (Some 0))) 10 claim10 []"] in \<open>simp_all add: solo_def\<close>)
  then have "reaches (solo ?q None None False None 0 claim10 claim10)"
    by (rule solo_step)
      (use rt_release [of "solo ?r None None False None 10 claim10 []" 10 ?q] in \<open>simp_all add: solo_def release_def Let_def\<close>)
  then have "reaches (solo ?q (Some (AcqNext 8)) None False None 0 claim10 claim10)"
    by (rule solo_step)
      (use rt_enter [of 1 "solo ?q None None False None 0 claim10 claim10" 8 "AcqNext 8"] in \<open>simp_all add: solo_def acq_enter_def\<close>)
  then have "reaches (solo ?q (Some (AcqSeen 8 10)) None True None 0 claim10 claim10)"
    by (rule solo_access) (simp_all add: ring16_stable ring16_words solo_def)
  then have "reaches (solo (ring16 10 10 MAX_OFFSET (lock_wrap_bit 10)) (Some (AcqLoad 8 10)) None True None 0 claim10 claim10)"
    by (rule solo_access) (simp_all add: ring16_words solo_def)
  then have "reaches (solo (ring16 10 10 MAX_OFFSET (lock_wrap_bit 10)) (Some (AcqCas 8 10 (lock_wrap_bit 8))) None True None 0 claim10 claim10)"
    by (rule solo_access) (simp_all add: ring16_words solo_def)
  then show ?thesis
    by (rule solo_access) (simp_all add: ring16_words solo_def acq_cas_def locked_lock)
qed

lemma cap16: "0 < (16 :: u64)" "unat (16 :: u64) < 2 ^ 32"
  by simp_all

theorem ring_threads_fifo_witness:
  "rt_held (solo (ring16 10 0 MAX_OFFSET (lock_wrap_bit 0)) (Some (AcqStable 0 10)) (Some (0, 10)) False
     (Some (ConReg 0 10 0 MAX_OFFSET)) 0 claim10 []) 1 = Some (0, 10) \<and> distinct claim10 \<and> {0..<10} \<subseteq> set claim10"
  using ring_threads_fifo [OF solo_scanning cap16] by (auto simp: solo_def)

theorem ring_threads_regions_witness:
  "rt_held (solo (ring16 10 0 MAX_OFFSET 0) (Some (AcqDone (Some 0))) (Some (0, 10)) False None 0 claim10 []) 1 = Some (0, 10)"
  using conjunct2 [OF ring_threads_regions [OF solo_returned cap16], rule_format, of 1 "Some 0"] by (auto simp: solo_def)

theorem ring_threads_never_fail_witness:
  "\<exists>x y. acq_access 1 False (AcqStable 0 10) (ring16 10 0 MAX_OFFSET (lock_wrap_bit 0)) = Inr x \<and>
     con_access (ConReg 0 10 0 MAX_OFFSET) (ring16 10 0 MAX_OFFSET (lock_wrap_bit 0)) = Inr y"
proof -
  note f = ring_threads_never_fail [OF solo_scanning cap16]
  show ?thesis
    using conjunct1 [OF f, rule_format, of 1 "AcqStable 0 10" False]
      conjunct1 [OF conjunct2 [OF f], rule_format, of "ConReg 0 10 0 MAX_OFFSET"] by (simp add: solo_def)
qed


theorem accesses_alone_witness:
  "\<exists>pc r. acq_enter 1 5 (ring16 0 0 MAX_OFFSET MAX_OFFSET) = Inr pc \<and>
     acq_run 7 1 pc (ring16 0 0 MAX_OFFSET MAX_OFFSET) = Inr (AcqDone (Some 0), r) \<and> live r = [0..<5]"
proof -
  let ?r = "ring16 0 0 MAX_OFFSET MAX_OFFSET"
  have p: "(if unat (5 :: u64) \<le> cap_of ?r then place (cap_of ?r) (nx ?r) (wr ?r) (unat (5 :: u64)) else None)
      = Some (0, 5, False)" by (simp add: place_def)
  have l: "live ?r = []" by (simp add: live_def)
  from conjunct1 [OF accesses_alone [OF sys16_ready cap16, of 1 5]] obtain pc x r where
    r: "acq_enter 1 5 ?r = Inr pc" "acq_run 7 1 pc ?r = Inr (AcqDone x, r)" "x = Some (of_nat 0)"
      "live r = live ?r @ [0..<0 + unat (5 :: u64)]"
    unfolding ring_sys.select_convs p option.case prod.case by auto
  have "x = Some 0" "live r = [0..<5]" using r(3,4) unfolding l by simp_all
  with r(1,2) show ?thesis by blast
qed

end
