(* ===== verification/Fifo.thy ===== *)
theory Fifo
  imports Prelude
begin

text \<open>
  The interface of a first-in first-out queue, which the library implements twice (the task
  queue over the ring buffer and the list queue over its node allocator). \<open>rep s xs\<close> says
  that the state \<open>s\<close> represents the list \<open>xs\<close>, oldest first; \<open>enq\<close> may refuse; \<open>deq\<close> is
  \<open>None\<close> when the implementation fails. The client lemma, proved once, is that every run of
  enqueues and dequeues gives the values of the abstract queue.
\<close>

datatype 'a fifo_op = Enq 'a | Deq

text \<open>A run stops with \<open>None\<close> when an enqueue is refused or an operation fails.\<close>

fun fifo_run :: "('a \<Rightarrow> 's \<Rightarrow> 's option) \<Rightarrow> ('s \<Rightarrow> ('a option \<times> 's) option) \<Rightarrow>
    'a fifo_op list \<Rightarrow> 's \<Rightarrow> ('a option list \<times> 's) option" where
  "fifo_run enq deq [] s = Some ([], s)"
| "fifo_run enq deq (Enq x # ops) s =
     (case enq x s of None \<Rightarrow> None | Some s' \<Rightarrow> fifo_run enq deq ops s')"
| "fifo_run enq deq (Deq # ops) s =
     (case deq s of
        None \<Rightarrow> None
      | Some (out, s') \<Rightarrow>
          (case fifo_run enq deq ops s' of None \<Rightarrow> None | Some (outs, s'') \<Rightarrow> Some (out # outs, s'')))"

fun head_option :: "'a list \<Rightarrow> 'a option" where
  "head_option [] = None"
| "head_option (x # xs) = Some x"

fun fifo_spec :: "'a fifo_op list \<Rightarrow> 'a list \<Rightarrow> 'a option list \<times> 'a list" where
  "fifo_spec [] xs = ([], xs)"
| "fifo_spec (Enq x # ops) xs = fifo_spec ops (xs @ [x])"
| "fifo_spec (Deq # ops) xs = (case fifo_spec ops (tl xs) of (outs, ys) \<Rightarrow> (head_option xs # outs, ys))"

lemma fifo_spec_snoc:
  "fifo_spec (ops @ [Enq x]) xs = (case fifo_spec ops xs of (outs, ys) \<Rightarrow> (outs, ys @ [x]))"
  "fifo_spec (ops @ [Deq]) xs = (case fifo_spec ops xs of (outs, ys) \<Rightarrow> (outs @ [head_option ys], tl ys))"
  by (induction ops xs rule: fifo_spec.induct) (auto split: prod.splits)

definition all_enq :: "('a \<Rightarrow> bool) \<Rightarrow> 'a fifo_op list \<Rightarrow> bool" where
  "all_enq P ops \<longleftrightarrow> (\<forall>x. Enq x \<in> set ops \<longrightarrow> P x)"

locale fifo =
  fixes rep :: "'s \<Rightarrow> 'a list \<Rightarrow> bool"
    and good :: "'a \<Rightarrow> bool"
    and enq :: "'a \<Rightarrow> 's \<Rightarrow> 's option"
    and deq :: "'s \<Rightarrow> ('a option \<times> 's) option"
  assumes enq_rep: "rep s xs \<Longrightarrow> good x \<Longrightarrow> enq x s = Some s' \<Longrightarrow> rep s' (xs @ [x])"
    and deq_rep: "rep s xs \<Longrightarrow> \<exists>s'. deq s = Some (head_option xs, s') \<and> rep s' (tl xs)"
begin

lemma run_refines:
  assumes "rep s xs" and "all_enq good ops" and "fifo_run enq deq ops s = Some (outs, s')"
  shows "outs = fst (fifo_spec ops xs) \<and> rep s' (snd (fifo_spec ops xs))"
  using assms
proof (induction ops arbitrary: s xs outs)
  case (Cons op ops)
  show ?case
  proof (cases op)
    case (Enq x)
    with Cons.prems obtain s1 where s1: "enq x s = Some s1" "fifo_run enq deq ops s1 = Some (outs, s')"
      by (auto split: option.splits)
    have "rep s1 (xs @ [x])" using enq_rep [OF Cons.prems(1) _ s1(1)] Cons.prems(2) Enq
      by (simp add: all_enq_def)
    with Cons.IH [OF this _ s1(2)] Cons.prems(2) Enq show ?thesis by (simp add: all_enq_def)
  next
    case Deq
    from deq_rep [OF Cons.prems(1)] obtain s1 where
      s1: "deq s = Some (head_option xs, s1)" "rep s1 (tl xs)" by blast
    with Cons.prems Deq obtain outs1 where
      o: "fifo_run enq deq ops s1 = Some (outs1, s')" "outs = head_option xs # outs1"
      by (auto split: option.splits)
    from Cons.IH [OF s1(2) _ o(1)] Cons.prems(2) o(2) Deq show ?thesis
      by (auto simp: all_enq_def split: prod.splits)
  qed
qed simp

text \<open>Once nothing more is enqueued, as many dequeues as there are elements empty the queue.\<close>

lemma drain:
  assumes "rep s xs"
  shows "\<exists>s'. fifo_run enq deq (replicate (length xs) Deq) s = Some (map Some xs, s') \<and> rep s' []"
  using assms
proof (induction xs arbitrary: s)
  case (Cons x xs)
  from deq_rep [OF Cons.prems] obtain s1 where "deq s = Some (Some x, s1)" "rep s1 xs" by auto
  with Cons.IH [of s1] show ?case by auto
qed auto

end

text \<open>A queue that never refuses: then every run ends.\<close>

locale total_fifo = fifo +
  assumes enq_total: "rep s xs \<Longrightarrow> good x \<Longrightarrow> enq x s \<noteq> None"
begin

lemma run_total:
  assumes "rep s xs" and "all_enq good ops"
  shows "\<exists>s'. fifo_run enq deq ops s = Some (fst (fifo_spec ops xs), s') \<and> rep s' (snd (fifo_spec ops xs))"
proof -
  have "\<exists>r. fifo_run enq deq ops s = Some r"
    using assms
  proof (induction ops arbitrary: s xs)
    case (Cons op ops)
    show ?case
    proof (cases op)
      case (Enq x)
      with Cons.prems obtain s1 where s1: "enq x s = Some s1"
        using enq_total [OF Cons.prems(1), of x] by (auto simp: all_enq_def)
      then have "rep s1 (xs @ [x])" using enq_rep [OF Cons.prems(1) _ s1] Cons.prems(2) Enq
        by (simp add: all_enq_def)
      with Cons.IH [OF this] Cons.prems(2) Enq s1 show ?thesis by (auto simp: all_enq_def)
    next
      case Deq
      from deq_rep [OF Cons.prems(1)] obtain s1 where
        s1: "deq s = Some (head_option xs, s1)" "rep s1 (tl xs)" by blast
      with Cons.IH [OF s1(2)] Cons.prems(2) Deq show ?thesis by (auto simp: all_enq_def)
    qed
  qed simp
  then obtain outs s' where r: "fifo_run enq deq ops s = Some (outs, s')" by auto
  with run_refines [OF assms r] show ?thesis by auto
qed

end

end
