(* ===== verification/TaskQueue.thy ===== *)
theory TaskQueue
  imports MpscRing Fifo
begin

text \<open>
  Model of \<open>ustevent::detail::ContextTaskQueue\<close> (\<open>core/detail/ContextTaskQueue.hpp\<close>), which
  lays tasks out in the bytes of the ring buffer: \<open>push\<close> writes a task into an acquired region,
  \<open>pop\<close> reads tasks out of the bytes the ring grants, and the deallocator of a task releases
  its bytes when the task is performed.

  A pointer into the buffer is its offset. The operation object of a task is the list of its
  bytes (\<open>sizeof(operation)\<close> of them); the library stores it at a fixed offset and never looks
  inside. 32-bit fields are four bytes, least significant first.
\<close>

section \<open>Bytes\<close>

definition poke :: "nat \<Rightarrow> u8 list \<Rightarrow> u8 list \<Rightarrow> u8 list" where
  "poke off bs buf = take off buf @ bs @ drop (off + length bs) buf"

definition peek :: "nat \<Rightarrow> nat \<Rightarrow> u8 list \<Rightarrow> u8 list" where
  "peek off n buf = take n (drop off buf)"

definition le32 :: "nat \<Rightarrow> u8 list" where
  "le32 v = [of_nat v, of_nat (v div 2 ^ 8), of_nat (v div 2 ^ 16), of_nat (v div 2 ^ 24)]"

definition read32 :: "nat \<Rightarrow> u8 list \<Rightarrow> nat" where
  "read32 off buf = (let b = (\<lambda>i. unat (buf ! (off + i)))
     in b 0 + 2 ^ 8 * b 1 + 2 ^ 16 * b 2 + 2 ^ 24 * b 3)"

lemma length_poke [simp]: "off + length bs \<le> length buf \<Longrightarrow> length (poke off bs buf) = length buf"
  by (simp add: poke_def)

lemma nth_poke:
  "off + length bs \<le> length buf \<Longrightarrow> i < length buf \<Longrightarrow>
   poke off bs buf ! i = (if off \<le> i \<and> i < off + length bs then bs ! (i - off) else buf ! i)"
  by (auto simp: poke_def nth_append min_def)

lemma length_peek [simp]: "off + n \<le> length buf \<Longrightarrow> length (peek off n buf) = n"
  by (simp add: peek_def)

lemma nth_peek [simp]: "off + n \<le> length buf \<Longrightarrow> i < n \<Longrightarrow> peek off n buf ! i = buf ! (off + i)"
  by (simp add: peek_def)

lemma length_le32 [simp]: "length (le32 v) = 4"
  by (simp add: le32_def)

text \<open>Two buffers that agree on a range read the same there.\<close>

definition agree :: "nat \<Rightarrow> nat \<Rightarrow> u8 list \<Rightarrow> u8 list \<Rightarrow> bool" where
  "agree lo hi b c \<longleftrightarrow> length b = length c \<and> (\<forall>i. lo \<le> i \<longrightarrow> i < hi \<longrightarrow> i < length b \<longrightarrow> b ! i = c ! i)"

lemma agree_peek:
  assumes "agree lo hi b c" and "lo \<le> off" and "off + n \<le> hi" and "hi \<le> length b"
  shows "peek off n b = peek off n c"
  using assms by (intro nth_equalityI) (auto simp: agree_def)

lemma peek_poke_same: "off + length bs \<le> length buf \<Longrightarrow> peek off (length bs) (poke off bs buf) = bs"
  by (intro nth_equalityI) (simp_all add: nth_poke)

lemma peek_poke_other:
  "off + length bs \<le> length buf \<Longrightarrow> o' + n \<le> length buf \<Longrightarrow> o' + n \<le> off \<or> off + length bs \<le> o' \<Longrightarrow>
   peek o' n (poke off bs buf) = peek o' n buf"
  by (intro nth_equalityI) (auto simp: nth_poke)

lemma digits32:
  "v mod 256 + 256 * (v div 256 mod 256) + 65536 * (v div 65536 mod 256) + 16777216 * (v div 16777216)
     = (v::nat)"
proof -
  have d: "v div 65536 = v div 256 div 256" "v div 16777216 = v div 256 div 256 div 256"
    by (simp_all flip: div_mult2_eq)
  show ?thesis unfolding d
    using mod_mult_div_eq [of v 256] mod_mult_div_eq [of "v div 256" 256]
      mod_mult_div_eq [of "v div 256 div 256" 256] by linarith
qed

lemma unat_byte: "unat (of_nat v :: u8) = v mod 256"
  by (simp add: unat_of_nat take_bit_eq_mod)

lemma read32_peek:
  assumes "peek off 4 buf = le32 v" and "off + 4 \<le> length buf" and "v < 2 ^ 32"
  shows "read32 off buf = v"
proof -
  have n: "buf ! (off + i) = le32 v ! i" if "i < 4" for i
    using nth_peek [OF assms(2) that] assms(1) by simp
  have "buf ! (off + 0) = of_nat v" "buf ! (off + 1) = of_nat (v div 2 ^ 8)"
    "buf ! (off + 2) = of_nat (v div 2 ^ 16)" "buf ! (off + 3) = of_nat (v div 2 ^ 24)"
    by (simp_all only: n) (simp_all add: le32_def)
  moreover have "v div 16777216 mod 256 = v div 16777216" using assms(3) by simp
  ultimately show ?thesis using digits32 [of v]
    by (simp add: read32_def Let_def unat_byte)
qed

section \<open>The layout of a task\<close>

definition round_up :: "u64 \<Rightarrow> u64" where
  "round_up num = (num + 8 - 1) AND - 8"

record task =
  op_bytes :: "u8 list"
  stack_size :: nat
  descr :: "u8 list"

abbreviation op_len :: "task \<Rightarrow> nat" where "op_len t \<equiv> length (op_bytes t)"
abbreviation descr_len :: "task \<Rightarrow> nat" where "descr_len t \<equiv> length (descr t)"

definition operation_length_offset :: nat where "operation_length_offset = 4"
definition operation_offset :: nat where "operation_offset = operation_length_offset + 4"

definition stack_size_offset :: "nat \<Rightarrow> nat" where
  "stack_size_offset op_length = operation_offset + unat (round_up (of_nat op_length))"

definition description_length_offset :: "nat \<Rightarrow> nat" where
  "description_length_offset op_length = stack_size_offset op_length + 4"

definition description_offset :: "nat \<Rightarrow> nat" where
  "description_offset op_length = description_length_offset op_length + 4"

definition acquired_size :: "task \<Rightarrow> nat" where
  "acquired_size t = description_offset (op_len t) + unat (round_up (of_nat (descr_len t + 1)))"

text \<open>The stores of \<open>push\<close>, in order; \<open>uint32_t\<close> casts keep the low 32 bits (\<open>le32\<close>).\<close>

definition write_task :: "nat \<Rightarrow> task \<Rightarrow> u8 list \<Rightarrow> u8 list" where
  "write_task base t buf =
    (let b1 = poke base (le32 (acquired_size t)) buf;
         b2 = poke (base + operation_length_offset) (le32 (op_len t)) b1;
         b3 = poke (base + operation_offset) (op_bytes t) b2;
         b4 = poke (base + stack_size_offset (op_len t)) (le32 (stack_size t)) b3;
         b5 = poke (base + description_length_offset (op_len t)) (le32 (descr_len t)) b4;
         b6 = poke (base + description_offset (op_len t)) (descr t) b5
     in poke (base + description_offset (op_len t) + descr_len t) [0] b6)"

text \<open>A task the layout can hold: lengths fit their fields, the description has no NUL byte (it is
  read back as a C string) and the operation is not empty (no C++ object has size 0).\<close>

definition task_ok :: "task \<Rightarrow> bool" where
  "task_ok t \<longleftrightarrow> op_bytes t \<noteq> [] \<and> stack_size t < 2 ^ 32 \<and> op_len t + descr_len t + 64 \<le> 2 ^ 32 \<and>
     0 \<notin> set (descr t)"

definition holds :: "u8 list \<Rightarrow> nat \<Rightarrow> task \<Rightarrow> bool" where
  "holds buf a t \<longleftrightarrow> a + acquired_size t \<le> length buf \<and>
     peek a 4 buf = le32 (acquired_size t) \<and>
     peek (a + operation_length_offset) 4 buf = le32 (op_len t) \<and>
     peek (a + operation_offset) (op_len t) buf = op_bytes t \<and>
     peek (a + stack_size_offset (op_len t)) 4 buf = le32 (stack_size t) \<and>
     peek (a + description_offset (op_len t)) (descr_len t) buf = descr t \<and>
     peek (a + description_offset (op_len t) + descr_len t) 1 buf = [0]"

lemma round_up_value:
  assumes "unat n + 7 < 2 ^ 64"
  shows "unat (round_up n) = (unat n + 7) div 8 * 8"
proof -
  have m: "(- 8 :: u64) = NOT (mask 3)" using minus_exp_eq_not_mask [of 3, where 'a = u64] by simp
  have "x AND NOT (mask 3) = x div 8 * 8" for x :: u64
  proof -
    have "x AND NOT (mask 3) = push_bit 3 (drop_bit 3 x)"
      by (rule bit_word_eqI) (auto simp: bit_simps)
    also have "\<dots> = x div 8 * 8" by (simp add: push_bit_eq_mult drop_bit_eq_div)
    finally show ?thesis .
  qed
  then have r: "round_up n = (n + 7) div 8 * 8" by (simp add: round_up_def m add.commute)
  have s: "unat (n + 7) = unat n + 7" using assms by (simp add: unat_add_small)
  have d: "unat ((n + 7) div 8) = (unat n + 7) div 8" by (simp add: unat_div s)
  have "(unat n + 7) div 8 * 8 < 2 ^ 64" using assms div_times_less_eq_dividend [of "unat n + 7" 8]
    by linarith
  then show ?thesis unfolding r by (subst unat_mult_lem [THEN iffD1]) (simp_all add: d)
qed

lemma round_up_bounds:
  assumes "n + 7 < 2 ^ 64"
  shows "n \<le> unat (round_up (of_nat n))" and "unat (round_up (of_nat n)) \<le> n + 7"
    and "8 dvd unat (round_up (of_nat n))"
proof -
  have u: "unat (of_nat n :: u64) = n" using assms by (simp add: unat_of_nat take_bit_nat_eq_self)
  note v = round_up_value [of "of_nat n", unfolded u, OF assms]
  show "n \<le> unat (round_up (of_nat n))" "unat (round_up (of_nat n)) \<le> n + 7"
    "8 dvd unat (round_up (of_nat n))" unfolding v by presburger+
qed

lemma layout:
  assumes "task_ok t"
  obtains R D where "stack_size_offset (op_len t) = 8 + R" "description_length_offset (op_len t) = 12 + R"
    "description_offset (op_len t) = 16 + R" "acquired_size t = 16 + R + D" "op_len t \<le> R"
    "descr_len t + 1 \<le> D" "16 + R + D < 2 ^ 32"
    "operation_length_offset = 4" "operation_offset = 8"
proof -
  have "op_len t + 7 < 2 ^ 64" "descr_len t + 1 + 7 < 2 ^ 64" using assms by (simp_all add: task_ok_def)
  note b = round_up_bounds [OF this(1)] round_up_bounds [OF this(2)]
  show thesis
    by (rule that [of "unat (round_up (of_nat (op_len t)))" "unat (round_up (of_nat (descr_len t + 1)))"])
       (use b assms in \<open>auto simp: stack_size_offset_def description_length_offset_def description_offset_def
          acquired_size_def operation_length_offset_def operation_offset_def task_ok_def\<close>)
qed

lemma nth_poke_other:
  "off + length bs \<le> length buf \<Longrightarrow> i < length buf \<Longrightarrow> i < off \<or> off + length bs \<le> i \<Longrightarrow>
   poke off bs buf ! i = buf ! i"
  by (auto simp: nth_poke)

lemma write_task_simps:
  assumes "task_ok t" and "a + acquired_size t \<le> length buf"
  shows "length (write_task a t buf) = length buf"
    and "i < length buf \<Longrightarrow> i < a \<or> a + acquired_size t \<le> i \<Longrightarrow> write_task a t buf ! i = buf ! i"
proof -
  obtain R D where l: "stack_size_offset (op_len t) = 8 + R" "description_length_offset (op_len t) = 12 + R"
    "description_offset (op_len t) = 16 + R" "acquired_size t = 16 + R + D" "op_len t \<le> R"
    "descr_len t + 1 \<le> D" "operation_length_offset = 4" "operation_offset = 8"
    using layout [OF assms(1)] by metis
  show "length (write_task a t buf) = length buf"
    using assms(2) l by (simp add: write_task_def Let_def)
  show "write_task a t buf ! i = buf ! i" if "i < length buf" "i < a \<or> a + acquired_size t \<le> i"
    using that(2)
  proof
    assume "i < a"
    with that(1) assms(2) l(4-6) show ?thesis
      unfolding write_task_def Let_def l by (simp add: nth_poke_other)
  next
    assume "a + acquired_size t \<le> i"
    with that(1) assms(2) l(4-6) show ?thesis
      unfolding write_task_def Let_def l by (simp add: nth_poke_other)
  qed
qed

lemma write_task_holds:
  assumes "task_ok t" and "a + acquired_size t \<le> length buf"
  shows "holds (write_task a t buf) a t"
proof -
  obtain R D where l: "stack_size_offset (op_len t) = 8 + R" "description_length_offset (op_len t) = 12 + R"
    "description_offset (op_len t) = 16 + R" "acquired_size t = 16 + R + D" "op_len t \<le> R"
    "descr_len t + 1 \<le> D" "operation_length_offset = 4" "operation_offset = 8"
    using layout [OF assms(1)] by metis
  note s = peek_poke_same [of _ "le32 x" for x, unfolded length_le32]
  show ?thesis
    unfolding holds_def write_task_def Let_def l
    using assms(2) l(4-6) peek_poke_same [of _ "[0]"]
    by (simp add: peek_poke_other s peek_poke_same)
qed

lemma holds_agree:
  assumes "holds b a t" and "task_ok t" and "agree a (a + acquired_size t) b c"
  shows "holds c a t"
proof -
  obtain R D where l: "stack_size_offset (op_len t) = 8 + R" "description_length_offset (op_len t) = 12 + R"
    "description_offset (op_len t) = 16 + R" "acquired_size t = 16 + R + D" "op_len t \<le> R"
    "descr_len t + 1 \<le> D" "operation_length_offset = 4" "operation_offset = 8"
    using layout [OF assms(2)] by metis
  have b: "a + acquired_size t \<le> length b" using assms(1) by (simp add: holds_def)
  have "peek (a + o') n b = peek (a + o') n c" if "o' + n \<le> acquired_size t" for o' n
    using agree_peek [OF assms(3)] that b by simp
  from this [of 0 4] this [of 4 4] this [of 8 "op_len t"] this [of "8 + R" 4]
    this [of "16 + R" "descr_len t"] this [of "16 + R + descr_len t" 1]
  show ?thesis using assms(1,3) l unfolding holds_def l agree_def
    by (simp add: add.assoc)
qed

section \<open>The queue\<close>

text \<open>A thread's writer is created by the object-scoped thread-local storage at its first use;
  \<open>ctq_writers\<close> is that storage. \<open>_consumed\<close> and \<open>_poped\<close> are pointers into the buffer.\<close>

record ctq =
  ctq_ring :: ring
  writer_sequence :: nat
  ctq_writers :: "nat \<Rightarrow> ring_writer option"
  consumed_to :: nat
  poped_to :: nat

definition ctq_new :: "u64 \<Rightarrow> u32 \<Rightarrow> ctq" where
  "ctq_new buffer_length hardware_concurrency =
     \<lparr>ctq_ring = ring_new buffer_length hardware_concurrency, writer_sequence = 0,
      ctq_writers = (\<lambda>_. None), consumed_to = 0, poped_to = 0\<rparr>"

definition get_writer :: "nat \<Rightarrow> ctq \<Rightarrow> ring_fail + (ring_writer \<times> ctq)" where
  "get_writer th q =
     (case ctq_writers q th of
        Some w \<Rightarrow> Inr (w, q)
      | None \<Rightarrow>
          (case writer_make (writer_sequence q) (ctq_ring q) of
             Inl e \<Rightarrow> Inl e
           | Inr (w, r) \<Rightarrow> Inr (w, q\<lparr>ctq_ring := r, writer_sequence := writer_sequence q + 1,
                                     ctq_writers := (ctq_writers q)(th \<mapsto> w)\<rparr>)))"

text \<open>One round of the loop of \<open>push\<close>: true when the task was written and produced. \<open>k\<close> is the
  number of spurious failures of the exchange in \<open>acquire\<close>.\<close>

definition push_round :: "nat \<Rightarrow> ring_writer \<Rightarrow> task \<Rightarrow> ctq \<Rightarrow> ring_fail + (bool \<times> ctq)" where
  "push_round k w t q =
     (case writer_acquire k (of_nat (acquired_size t)) w (ctq_ring q) of
        Inl e \<Rightarrow> Inl e
      | Inr (None, r) \<Rightarrow> Inr (False, q\<lparr>ctq_ring := r\<rparr>)
      | Inr (Some base, r) \<Rightarrow>
          (case writer_produce w (r\<lparr>buffer := write_task (unat base) t (buffer r)\<rparr>) of
             Inl e \<Rightarrow> Inl e
           | Inr r' \<Rightarrow> Inr (True, q\<lparr>ctq_ring := r'\<rparr>)))"

text \<open>The loop with a bound on its rounds; \<open>None\<close> when the bound is reached.\<close>

fun push_loop :: "nat \<Rightarrow> nat \<Rightarrow> ring_writer \<Rightarrow> task \<Rightarrow> ctq \<Rightarrow> (ring_fail + ctq) option" where
  "push_loop 0 k w t q = None"
| "push_loop (Suc n) k w t q =
     (case push_round k w t q of
        Inl e \<Rightarrow> Some (Inl e)
      | Inr (True, q') \<Rightarrow> Some (Inr q')
      | Inr (False, q') \<Rightarrow> push_loop n k w t q')"

definition push :: "nat \<Rightarrow> nat \<Rightarrow> nat \<Rightarrow> task \<Rightarrow> ctq \<Rightarrow> (ring_fail + ctq) option" where
  "push n k th t q =
     (case get_writer th q of Inl e \<Rightarrow> Some (Inl e) | Inr (w, q') \<Rightarrow> push_loop n k w t q')"

text \<open>\<open>pop\<close> gives the address of the operation, the stack size and the description; the last is
  \<open>None\<close> when the caller's variable is not assigned. The length tested for that is read at the
  offset of the operation's length, as the code has it.\<close>

record popped =
  p_operation :: nat
  p_stack_size :: nat
  p_description :: "u8 list option"

definition c_string :: "nat \<Rightarrow> u8 list \<Rightarrow> u8 list" where
  "c_string off buf = takeWhile (\<lambda>b. b \<noteq> 0) (drop off buf)"

definition read_task :: "nat \<Rightarrow> u8 list \<Rightarrow> nat \<times> popped" where
  "read_task base buf =
     (let context_task_length = read32 base buf;
          operation_length = read32 (base + operation_length_offset) buf;
          ss = read32 (base + stack_size_offset operation_length) buf;
          description_length = read32 (base + operation_length_offset) buf
      in (context_task_length,
          \<lparr>p_operation = base + operation_offset, p_stack_size = ss,
           p_description = (if 0 < description_length
              then Some (c_string (base + description_offset operation_length) buf) else None)\<rparr>))"

definition pop_at :: "nat \<Rightarrow> ctq \<Rightarrow> popped \<times> ctq" where
  "pop_at base q = (case read_task base (buffer (ctq_ring q)) of
     (len, p) \<Rightarrow> (p, q\<lparr>poped_to := base + len\<rparr>))"

definition pop :: "ctq \<Rightarrow> ring_fail + (popped option \<times> ctq)" where
  "pop q =
     (if poped_to q < consumed_to q then
        (case pop_at (poped_to q) q of (p, q') \<Rightarrow> Inr (Some p, q'))
      else
        (case reader_consume (ctq_ring q) of
           Inl e \<Rightarrow> Inl e
         | Inr (length_, address, r) \<Rightarrow>
             if length_ = 0 then Inr (None, q\<lparr>ctq_ring := r\<rparr>)
             else (let a = (case address of None \<Rightarrow> 0 | Some x \<Rightarrow> unat x) in
                   case pop_at a (q\<lparr>ctq_ring := r, poped_to := a, consumed_to := a + unat length_\<rparr>) of
                     (p, q') \<Rightarrow> Inr (Some p, q'))))"

text \<open>\<open>TaskDeallocator::deallocate\<close>, given the address of the operation.\<close>

definition deallocate :: "nat \<Rightarrow> ctq \<Rightarrow> ring_fail + ctq" where
  "deallocate address q =
     (let base = address - operation_offset in
      case reader_release (of_nat (read32 base (buffer (ctq_ring q)))) (ctq_ring q) of
        Inl e \<Rightarrow> Inl e
      | Inr r \<Rightarrow> Inr (q\<lparr>ctq_ring := r\<rparr>))"

text \<open>Taking the next task and performing it: \<open>ContextOperation::doPerform\<close> moves the handler out
  of the buffer, then deallocates the task, then runs the handler.\<close>

definition pop_perform :: "ctq \<Rightarrow> ring_fail + (task option \<times> ctq)" where
  "pop_perform q =
     (case pop q of
        Inl e \<Rightarrow> Inl e
      | Inr (None, q') \<Rightarrow> Inr (None, q')
      | Inr (Some p, q') \<Rightarrow>
          (let buf = buffer (ctq_ring q');
               op_length = read32 (p_operation p - operation_offset + operation_length_offset) buf;
               t = \<lparr>op_bytes = peek (p_operation p) op_length buf, stack_size = p_stack_size p,
                    descr = (case p_description p of None \<Rightarrow> [] | Some d \<Rightarrow> d)\<rparr>
           in case deallocate (p_operation p) q' of
                Inl e \<Rightarrow> Inl e
              | Inr q'' \<Rightarrow> Inr (Some t, q'')))"

section \<open>What the queue represents\<close>

type_synonym region = "nat \<times> task"

definition offsets_of :: "region list \<Rightarrow> nat list" where
  "offsets_of rs = concat (map (\<lambda>(a, t). [a..<a + acquired_size t]) rs)"

definition bytes_of :: "region list \<Rightarrow> nat" where
  "bytes_of rs = sum_list (map (acquired_size \<circ> snd) rs)"

text \<open>The regions lie in the buffer one after the other in the ring's order; no producer is
  between acquire and produce; a batch the reader has begun ends at the end of a task.\<close>

definition queue_regions :: "ctq \<Rightarrow> region list \<Rightarrow> bool" where
  "queue_regions q rs \<longleftrightarrow>
     ring_inv \<lparr>rng = ctq_ring q, pending = (\<lambda>_. None), granted = consumed_to q - poped_to q\<rparr> \<and>
     (\<forall>th w. ctq_writers q th = Some w \<longrightarrow>
        (\<exists>i < length (workers (ctq_ring q)). w = \<lparr>w_buffer = True, w_worker = Some i\<rparr> \<and>
           registered (workers (ctq_ring q) ! i))) \<and>
     live (ctq_ring q) = offsets_of rs \<and>
     (\<forall>(a, t) \<in> set rs. task_ok t \<and> holds (buffer (ctq_ring q)) a t) \<and>
     (poped_to q < consumed_to q \<longrightarrow> poped_to q = wr (ctq_ring q) \<and>
        (\<exists>j \<le> length rs. consumed_to q - poped_to q = bytes_of (take j rs)))"

definition queue_rep :: "ctq \<Rightarrow> task list \<Rightarrow> bool" where
  "queue_rep q ts \<longleftrightarrow> (\<exists>rs. queue_regions q rs \<and> ts = map snd rs)"

subsection \<open>push keeps the representation\<close>

abbreviation quiet :: "ring \<Rightarrow> nat \<Rightarrow> ring_sys" where
  "quiet r g \<equiv> \<lparr>rng = r, pending = (\<lambda>_. None), granted = g\<rparr>"

definition writer_ok :: "ring \<Rightarrow> ring_writer \<Rightarrow> bool" where
  "writer_ok r w \<longleftrightarrow> (\<exists>i < length (workers r). w = \<lparr>w_buffer = True, w_worker = Some i\<rparr> \<and>
     registered (workers r ! i))"

lemma quiet_apart: "pending_apart (quiet r g)"
  by (simp add: pending_apart_def)

lemma quiet_step:
  assumes "ring_step (quiet r g) \<lparr>rng = r', pending = p, granted = g'\<rparr>" and "ring_inv (quiet r g)"
  shows "ring_inv \<lparr>rng = r', pending = p, granted = g'\<rparr>"
  using ring_inv_step [OF assms quiet_apart] by simp

lemma queue_regionsD:
  assumes "queue_regions q rs"
  shows "ring_inv (quiet (ctq_ring q) (consumed_to q - poped_to q))"
    and "\<And>th w. ctq_writers q th = Some w \<Longrightarrow> writer_ok (ctq_ring q) w"
    and "live (ctq_ring q) = offsets_of rs"
    and "\<And>a t. (a, t) \<in> set rs \<Longrightarrow> task_ok t \<and> holds (buffer (ctq_ring q)) a t"
    and "poped_to q < consumed_to q \<Longrightarrow> poped_to q = wr (ctq_ring q) \<and>
        (\<exists>j \<le> length rs. consumed_to q - poped_to q = bytes_of (take j rs))"
  using assms by (auto simp: queue_regions_def writer_ok_def)

lemma queue_regionsI:
  assumes "ring_inv (quiet (ctq_ring q) (consumed_to q - poped_to q))"
    and "\<And>th w. ctq_writers q th = Some w \<Longrightarrow> writer_ok (ctq_ring q) w"
    and "live (ctq_ring q) = offsets_of rs"
    and "\<And>a t. (a, t) \<in> set rs \<Longrightarrow> task_ok t \<and> holds (buffer (ctq_ring q)) a t"
    and "poped_to q < consumed_to q \<Longrightarrow> poped_to q = wr (ctq_ring q) \<and>
        (\<exists>j \<le> length rs. consumed_to q - poped_to q = bytes_of (take j rs))"
  shows "queue_regions q rs"
  using assms by (auto simp: queue_regions_def writer_ok_def)

lemma register_facts:
  assumes "register_worker i r = Inr r'"
  shows "workers r' = (workers r)[i := \<lparr>seen = MAX_OFFSET, registered = True\<rparr>]" and "i < length (workers r)"
    and "capacity r' = capacity r" "producer_barrier r' = producer_barrier r"
    "consumer_barrier r' = consumer_barrier r" "end_mark r' = end_mark r" "buffer r' = buffer r"
  using assms by (auto simp: register_worker_def set_registered_def set_seen_def worker_fields split: if_splits)

lemma get_writer_ok:
  assumes q: "queue_regions q rs" and g: "get_writer th q = Inr (w, q')"
  shows "queue_regions q' rs" and "writer_ok (ctq_ring q') w"
proof -
  note d = queue_regionsD [OF q]
  have "queue_regions q' rs \<and> writer_ok (ctq_ring q') w"
  proof (cases "ctq_writers q th")
    case (Some w')
    with g d(2) q show ?thesis by (auto simp: get_writer_def)
  next
    case None
    let ?i = "writer_sequence q"
    from None g obtain r where r: "register_worker ?i (ctq_ring q) = Inr r"
      and w: "w = \<lparr>w_buffer = True, w_worker = Some ?i\<rparr>"
      and q': "q' = q\<lparr>ctq_ring := r, writer_sequence := ?i + 1, ctq_writers := (ctq_writers q)(th \<mapsto> w)\<rparr>"
      by (auto simp: get_writer_def writer_make_def split: sum.splits)
    note f = register_facts [OF r]
    have "ring_inv (quiet r (consumed_to q - poped_to q))"
      by (rule quiet_step [OF _ d(1)]) (use r_register [of "quiet (ctq_ring q) (consumed_to q - poped_to q)" ?i r] r in simp)
    moreover have "writer_ok r w" using f(1,2) w by (simp add: writer_ok_def)
    moreover have "writer_ok r w'" if "writer_ok (ctq_ring q) w'" for w'
      using that f(1,2) by (auto simp: writer_ok_def)
    ultimately have "queue_regions q' rs" using d q' f ring_view_cong(3) [of r "ctq_ring q"]
      by (intro queue_regionsI) (auto split: if_splits)
    with \<open>writer_ok r w\<close> show ?thesis by (simp add: q')
  qed
  then show "queue_regions q' rs" and "writer_ok (ctq_ring q') w" by simp_all
qed

lemma offsets_of_snoc: "offsets_of (rs @ [(a, t)]) = offsets_of rs @ [a..<a + acquired_size t]"
  by (simp add: offsets_of_def)

lemma acquired_unat:
  assumes "task_ok t" shows "unat (of_nat (acquired_size t) :: u64) = acquired_size t" and "0 < acquired_size t"
    and "acquired_size t < 2 ^ 32"
proof -
  obtain R D where l: "acquired_size t = 16 + R + D" "16 + R + D < 2 ^ 32" using layout [OF assms] by metis
  then show "0 < acquired_size t" and b: "acquired_size t < 2 ^ 32" by simp_all
  show "unat (of_nat (acquired_size t) :: u64) = acquired_size t"
    using b by (simp add: unat_of_nat take_bit_nat_eq_self)
qed

lemma holds_other_region:
  assumes "holds buf b u" and "task_ok u" and "task_ok t" and "a + acquired_size t \<le> length buf"
    and "{b..<b + acquired_size u} \<inter> {a..<a + acquired_size t} = {}"
  shows "holds (write_task a t buf) b u"
proof (rule holds_agree [OF assms(1,2)])
  note w = write_task_simps [OF assms(3,4)]
  have "buf ! i = write_task a t buf ! i" if "b \<le> i" "i < b + acquired_size u" "i < length buf" for i
  proof -
    have "i \<notin> {a..<a + acquired_size t}" using that assms(5) by auto
    then have "i < a \<or> a + acquired_size t \<le> i" by auto
    then show ?thesis using w(2) [OF that(3)] by simp
  qed
  then show "agree b (b + acquired_size u) buf (write_task a t buf)" using w(1) by (simp add: agree_def)
qed

lemma push_round_ok:
  assumes q: "queue_regions q rs" and w: "writer_ok (ctq_ring q) w" and t: "task_ok t"
  shows "push_round k w t q = Inr (False, q) \<or>
    (\<exists>a q'. push_round k w t q = Inr (True, q') \<and> queue_regions q' (rs @ [(a, t)]) \<and>
        (\<forall>w'. writer_ok (ctq_ring q) w' \<longrightarrow> writer_ok (ctq_ring q') w'))"
proof -
  note d = queue_regionsD [OF q] and len = acquired_unat [OF t]
  let ?r = "ctq_ring q" and ?g = "consumed_to q - poped_to q" and ?len = "of_nat (acquired_size t) :: u64"
  from w obtain i where i: "i < length (workers ?r)" "registered (workers ?r ! i)"
    and weq: "w = \<lparr>w_buffer = True, w_worker = Some i\<rparr>" by (auto simp: writer_ok_def)
  let ?s = "quiet ?r ?g"
  obtain a r where ar: "acquire k i ?len ?r = Inr (a, r)" "a = None \<longrightarrow> r = ?r"
    using acquire_returns [OF d(1), of i k ?len] i by auto
  show ?thesis
  proof (cases a)
    case None
    with ar show ?thesis by (simp add: push_round_def writer_acquire_def weq)
  next
    case (Some base)
    with ar have acq: "acquire k i ?len ?r = Inr (Some base, r)" by simp
    from acquire_some [OF d(1), of i k ?len base r] i acq obtain n' wrap where
      p: "place (cap_of ?r) (nx ?r) (wr ?r) (acquired_size t) = Some (unat base, n', wrap)"
        "r = after_place (unat base) n' wrap i ?r" "acquired_size t \<le> cap_of ?r" by (auto simp: len(1))
    have wf: "ring_wf ?r" using d(1) by (simp add: ring_inv_def)
    then have c: "nx ?r < cap_of ?r" "wr ?r < cap_of ?r" "length (buffer ?r) = cap_of ?r"
      by (simp_all add: ring_wf_def)
    have fit: "unat base + acquired_size t \<le> length (buffer ?r)"
      using place_bounds(2) [OF p(1) c(1) p(3) c(2)] c(3) by simp
    have lv: "live r = offsets_of (rs @ [(unat base, t)])"
      using place_live(1) [OF wf p(1,3) len(2), of i] p(2) d(3) by (simp add: offsets_of_snoc)
    have dist: "distinct (live r)" using live_distinct [OF place_wf [OF wf p(1,3)]] p(2) by simp
    let ?p = "[i \<mapsto> (unat base, acquired_size t)]"
    let ?b = "write_task (unat base) t (buffer r)"
    have br: "buffer r = buffer ?r" by (simp add: p(2))
    have "0 < ?len" using len by (simp add: word_less_nat_alt)
    then have "ring_inv \<lparr>rng = r, pending = ?p, granted = ?g\<rparr>"
      using r_acquire [of i ?s ?len k base r] i acq len(1) by (intro quiet_step [OF _ d(1)]) simp
    then have inv2: "ring_inv \<lparr>rng = r\<lparr>buffer := ?b\<rparr>, pending = ?p, granted = ?g\<rparr>"
      using ring_view_cong [of "r\<lparr>buffer := ?b\<rparr>" r] write_task_simps(1) [OF t, of "unat base" "buffer r"] fit br
      by (simp add: ring_inv_def)
    have seen: "workers (r\<lparr>buffer := ?b\<rparr>) ! i = \<lparr>seen = producer_barrier ?r, registered = True\<rparr>"
      using i p(2) by (cases "workers ?r ! i") simp
    have "nx ?r < 2 ^ 32" using wf by (simp add: ring_wf_def)
    then have "producer_barrier ?r \<noteq> MAX_OFFSET" using unat_max by fastforce
    then obtain r' where r': "produce i (r\<lparr>buffer := ?b\<rparr>) = Inr r'" "r' = set_seen i MAX_OFFSET (r\<lparr>buffer := ?b\<rparr>)"
      using seen by (simp add: produce_def)
    have "ring_step \<lparr>rng = r\<lparr>buffer := ?b\<rparr>, pending = ?p, granted = ?g\<rparr>
        (quiet r' ?g)"
      using r_produce [of "\<lparr>rng = r\<lparr>buffer := ?b\<rparr>, pending = ?p, granted = ?g\<rparr>" i "unat base"
        "acquired_size t" r'] r'(1) by simp
    then have inv3: "ring_inv (quiet r' ?g)"
      using ring_inv_step [OF _ inv2] by (simp add: pending_apart_def)
    let ?q' = "q\<lparr>ctq_ring := r'\<rparr>"
    have pr: "push_round k w t q = Inr (True, ?q')"
      using acq r'(1) by (simp add: push_round_def writer_acquire_def writer_produce_def weq)
    have wok: "writer_ok r' w'" if "writer_ok ?r w'" for w'
      using that i p(2) r'(2) unfolding writer_ok_def by auto
    have hold: "task_ok u \<and> holds ?b b u" if "(b, u) \<in> set (rs @ [(unat base, t)])" for b u
    proof (cases "(b, u) \<in> set rs")
      case True
      then have "{b..<b + acquired_size u} \<subseteq> set (offsets_of rs)" by (force simp: offsets_of_def)
      moreover have "set (offsets_of rs) \<inter> {unat base..<unat base + acquired_size t} = {}"
        using dist lv by (simp add: offsets_of_snoc)
      ultimately have "{b..<b + acquired_size u} \<inter> {unat base..<unat base + acquired_size t} = {}" by blast
      then show ?thesis using d(4) [OF True] holds_other_region [OF _ _ t] fit br by simp
    next
      case False
      with that have "b = unat base" "u = t" by auto
      then show ?thesis using write_task_holds [OF t] fit br t by simp
    qed
    have lv': "live r' = live r" using r'(2) write_task_simps(1) [OF t, of "unat base" "buffer r"] fit br
      by (intro ring_view_cong(3)) simp_all
    have "wr r' = wr ?r" using r'(2) p(2) by simp
    moreover have "\<exists>j \<le> length (rs @ [(unat base, t)]).
        ?g = bytes_of (take j (rs @ [(unat base, t)]))" if "poped_to q < consumed_to q"
      using d(5) [OF that] by (metis le_SucI length_append_singleton take_append diff_is_0_eq' take0 append_Nil2)
    ultimately have "queue_regions ?q' (rs @ [(unat base, t)])"
      using inv3 d(2,5) wok lv lv' hold r'(2) by (intro queue_regionsI) auto
    with pr wok show ?thesis by auto
  qed
qed

subsection \<open>pop and deallocate take the oldest task\<close>

lemma c_string_reads:
  assumes "peek off (length d) buf = d" and "peek (off + length d) 1 buf = [0]" and "0 \<notin> set d"
    and "off + length d < length buf"
  shows "c_string off buf = d"
proof -
  have z: "drop off buf ! length d = 0" using assms(2,4) nth_peek [of "off + length d" 1 buf 0] by simp
  have "drop off buf = take (length d) (drop off buf) @ drop off buf ! length d # drop (Suc (length d)) (drop off buf)"
    by (rule id_take_nth_drop) (use assms(4) in simp)
  also have "take (length d) (drop off buf) = d" using assms(1) by (simp add: peek_def)
  finally have e: "drop off buf = d @ 0 # drop (Suc (length d)) (drop off buf)" using z by simp
  have "takeWhile (\<lambda>b. b \<noteq> 0) (d @ 0 # ys) = d" for ys using assms(3) by (induction d) auto
  then show ?thesis unfolding c_string_def by (subst e)
qed

lemma read_task_ok:
  assumes "holds buf a t" and "task_ok t"
  shows "read_task a buf = (acquired_size t, \<lparr>p_operation = a + operation_offset,
           p_stack_size = stack_size t, p_description = Some (descr t)\<rparr>)"
    and "read32 a buf = acquired_size t" and "read32 (a + operation_length_offset) buf = op_len t"
proof -
  obtain R D where l: "stack_size_offset (op_len t) = 8 + R" "description_length_offset (op_len t) = 12 + R"
    "description_offset (op_len t) = 16 + R" "acquired_size t = 16 + R + D" "op_len t \<le> R"
    "descr_len t + 1 \<le> D" "16 + R + D < 2 ^ 32" "operation_length_offset = 4" "operation_offset = 8"
    by (rule layout [OF assms(2)])
  note h = assms(1) [unfolded holds_def l]
  show len: "read32 a buf = acquired_size t"
    by (rule read32_peek) (use h l in simp_all)
  show ol: "read32 (a + operation_length_offset) buf = op_len t"
    by (rule read32_peek) (use h l in simp_all)
  have ss: "read32 (a + stack_size_offset (op_len t)) buf = stack_size t"
    by (rule read32_peek) (use h l assms(2) in \<open>simp_all add: task_ok_def\<close>)
  have cs: "c_string (a + description_offset (op_len t)) buf = descr t"
    by (rule c_string_reads) (use h l assms(2) in \<open>simp_all add: task_ok_def\<close>)
  have "0 < op_len t" using assms(2) by (simp add: task_ok_def)
  then show "read_task a buf = (acquired_size t, \<lparr>p_operation = a + operation_offset,
           p_stack_size = stack_size t, p_description = Some (descr t)\<rparr>)"
    by (simp add: read_task_def Let_def len ol ss cs)
qed

lemma offsets_of_Cons: "offsets_of ((a, t) # rs) = [a..<a + acquired_size t] @ offsets_of rs"
  by (simp add: offsets_of_def)

lemma bytes_of_simps [simp]: "bytes_of [] = 0" "bytes_of ((a, t) # rs) = acquired_size t + bytes_of rs"
  by (simp_all add: bytes_of_def)

text \<open>The first run of consecutive offsets ends where a region ends.\<close>

lemma run_boundary:
  assumes "offsets_of rs = [w..<u] @ [0..<m]" and "w \<le> u" and "\<And>a t. (a, t) \<in> set rs \<Longrightarrow> 0 < acquired_size t"
  shows "\<exists>j \<le> length rs. bytes_of (take j rs) = u - w"
  using assms
proof (induction rs arbitrary: w)
  case Nil
  then show ?case by (auto simp: offsets_of_def)
next
  case (Cons x rs)
  obtain a t where x: "x = (a, t)" by (cases x)
  let ?l = "acquired_size t"
  have l: "0 < ?l" using Cons.prems(3) x by auto
  show ?case
  proof (cases "w = u")
    case True
    then show ?thesis by (intro exI [of _ 0]) simp
  next
    case False
    with Cons.prems(2) have wu: "w < u" by simp
    have eq: "[a..<a + ?l] @ offsets_of rs = [w..<u] @ [0..<m]"
      using Cons.prems(1) x by (simp add: offsets_of_Cons)
    have "hd ([a..<a + ?l] @ offsets_of rs) = a" using l by simp
    moreover have "hd ([w..<u] @ [0..<m]) = w" using wu by simp
    ultimately have a: "a = w" using eq by simp
    have fit: "w + ?l \<le> u"
    proof (rule ccontr)
      assume n: "\<not> w + ?l \<le> u"
      then have i: "u - w < ?l" using wu by simp
      then have "([a..<a + ?l] @ offsets_of rs) ! (u - w) = u" using a wu by (simp add: nth_append)
      then have "([w..<u] @ [0..<m]) ! (u - w) = u" using eq by simp
      moreover have "u - w < length ([w..<u] @ [0..<m])" using eq i by (metis length_append length_upt
            add_diff_cancel_left' trans_less_add1)
      ultimately show False using wu by (simp add: nth_append)
    qed
    then have "[w..<u] = [w..<w + ?l] @ [w + ?l..<u]"
      by (metis le_add1 le_add_diff_inverse upt_add_eq_append)
    with eq a have "offsets_of rs = [w + ?l..<u] @ [0..<m]" by simp
    then obtain j where "j \<le> length rs" "bytes_of (take j rs) = u - (w + ?l)"
      using Cons.IH [of "w + ?l"] fit Cons.prems(3) by auto
    with fit x show ?thesis by (intro exI [of _ "Suc j"]) simp
  qed
qed

text \<open>The state between taking a task and performing it.\<close>

definition taken :: "ctq \<Rightarrow> nat \<Rightarrow> task \<Rightarrow> region list \<Rightarrow> bool" where
  "taken q a t rs \<longleftrightarrow> (\<exists>j \<le> length rs.
     ring_inv (quiet (ctq_ring q) (acquired_size t + bytes_of (take j rs))) \<and>
     live (ctq_ring q) = offsets_of ((a, t) # rs) \<and> wr (ctq_ring q) = a \<and>
     poped_to q = a + acquired_size t \<and> consumed_to q = poped_to q + bytes_of (take j rs) \<and>
     (\<forall>(b, u) \<in> set ((a, t) # rs). task_ok u \<and> holds (buffer (ctq_ring q)) b u) \<and>
     (\<forall>th w. ctq_writers q th = Some w \<longrightarrow> writer_ok (ctq_ring q) w))"

lemma consume_quiet:
  assumes "ring_inv (quiet r0 0)"
  shows "\<exists>n adr r. consume r0 = Inr (n, adr, r) \<and> ring_inv (quiet r (unat n)) \<and> live r = live r0 \<and>
    buffer r = buffer r0 \<and> workers r = workers r0 \<and> unat n = top_of r - wr r \<and>
    (live r \<noteq> [] \<longrightarrow> 0 < unat n) \<and> (0 < unat n \<longrightarrow> adr = Some (consumer_barrier r))"
proof (rule consume_spec [OF assms])
  fix n adr r
  assume c: "consume (rng (quiet r0 0)) = Inr (n, adr, r)" "ring_inv (quiet r0 0\<lparr>rng := r, granted := unat n\<rparr>)"
    "live r = live (rng (quiet r0 0))" "buffer r = buffer (rng (quiet r0 0))" "grants (quiet r0 0) r (unat n)"
    "0 < unat n \<longrightarrow> adr = Some (consumer_barrier r)" "workers r = workers (rng (quiet r0 0))"
  have "\<forall>i. pending (quiet r0 0) i = None" by simp
  then have "unat n = top_of r - wr r" and "live r \<noteq> [] \<longrightarrow> 0 < unat n"
    using c(5) unfolding grants_def by blast+
  with c show ?thesis by (intro exI [of _ n] exI [of _ adr] exI [of _ r]) simp
qed

lemma pop_taken:
  assumes q: "queue_regions q ((a, t) # rs)"
  shows "\<exists>q'. pop q = Inr (Some \<lparr>p_operation = a + operation_offset, p_stack_size = stack_size t,
           p_description = Some (descr t)\<rparr>, q') \<and> taken q' a t rs"
proof -
  note d = queue_regionsD [OF q]
  have t: "task_ok t" "holds (buffer (ctq_ring q)) a t" using d(4) by auto
  note rd = read_task_ok [OF t(2,1)] and pos = acquired_unat(2) [OF t(1)]
  have hd: "hd (live (ctq_ring q)) = a" "live (ctq_ring q) \<noteq> []"
    using pos unfolding d(3) offsets_of_Cons by simp_all
  show ?thesis
  proof (cases "poped_to q < consumed_to q")
    case True
    from d(5) [OF this] obtain j where j: "poped_to q = wr (ctq_ring q)" "j \<le> length ((a, t) # rs)"
      "consumed_to q - poped_to q = bytes_of (take j ((a, t) # rs))" by blast
    have "j \<noteq> 0" using j(3) True by (cases j) auto
    then obtain j' where j': "j = Suc j'" "j' \<le> length rs" using j(2) by (cases j) auto
    have "wr (ctq_ring q) < top_of (ctq_ring q)" using d(1) True unfolding ring_inv_def by auto
    then have a: "wr (ctq_ring q) = a" using hd(1) live_run [of "ctq_ring q"] by auto
    have g: "consumed_to q - poped_to q = acquired_size t + bytes_of (take j' rs)"
      using j(3) j'(1) by simp
    have "pop q = Inr (Some \<lparr>p_operation = a + operation_offset, p_stack_size = stack_size t,
           p_description = Some (descr t)\<rparr>, q\<lparr>poped_to := a + acquired_size t\<rparr>)"
      using True a j(1) rd(1) by (simp add: pop_def pop_at_def)
    moreover have "taken (q\<lparr>poped_to := a + acquired_size t\<rparr>) a t rs"
      using d(1,2,3,4) g a j(1) j'(2) True unfolding taken_def
      by (intro exI [of _ j']) auto
    ultimately show ?thesis by blast
  next
    case False
    then have "ring_inv (quiet (ctq_ring q) 0)" using d(1) by simp
    then obtain n adr r where c: "consume (ctq_ring q) = Inr (n, adr, r)" "ring_inv (quiet r (unat n))"
      "live r = live (ctq_ring q)" "buffer r = buffer (ctq_ring q)" "workers r = workers (ctq_ring q)"
      "unat n = top_of r - wr r" "live r \<noteq> [] \<longrightarrow> 0 < unat n"
      "0 < unat n \<longrightarrow> adr = Some (consumer_barrier r)"
      using consume_quiet by metis
    have n: "unat n = top_of r - wr r" "0 < unat n"
      using c(6,7) hd(2) c(3) by simp_all
    obtain m where m: "live r = [wr r..<top_of r] @ [0..<m]" using live_run by blast
    have a: "wr r = a" using hd(1) m c(3) n by simp
    have "offsets_of ((a, t) # rs) = [wr r..<top_of r] @ [0..<m]" using m c(3) d(3) by simp
    then obtain j where j: "j \<le> length ((a, t) # rs)" "bytes_of (take j ((a, t) # rs)) = unat n"
      using run_boundary [of "(a, t) # rs" "wr r" "top_of r" m] n d(4) acquired_unat(2) by fastforce
    have "j \<noteq> 0" using j(2) n by (cases j) auto
    then obtain j' where j': "j = Suc j'" "j' \<le> length rs" using j(1) by (cases j) auto
    let ?q = "q\<lparr>ctq_ring := r, poped_to := a + acquired_size t, consumed_to := a + unat n\<rparr>"
    have "n \<noteq> 0" using n(2) by auto
    then have "pop q = Inr (Some \<lparr>p_operation = a + operation_offset, p_stack_size = stack_size t,
           p_description = Some (descr t)\<rparr>, ?q)"
      using False c n a rd(1) by (simp add: pop_def reader_consume_def pop_at_def Let_def)
    moreover have "taken ?q a t rs"
      using c d(2,3,4) j j' a n unfolding taken_def writer_ok_def
      by (intro exI [of _ j']) auto
    ultimately show ?thesis by blast
  qed
qed

lemma pop_none:
  assumes q: "queue_regions q []"
  shows "\<exists>q'. pop q = Inr (None, q') \<and> queue_regions q' []"
proof -
  note d = queue_regionsD [OF q]
  have nb: "\<not> poped_to q < consumed_to q"
  proof
    assume b: "poped_to q < consumed_to q"
    from d(5) [OF b] have "consumed_to q - poped_to q = 0" by auto
    with b show False by simp
  qed
  then have inv: "ring_inv (quiet (ctq_ring q) 0)" using d(1) by simp
  obtain n adr r where c: "consume (ctq_ring q) = Inr (n, adr, r)" "ring_inv (quiet r (unat n))"
    "live r = live (ctq_ring q)" "buffer r = buffer (ctq_ring q)" "workers r = workers (ctq_ring q)"
    "unat n = top_of r - wr r"
    using consume_quiet [OF inv] by metis
  have "live r = []" using c(3) d(3) by (simp add: offsets_of_def)
  moreover obtain m where "live r = [wr r..<top_of r] @ [0..<m]" using live_run by blast
  ultimately have "top_of r \<le> wr r" by auto
  then have n: "unat n = 0" using c(6) by simp
  then have "n = 0" by (simp add: unat_eq_0)
  then have "pop q = Inr (None, q\<lparr>ctq_ring := r\<rparr>)" using nb c(1) by (simp add: pop_def reader_consume_def)
  moreover have "queue_regions (q\<lparr>ctq_ring := r\<rparr>) []"
    using c d(2,3) n nb unfolding writer_ok_def by (intro queue_regionsI) (auto simp: writer_ok_def)
  ultimately show ?thesis by blast
qed

lemma deallocate_taken:
  assumes k: "taken q a t rs"
  shows "\<exists>q'. deallocate (a + operation_offset) q = Inr q' \<and> queue_regions q' rs
    \<and> buffer (ctq_ring q') = buffer (ctq_ring q)"
proof -
  from k obtain j where j: "j \<le> length rs"
    "ring_inv (quiet (ctq_ring q) (acquired_size t + bytes_of (take j rs)))"
    "live (ctq_ring q) = offsets_of ((a, t) # rs)" "wr (ctq_ring q) = a"
    "poped_to q = a + acquired_size t" "consumed_to q = poped_to q + bytes_of (take j rs)"
    "\<forall>(b, u) \<in> set ((a, t) # rs). task_ok u \<and> holds (buffer (ctq_ring q)) b u"
    "\<forall>th w. ctq_writers q th = Some w \<longrightarrow> writer_ok (ctq_ring q) w"
    unfolding taken_def by blast
  have t: "task_ok t" "holds (buffer (ctq_ring q)) a t" using j(7) by auto
  let ?n = "of_nat (acquired_size t) :: u64"
  have n: "unat ?n = acquired_size t" by (rule acquired_unat(1) [OF t(1)])
  obtain r where r: "release ?n (ctq_ring q) = Inr r" "ring_inv (quiet r (bytes_of (take j rs)))"
    "live r = drop (acquired_size t) (live (ctq_ring q))" "buffer r = buffer (ctq_ring q)"
    using release_spec [OF j(2), of ?n] n by auto
  have rw: "workers r = workers (ctq_ring q)" and cb: "consumer_barrier r = (if consumer_barrier (ctq_ring q) + ?n
      = capacity (ctq_ring q) then 0 else consumer_barrier (ctq_ring q) + ?n)"
    using r(1) by (auto simp: release_def Let_def current_def split: if_splits)
  have wr: "wr r = a + acquired_size t" if "0 < bytes_of (take j rs)"
  proof -
    have c: "cap_of (ctq_ring q) < 2 ^ 32" "a + (acquired_size t + bytes_of (take j rs)) \<le> top_of (ctq_ring q)"
      "top_of (ctq_ring q) \<le> cap_of (ctq_ring q)"
      using j(2,4) by (auto simp: ring_inv_def ring_wf_def top_of_def)
    have s: "unat (consumer_barrier (ctq_ring q) + ?n) = a + acquired_size t"
      using c n j(4) by (subst unat_add_small) simp_all
    then have "consumer_barrier (ctq_ring q) + ?n \<noteq> capacity (ctq_ring q)" using c that by auto
    with cb s show ?thesis by simp
  qed
  have "deallocate (a + operation_offset) q = Inr (q\<lparr>ctq_ring := r\<rparr>)"
    using read_task_ok(2) [OF t(2,1)] r(1) by (simp add: deallocate_def reader_release_def Let_def)
  moreover have "queue_regions (q\<lparr>ctq_ring := r\<rparr>) rs"
    using r j wr rw by (intro queue_regionsI) (auto simp: offsets_of_Cons writer_ok_def)
  ultimately show ?thesis using r(4) by auto
qed

lemma pop_perform_ok:
  assumes q: "queue_regions q rs"
  shows "\<exists>q'. pop_perform q = Inr (head_option (map snd rs), q') \<and> queue_regions q' (tl rs)"
proof (cases rs)
  case Nil
  with pop_none [of q] q show ?thesis by (auto simp: pop_perform_def)
next
  case (Cons x rs')
  obtain a t where x: "x = (a, t)" by (cases x)
  obtain q1 where q1: "pop q = Inr (Some \<lparr>p_operation = a + operation_offset, p_stack_size = stack_size t,
           p_description = Some (descr t)\<rparr>, q1)" "taken q1 a t rs'"
    using pop_taken [of q a t rs'] q Cons x by blast
  obtain q2 where q2: "deallocate (a + operation_offset) q1 = Inr q2" "queue_regions q2 rs'"
    using deallocate_taken [OF q1(2)] by blast
  have t: "task_ok t" "holds (buffer (ctq_ring q1)) a t" using q1(2) by (auto simp: taken_def)
  have "peek (a + operation_offset) (op_len t) (buffer (ctq_ring q1)) = op_bytes t"
    using t(2) by (simp add: holds_def)
  then have "pop_perform q = Inr (Some t, q2)"
    using q1(1) q2(1) read_task_ok(3) [OF t(2,1)] by (simp add: pop_perform_def Let_def)
  with Cons x q2(2) show ?thesis by simp
qed

section \<open>The queue is a FIFO\<close>

definition ctq_enq :: "nat \<Rightarrow> task \<Rightarrow> ctq \<Rightarrow> ctq option" where
  "ctq_enq th t q = (case push 1 0 th t q of Some (Inr q') \<Rightarrow> Some q' | _ \<Rightarrow> None)"

definition ctq_deq :: "ctq \<Rightarrow> (task option \<times> ctq) option" where
  "ctq_deq q = (case pop_perform q of Inr x \<Rightarrow> Some x | Inl e \<Rightarrow> None)"

lemma push_loop_ok:
  assumes "queue_regions q rs" and "writer_ok (ctq_ring q) w" and "task_ok t"
    and "push_loop n k w t q = Some res"
  shows "\<exists>a q'. res = Inr q' \<and> queue_regions q' (rs @ [(a, t)])"
  using assms(4)
proof (induction n)
  case (Suc n)
  from push_round_ok [OF assms(1-3), of k] show ?case
  proof (elim disjE exE conjE)
    assume "push_round k w t q = Inr (False, q)"
    with Suc show ?thesis by simp
  next
    fix a q' assume "push_round k w t q = Inr (True, q')" "queue_regions q' (rs @ [(a, t)])"
    with Suc.prems show ?thesis by (intro exI [of _ a] exI [of _ q']) simp
  qed
qed simp

lemma push_ok:
  assumes "queue_rep q ts" and "task_ok t" and "push n k th t q = Some (Inr q')"
  shows "queue_rep q' (ts @ [t])"
proof -
  from assms(1) obtain rs where rs: "queue_regions q rs" "ts = map snd rs" by (auto simp: queue_rep_def)
  from assms(3) obtain w q1 where g: "get_writer th q = Inr (w, q1)" "push_loop n k w t q1 = Some (Inr q')"
    by (auto simp: push_def split: sum.splits)
  from push_loop_ok [OF get_writer_ok [OF rs(1) g(1)] assms(2) g(2)] rs(2) show ?thesis
    by (auto simp: queue_rep_def)
qed

interpretation task_fifo: fifo queue_rep task_ok "ctq_enq th" ctq_deq for th
proof
  show "queue_rep q' (ts @ [t])" if "queue_rep q ts" "task_ok t" "ctq_enq th t q = Some q'" for q ts t q'
    using push_ok [OF that(1,2), of 1 0 th q'] that(3) by (auto simp: ctq_enq_def split: option.splits sum.splits)
  show "\<exists>q'. ctq_deq q = Some (head_option ts, q') \<and> queue_rep q' (tl ts)" if "queue_rep q ts" for q ts
  proof -
    from that obtain rs where rs: "queue_regions q rs" "ts = map snd rs" by (auto simp: queue_rep_def)
    from pop_perform_ok [OF rs(1)] obtain q' where
      q': "pop_perform q = Inr (head_option (map snd rs), q')" "queue_regions q' (tl rs)" by blast
    then have "queue_rep q' (tl ts)" unfolding queue_rep_def rs(2) by (metis map_tl)
    with q'(1) rs(2) show ?thesis by (simp add: ctq_deq_def)
  qed
qed

lemma queue_rep_new: "0 < len \<Longrightarrow> unat len < 2 ^ 32 \<Longrightarrow> queue_rep (ctq_new len n) []"
  using ring_inv_start [of len n]
  by (auto simp: queue_rep_def queue_regions_def ctq_new_def ring_start_def live_def ring_new_def offsets_of_def)

lemma push_round_room:
  assumes "queue_regions q rs" and "writer_ok (ctq_ring q) w" and "task_ok t"
    and "acquired_size t \<le> cap_of (ctq_ring q)"
    and "place (cap_of (ctq_ring q)) (nx (ctq_ring q)) (wr (ctq_ring q)) (acquired_size t) \<noteq> None"
  shows "\<exists>q'. push_round k w t q = Inr (True, q')"
proof -
  from assms(2) obtain i where i: "i < length (workers (ctq_ring q))" "registered (workers (ctq_ring q) ! i)"
    "w = \<lparr>w_buffer = True, w_worker = Some i\<rparr>" by (auto simp: writer_ok_def)
  let ?s = "quiet (ctq_ring q) (consumed_to q - poped_to q)"
  obtain a r where "acquire k i (of_nat (acquired_size t)) (ctq_ring q) = Inr (Some a, r)"
    using acquire_returns [OF queue_regionsD(1) [OF assms(1)], of i k "of_nat (acquired_size t)"] i assms(4,5)
      acquired_unat(1) [OF assms(3)] by fastforce
  with push_round_ok [OF assms(1-3), of k] i(3) show ?thesis
    by (auto simp: push_round_def writer_acquire_def split: sum.splits)
qed

section \<open>Properties\<close>

text \<open>The queue is a first-in first-out queue of tasks. From a new queue, any sequence of
  pushes and of takes (pop, then perform, which deallocates) in which no push is refused gives
  each take the oldest task not taken yet, with its operation's bytes, stack size and
  description as pushed, and nothing when there is none.\<close>

theorem task_queue_fifo:
  assumes "0 < len" and "unat len < 2 ^ 32" and "all_enq task_ok ops"
    and "fifo_run (ctq_enq th) ctq_deq ops (ctq_new len n) = Some (outs, q)"
  shows "outs = fst (fifo_spec ops []) \<and> queue_rep q (snd (fifo_spec ops []))"
  using queue_rep_new [OF assms(1,2)] assms(3,4) by (rule task_fifo.run_refines)

text \<open>Claim C37: \<open>push\<close> and \<open>pop\<close> agree on the layout of a task whose operation is not empty, whose description contains no NUL
  and whose stack size and whole length in the ring are below \<open>2^32\<close> (\<open>task_ok\<close>; the sizes are stored in 32 bits and the description is
  read as a C string, so other tasks come back cut). What \<open>pop\<close> reads at the base of a region
  \<open>push\<close> wrote is the task, its length and the address of its operation; the stores of \<open>push\<close>
  stay inside the acquired region.\<close>

theorem task_layout_roundtrip:
  assumes "task_ok t" and "a + acquired_size t \<le> length buf"
  shows "read_task a (write_task a t buf) = (acquired_size t,
           \<lparr>p_operation = a + operation_offset, p_stack_size = stack_size t, p_description = Some (descr t)\<rparr>)
    \<and> peek (a + operation_offset) (op_len t) (write_task a t buf) = op_bytes t
    \<and> length (write_task a t buf) = length buf
    \<and> (\<forall>i < length buf. i < a \<or> a + acquired_size t \<le> i \<longrightarrow> write_task a t buf ! i = buf ! i)"
  using read_task_ok(1) [OF write_task_holds [OF assms] assms(1)] write_task_simps [OF assms]
    write_task_holds [OF assms, unfolded holds_def]
  by simp

text \<open>\<open>push\<close> returns at its first round whenever the ring can place the task, and keeps
  the queue.\<close>

theorem push_returns_when_room:
  assumes "queue_rep q ts" and "task_ok t" and "get_writer th q = Inr (w, q1)"
    and "acquired_size t \<le> cap_of (ctq_ring q1)"
    and "place (cap_of (ctq_ring q1)) (nx (ctq_ring q1)) (wr (ctq_ring q1)) (acquired_size t) \<noteq> None"
  shows "\<exists>q'. push (Suc m) k th t q = Some (Inr q') \<and> queue_rep q' (ts @ [t])"
proof -
  from assms(1) obtain rs where rs: "queue_regions q rs" by (auto simp: queue_rep_def)
  note g = get_writer_ok [OF rs assms(3)]
  obtain q' where "push_round k w t q1 = Inr (True, q')" using push_round_room [OF g assms(2,4,5)] by blast
  then have "push (Suc m) k th t q = Some (Inr q')" by (simp add: push_def assms(3))
  with push_ok [OF assms(1,2) this] show ?thesis by blast
qed

text \<open>A task larger than the ring makes \<open>push\<close> spin for ever: no number of rounds returns,
  and the queue never changes.\<close>

theorem push_oversize_never_returns:
  assumes "queue_rep q ts" and "task_ok t" and "get_writer th q = Inr (w, q1)"
    and "cap_of (ctq_ring q1) < acquired_size t"
  shows "push m k th t q = None"
proof -
  from assms(1) obtain rs where rs: "queue_regions q rs" by (auto simp: queue_rep_def)
  from get_writer_ok(2) [OF rs assms(3)] obtain i where "w = \<lparr>w_buffer = True, w_worker = Some i\<rparr>"
    by (auto simp: writer_ok_def)
  then have "push_round k w t q1 = Inr (False, q1)"
    using assms(4) acquired_unat(1) [OF assms(2)]
    by (simp add: push_round_def writer_acquire_def acquire_def word_less_nat_alt)
  then have "push_loop m k w t q1 = None" by (induction m) simp_all
  then show ?thesis by (simp add: push_def assms(3))
qed

text \<open>A task is delivered once only if it is performed before the batch is exhausted. When
  the only task of the queue is popped and not performed, the next \<open>pop\<close> returns the same
  task again.\<close>

theorem pop_repeats_unreleased:
  assumes "queue_rep q [t]" and "pop q = Inr (Some p, q1)"
  shows "queue_rep q1 [t] \<and> (\<exists>q2. pop q1 = Inr (Some p, q2))"
proof -
  from assms(1) obtain a where rs: "queue_regions q [(a, t)]" by (auto simp: queue_rep_def)
  let ?p = "\<lparr>p_operation = a + operation_offset, p_stack_size = stack_size t, p_description = Some (descr t)\<rparr>"
  from pop_taken [OF rs] assms(2) have k: "p = ?p" "taken q1 a t []" by auto
  then have "ring_inv (quiet (ctq_ring q1) 0)"
    unfolding taken_def ring_inv_def worker_ok_def by auto
  with k(2) have rs1: "queue_regions q1 [(a, t)]"
    by (intro queue_regionsI) (auto simp: taken_def)
  from pop_taken [OF rs1] k(1) rs1 show ?thesis by (auto simp: queue_rep_def)
qed

fun get_writers :: "nat list \<Rightarrow> ctq \<Rightarrow> ring_fail + ctq" where
  "get_writers [] q = Inr q"
| "get_writers (th # ths) q =
     (case get_writer th q of Inl e \<Rightarrow> Inl e | Inr (w, q') \<Rightarrow> get_writers ths q')"

lemma get_writers_seq:
  assumes "distinct ths" and "\<And>th. th \<in> set ths \<Longrightarrow> ctq_writers q th = None"
    and "writer_sequence q \<le> length (workers (ctq_ring q))"
  shows "get_writers ths q = Inl BadWorker \<or> (\<exists>q'. get_writers ths q = Inr q')"
    and "(\<exists>q'. get_writers ths q = Inr q') \<longleftrightarrow> writer_sequence q + length ths \<le> length (workers (ctq_ring q))"
proof -
  have "(get_writers ths q = Inl BadWorker \<or> (\<exists>q'. get_writers ths q = Inr q')) \<and>
    ((\<exists>q'. get_writers ths q = Inr q') \<longleftrightarrow> writer_sequence q + length ths \<le> length (workers (ctq_ring q)))"
    using assms
  proof (induction ths arbitrary: q)
    case (Cons th ths)
    then have n: "ctq_writers q th = None" by simp
    show ?case
    proof (cases "writer_sequence q < length (workers (ctq_ring q))")
      case True
      then obtain r where r: "register_worker (writer_sequence q) (ctq_ring q) = Inr r"
        by (simp add: register_worker_def)
      let ?q = "q\<lparr>ctq_ring := r, writer_sequence := writer_sequence q + 1,
        ctq_writers := (ctq_writers q)(th \<mapsto> \<lparr>w_buffer = True, w_worker = Some (writer_sequence q)\<rparr>)\<rparr>"
      have len: "length (workers r) = length (workers (ctq_ring q))" by (simp add: register_facts(1) [OF r])
      have step: "get_writers (th # ths) q = get_writers ths ?q"
        using n r by (simp add: get_writer_def writer_make_def)
      have "ctq_writers ?q th' = None" if "th' \<in> set ths" for th' using Cons.prems(1,2) that by auto
      with Cons.IH [of ?q] Cons.prems(1) True len show ?thesis unfolding step by auto
    next
      case False
      with n Cons.prems(3) show ?thesis by (simp add: get_writer_def writer_make_def register_worker_def)
    qed
  qed simp
  then show "get_writers ths q = Inl BadWorker \<or> (\<exists>q'. get_writers ths q = Inr q')"
    and "(\<exists>q'. get_writers ths q = Inr q') \<longleftrightarrow> writer_sequence q + length ths \<le> length (workers (ctq_ring q))"
    by blast+
qed

text \<open>The queue serves only as many threads as the ring has workers
  (\<open>hardware_concurrency()\<close>, which may be 0). The first push of one thread more indexes the
  workers out of range.\<close>

theorem writers_bounded_by_cores:
  assumes "distinct ths"
  shows "get_writers ths (ctq_new len n) = Inl BadWorker \<longleftrightarrow> unat n < length ths"
proof -
  have w: "length (workers (ctq_ring (ctq_new len n))) = unat n" "writer_sequence (ctq_new len n) = 0"
    "ctq_writers (ctq_new len n) th = None" for th by (simp_all add: ctq_new_def ring_new_def)
  show ?thesis
    using get_writers_seq [OF assms, of "ctq_new len n"] w by auto
qed

subsection \<open>Concrete runs\<close>

definition task32 :: task where
  "task32 = \<lparr>op_bytes = [7, 9], stack_size = 4096, descr = [104, 105]\<rparr>"

lemma task32_facts: "task_ok task32" "acquired_size task32 = 32"
proof -
  show "task_ok task32" by (simp add: task_ok_def task32_def)
  have r: "unat (round_up 2) = 8" "unat (round_up 3) = 8"
    using round_up_value [of 2] round_up_value [of 3] by simp_all
  show "acquired_size task32 = 32"
    by (simp add: acquired_size_def description_offset_def description_length_offset_def stack_size_offset_def
        operation_offset_def operation_length_offset_def task32_def r)
qed

lemma new_writer:
  obtains w q1 where "get_writer 0 (ctq_new cap 1) = Inr (w, q1)" "cap_of (ctq_ring q1) = unat cap"
    "nx (ctq_ring q1) = 0" "wr (ctq_ring q1) = 0"
proof -
  let ?r = "ring_new cap 1"
  have "0 < length (workers ?r)" by (simp add: ring_new_def)
  then obtain r where r: "register_worker 0 ?r = Inr r" by (simp add: register_worker_def)
  note f = register_facts(3-5) [OF r]
  have "get_writer 0 (ctq_new cap 1) = Inr (\<lparr>w_buffer = True, w_worker = Some 0\<rparr>,
      (ctq_new cap 1)\<lparr>ctq_ring := r, writer_sequence := 1,
        ctq_writers := [0 \<mapsto> \<lparr>w_buffer = True, w_worker = Some 0\<rparr>]\<rparr>)"
    using r by (simp add: get_writer_def writer_make_def ctq_new_def)
  from that [OF this] f show thesis by (simp add: ring_new_def)
qed

lemma push_task32: "\<exists>q. push (Suc m) k 0 task32 (ctq_new 128 1) = Some (Inr q) \<and> queue_rep q [task32]"
proof -
  obtain w q1 where g: "get_writer 0 (ctq_new 128 1) = Inr (w, q1)" "cap_of (ctq_ring q1) = unat (128::u64)"
    "nx (ctq_ring q1) = 0" "wr (ctq_ring q1) = 0" by (rule new_writer)
  have rep: "queue_rep (ctq_new 128 1) []" by (rule queue_rep_new) simp_all
  then obtain rs where rs: "queue_regions (ctq_new 128 1) rs" by (auto simp: queue_rep_def)
  obtain q' where "push_round k w task32 q1 = Inr (True, q')"
    using push_round_room [OF get_writer_ok [OF rs g(1)] task32_facts(1), of k] g(2-4) task32_facts(2)
    by (auto simp: place_def)
  then have "push (Suc m) k 0 task32 (ctq_new 128 1) = Some (Inr q')" by (simp add: push_def g(1))
  with push_ok [OF rep task32_facts(1) this] show ?thesis by auto
qed

theorem task_queue_fifo_witness:
  "\<exists>outs q. fifo_run (ctq_enq 0) ctq_deq [Enq task32, Deq, Deq] (ctq_new 128 1) = Some (outs, q)
     \<and> outs = [Some task32, None]"
proof -
  obtain q where q: "push 1 0 0 task32 (ctq_new 128 1) = Some (Inr q)" "queue_rep q [task32]"
    using push_task32 [of 0 0] by auto
  obtain outs q' where r: "fifo_run (ctq_enq 0) ctq_deq [Enq task32, Deq, Deq] (ctq_new 128 1) = Some (outs, q')"
  proof -
    obtain q2 where q2: "ctq_deq q = Some (head_option [task32], q2)" "queue_rep q2 (tl [task32])"
      using task_fifo.deq_rep [OF q(2)] by blast
    obtain q3 where "ctq_deq q2 = Some (head_option [], q3)"
      using task_fifo.deq_rep [of q2 "[]"] q2(2) by auto
    with q(1) q2(1) that show thesis by (simp add: ctq_enq_def)
  qed
  have "all_enq task_ok [Enq task32, Deq, Deq]" using task32_facts(1) by (simp add: all_enq_def)
  from task_queue_fifo [OF _ _ this r] r show ?thesis by auto
qed

theorem task_layout_roundtrip_witness:
  "fst (read_task 8 (write_task 8 task32 (replicate 40 1))) = 32"
  using task_layout_roundtrip [OF task32_facts(1), of 8 "replicate 40 1"] task32_facts(2) by simp

theorem push_returns_when_room_witness:
  "\<exists>q'. push 1 0 0 task32 (ctq_new 128 1) = Some (Inr q')"
proof -
  obtain w q1 where g: "get_writer 0 (ctq_new 128 1) = Inr (w, q1)" "cap_of (ctq_ring q1) = unat (128::u64)"
    "nx (ctq_ring q1) = 0" "wr (ctq_ring q1) = 0" by (rule new_writer)
  have "queue_rep (ctq_new 128 1) []" by (rule queue_rep_new) simp_all
  from push_returns_when_room [OF this task32_facts(1) g(1), of 0 0] g(2-4) task32_facts(2)
  show ?thesis by (auto simp: place_def)
qed

theorem push_oversize_never_returns_witness: "push 1000 0 0 task32 (ctq_new 16 1) = None"
proof -
  obtain w q1 where g: "get_writer 0 (ctq_new 16 1) = Inr (w, q1)" "cap_of (ctq_ring q1) = unat (16::u64)"
    by (rule new_writer)
  have "queue_rep (ctq_new 16 1) []" by (rule queue_rep_new) simp_all
  from push_oversize_never_returns [OF this task32_facts(1) g(1)] g(2) task32_facts(2)
  show ?thesis by simp
qed

theorem pop_repeats_unreleased_witness:
  "\<exists>q p q1 q2. queue_rep q [task32] \<and> pop q = Inr (Some p, q1) \<and> pop q1 = Inr (Some p, q2)"
proof -
  obtain q where q: "queue_rep q [task32]" using push_task32 [of 0 0] by auto
  then obtain a where "queue_regions q [(a, task32)]" by (auto simp: queue_rep_def)
  from pop_taken [OF this] obtain p q1 where "pop q = Inr (Some p, q1)" by blast
  with pop_repeats_unreleased [OF q this] q show ?thesis by blast
qed

theorem writers_bounded_by_cores_witness: "get_writers [0, 1, 2] (ctq_new 4096 2) = Inl BadWorker"
  using writers_bounded_by_cores [of "[0, 1, 2]" 4096 2] by simp

end
