(* ===== verification/TaskThreads.thy ===== *)
theory TaskThreads
  imports TaskQueue
begin

text \<open>
  The task queue under concurrency (core/detail/ContextTaskQueue.hpp and .cpp): any number of posting threads
  inside \<open>push\<close>, each at one of the stores of its task, and one consumer between \<open>pop\<close> and the
  deallocation of the task it took. Each store is a step, and each operation of the ring (\<open>acquire\<close>, \<open>produce\<close>,
  \<open>consume\<close> and \<open>release\<close> of theory MpscRing) is one step; the steps of different threads interleave freely. The
  interleavings inside a ring operation are those of theory RingThreads: without an ABA exchange they keep the ring's
  promises, and with one two regions can overlap (\<open>ring_aba_overlap\<close>), so that the results here do not hold for
  runs in which the exchange of an \<open>acquire\<close> succeeds on an offset that changed and came back. The writer of a thread is made in one step; the storage it
  comes from is the subject of theory ThreadStorage. The first section is about the bytes a push has stored so far,
  the second the threads, the third the invariant with one lemma per step, the last the properties.
\<close>

section \<open>The stores of push\<close>

definition task_stores :: "nat \<Rightarrow> task \<Rightarrow> (nat \<times> u8 list) list" where
  "task_stores base t =
     [(base, le32 (acquired_size t)),
      (base + operation_length_offset, le32 (op_len t)),
      (base + operation_offset, op_bytes t),
      (base + stack_size_offset (op_len t), le32 (stack_size t)),
      (base + description_length_offset (op_len t), le32 (descr_len t)),
      (base + description_offset (op_len t), descr t),
      (base + description_offset (op_len t) + descr_len t, [0])]"

definition store_all :: "(nat \<times> u8 list) list \<Rightarrow> u8 list \<Rightarrow> u8 list" where
  "store_all ws buf = fold (\<lambda>(off, bs). poke off bs) ws buf"

lemma store_task: "store_all (task_stores a t) buf = write_task a t buf"
  by (simp add: store_all_def task_stores_def write_task_def Let_def)

lemma store_all_snoc: "store_all (ws @ [(off, bs)]) buf = poke off bs (store_all ws buf)"
  by (simp add: store_all_def)

lemma length_task_stores [simp]: "length (task_stores a t) = 7"
  by (simp add: task_stores_def)

lemma stores_fit:
  assumes "task_ok t" "(off, bs) \<in> set (task_stores a t)"
  shows "a \<le> off \<and> off + length bs \<le> a + acquired_size t"
proof -
  obtain R D where "stack_size_offset (op_len t) = 8 + R" "description_length_offset (op_len t) = 12 + R"
    "description_offset (op_len t) = 16 + R" "acquired_size t = 16 + R + D" "op_len t \<le> R"
    "descr_len t + 1 \<le> D" "operation_length_offset = 4" "operation_offset = 8"
    using layout [OF assms(1)] by metis
  with assms(2) show ?thesis by (auto simp: task_stores_def)
qed

lemma store_all_length:
  assumes "\<And>off bs. (off, bs) \<in> set ws \<Longrightarrow> off + length bs \<le> length buf"
  shows "length (store_all ws buf) = length buf"
  using assms
proof (induction ws arbitrary: buf)
  case (Cons w ws)
  obtain off bs where w: "w = (off, bs)" by (cases w)
  then have "length (poke off bs buf) = length buf" using Cons.prems [of off bs] by simp
  moreover have "store_all (w # ws) buf = store_all ws (poke off bs buf)" by (simp add: store_all_def w)
  ultimately show ?case using Cons.IH [of "poke off bs buf"] Cons.prems by simp
qed (simp add: store_all_def)

text \<open>The first \<open>k\<close> stores of a task have been done, whatever was in its region before.\<close>

definition stores_done :: "nat \<Rightarrow> task \<Rightarrow> nat \<Rightarrow> u8 list \<Rightarrow> bool" where
  "stores_done a t k buf \<longleftrightarrow> a + acquired_size t \<le> length buf \<and>
     (\<exists>b0. length b0 = length buf \<and> agree a (a + acquired_size t) (store_all (take k (task_stores a t)) b0) buf)"

lemma stores_done_start: "a + acquired_size t \<le> length buf \<Longrightarrow> stores_done a t 0 buf"
  by (auto simp: stores_done_def store_all_def agree_def intro: exI [of _ buf])

lemma stores_done_agree:
  assumes "stores_done a t k buf" "agree a (a + acquired_size t) buf buf'"
  shows "stores_done a t k buf'"
  using assms unfolding stores_done_def agree_def by (metis)

lemma poke_agree:
  assumes "agree lo hi b c" "off + length bs \<le> length b"
  shows "agree lo hi (poke off bs b) (poke off bs c)"
  using assms by (auto simp: agree_def nth_poke)

lemma stores_done_store:
  assumes t: "task_ok t" and w: "stores_done a t k buf" and k: "k < 7" and s: "task_stores a t ! k = (off, bs)"
  shows "stores_done a t (Suc k) (poke off bs buf)"
proof -
  have m: "(off, bs) \<in> set (task_stores a t)" using k s by (metis length_task_stores nth_mem)
  from w obtain b0 where b0: "a + acquired_size t \<le> length buf" "length b0 = length buf"
    "agree a (a + acquired_size t) (store_all (take k (task_stores a t)) b0) buf" unfolding stores_done_def by blast
  have fit: "off + length bs \<le> length buf" using stores_fit [OF t m] b0(1) by simp
  have "agree a (a + acquired_size t) (poke off bs (store_all (take k (task_stores a t)) b0)) (poke off bs buf)"
    using b0(3) fit by (intro poke_agree) (auto simp: agree_def)
  moreover have "take (Suc k) (task_stores a t) = take k (task_stores a t) @ [(off, bs)]"
    using k s by (simp add: take_Suc_conv_app_nth)
  ultimately show ?thesis using b0(1,2) fit
    by (auto simp: stores_done_def store_all_snoc intro!: exI [of _ b0])
qed

lemma stores_done_holds:
  assumes "task_ok t" "stores_done a t 7 buf" shows "holds buf a t"
proof -
  from assms(2) obtain b0 where b0: "a + acquired_size t \<le> length buf" "length b0 = length buf"
    "agree a (a + acquired_size t) (write_task a t b0) buf"
    unfolding stores_done_def by (auto simp: store_task [symmetric])
  have "holds (write_task a t b0) a t" using write_task_holds [OF assms(1)] b0(1,2) by simp
  then show ?thesis using holds_agree assms(1) b0(3) by blast
qed

lemma store_elsewhere:
  assumes "off + length bs \<le> length buf" "{off..<off + length bs} \<inter> {lo..<hi} = {}"
  shows "agree lo hi buf (poke off bs buf)"
  using assms by (auto simp: agree_def nth_poke)

section \<open>Posting threads and one consumer\<close>

record tq_sys =
  tqq :: ctq
  posting :: "nat \<Rightarrow> (nat \<times> task \<times> nat) option"
  in_hand :: "popped option"
  claimed :: "task list"
  performed :: "task list"

definition tq_start :: "u64 \<Rightarrow> u32 \<Rightarrow> tq_sys" where
  "tq_start len n = \<lparr>tqq = ctq_new len n, posting = (\<lambda>_. None), in_hand = None, claimed = [], performed = []\<rparr>"

text \<open>What \<open>ContextOperation::doPerform\<close> finds and does: the operation's bytes are moved out, the region is
  given back.\<close>

definition perform_popped :: "popped \<Rightarrow> ctq \<Rightarrow> ring_fail + (task \<times> ctq)" where
  "perform_popped p q =
     (let buf = buffer (ctq_ring q);
          op_length = read32 (p_operation p - operation_offset + operation_length_offset) buf;
          t = \<lparr>op_bytes = peek (p_operation p) op_length buf, stack_size = p_stack_size p,
               descr = (case p_description p of None \<Rightarrow> [] | Some d \<Rightarrow> d)\<rparr>
      in case deallocate (p_operation p) q of Inl e \<Rightarrow> Inl e | Inr q' \<Rightarrow> Inr (t, q'))"

inductive tq_step :: "tq_sys \<Rightarrow> tq_sys \<Rightarrow> bool" where
  tq_writer: "posting s th = None \<Longrightarrow> get_writer th (tqq s) = Inr (w, q) \<Longrightarrow> tq_step s (s\<lparr>tqq := q\<rparr>)"
| tq_acquire: "posting s th = None \<Longrightarrow> ctq_writers (tqq s) th = Some w \<Longrightarrow> task_ok t \<Longrightarrow>
     writer_acquire k (of_nat (acquired_size t)) w (ctq_ring (tqq s)) = Inr (Some base, r) \<Longrightarrow>
     tq_step s (s\<lparr>tqq := (tqq s)\<lparr>ctq_ring := r\<rparr>, posting := (posting s)(th \<mapsto> (unat base, t, 0)),
                  claimed := claimed s @ [t]\<rparr>)"
| tq_refused: "posting s th = None \<Longrightarrow> ctq_writers (tqq s) th = Some w \<Longrightarrow>
     writer_acquire k (of_nat (acquired_size t)) w (ctq_ring (tqq s)) = Inr (None, r) \<Longrightarrow>
     tq_step s (s\<lparr>tqq := (tqq s)\<lparr>ctq_ring := r\<rparr>\<rparr>)"
| tq_store: "posting s th = Some (a, t, k) \<Longrightarrow> k < 7 \<Longrightarrow> task_stores a t ! k = (off, bs) \<Longrightarrow>
     tq_step s (s\<lparr>tqq := (tqq s)\<lparr>ctq_ring := (ctq_ring (tqq s))\<lparr>buffer := poke off bs (buffer (ctq_ring (tqq s)))\<rparr>\<rparr>,
                  posting := (posting s)(th \<mapsto> (a, t, Suc k))\<rparr>)"
| tq_produce: "posting s th = Some (a, t, 7) \<Longrightarrow> ctq_writers (tqq s) th = Some w \<Longrightarrow>
     writer_produce w (ctq_ring (tqq s)) = Inr r \<Longrightarrow>
     tq_step s (s\<lparr>tqq := (tqq s)\<lparr>ctq_ring := r\<rparr>, posting := (posting s)(th := None)\<rparr>)"
| tq_pop: "in_hand s = None \<Longrightarrow> pop (tqq s) = Inr (p, q) \<Longrightarrow> tq_step s (s\<lparr>tqq := q, in_hand := p\<rparr>)"
| tq_perform: "in_hand s = Some p \<Longrightarrow> perform_popped p (tqq s) = Inr (t, q) \<Longrightarrow>
     tq_step s (s\<lparr>tqq := q, in_hand := None, performed := performed s @ [t]\<rparr>)"

inductive_cases tq_step_cases: "tq_step s s'"

section \<open>The invariant\<close>

text \<open>\<open>P\<close> is the region of each worker between acquire and produce, as the ring's own invariant has it.
  The regions \<open>rs\<close> hold the tasks in the order of the acquires, oldest first.\<close>

abbreviation the_ring :: "tq_sys \<Rightarrow> ring" where "the_ring s \<equiv> ctq_ring (tqq s)"

definition writers_ok :: "(nat \<Rightarrow> (nat \<times> nat) option) \<Rightarrow> tq_sys \<Rightarrow> bool" where
  "writers_ok P s \<longleftrightarrow>
     (\<forall>th w. ctq_writers (tqq s) th = Some w \<longrightarrow> (\<exists>i < writer_sequence (tqq s). i < length (workers (the_ring s)) \<and>
        w = \<lparr>w_buffer = True, w_worker = Some i\<rparr> \<and> registered (workers (the_ring s) ! i) \<and>
        P i = map_option (\<lambda>(a, t, k). (a, acquired_size t)) (posting s th) \<and>
        (\<forall>th'. ctq_writers (tqq s) th' = Some w \<longrightarrow> th' = th))) \<and>
     (\<forall>th. posting s th \<noteq> None \<longrightarrow> ctq_writers (tqq s) th \<noteq> None) \<and>
     (\<forall>i p. P i = Some p \<longrightarrow> (\<exists>th. ctq_writers (tqq s) th = Some \<lparr>w_buffer = True, w_worker = Some i\<rparr>))"

definition regions_ok :: "region list \<Rightarrow> tq_sys \<Rightarrow> bool" where
  "regions_ok rs s \<longleftrightarrow> live (the_ring s) = offsets_of rs \<and>
     (\<forall>(a, t) \<in> set rs. task_ok t \<and> (holds (buffer (the_ring s)) a t \<or> (\<exists>th k. posting s th = Some (a, t, k)))) \<and>
     (\<forall>th a t k. posting s th = Some (a, t, k) \<longrightarrow> (a, t) \<in> set rs \<and> k \<le> 7 \<and> stores_done a t k (buffer (the_ring s))) \<and>
     (\<forall>th th' a t k t' k'. posting s th = Some (a, t, k) \<longrightarrow> posting s th' = Some (a, t', k') \<longrightarrow> th' = th)"

definition popped_of :: "nat \<Rightarrow> task \<Rightarrow> popped" where
  "popped_of a t = \<lparr>p_operation = a + operation_offset, p_stack_size = stack_size t, p_description = Some (descr t)\<rparr>"

text \<open>The consumer has \<open>g\<close> bytes of whole tasks left of its last batch, the one in hand included.\<close>

definition batch_ok :: "region list \<Rightarrow> nat \<Rightarrow> tq_sys \<Rightarrow> bool" where
  "batch_ok rs g s \<longleftrightarrow>
     (case in_hand s of
        None \<Rightarrow> g = consumed_to (tqq s) - poped_to (tqq s) \<and>
          (poped_to (tqq s) < consumed_to (tqq s) \<longrightarrow> poped_to (tqq s) = wr (the_ring s) \<and> (\<exists>j \<le> length rs. g = bytes_of (take j rs)))
      | Some p \<Rightarrow> (\<exists>a t rs' j. rs = (a, t) # rs' \<and> p = popped_of a t \<and> holds (buffer (the_ring s)) a t \<and> wr (the_ring s) = a \<and>
          j \<le> length rs' \<and> poped_to (tqq s) = a + acquired_size t \<and>
          consumed_to (tqq s) = poped_to (tqq s) + bytes_of (take j rs') \<and> g = acquired_size t + bytes_of (take j rs')))"

definition tq_inv :: "(nat \<Rightarrow> (nat \<times> nat) option) \<Rightarrow> region list \<Rightarrow> nat \<Rightarrow> tq_sys \<Rightarrow> bool" where
  "tq_inv P rs g s \<longleftrightarrow> ring_inv \<lparr>rng = the_ring s, pending = P, granted = g\<rparr> \<and> writers_ok P s \<and> regions_ok rs s \<and>
     batch_ok rs g s \<and> claimed s = performed s @ map snd rs"

lemma tq_start_inv:
  assumes "0 < len" "unat len < 2 ^ 32"
  shows "tq_inv (\<lambda>_. None) [] 0 (tq_start len n)"
  using ring_inv_start [OF assms, of n]
  by (simp add: tq_inv_def tq_start_def writers_ok_def regions_ok_def batch_ok_def ctq_new_def ring_start_def
      offsets_of_def live_def ring_new_def)

section \<open>Every step keeps the invariant\<close>

lemma tq_invD:
  assumes "tq_inv P rs g s"
  shows "ring_inv \<lparr>rng = the_ring s, pending = P, granted = g\<rparr>" "writers_ok P s" "regions_ok rs s" "batch_ok rs g s"
    "claimed s = performed s @ map snd rs"
  using assms by (simp_all add: tq_inv_def)

lemma writers_okD:
  assumes "writers_ok P s" "ctq_writers (tqq s) th = Some w"
  obtains i where "i < writer_sequence (tqq s)" "i < length (workers (the_ring s))" "w = \<lparr>w_buffer = True, w_worker = Some i\<rparr>"
    "registered (workers (the_ring s) ! i)" "P i = map_option (\<lambda>(a, t, k). (a, acquired_size t)) (posting s th)"
    "\<And>th'. ctq_writers (tqq s) th' = Some w \<Longrightarrow> th' = th"
  using assms unfolding writers_ok_def by blast

text \<open>A thread inside \<open>push\<close> has the region of its worker.\<close>

lemma posting_pending:
  assumes "writers_ok P s" "posting s th = Some (a, t, k)"
  obtains i where "ctq_writers (tqq s) th = Some \<lparr>w_buffer = True, w_worker = Some i\<rparr>" "P i = Some (a, acquired_size t)"
proof -
  from assms obtain w where w: "ctq_writers (tqq s) th = Some w" unfolding writers_ok_def by fastforce
  obtain i where "w = \<lparr>w_buffer = True, w_worker = Some i\<rparr>"
    "P i = map_option (\<lambda>(a, t, k). (a, acquired_size t)) (posting s th)" by (rule writers_okD [OF assms(1) w])
  with w assms(2) show thesis by (intro that [of i]) simp_all
qed

lemma pending_posting:
  assumes "writers_ok P s" "P i = Some (a, l)"
  obtains th t k where "posting s th = Some (a, t, k)" "l = acquired_size t"
proof -
  from assms obtain th where w: "ctq_writers (tqq s) th = Some \<lparr>w_buffer = True, w_worker = Some i\<rparr>"
    unfolding writers_ok_def by blast
  obtain i' where "i' = i" "P i' = map_option (\<lambda>(a, t, k). (a, acquired_size t)) (posting s th)"
    by (rule writers_okD [OF assms(1) w]) simp
  with assms(2) that show thesis by (cases "posting s th") auto
qed

lemma regions_okD:
  assumes "regions_ok rs s"
  shows "live (the_ring s) = offsets_of rs" "\<And>a t. (a, t) \<in> set rs \<Longrightarrow> task_ok t"
    "\<And>a t. (a, t) \<in> set rs \<Longrightarrow> holds (buffer (the_ring s)) a t \<or> (\<exists>th k. posting s th = Some (a, t, k))"
    "\<And>th a t k. posting s th = Some (a, t, k) \<Longrightarrow> (a, t) \<in> set rs \<and> k \<le> 7 \<and> stores_done a t k (buffer (the_ring s))"
    "\<And>th th' a t k t' k'. posting s th = Some (a, t, k) \<Longrightarrow> posting s th' = Some (a, t', k') \<Longrightarrow> th' = th"
  using assms unfolding regions_ok_def by blast+

lemma regions_okI:
  assumes "live (the_ring s) = offsets_of rs" "\<And>a t. (a, t) \<in> set rs \<Longrightarrow> task_ok t"
    "\<And>a t. (a, t) \<in> set rs \<Longrightarrow> holds (buffer (the_ring s)) a t \<or> (\<exists>th k. posting s th = Some (a, t, k))"
    "\<And>th a t k. posting s th = Some (a, t, k) \<Longrightarrow> (a, t) \<in> set rs \<and> k \<le> 7 \<and> stores_done a t k (buffer (the_ring s))"
    "\<And>th th' a t k t' k'. posting s th = Some (a, t, k) \<Longrightarrow> posting s th' = Some (a, t', k') \<Longrightarrow> th' = th"
  shows "regions_ok rs s"
  unfolding regions_ok_def using assms by blast

text \<open>Bytes granted to the consumer belong to whole, finished tasks.\<close>

lemma granted_head:
  assumes "ring_inv \<lparr>rng = r, pending = P, granted = g\<rparr>" "0 < g" "live r = offsets_of ((a, t) # rs)" "0 < acquired_size t"
  shows "wr r = a" "P i \<noteq> Some (a, l)"
proof -
  have "wr r < top_of r" using assms(1,2) unfolding ring_inv_def by auto
  then have "hd (live r) = wr r" using live_run [of r] by auto
  then show w: "wr r = a" using assms(3,4) by (simp add: offsets_of_Cons)
  show "P i \<noteq> Some (a, l)"
    using ring_inv_pending(3) [OF assms(1), of i a l] assms(2) w by (auto simp: region_ok_def)
qed

lemma region_positions:
  assumes "(a, t) \<in> set rs" "\<And>a t. (a, t) \<in> set rs \<Longrightarrow> 0 < acquired_size t"
  shows "\<exists>j \<le> length rs. bytes_of (take j rs) < length (offsets_of rs) \<and> offsets_of rs ! bytes_of (take j rs) = a"
  using assms
proof (induction rs)
  case (Cons x rs)
  obtain b u where x: "x = (b, u)" by (cases x)
  show ?case
  proof (cases "(a, t) = x")
    case True
    then show ?thesis using Cons.prems(2) [of a t]
      by (intro exI [of _ 0]) (auto simp: offsets_of_Cons nth_append simp del: upt_Suc)
  next
    case False
    then obtain j where "j \<le> length rs" "bytes_of (take j rs) < length (offsets_of rs)"
      "offsets_of rs ! bytes_of (take j rs) = a" using Cons by auto
    then show ?thesis by (intro exI [of _ "Suc j"]) (simp add: x offsets_of_Cons nth_append)
  qed
qed simp

lemma batch_boundary:
  assumes r: "ring_wf r" and live: "live r = offsets_of rs" and pos: "\<And>a t. (a, t) \<in> set rs \<Longrightarrow> 0 < acquired_size t"
    and n: "wr r + n \<le> top_of r" "n = top_of r - wr r \<or> (\<exists>a t. (a, t) \<in> set rs \<and> a = wr r + n)"
  shows "\<exists>j \<le> length rs. n = bytes_of (take j rs)"
proof -
  obtain m where m: "live r = [wr r..<top_of r] @ [0..<m]" using live_run by blast
  show ?thesis
  proof (cases "n = top_of r - wr r")
    case True
    then show ?thesis using run_boundary [of rs "wr r" "top_of r" m] m live n(1) pos by (metis le_add1 le_trans)
  next
    case False
    then obtain a t where at: "(a, t) \<in> set rs" "a = wr r + n" using n(2) by blast
    have "\<exists>j \<le> length rs. bytes_of (take j rs) < length (offsets_of rs) \<and> offsets_of rs ! bytes_of (take j rs) = a"
      by (rule region_positions [OF at(1)]) (rule pos)
    then obtain j where j: "j \<le> length rs" "bytes_of (take j rs) < length (live r)" "live r ! bytes_of (take j rs) = a"
      unfolding live by blast
    have "n < top_of r - wr r" using False n(1) by simp
    then have "n < length (live r)" "live r ! n = a" using m at(2) by (auto simp: nth_append)
    then have "bytes_of (take j rs) = n" using live_distinct [OF r] j(2,3) nth_eq_iff_index_eq by metis
    with j(1) show ?thesis by blast
  qed
qed

lemma holds_congD: "holds buf a t \<Longrightarrow> a + acquired_size t \<le> length buf"
  by (simp add: holds_def)

text \<open>A step of one thread inside \<open>push\<close> moves only its own worker.\<close>

lemma writers_ok_frame:
  assumes ok: "writers_ok P s" and q: "ctq_writers (tqq s') = ctq_writers (tqq s)" "writer_sequence (tqq s') = writer_sequence (tqq s)"
      "length (workers (the_ring s')) = length (workers (the_ring s))"
    and reg: "\<And>j. j < length (workers (the_ring s)) \<Longrightarrow> registered (workers (the_ring s) ! j) \<Longrightarrow> registered (workers (the_ring s') ! j)"
    and w: "ctq_writers (tqq s) th = Some \<lparr>w_buffer = True, w_worker = Some i\<rparr>"
    and P: "posting s' = (posting s)(th := x)" "P' = P(i := map_option (\<lambda>(a, t, k). (a, acquired_size t)) x)"
  shows "writers_ok P' s'"
  unfolding writers_ok_def
proof (intro conjI allI impI)
  fix u w' assume "ctq_writers (tqq s') u = Some w'"
  then have u: "ctq_writers (tqq s) u = Some w'" using q by simp
  obtain j where j: "j < writer_sequence (tqq s)" "j < length (workers (the_ring s))" "w' = \<lparr>w_buffer = True, w_worker = Some j\<rparr>"
    "registered (workers (the_ring s) ! j)" "P j = map_option (\<lambda>(a, t, k). (a, acquired_size t)) (posting s u)"
    "\<And>th'. ctq_writers (tqq s) th' = Some w' \<Longrightarrow> th' = u" using writers_okD [OF ok u] by blast
  have "P' j = map_option (\<lambda>(a, t, k). (a, acquired_size t)) (posting s' u)"
  proof (cases "u = th")
    case True
    then have "j = i" using u w j(3) by simp
    then show ?thesis using True P by simp
  next
    case False
    then have "j \<noteq> i" using j(3,6) w by blast
    then show ?thesis using False P j(5) by simp
  qed
  moreover have "\<forall>th'. ctq_writers (tqq s') th' = Some w' \<longrightarrow> th' = u" using j(6) q(1) by simp
  ultimately show "\<exists>j < writer_sequence (tqq s'). j < length (workers (the_ring s')) \<and> w' = \<lparr>w_buffer = True, w_worker = Some j\<rparr> \<and>
      registered (workers (the_ring s') ! j) \<and> P' j = map_option (\<lambda>(a, t, k). (a, acquired_size t)) (posting s' u) \<and>
      (\<forall>th'. ctq_writers (tqq s') th' = Some w' \<longrightarrow> th' = u)"
    using j(1-4) q(2,3) reg by metis
next
  fix u assume "posting s' u \<noteq> None"
  then show "ctq_writers (tqq s') u \<noteq> None"
    using ok q(1) w P(1) unfolding writers_ok_def by (cases "u = th") auto
next
  fix j p assume "P' j = Some p"
  then show "\<exists>u. ctq_writers (tqq s') u = Some \<lparr>w_buffer = True, w_worker = Some j\<rparr>"
    using ok q(1) w P(2) unfolding writers_ok_def by (cases "j = i") auto
qed

lemma writers_ok_same:
  assumes "writers_ok P s" "ctq_writers (tqq s') = ctq_writers (tqq s)" "writer_sequence (tqq s') = writer_sequence (tqq s)"
    "workers (the_ring s') = workers (the_ring s)" "posting s' = posting s"
  shows "writers_ok P s'"
  using assms by (simp add: writers_ok_def)

text \<open>What the consumer has in hand depends on its own fields and on the oldest region only.\<close>

lemma batch_ok_frame:
  assumes b: "batch_ok rs g s"
    and "in_hand s' = in_hand s" "consumed_to (tqq s') = consumed_to (tqq s)" "poped_to (tqq s') = poped_to (tqq s)"
      "wr (the_ring s') = wr (the_ring s)"
    and h: "\<And>a t rs'. rs = (a, t) # rs' \<Longrightarrow> holds (buffer (the_ring s)) a t \<Longrightarrow> in_hand s \<noteq> None \<Longrightarrow>
      holds (buffer (the_ring s')) a t"
  shows "batch_ok (rs @ ys) g s'"
proof (cases "in_hand s")
  case None
  have "\<exists>j \<le> length (rs @ ys). n = bytes_of (take j (rs @ ys))" if "j \<le> length rs" "n = bytes_of (take j rs)" for j n
    using that by (intro exI [of _ j]) simp
  then show ?thesis using b None assms(2-5) unfolding batch_ok_def by (auto simp del: take_append)
next
  case (Some p)
  with b obtain a t rs' j where k: "rs = (a, t) # rs'" "p = popped_of a t" "holds (buffer (the_ring s)) a t"
    "wr (the_ring s) = a" "j \<le> length rs'" "poped_to (tqq s) = a + acquired_size t"
    "consumed_to (tqq s) = poped_to (tqq s) + bytes_of (take j rs')" "g = acquired_size t + bytes_of (take j rs')"
    unfolding batch_ok_def by auto
  have "holds (buffer (the_ring s')) a t" using h [OF k(1,3)] Some by simp
  then show ?thesis using k Some assms(2-5) unfolding batch_ok_def
    by (auto intro!: exI [of _ j])
qed

lemma step_writer:
  assumes inv: "tq_inv P rs g s" and g: "get_writer th (tqq s) = Inr (w, q)" and p: "posting s th = None"
  shows "tq_inv P rs g (s\<lparr>tqq := q\<rparr>)"
proof (cases "ctq_writers (tqq s) th")
  case (Some w')
  with g have "q = tqq s" by (simp add: get_writer_def)
  with inv show ?thesis by simp
next
  case None
  note d = tq_invD [OF inv]
  let ?i = "writer_sequence (tqq s)"
  from None g obtain r where r: "register_worker ?i (the_ring s) = Inr r"
    and w: "w = \<lparr>w_buffer = True, w_worker = Some ?i\<rparr>"
    and q: "q = (tqq s)\<lparr>ctq_ring := r, writer_sequence := ?i + 1, ctq_writers := (ctq_writers (tqq s))(th \<mapsto> w)\<rparr>"
    by (auto simp: get_writer_def writer_make_def split: sum.splits)
  note f = register_facts [OF r]
  have fresh: "ctq_writers (tqq s) u \<noteq> Some w" for u
    using d(2) w unfolding writers_ok_def by fastforce
  then have Pi: "P ?i = None" using d(2) w unfolding writers_ok_def by (metis option.exhaust)
  have "ring_inv \<lparr>rng = r, pending = P(?i := None), granted = g\<rparr>"
    using set_seen_inv [OF d(1), of r ?i True MAX_OFFSET] r by (auto simp: register_worker_def split: if_splits)
  then have "ring_inv \<lparr>rng = r, pending = P, granted = g\<rparr>" using Pi by (simp add: fun_upd_idem)
  moreover have "writers_ok P (s\<lparr>tqq := q\<rparr>)"
    unfolding writers_ok_def
  proof (intro conjI allI impI)
    fix u w' assume u: "ctq_writers (tqq (s\<lparr>tqq := q\<rparr>)) u = Some w'"
    show "\<exists>i < writer_sequence (tqq (s\<lparr>tqq := q\<rparr>)). i < length (workers (the_ring (s\<lparr>tqq := q\<rparr>))) \<and>
        w' = \<lparr>w_buffer = True, w_worker = Some i\<rparr> \<and> registered (workers (the_ring (s\<lparr>tqq := q\<rparr>)) ! i) \<and>
        P i = map_option (\<lambda>(a, t, k). (a, acquired_size t)) (posting (s\<lparr>tqq := q\<rparr>) u) \<and>
        (\<forall>th'. ctq_writers (tqq (s\<lparr>tqq := q\<rparr>)) th' = Some w' \<longrightarrow> th' = u)"
    proof (cases "u = th")
      case True
      then show ?thesis using u q w f(1,2) Pi p fresh by (intro exI [of _ ?i]) auto
    next
      case False
      then have u': "ctq_writers (tqq s) u = Some w'" using u q by simp
      then have "w' \<noteq> w" using fresh by auto
      with u' show ?thesis
        by (elim writers_okD [OF d(2)]) (use False q f(1,2) in \<open>auto intro!: exI\<close>)
    qed
  next
    fix j x assume "P j = Some x"
    then obtain u where u: "ctq_writers (tqq s) u = Some \<lparr>w_buffer = True, w_worker = Some j\<rparr>"
      using d(2) unfolding writers_ok_def by blast
    then have "u \<noteq> th" using None by auto
    with u show "\<exists>u. ctq_writers (tqq (s\<lparr>tqq := q\<rparr>)) u = Some \<lparr>w_buffer = True, w_worker = Some j\<rparr>"
      using q by (intro exI [of _ u]) simp
  qed (use d(2) q p in \<open>auto simp: writers_ok_def\<close>)
  moreover have "regions_ok rs (s\<lparr>tqq := q\<rparr>)"
    using d(3) q f ring_view_cong(3) [of r "the_ring s"] by (simp add: regions_ok_def)
  moreover have "batch_ok rs g (s\<lparr>tqq := q\<rparr>)"
    using batch_ok_frame [OF d(4), of "s\<lparr>tqq := q\<rparr>" "[]"] q f by simp
  ultimately show ?thesis using d(5) by (simp add: tq_inv_def q)
qed

text \<open>A region of the queue and the bytes outside of it.\<close>

lemma region_bounds:
  assumes "ring_wf (the_ring s)" "regions_ok rs s" "(a, t) \<in> set rs"
  shows "a + acquired_size t \<le> length (buffer (the_ring s))" "{a..<a + acquired_size t} \<subseteq> set (live (the_ring s))"
proof -
  show sub: "{a..<a + acquired_size t} \<subseteq> set (live (the_ring s))"
    using assms(3) regions_okD(1) [OF assms(2)] by (force simp: offsets_of_def)
  have "0 < acquired_size t" using acquired_unat(2) regions_okD(2) [OF assms(2,3)] by simp
  then have "a + acquired_size t - 1 \<in> set (live (the_ring s))" using sub by auto
  from live_in_buffer [OF assms(1) this] show "a + acquired_size t \<le> length (buffer (the_ring s))" by simp
qed

lemma offsets_apart:
  "distinct (offsets_of rs) \<Longrightarrow> (a, t) \<in> set rs \<Longrightarrow> (b, u) \<in> set rs \<Longrightarrow> (a, t) \<noteq> (b, u) \<Longrightarrow>
   {a..<a + acquired_size t} \<inter> {b..<b + acquired_size u} = {}"
proof (induction rs)
  case (Cons x rs)
  have sub: "{c..<c + acquired_size v} \<subseteq> set (offsets_of rs)" if "(c, v) \<in> set rs" for c v
    using that by (force simp: offsets_of_def)
  obtain c v where x: "x = (c, v)" by (cases x)
  have apart: "{c..<c + acquired_size v} \<inter> set (offsets_of rs) = {}" "distinct (offsets_of rs)"
    using Cons.prems(1) by (auto simp: x offsets_of_Cons)
  consider "(a, t) = x" "(b, u) \<in> set rs" | "(b, u) = x" "(a, t) \<in> set rs" | "(a, t) \<in> set rs" "(b, u) \<in> set rs"
    using Cons.prems(2-4) by auto
  then show ?case
  proof cases
    case 1
    with sub [of b u] apart(1) x show ?thesis by blast
  next
    case 2
    with sub [of a t] apart(1) x show ?thesis by blast
  next
    case 3
    with Cons.IH apart(2) Cons.prems(4) show ?thesis by blast
  qed
qed simp

lemma step_refused:
  assumes inv: "tq_inv P rs g s" and p: "posting s th = None" and w: "ctq_writers (tqq s) th = Some w"
    and a: "writer_acquire k len w (the_ring s) = Inr (None, r)"
  shows "r = the_ring s"
proof -
  note d = tq_invD [OF inv]
  obtain i where i: "i < length (workers (the_ring s))" "w = \<lparr>w_buffer = True, w_worker = Some i\<rparr>"
    "registered (workers (the_ring s) ! i)" "P i = None"
    by (rule writers_okD [OF d(2) w]) (use p in auto)
  obtain a' r' where "acquire k i len (the_ring s) = Inr (a', r')" "a' = None \<longrightarrow> r' = the_ring s"
    using acquire_returns [OF d(1), of i k len] i by auto
  with a i(2) show ?thesis by (simp add: writer_acquire_def)
qed

lemma regions_ok_add:
  assumes ok: "regions_ok rs s" and lv: "live (the_ring s') = offsets_of (rs @ [(a, t)])" and t: "task_ok t"
    and b: "buffer (the_ring s') = buffer (the_ring s)" "a + acquired_size t \<le> length (buffer (the_ring s))"
    and p: "posting s th = None" "posting s' = (posting s)(th \<mapsto> (a, t, 0))" and new: "\<And>u. (a, u) \<notin> set rs"
  shows "regions_ok (rs @ [(a, t)]) s'"
proof -
  note rg = regions_okD [OF ok]
  have "task_ok u \<and> (holds (buffer (the_ring s')) c u \<or> (\<exists>th k. posting s' th = Some (c, u, k)))"
    if "(c, u) \<in> set (rs @ [(a, t)])" for c u
  proof (cases "(c, u) \<in> set rs")
    case True
    from rg(3) [OF True] have "holds (buffer (the_ring s')) c u \<or> (\<exists>th k. posting s' th = Some (c, u, k))"
    proof
      assume "\<exists>th k. posting s th = Some (c, u, k)"
      then obtain v k where v: "posting s v = Some (c, u, k)" by blast
      then have "v \<noteq> th" using p(1) by auto
      then have "posting s' v = Some (c, u, k)" using v p(2) by simp
      then show ?thesis by blast
    qed (simp add: b)
    then show ?thesis using rg(2) [OF True] by simp
  next
    case False
    then have "c = a" "u = t" using that by auto
    then show ?thesis using t p(2) by auto
  qed
  moreover have "(c, u) \<in> set (rs @ [(a, t)]) \<and> k \<le> 7 \<and> stores_done c u k (buffer (the_ring s'))"
    if "posting s' v = Some (c, u, k)" for v c u k
  proof (cases "v = th")
    case True
    then show ?thesis using that p(2) b stores_done_start by simp
  next
    case False
    then have "posting s v = Some (c, u, k)" using that p(2) by simp
    from rg(4) [OF this] show ?thesis using b(1) by simp
  qed
  moreover have "v' = v" if "posting s' v = Some (c, u, k)" "posting s' v' = Some (c, u', k')" for v v' c u u' k k'
  proof (cases "v = th"; cases "v' = th")
    assume "v = th" "v' \<noteq> th"
    then show ?thesis using that p(2) new rg(4) [of v' c u' k'] by simp
  next
    assume "v \<noteq> th" "v' = th"
    then show ?thesis using that p(2) new rg(4) [of v c u k] by simp
  next
    assume "v \<noteq> th" "v' \<noteq> th"
    then show ?thesis using that p(2) rg(5) [of v c u k v' u' k'] by simp
  qed simp
  ultimately show ?thesis using lv unfolding regions_ok_def by blast
qed

lemma step_acquire:
  assumes inv: "tq_inv P rs g s" and p: "posting s th = None" and w: "ctq_writers (tqq s) th = Some w" and t: "task_ok t"
    and a: "writer_acquire k (of_nat (acquired_size t)) w (the_ring s) = Inr (Some base, r)"
  shows "\<exists>P. tq_inv P (rs @ [(unat base, t)]) g (s\<lparr>tqq := (tqq s)\<lparr>ctq_ring := r\<rparr>,
      posting := (posting s)(th \<mapsto> (unat base, t, 0)), claimed := claimed s @ [t]\<rparr>)"
proof -
  note d = tq_invD [OF inv] and len = acquired_unat [OF t] and rg = regions_okD [OF tq_invD(3) [OF inv]]
  let ?r = "the_ring s" and ?len = "of_nat (acquired_size t) :: u64"
  obtain i where i: "i < length (workers ?r)" "w = \<lparr>w_buffer = True, w_worker = Some i\<rparr>"
    "registered (workers ?r ! i)" "P i = None"
    by (rule writers_okD [OF d(2) w]) (use p in auto)
  have acq: "acquire k i ?len ?r = Inr (Some base, r)" using a i(2) by (simp add: writer_acquire_def)
  obtain n' wrap where pl: "place (cap_of ?r) (nx ?r) (wr ?r) (acquired_size t) = Some (unat base, n', wrap)"
    "r = after_place (unat base) n' wrap i ?r" "acquired_size t \<le> cap_of ?r"
    using acquire_some [OF d(1), of i k ?len base r] i acq len(1) by auto
  let ?P = "P(i \<mapsto> (unat base, acquired_size t))"
  let ?s = "s\<lparr>tqq := (tqq s)\<lparr>ctq_ring := r\<rparr>, posting := (posting s)(th \<mapsto> (unat base, t, 0)), claimed := claimed s @ [t]\<rparr>"
  have wf: "ring_wf ?r" using d(1) by (simp add: ring_inv_def)
  then have c: "nx ?r < cap_of ?r" "wr ?r < cap_of ?r" "length (buffer ?r) = cap_of ?r" by (simp_all add: ring_wf_def)
  have fit: "unat base + acquired_size t \<le> length (buffer ?r)"
    using place_bounds(2) [OF pl(1) c(1) pl(3) c(2)] c(3) by simp
  have lv: "live r = offsets_of (rs @ [(unat base, t)])"
    using place_live(1) [OF wf pl(1,3) len(2), of i] pl(2) rg(1) by (simp add: offsets_of_snoc)
  have rf: "buffer r = buffer ?r" "wr r = wr ?r" "length (workers r) = length (workers ?r)" by (simp_all add: pl(2))
  have dist: "distinct (offsets_of (rs @ [(unat base, t)]))"
    using live_distinct [OF place_wf [OF wf pl(1,3), of i]] lv pl(2) by simp
  have new: "(unat base, u) \<notin> set rs" for u
  proof
    assume m: "(unat base, u) \<in> set rs"
    then have "{unat base..<unat base + acquired_size u} \<subseteq> set (offsets_of rs)" by (force simp: offsets_of_def)
    moreover have "0 < acquired_size u" using rg(2) [OF m] by (rule acquired_unat(2))
    ultimately have "unat base \<in> set (offsets_of rs)" by auto
    moreover have "unat base \<in> {unat base..<unat base + acquired_size t}" using len(2) by simp
    ultimately show False using dist unfolding offsets_of_snoc by auto
  qed
  have reg: "registered (workers r ! j)" if "j < length (workers ?r)" "registered (workers ?r ! j)" for j
    using that by (cases "j = i") (simp_all add: pl(2) set_seen_def)
  have "ring_inv \<lparr>rng = r, pending = ?P, granted = g\<rparr>"
    using ring_inv_acquire [OF d(1), of i ?len "unat base" n' wrap] i pl len by simp
  moreover have "writers_ok ?P ?s"
    by (rule writers_ok_frame [OF d(2), of ?s th i "Some (unat base, t, 0)"]) (use w i(2) rf reg in simp_all)
  moreover have "regions_ok (rs @ [(unat base, t)]) ?s"
    by (rule regions_ok_add [OF d(3), of ?s _ t th]) (use lv t rf fit p new in simp_all)
  moreover have "batch_ok (rs @ [(unat base, t)]) g ?s"
    by (rule batch_ok_frame [OF d(4)]) (use rf in simp_all)
  ultimately show ?thesis using d(5) by (auto simp: tq_inv_def)
qed

lemma store_apart:
  assumes "ring_wf (the_ring s)" "regions_ok rs s" "(a, t) \<in> set rs" "(off, bs) \<in> set (task_stores a t)"
    "(b, u) \<in> set rs" "(b, u) \<noteq> (a, t)"
  shows "agree b (b + acquired_size u) (buffer (the_ring s)) (poke off bs (buffer (the_ring s)))"
proof (rule store_elsewhere)
  note rg = regions_okD [OF assms(2)] and f = stores_fit [OF regions_okD(2) [OF assms(2,3)] assms(4)]
  show "off + length bs \<le> length (buffer (the_ring s))" using f region_bounds(1) [OF assms(1-3)] by simp
  have "{b..<b + acquired_size u} \<inter> {a..<a + acquired_size t} = {}"
    by (rule offsets_apart [OF _ assms(5,3,6)]) (use live_distinct [OF assms(1)] rg(1) in simp)
  moreover have "{off..<off + length bs} \<subseteq> {a..<a + acquired_size t}" using f by auto
  ultimately show "{off..<off + length bs} \<inter> {b..<b + acquired_size u} = {}" by blast
qed

lemma regions_ok_store:
  assumes wf: "ring_wf (the_ring s)" and ok: "regions_ok rs s" and p: "posting s th = Some (a, t, k)" and k: "k < 7"
    and st: "task_stores a t ! k = (off, bs)"
    and b: "buffer (the_ring s') = poke off bs (buffer (the_ring s))" and lv: "live (the_ring s') = live (the_ring s)"
    and p': "posting s' = (posting s)(th \<mapsto> (a, t, Suc k))"
  shows "regions_ok rs s'"
proof -
  note rg = regions_okD [OF ok] and own = regions_okD(4) [OF ok p]
  have m: "(off, bs) \<in> set (task_stores a t)" using k st by (metis length_task_stores nth_mem)
  have at: "(a, t) \<in> set rs" using own by simp
  note ag = store_apart [OF wf ok at m]
  have h: "task_ok u \<and> (holds (buffer (the_ring s')) c u \<or> (\<exists>v k. posting s' v = Some (c, u, k)))" if cu: "(c, u) \<in> set rs" for c u
  proof (cases "(c, u) = (a, t)")
    case True
    then show ?thesis using rg(2) [OF cu] p' by auto
  next
    case False
    from rg(3) [OF cu] have "holds (buffer (the_ring s')) c u \<or> (\<exists>v k. posting s' v = Some (c, u, k))"
    proof
      assume "holds (buffer (the_ring s)) c u"
      then have "holds (poke off bs (buffer (the_ring s))) c u" using rg(2) [OF cu] ag [OF cu False] by (rule holds_agree)
      then show ?thesis using b by simp
    next
      assume "\<exists>v k. posting s v = Some (c, u, k)"
      then obtain v k' where v: "posting s v = Some (c, u, k')" by blast
      then have "v \<noteq> th" using p False by auto
      then have "posting s' v = Some (c, u, k')" using v p' by simp
      then show ?thesis by blast
    qed
    then show ?thesis using rg(2) [OF cu] by simp
  qed
  have d: "(c, u) \<in> set rs \<and> n \<le> 7 \<and> stores_done c u n (buffer (the_ring s'))" if "posting s' v = Some (c, u, n)" for v c u n
  proof (cases "v = th")
    case True
    then have e: "c = a" "u = t" "n = Suc k" using that p' by auto
    have "stores_done a t (Suc k) (poke off bs (buffer (the_ring s)))"
      by (rule stores_done_store [OF rg(2) [OF at] _ k st]) (use own in simp)
    then show ?thesis using e at k b by simp
  next
    case False
    then have v: "posting s v = Some (c, u, n)" using that p' by simp
    note o = rg(4) [OF v]
    have "c \<noteq> a" using rg(5) [OF p] v False by blast
    then have "agree c (c + acquired_size u) (buffer (the_ring s)) (poke off bs (buffer (the_ring s)))"
      using ag o by blast
    then show ?thesis using o b stores_done_agree by metis
  qed
  have e: "v' = v" if "posting s' v = Some (c, u, n)" "posting s' v' = Some (c, u', n')" for v v' c u u' n n'
  proof -
    have "\<exists>w m. posting s v = Some (c, w, m)" "\<exists>w m. posting s v' = Some (c, w, m)"
      using that p p' by (auto split: if_splits)
    then show ?thesis using rg(5) by blast
  qed
  show ?thesis unfolding regions_ok_def using h d e lv rg(1) by auto
qed

lemma ring_inv_buffer:
  assumes "ring_inv \<lparr>rng = r, pending = P, granted = g\<rparr>" "length b = length (buffer r)"
  shows "ring_inv \<lparr>rng = r\<lparr>buffer := b\<rparr>, pending = P, granted = g\<rparr>"
  using assms ring_view_cong [of "r\<lparr>buffer := b\<rparr>" r] by (simp add: ring_inv_def)

lemma step_store:
  assumes inv: "tq_inv P rs g s" and p: "posting s th = Some (a, t, k)" and k: "k < 7"
    and st: "task_stores a t ! k = (off, bs)"
  shows "tq_inv P rs g (s\<lparr>tqq := (tqq s)\<lparr>ctq_ring := (the_ring s)\<lparr>buffer := poke off bs (buffer (the_ring s))\<rparr>\<rparr>,
      posting := (posting s)(th \<mapsto> (a, t, Suc k))\<rparr>)" (is "tq_inv _ _ _ ?s")
proof -
  note d = tq_invD [OF inv]
  have wf: "ring_wf (the_ring s)" using d(1) by (simp add: ring_inv_def)
  have m: "(off, bs) \<in> set (task_stores a t)" using k st by (metis length_task_stores nth_mem)
  have at: "(a, t) \<in> set rs" using regions_okD(4) [OF d(3) p] by simp
  have t: "task_ok t" by (rule regions_okD(2) [OF d(3) at])
  have fit: "off + length bs \<le> length (buffer (the_ring s))"
    using stores_fit [OF t m] region_bounds(1) [OF wf d(3) at] by simp
  obtain i where i: "ctq_writers (tqq s) th = Some \<lparr>w_buffer = True, w_worker = Some i\<rparr>" "P i = Some (a, acquired_size t)"
    by (rule posting_pending [OF d(2) p])
  have P: "P = P(i := map_option (\<lambda>(a, t, k). (a, acquired_size t)) (Some (a, t, Suc k)))"
    using i(2) by (simp add: fun_upd_idem)
  have "ring_inv \<lparr>rng = the_ring ?s, pending = P, granted = g\<rparr>"
    using ring_inv_buffer [OF d(1)] fit by simp
  moreover have "writers_ok P ?s"
    by (rule writers_ok_frame [OF d(2), of ?s th i "Some (a, t, Suc k)"]) (use i(1) P in simp_all)
  moreover have "regions_ok rs ?s"
    by (rule regions_ok_store [OF wf d(3) p k st])
      (use ring_view_cong(3) [of "the_ring ?s" "the_ring s"] fit in simp_all)
  moreover have "batch_ok (rs @ []) g ?s"
  proof (rule batch_ok_frame [OF d(4)])
    fix b u rs' assume h: "rs = (b, u) # rs'" "holds (buffer (the_ring s)) b u" "in_hand s \<noteq> None"
    have u: "task_ok u" by (rule regions_okD(2) [OF d(3), of b]) (simp add: h(1))
    have "0 < g" using d(4) h(1,3) acquired_unat(2) [OF u] unfolding batch_ok_def by (auto split: option.splits)
    then have "P i \<noteq> Some (b, acquired_size t)"
      using granted_head(2) [OF d(1)] regions_okD(1) [OF d(3)] h(1) acquired_unat(2) [OF u] by blast
    then have "(b, u) \<noteq> (a, t)" using i(2) by auto
    then have "agree b (b + acquired_size u) (buffer (the_ring s)) (poke off bs (buffer (the_ring s)))"
      using store_apart [OF wf d(3) at m] h(1) by simp
    then show "holds (buffer (the_ring ?s)) b u" using holds_agree [OF h(2) u] by simp
  qed simp_all
  ultimately show ?thesis using d(5) by (simp add: tq_inv_def)
qed

lemma step_produce:
  assumes inv: "tq_inv P rs g s" and p: "posting s th = Some (a, t, 7)" and w: "ctq_writers (tqq s) th = Some w"
  shows "\<exists>r P. writer_produce w (the_ring s) = Inr r \<and>
    tq_inv P rs g (s\<lparr>tqq := (tqq s)\<lparr>ctq_ring := r\<rparr>, posting := (posting s)(th := None)\<rparr>)"
proof -
  note d = tq_invD [OF inv] and rg = regions_okD [OF tq_invD(3) [OF inv]]
  obtain i where i: "ctq_writers (tqq s) th = Some \<lparr>w_buffer = True, w_worker = Some i\<rparr>" "P i = Some (a, acquired_size t)"
    by (rule posting_pending [OF d(2) p])
  have il: "i < length (workers (the_ring s))" and reg: "registered (workers (the_ring s) ! i)"
    using ring_inv_pending(2,5) [OF d(1), of i a "acquired_size t"] i(2) by simp_all
  have "unat (seen (workers (the_ring s) ! i)) < cap_of (the_ring s) \<and> cap_of (the_ring s) < 2 ^ 32"
    using ring_inv_pending(3,4) [OF d(1), of i a "acquired_size t"] i(2) d(1) region_small(2) [of "the_ring s" g a "acquired_size t"]
    by (auto simp: seen_ok_def ring_inv_def ring_wf_def)
  then have "seen (workers (the_ring s) ! i) \<noteq> MAX_OFFSET" using unat_max by fastforce
  then have pr: "writer_produce w (the_ring s) = Inr (set_seen i MAX_OFFSET (the_ring s))"
  proof -
    have "w = \<lparr>w_buffer = True, w_worker = Some i\<rparr>" using w i(1) by simp
    with \<open>seen _ \<noteq> _\<close> reg show ?thesis by (simp add: writer_produce_def produce_def)
  qed
  let ?r = "set_seen i MAX_OFFSET (the_ring s)" and ?P = "P(i := None)"
  let ?s = "s\<lparr>tqq := (tqq s)\<lparr>ctq_ring := ?r\<rparr>, posting := (posting s)(th := None)\<rparr>"
  have "(workers (the_ring s) ! i)\<lparr>seen := MAX_OFFSET, registered := True\<rparr> = (workers (the_ring s) ! i)\<lparr>seen := MAX_OFFSET\<rparr>"
    using reg by (cases "workers (the_ring s) ! i") simp
  then have r: "?r = set_registered i True ?r" using il by (simp add: set_registered_def set_seen_def)
  have "ring_inv \<lparr>rng = ?r, pending = ?P, granted = g\<rparr>"
    using set_seen_inv [OF d(1), of ?r i True MAX_OFFSET] r by simp
  moreover have "writers_ok ?P ?s"
  proof (rule writers_ok_frame [OF d(2), of ?s th i None])
    fix j assume "j < length (workers (the_ring s))" "registered (workers (the_ring s) ! j)"
    then show "registered (workers (the_ring ?s) ! j)" by (cases "j = i") (simp_all add: set_seen_def)
  qed (use i(1) in \<open>simp_all add: set_seen_def\<close>)
  moreover have "regions_ok rs ?s"
  proof -
    have b: "buffer (the_ring ?s) = buffer (the_ring s)" "live (the_ring ?s) = live (the_ring s)"
      using ring_view_cong(3) [of ?r "the_ring s"] by (simp_all add: set_seen_def)
    have own: "holds (buffer (the_ring s)) a t" using rg(4) [OF p] rg(2) stores_done_holds by blast
    have "holds (buffer (the_ring s)) c u \<or> (\<exists>v k. posting ?s v = Some (c, u, k))" if cu: "(c, u) \<in> set rs" for c u
      using rg(3) [OF cu]
    proof
      assume "\<exists>v k. posting s v = Some (c, u, k)"
      then obtain v k where v: "posting s v = Some (c, u, k)" by blast
      show ?thesis
      proof (cases "v = th")
        case True
        then show ?thesis using v p own by simp
      next
        case False
        then have "posting ?s v = Some (c, u, k)" using v by simp
        then show ?thesis by blast
      qed
    qed simp
    moreover have sub: "posting s v = Some x" if "posting ?s v = Some x" for v x
      using that by (auto split: if_splits)
    moreover have "(c, u) \<in> set rs \<and> k \<le> 7 \<and> stores_done c u k (buffer (the_ring s))"
      if "posting ?s v = Some (c, u, k)" for v c u k by (rule rg(4) [OF sub [OF that]])
    moreover have "v' = v" if "posting ?s v = Some (c, u, k)" "posting ?s v' = Some (c, u', k')" for v v' c u u' k k'
      by (rule rg(5) [OF sub [OF that(1)] sub [OF that(2)]])
    ultimately show ?thesis unfolding regions_ok_def b using rg(1,2) by blast
  qed
  moreover have "batch_ok (rs @ []) g ?s"
    by (rule batch_ok_frame [OF d(4)]) (simp_all add: set_seen_def)
  ultimately show ?thesis using pr d(5) by (auto simp: tq_inv_def)
qed

text \<open>Granted bytes that end at a region's end start with a finished task.\<close>

lemma granted_task:
  assumes inv: "ring_inv \<lparr>rng = the_ring s, pending = P, granted = g\<rparr>" and w: "writers_ok P s" and r: "regions_ok rs s"
    and g: "0 < g" "g = bytes_of (take j rs)" "j \<le> length rs"
  obtains a t rs' j' where "rs = (a, t) # rs'" "wr (the_ring s) = a" "task_ok t" "holds (buffer (the_ring s)) a t"
    "j' \<le> length rs'" "g = acquired_size t + bytes_of (take j' rs')"
proof -
  note rg = regions_okD [OF r]
  obtain j' where j: "j = Suc j'" using g(1,2) by (cases j) auto
  then obtain a t rs' where rs: "rs = (a, t) # rs'" using g(3) by (cases rs) auto
  have at: "(a, t) \<in> set rs" by (simp add: rs)
  note t = rg(2) [OF at]
  note hd = granted_head [OF inv g(1) _ acquired_unat(2) [OF t], of a rs']
  have lv: "live (the_ring s) = offsets_of ((a, t) # rs')" using rg(1) rs by simp
  have "\<not> (\<exists>th k. posting s th = Some (a, t, k))"
  proof
    assume "\<exists>th k. posting s th = Some (a, t, k)"
    then obtain th k where "posting s th = Some (a, t, k)" by blast
    then obtain i where "P i = Some (a, acquired_size t)" by (rule posting_pending [OF w])
    then show False using hd(2) [OF lv] by blast
  qed
  then have "holds (buffer (the_ring s)) a t" using rg(3) [OF at] by blast
  then show thesis using that [OF rs hd(1) [OF lv] t, of j'] g(2,3) j rs by simp
qed

text \<open>Taking the next task out of bytes already granted.\<close>

lemma pop_at_inv:
  assumes inv: "ring_inv \<lparr>rng = the_ring s, pending = P, granted = g\<rparr>" and w: "writers_ok P s" and r: "regions_ok rs s"
    and g: "0 < g" "g = bytes_of (take j rs)" "j \<le> length rs" and c: "claimed s = performed s @ map snd rs"
    and b: "poped_to (tqq s) = wr (the_ring s)" "consumed_to (tqq s) = wr (the_ring s) + g"
  shows "\<exists>p q. pop_at (wr (the_ring s)) (tqq s) = (p, q) \<and> tq_inv P rs g (s\<lparr>tqq := q, in_hand := Some p\<rparr>)"
proof -
  obtain a t rs' j' where k: "rs = (a, t) # rs'" "wr (the_ring s) = a" "task_ok t" "holds (buffer (the_ring s)) a t"
    "j' \<le> length rs'" "g = acquired_size t + bytes_of (take j' rs')"
    by (rule granted_task [OF inv w r g])
  let ?q = "(tqq s)\<lparr>poped_to := a + acquired_size t\<rparr>" and ?p = "popped_of a t"
  have "pop_at (wr (the_ring s)) (tqq s) = (?p, ?q)"
    using read_task_ok(1) [OF k(4,3)] k(2) by (simp add: pop_at_def popped_of_def)
  moreover have "writers_ok P (s\<lparr>tqq := ?q, in_hand := Some ?p\<rparr>)" by (rule writers_ok_same [OF w]) simp_all
  moreover have "regions_ok rs (s\<lparr>tqq := ?q, in_hand := Some ?p\<rparr>)" using r by (simp add: regions_ok_def)
  moreover have "batch_ok rs g (s\<lparr>tqq := ?q, in_hand := Some ?p\<rparr>)"
    using k b by (auto simp: batch_ok_def intro!: exI [of _ j'])
  ultimately show ?thesis using inv c by (auto simp: tq_inv_def)
qed

lemma step_pop:
  assumes inv: "tq_inv P rs g s" and h: "in_hand s = None"
  shows "\<exists>p q g'. pop (tqq s) = Inr (p, q) \<and> tq_inv P rs g' (s\<lparr>tqq := q, in_hand := p\<rparr>) \<and>
    ((\<forall>th. posting s th = None) \<and> rs \<noteq> [] \<longrightarrow> p \<noteq> None)"
proof (cases "poped_to (tqq s) < consumed_to (tqq s)")
  case True
  note d = tq_invD [OF inv]
  have b: "g = consumed_to (tqq s) - poped_to (tqq s)" "poped_to (tqq s) = wr (the_ring s)"
    using d(4) h True by (simp_all add: batch_ok_def)
  obtain j where j: "j \<le> length rs" "g = bytes_of (take j rs)" using d(4) h True by (auto simp: batch_ok_def)
  have "0 < g" "consumed_to (tqq s) = wr (the_ring s) + g" using b True by simp_all
  then obtain p q where "pop_at (wr (the_ring s)) (tqq s) = (p, q)" "tq_inv P rs g (s\<lparr>tqq := q, in_hand := Some p\<rparr>)"
    using pop_at_inv [OF d(1-3) _ j(2,1) d(5) b(2)] by blast
  then show ?thesis using True b(2) by (intro exI [of _ "Some p"] exI [of _ q] exI [of _ g]) (simp add: pop_def)
next
  case False
  note d = tq_invD [OF inv] and rg = regions_okD [OF tq_invD(3) [OF inv]]
  have g: "g = 0" using d(4) h False by (simp add: batch_ok_def)
  obtain n adr r where c: "consume (the_ring s) = Inr (n, adr, r)" "ring_inv \<lparr>rng = r, pending = P, granted = unat n\<rparr>"
    "live r = live (the_ring s)" "buffer r = buffer (the_ring s)" "grants \<lparr>rng = the_ring s, pending = P, granted = g\<rparr> r (unat n)"
    "0 < unat n \<longrightarrow> adr = Some (consumer_barrier r)" "workers r = workers (the_ring s)"
    by (rule consume_spec [OF d(1)]) simp
  let ?s = "s\<lparr>tqq := (tqq s)\<lparr>ctq_ring := r\<rparr>\<rparr>"
  have wok: "writers_ok P ?s" by (rule writers_ok_same [OF d(2)]) (simp_all add: c(7))
  have rok: "regions_ok rs ?s" using d(3) c(3,4) by (simp add: regions_ok_def)
  have wf: "ring_wf r" using c(2) by (simp add: ring_inv_def)
  have quiet: "0 < unat n" if q: "\<forall>th. posting s th = None" and ne: "rs \<noteq> []"
  proof -
    have "P i = None" for i
    proof (cases "P i")
      case (Some x)
      then obtain a l where "P i = Some (a, l)" by (cases x) auto
      then obtain th t k where "posting s th = Some (a, t, k)" by (rule pending_posting [OF d(2)])
      then show ?thesis using q by simp
    qed simp
    moreover obtain a t rs' where rs: "rs = (a, t) # rs'" using ne by (cases rs) auto
    have "task_ok t" by (rule rg(2) [of a]) (simp add: rs)
    then have "live r \<noteq> []" using acquired_unat(2) [of t] c(3) rg(1) rs by (simp add: offsets_of_Cons)
    ultimately show ?thesis using c(5) unfolding grants_def by simp
  qed
  show ?thesis
  proof (cases "n = 0")
    case True
    have "batch_ok rs 0 (?s\<lparr>in_hand := None\<rparr>)" using False by (simp add: batch_ok_def)
    then have "tq_inv P rs 0 (?s\<lparr>in_hand := None\<rparr>)"
      using c(2) wok rok d(5) True by (simp add: tq_inv_def writers_ok_def regions_ok_def)
    moreover have "pop (tqq s) = Inr (None, (tqq s)\<lparr>ctq_ring := r\<rparr>)"
      using False True c(1) by (simp add: pop_def reader_consume_def)
    moreover have "\<not> ((\<forall>th. posting s th = None) \<and> rs \<noteq> [])"
    proof
      assume "(\<forall>th. posting s th = None) \<and> rs \<noteq> []"
      then have "0 < unat n" using quiet by blast
      then show False using True by simp
    qed
    ultimately show ?thesis by (intro exI [of _ None] exI [of _ "(tqq s)\<lparr>ctq_ring := r\<rparr>"] exI [of _ 0]) simp
  next
    case nz: False
    then have n: "0 < unat n" by (simp add: unat_gt_0)
    have "\<exists>j \<le> length rs. unat n = bytes_of (take j rs)"
    proof (rule batch_boundary [OF wf])
      show "live r = offsets_of rs" using c(3) rg(1) by simp
      show "0 < acquired_size t" if "(a, t) \<in> set rs" for a t using rg(2) [OF that] by (rule acquired_unat(2))
      show "wr r + unat n \<le> top_of r" using c(5) by (simp add: grants_def)
      show "unat n = top_of r - wr r \<or> (\<exists>a t. (a, t) \<in> set rs \<and> a = wr r + unat n)"
      proof -
        have "unat n = top_of r - wr r \<or> (\<exists>i a l. P i = Some (a, l) \<and> a = wr r + unat n)"
          using c(5) by (simp add: grants_def)
        then show ?thesis using pending_posting [OF d(2)] rg(4) by metis
      qed
    qed
    then obtain j where j: "j \<le> length rs" "unat n = bytes_of (take j rs)" by blast
    let ?t = "?s\<lparr>tqq := (tqq ?s)\<lparr>poped_to := wr r, consumed_to := wr r + unat n\<rparr>\<rparr>"
    have "\<exists>p q. pop_at (wr (the_ring ?t)) (tqq ?t) = (p, q) \<and> tq_inv P rs (unat n) (?t\<lparr>tqq := q, in_hand := Some p\<rparr>)"
    proof (rule pop_at_inv [OF _ _ _ n j(2,1)])
      show "ring_inv \<lparr>rng = the_ring ?t, pending = P, granted = unat n\<rparr>" using c(2) by simp
      show "writers_ok P ?t" by (rule writers_ok_same [OF wok]) simp_all
      show "regions_ok rs ?t" using rok by (simp add: regions_ok_def)
    qed (use d(5) in simp_all)
    then obtain p q where pq: "pop_at (wr r) (tqq ?t) = (p, q)" "tq_inv P rs (unat n) (s\<lparr>tqq := q, in_hand := Some p\<rparr>)" by auto
    have "pop (tqq s) = Inr (Some p, q)"
      using False nz c(1,6) n pq(1) by (simp add: pop_def reader_consume_def Let_def)
    then show ?thesis using pq(2) by blast
  qed
qed

lemma release_moves:
  assumes inv: "ring_inv \<lparr>rng = r0, pending = P, granted = g\<rparr>" and r: "release n r0 = Inr r"
  shows "workers r = workers r0" and "unat n < g \<Longrightarrow> wr r = wr r0 + unat n"
proof -
  have c: "workers r = workers r0" "consumer_barrier r = (if consumer_barrier r0 + n = capacity r0 then 0 else consumer_barrier r0 + n)"
    using r by (auto simp: release_def Let_def current_def split: if_splits)
  show "workers r = workers r0" by (rule c(1))
  assume n: "unat n < g"
  have b: "cap_of r0 < 2 ^ 32" "wr r0 + g \<le> top_of r0" "top_of r0 \<le> cap_of r0"
    using inv by (auto simp: ring_inv_def ring_wf_def top_of_def)
  have s: "unat (consumer_barrier r0 + n) = wr r0 + unat n" using b n by (subst unat_add_small) simp_all
  then have "consumer_barrier r0 + n \<noteq> capacity r0" using b n by auto
  then show "wr r = wr r0 + unat n" using c(2) s by simp
qed

lemma step_perform:
  assumes inv: "tq_inv P rs g s" and h: "in_hand s = Some p"
  shows "\<exists>a t rs' q g'. rs = (a, t) # rs' \<and> perform_popped p (tqq s) = Inr (t, q) \<and>
    tq_inv P rs' g' (s\<lparr>tqq := q, in_hand := None, performed := performed s @ [t]\<rparr>)"
proof -
  note d = tq_invD [OF inv] and rg = regions_okD [OF tq_invD(3) [OF inv]]
  obtain a t rs' j where k: "rs = (a, t) # rs'" "p = popped_of a t" "holds (buffer (the_ring s)) a t" "wr (the_ring s) = a"
    "j \<le> length rs'" "poped_to (tqq s) = a + acquired_size t" "consumed_to (tqq s) = poped_to (tqq s) + bytes_of (take j rs')"
    "g = acquired_size t + bytes_of (take j rs')"
    using d(4) h unfolding batch_ok_def by auto
  have t: "task_ok t" by (rule rg(2) [of a]) (simp add: k(1))
  let ?n = "of_nat (acquired_size t) :: u64"
  have n: "unat ?n = acquired_size t" "0 < acquired_size t" using acquired_unat [OF t] by simp_all
  obtain r where r: "release ?n (the_ring s) = Inr r" "ring_inv \<lparr>rng = r, pending = P, granted = bytes_of (take j rs')\<rparr>"
    "live r = drop (acquired_size t) (live (the_ring s))" "buffer r = buffer (the_ring s)"
    using release_spec [OF d(1), of ?n] n k(8) by auto
  note m = release_moves [OF d(1) r(1)]
  let ?q = "(tqq s)\<lparr>ctq_ring := r\<rparr>"
  let ?s = "s\<lparr>tqq := ?q, in_hand := None, performed := performed s @ [t]\<rparr>"
  have "peek (a + operation_offset) (op_len t) (buffer (the_ring s)) = op_bytes t" using k(3) by (simp add: holds_def)
  then have "perform_popped p (tqq s) = Inr (t, ?q)"
    using k(2) read_task_ok(2,3) [OF k(3) t] r(1)
    by (simp add: perform_popped_def popped_of_def deallocate_def reader_release_def Let_def)
  moreover have "tq_inv P rs' (bytes_of (take j rs')) ?s"
  proof -
    have "writers_ok P ?s" by (rule writers_ok_same [OF d(2)]) (simp_all add: m(1))
    moreover have "regions_ok rs' ?s"
    proof -
      have no: "posting s th \<noteq> Some (a, t, i)" for th i
      proof
        assume "posting s th = Some (a, t, i)"
        then obtain i where "P i = Some (a, acquired_size t)" by (rule posting_pending [OF d(2)])
        moreover have "0 < g" using k(8) n(2) by simp
        ultimately show False using granted_head(2) [OF d(1) _ _ n(2), of a rs' i "acquired_size t"] rg(1) k(1) by simp
      qed
      show ?thesis
      proof (rule regions_okI)
        show "live (the_ring ?s) = offsets_of rs'" using r(3) rg(1) k(1) by (simp add: offsets_of_Cons)
      next
        fix c u assume "(c, u) \<in> set rs'"
        then have m: "(c, u) \<in> set rs" using k(1) by simp
        show "task_ok u" by (rule rg(2) [OF m])
        show "holds (buffer (the_ring ?s)) c u \<or> (\<exists>th k. posting ?s th = Some (c, u, k))" using rg(3) [OF m] r(4) by simp
      next
        fix th c u i assume "posting ?s th = Some (c, u, i)"
        then have v: "posting s th = Some (c, u, i)" by simp
        then have "(c, u) \<noteq> (a, t)" using no by blast
        then show "(c, u) \<in> set rs' \<and> i \<le> 7 \<and> stores_done c u i (buffer (the_ring ?s))" using rg(4) [OF v] k(1) r(4) by auto
      next
        fix th th' c u i u' i'
        assume "posting ?s th = Some (c, u, i)" "posting ?s th' = Some (c, u', i')"
        then show "th' = th" using rg(5) [of th c u i th' u' i'] by simp
      qed
    qed
    moreover have "batch_ok rs' (bytes_of (take j rs')) ?s"
      using k m(2) n by (auto simp: batch_ok_def)
    ultimately show ?thesis using r(2) d(5) k(1) by (simp add: tq_inv_def)
  qed
  ultimately show ?thesis using k(1) by blast
qed

lemma tq_inv_step:
  assumes "tq_step s s'" "tq_inv P rs g s"
  shows "\<exists>P' rs' g'. tq_inv P' rs' g' s'"
  using assms(1)
proof cases
  case (tq_writer th w q)
  then show ?thesis using step_writer [OF assms(2)] tq_writer by blast
next
  case (tq_acquire th w t k base r)
  then show ?thesis using step_acquire [OF assms(2)] tq_acquire by blast
next
  case (tq_refused th w k t r)
  then have "r = the_ring s" using step_refused [OF assms(2)] tq_refused by blast
  then show ?thesis using tq_refused assms(2) by auto
next
  case (tq_store th a t k off bs)
  then show ?thesis using step_store [OF assms(2)] tq_store by blast
next
  case (tq_produce th a t w r)
  then show ?thesis using step_produce [OF assms(2), of th a t w] tq_produce by auto
next
  case (tq_pop p q)
  then show ?thesis using step_pop [OF assms(2)] tq_pop by auto
next
  case (tq_perform p t q)
  then show ?thesis using step_perform [OF assms(2), of p] tq_perform by auto
qed

lemma tq_inv_reachable:
  assumes "0 < len" "unat len < 2 ^ 32" "tq_step\<^sup>*\<^sup>* (tq_start len n) s"
  shows "\<exists>P rs g. tq_inv P rs g s"
  using assms(3)
proof (induction rule: rtranclp_induct)
  case base
  then show ?case using tq_start_inv [OF assms(1,2)] by blast
next
  case (step s s')
  then show ?case using tq_inv_step by blast
qed

section \<open>Properties\<close>


text \<open>Claim C34: No interleaving of stores and ring operations, each ring operation being one step (so without the ABA
  exchanges of \<open>ring_aba_overlap\<close>), makes an operation of the queue fail. In every state of the threads these steps reach,
  \<open>produce\<close> at the end of a push, \<open>pop\<close> and the deallocation of the task in hand all return; the task
  performed is the oldest one claimed and not performed; and once no thread is inside \<open>push\<close>, \<open>pop\<close>
  finds a task whenever one is left.\<close>

theorem task_queue_threads_return:
  assumes "0 < len" "unat len < 2 ^ 32" "tq_step\<^sup>*\<^sup>* (tq_start len n) s"
  shows "(\<forall>th a t. posting s th = Some (a, t, 7) \<longrightarrow>
      (\<exists>w r. ctq_writers (tqq s) th = Some w \<and> writer_produce w (ctq_ring (tqq s)) = Inr r)) \<and>
    (in_hand s = None \<longrightarrow> (\<exists>p q. pop (tqq s) = Inr (p, q) \<and>
      ((\<forall>th. posting s th = None) \<and> claimed s \<noteq> performed s \<longrightarrow> p \<noteq> None))) \<and>
    (\<forall>p. in_hand s = Some p \<longrightarrow> (\<exists>t q ts. perform_popped p (tqq s) = Inr (t, q) \<and> claimed s = performed s @ t # ts))"
proof -
  obtain P rs g where inv: "tq_inv P rs g s" using tq_inv_reachable [OF assms] by blast
  note d = tq_invD [OF inv]
  have "\<exists>w r. ctq_writers (tqq s) th = Some w \<and> writer_produce w (ctq_ring (tqq s)) = Inr r"
    if p: "posting s th = Some (a, t, 7)" for th a t
  proof -
    obtain w where w: "ctq_writers (tqq s) th = Some w" using d(2) p unfolding writers_ok_def by fastforce
    with step_produce [OF inv p w] show ?thesis by blast
  qed
  moreover have "\<exists>p q. pop (tqq s) = Inr (p, q) \<and>
      ((\<forall>th. posting s th = None) \<and> claimed s \<noteq> performed s \<longrightarrow> p \<noteq> None)" if h: "in_hand s = None"
  proof -
    have "rs \<noteq> []" if "claimed s \<noteq> performed s" using d(5) that by auto
    then show ?thesis using step_pop [OF inv h] by blast
  qed
  moreover have "\<exists>t q ts. perform_popped p (tqq s) = Inr (t, q) \<and> claimed s = performed s @ t # ts"
    if h: "in_hand s = Some p" for p
    using step_perform [OF inv h] d(5) by auto
  ultimately show ?thesis by blast
qed

section \<open>A concrete run\<close>

lemma stores_run:
  assumes "posting s th = Some (a, t, 0)" "k \<le> 7"
  shows "\<exists>s'. tq_step\<^sup>*\<^sup>* s s' \<and> posting s' = (posting s)(th \<mapsto> (a, t, k)) \<and> in_hand s' = in_hand s \<and>
    claimed s' = claimed s \<and> performed s' = performed s"
  using assms(2)
proof (induction k)
  case 0
  then show ?case using assms(1) by (intro exI [of _ s]) (simp add: fun_upd_idem)
next
  case (Suc k)
  then obtain s' where s': "tq_step\<^sup>*\<^sup>* s s'" "posting s' = (posting s)(th \<mapsto> (a, t, k))" "in_hand s' = in_hand s"
    "claimed s' = claimed s" "performed s' = performed s" by (meson Suc_leD)
  obtain off bs where "task_stores a t ! k = (off, bs)" by (cases "task_stores a t ! k")
  from tq_store [of s' th a t k, OF _ _ this] s' Suc.prems show ?case
    by (auto intro!: exI rtranclp.rtrancl_into_rtrancl [OF s'(1)])
qed

lemma claim_run: "\<exists>s a. tq_step\<^sup>*\<^sup>* (tq_start 128 1) s \<and> posting s = [0 \<mapsto> (a, task32, 0)] \<and> in_hand s = None \<and>
    claimed s = [task32] \<and> performed s = []"
proof -
  let ?s0 = "tq_start 128 1"
  obtain w q1 where g: "get_writer 0 (ctq_new 128 1) = Inr (w, q1)" "cap_of (ctq_ring q1) = unat (128 :: u64)"
    "nx (ctq_ring q1) = 0" "wr (ctq_ring q1) = 0" by (rule new_writer)
  let ?s1 = "?s0\<lparr>tqq := q1\<rparr>"
  have st: "tq_step ?s0 ?s1" using g(1) tq_writer [of ?s0 0 w q1] by (simp add: tq_start_def)
  then obtain P rs g' where inv: "tq_inv P rs g' ?s1" using tq_inv_step tq_start_inv [of 128 1] by fastforce
  have w: "ctq_writers (tqq ?s1) 0 = Some w"
    using g(1) by (auto simp: get_writer_def ctq_new_def split: sum.splits)
  obtain i where i: "i < length (workers (the_ring ?s1))" "w = \<lparr>w_buffer = True, w_worker = Some i\<rparr>"
    "registered (workers (the_ring ?s1) ! i)" "P i = None"
    by (rule writers_okD [OF tq_invD(2) [OF inv] w]) (auto simp: tq_start_def)
  obtain a r where "acquire 0 i (of_nat (acquired_size task32)) (the_ring ?s1) = Inr (Some a, r)"
    using acquire_returns [OF tq_invD(1) [OF inv], of i 0 "of_nat (acquired_size task32)"] i g(2-4) task32_facts(2)
      acquired_unat(1) [OF task32_facts(1)] by (auto simp: place_def)
  then have "writer_acquire 0 (of_nat (acquired_size task32)) w (the_ring ?s1) = Inr (Some a, r)"
    using i(2) by (simp add: writer_acquire_def)
  from tq_acquire [OF _ w task32_facts(1) this] have "tq_step ?s1 (?s1\<lparr>tqq := (tqq ?s1)\<lparr>ctq_ring := r\<rparr>,
      posting := (posting ?s1)(0 \<mapsto> (unat a, task32, 0)), claimed := claimed ?s1 @ [task32]\<rparr>)" (is "tq_step _ ?s2")
    by (simp add: tq_start_def)
  with st have "tq_step\<^sup>*\<^sup>* ?s0 ?s2" by (meson r_into_rtranclp rtranclp.rtrancl_into_rtrancl)
  then show ?thesis by (intro exI [of _ ?s2] exI [of _ "unat a"]) (simp add: tq_start_def)
qed


theorem task_queue_threads_return_witness:
  "\<exists>s. tq_step\<^sup>*\<^sup>* (tq_start 128 1) s \<and> performed s = [task32]"
proof -
  have ret: "(\<forall>th a t. posting s th = Some (a, t, 7) \<longrightarrow>
      (\<exists>w r. ctq_writers (tqq s) th = Some w \<and> writer_produce w (ctq_ring (tqq s)) = Inr r))"
    "in_hand s = None \<Longrightarrow> \<exists>p q. pop (tqq s) = Inr (p, q) \<and>
      ((\<forall>th. posting s th = None) \<and> claimed s \<noteq> performed s \<longrightarrow> p \<noteq> None)"
    "in_hand s = Some p \<Longrightarrow> \<exists>t q ts. perform_popped p (tqq s) = Inr (t, q) \<and> claimed s = performed s @ t # ts"
    if "tq_step\<^sup>*\<^sup>* (tq_start 128 1) s" for s p
    using task_queue_threads_return [OF _ _ that] by simp_all
  obtain s a where s: "tq_step\<^sup>*\<^sup>* (tq_start 128 1) s" "posting s = [0 \<mapsto> (a, task32, 0)]" "in_hand s = None"
    "claimed s = [task32]" "performed s = []" using claim_run by blast
  obtain s1 where s1: "tq_step\<^sup>*\<^sup>* s s1" "posting s1 = (posting s)(0 \<mapsto> (a, task32, 7))" "claimed s1 = [task32]"
    "performed s1 = []" "in_hand s1 = None" using stores_run [of s 0 a task32 7] s by auto
  have r1: "tq_step\<^sup>*\<^sup>* (tq_start 128 1) s1" using s(1) s1(1) by simp
  have p1: "posting s1 0 = Some (a, task32, 7)" using s1(2) by simp
  obtain w r where w: "ctq_writers (tqq s1) 0 = Some w" "writer_produce w (ctq_ring (tqq s1)) = Inr r"
    using ret(1) [OF r1] p1 by blast
  let ?s2 = "s1\<lparr>tqq := (tqq s1)\<lparr>ctq_ring := r\<rparr>, posting := (posting s1)(0 := None)\<rparr>"
  have r2: "tq_step\<^sup>*\<^sup>* (tq_start 128 1) ?s2" using r1 tq_produce [OF p1 w] by (rule rtranclp.rtrancl_into_rtrancl)
  have h2: "in_hand ?s2 = None" "\<forall>th. posting ?s2 th = None" "claimed ?s2 \<noteq> performed ?s2"
    using s s1 by simp_all
  obtain p q where q: "pop (tqq ?s2) = Inr (Some p, q)"
    using ret(2) [OF r2 h2(1)] h2(2,3) by blast
  let ?s3 = "?s2\<lparr>tqq := q, in_hand := Some p\<rparr>"
  have r3: "tq_step\<^sup>*\<^sup>* (tq_start 128 1) ?s3" using r2 tq_pop [OF h2(1) q] by (rule rtranclp.rtrancl_into_rtrancl)
  have h3: "in_hand ?s3 = Some p" by simp
  obtain t q' ts where t: "perform_popped p (tqq ?s3) = Inr (t, q')" "claimed ?s3 = performed ?s3 @ t # ts"
    using ret(3) [OF r3 h3] by blast
  have "tq_step\<^sup>*\<^sup>* (tq_start 128 1) (?s3\<lparr>tqq := q', in_hand := None, performed := performed ?s3 @ [t]\<rparr>)"
    using r3 tq_perform [OF h3 t(1)] by (rule rtranclp.rtrancl_into_rtrancl)
  moreover have "t = task32" using t(2) s1(3,4) by simp
  ultimately show ?thesis using s1(4) by (intro exI) (auto simp del: rtranclp.simps)
qed

end
