(* ===== verification/ThreadStorage.thy ===== *)
theory ThreadStorage
  imports Prelude
begin

text \<open>
  Model of \<open>ustevent::detail::ObjectScopedThreadLocalStorage\<close>
  (\<open>core/concurrency/detail/ObjectScopedThreadLocalStorage.hpp\<close>): values that belong to one
  object and one thread. The state \<open>tls_world\<close> holds the static members of the class template
  (\<open>s_id\<close>, \<open>s_available\<close>, \<open>s_owners\<close>, and \<open>s_thread_locals\<close> as the list of the threads
  that have a storage, each with its vector of nodes). The ghost field \<open>returned\<close> lists the
  calls of return functions and \<open>created\<close> counts the values handed out that have one. Every
  operation runs under \<open>s_mutex\<close> or on the thread's own vector, so it is one step.
\<close>

section \<open>State and operations\<close>

record 'a tls_node =
  owner_id :: nat
  node_value :: 'a
  has_return :: bool

record 'a tls_object =
  my_id :: nat
  my_index :: nat
  default_value :: "'a option"
  return_function :: bool

record 'a tls_world =
  s_id :: nat
  s_available :: "nat list"
  s_owners :: "nat list"
  thread_locals :: "(nat \<times> 'a tls_node list) list"
  returned :: "(nat \<times> 'a) list"
  created :: nat

definition tls_init :: "'a tls_world" where
  "tls_init = \<lparr>s_id = 1, s_available = [], s_owners = [], thread_locals = [], returned = [], created = 0\<rparr>"

definition get_index :: "nat \<Rightarrow> 'a tls_world \<Rightarrow> nat \<times> 'a tls_world" where
  "get_index i w =
     (if s_available w \<noteq> [] then
        (let index = last (s_available w)
         in (index, w\<lparr>s_available := butlast (s_available w), s_owners := (s_owners w)[index := i]\<rparr>))
      else (length (s_owners w), w\<lparr>s_owners := s_owners w @ [i]\<rparr>))"

definition tls_create :: "'a option \<Rightarrow> bool \<Rightarrow> 'a tls_world \<Rightarrow> 'a tls_object \<times> 'a tls_world" where
  "tls_create dflt ret w =
     (let i = s_id w in
      case get_index i (w\<lparr>s_id := s_id w + 1\<rparr>) of
        (index, w') \<Rightarrow> (\<lparr>my_id = i, my_index = index, default_value = dflt, return_function = ret\<rparr>, w'))"

definition node_of :: "'a tls_object \<Rightarrow> 'a tls_node list \<Rightarrow> bool" where
  "node_of ob v \<longleftrightarrow> my_index ob < length v \<and> owner_id (v ! my_index ob) = my_id ob"

definition tls_destroy :: "'a tls_object \<Rightarrow> 'a tls_world \<Rightarrow> 'a tls_world" where
  "tls_destroy ob w =
     (let i = my_index ob;
          calls = map (\<lambda>(th, v). (my_id ob, node_value (v ! i)))
                      (filter (\<lambda>(th, v). node_of ob v \<and> has_return (v ! i)) (thread_locals w));
          locals' = map (\<lambda>(th, v). (th, if node_of ob v then v[i := (v ! i)\<lparr>owner_id := 0\<rparr>] else v))
                        (thread_locals w);
          available = s_available w @ [i];
          owners = (s_owners w)[i := 0];
          w' = w\<lparr>thread_locals := locals', returned := returned w @ calls\<rparr>
      in if length available = length owners then w'\<lparr>s_available := [], s_owners := []\<rparr>
         else w'\<lparr>s_available := available, s_owners := owners\<rparr>)"

text \<open>\<open>_getThreadLocalObjectStorage\<close>: the thread's vector, registered at the first use.\<close>

definition thread_storage :: "nat \<Rightarrow> 'a tls_world \<Rightarrow> 'a tls_node list" where
  "thread_storage th w = (case map_of (thread_locals w) th of None \<Rightarrow> [] | Some v \<Rightarrow> v)"

definition set_storage :: "nat \<Rightarrow> 'a tls_node list \<Rightarrow> 'a tls_world \<Rightarrow> 'a tls_world" where
  "set_storage th v w = w\<lparr>thread_locals :=
     (if th \<in> fst ` set (thread_locals w)
      then map (\<lambda>(t, u). (t, if t = th then v else u)) (thread_locals w)
      else thread_locals w @ [(th, v)])\<rparr>"

definition new_node :: "'a \<Rightarrow> 'a tls_node" where
  "new_node dv = \<lparr>owner_id = 0, node_value = dv, has_return = False\<rparr>"

definition resize :: "'a \<Rightarrow> nat \<Rightarrow> 'a tls_node list \<Rightarrow> 'a tls_node list" where
  "resize dv n v = (if n < length v then v else v @ replicate (n + 1 - length v) (new_node dv))"

text \<open>\<open>get\<close>, where \<open>dv\<close> is the default-constructed value of the element type.\<close>

definition tls_get :: "'a \<Rightarrow> nat \<Rightarrow> 'a tls_object \<Rightarrow> 'a tls_world \<Rightarrow> 'a \<times> 'a tls_world" where
  "tls_get dv th ob w =
     (let v = resize dv (my_index ob) (thread_storage th w); nd = v ! my_index ob in
      if owner_id nd = 0 then
        (let nd' = \<lparr>owner_id = my_id ob,
                    node_value = (case default_value ob of None \<Rightarrow> node_value nd | Some x \<Rightarrow> x),
                    has_return = return_function ob\<rparr>
         in (node_value nd', set_storage th (v[my_index ob := nd'])
               (w\<lparr>created := created w + (if return_function ob then 1 else 0)\<rparr>)))
      else (node_value nd, set_storage th v w))"

text \<open>\<open>~ObjectStorage\<close>, run when a thread that has a storage ends.\<close>

definition thread_exit :: "nat \<Rightarrow> 'a tls_world \<Rightarrow> 'a tls_world" where
  "thread_exit th w =
     (let v = thread_storage th w;
          owned = (\<lambda>i. has_return (v ! i) \<and> owner_id (v ! i) \<noteq> 0 \<and> s_owners w ! i = owner_id (v ! i));
          calls = map (\<lambda>i. (owner_id (v ! i), node_value (v ! i)))
                      (filter owned [0..<min (length v) (length (s_owners w))])
      in w\<lparr>thread_locals := filter (\<lambda>(t, u). t \<noteq> th) (thread_locals w), returned := returned w @ calls\<rparr>)"

section \<open>Objects and threads over time\<close>

text \<open>\<open>live\<close> holds the objects constructed and not destroyed; only those are used.\<close>

inductive tls_step :: "'a \<Rightarrow> 'a tls_object list \<Rightarrow> 'a tls_world \<Rightarrow> 'a tls_object list \<Rightarrow> 'a tls_world \<Rightarrow> bool"
  for dv where
  t_create: "tls_create d r w = (ob, w') \<Longrightarrow> tls_step dv obs w (obs @ [ob]) w'"
| t_destroy: "obs = P @ ob # Q \<Longrightarrow> tls_step dv obs w (P @ Q) (tls_destroy ob w)"
| t_get: "ob \<in> set obs \<Longrightarrow> tls_get dv th ob w = (x, w') \<Longrightarrow> tls_step dv obs w obs w'"
| t_exit: "th \<in> fst ` set (thread_locals w) \<Longrightarrow> tls_step dv obs w obs (thread_exit th w)"

inductive tls_reachable :: "'a \<Rightarrow> 'a tls_object list \<Rightarrow> 'a tls_world \<Rightarrow> bool" for dv where
  tls_start: "tls_reachable dv [] tls_init"
| tls_next: "tls_reachable dv obs w \<Longrightarrow> tls_step dv obs w obs' w' \<Longrightarrow> tls_reachable dv obs' w'"

text \<open>The indices: each box index is either available or owned by exactly one live object.\<close>

definition index_inv :: "'a tls_object list \<Rightarrow> 'a tls_world \<Rightarrow> bool" where
  "index_inv obs w \<longleftrightarrow>
     distinct (map my_index obs @ s_available w) \<and>
     set (map my_index obs @ s_available w) = {..<length (s_owners w)} \<and>
     (\<forall>ob \<in> set obs. s_owners w ! my_index ob = my_id ob \<and> 0 < my_id ob \<and> my_id ob < s_id w) \<and>
     distinct (map my_id obs) \<and> 0 < s_id w"

text \<open>The nodes: a node in use belongs to the live object whose index it has.\<close>

definition node_inv :: "'a tls_object list \<Rightarrow> 'a tls_world \<Rightarrow> bool" where
  "node_inv obs w \<longleftrightarrow> distinct (map fst (thread_locals w)) \<and>
     (\<forall>(th, v) \<in> set (thread_locals w). \<forall>i < length v. owner_id (v ! i) \<noteq> 0 \<longrightarrow>
        (\<exists>ob \<in> set obs. my_index ob = i \<and> my_id ob = owner_id (v ! i)))"

definition in_use :: "'a tls_node \<Rightarrow> bool" where
  "in_use nd \<longleftrightarrow> owner_id nd \<noteq> 0 \<and> has_return nd"

definition held :: "'a tls_world \<Rightarrow> nat" where
  "held w = sum_list (map (\<lambda>(th, v). length (filter in_use v)) (thread_locals w))"

definition tls_inv :: "'a tls_object list \<Rightarrow> 'a tls_world \<Rightarrow> bool" where
  "tls_inv obs w \<longleftrightarrow> index_inv obs w \<and> node_inv obs w \<and> created w = length (returned w) + held w"

subsection \<open>Indices\<close>

lemma index_inv_create:
  assumes "index_inv obs w" and "tls_create d r w = (ob, w')"
  shows "index_inv (obs @ [ob]) w'"
proof (cases "s_available w")
  case Nil
  with assms show ?thesis
    by (fastforce simp: index_inv_def tls_create_def get_index_def Let_def nth_append less_Suc_eq)
next
  case (Cons a as)
  then have ne: "s_available w \<noteq> []" by simp
  define l where "l = last (s_available w)"
  have av: "s_available w = butlast (s_available w) @ [l]" using ne by (simp add: l_def)
  have ob: "my_index ob = l" "my_id ob = s_id w"
    and w': "s_owners w' = (s_owners w)[l := s_id w]" "s_available w' = butlast (s_available w)" "s_id w' = s_id w + 1"
    using assms(2) ne by (auto simp: tls_create_def get_index_def Let_def l_def)
  have d: "distinct (map my_index obs @ butlast (s_available w) @ [l])"
    and s: "set (map my_index obs @ butlast (s_available w) @ [l]) = {..<length (s_owners w)}"
    using assms(1) av unfolding index_inv_def by metis+
  have l: "l < length (s_owners w)" "l \<notin> my_index ` set obs" using s d by auto
  have d': "distinct (map my_index (obs @ [ob]) @ s_available w')" using d ob w' by auto
  have s': "set (map my_index (obs @ [ob]) @ s_available w') = {..<length (s_owners w')}"
    using s ob w' by auto
  have "s_owners w' ! my_index o' = my_id o' \<and> 0 < my_id o' \<and> my_id o' < s_id w'" if "o' \<in> set (obs @ [ob])" for o'
    using that assms(1) l ob w' unfolding index_inv_def by (cases "o' = ob") (force simp: nth_list_update)+
  moreover have "distinct (map my_id (obs @ [ob]))" using assms(1) ob unfolding index_inv_def by fastforce
  ultimately show ?thesis using d' s' w' unfolding index_inv_def by simp
qed

lemma index_inv_destroy:
  assumes "index_inv (P @ ob # Q) w"
  shows "index_inv (P @ Q) (tls_destroy ob w)"
proof -
  have d: "distinct (map my_index (P @ ob # Q) @ s_available w)"
    and s: "set (map my_index (P @ ob # Q) @ s_available w) = {..<length (s_owners w)}"
    and oo: "\<forall>o' \<in> set (P @ ob # Q). s_owners w ! my_index o' = my_id o' \<and> 0 < my_id o' \<and> my_id o' < s_id w"
    and di: "distinct (map my_id (P @ ob # Q))" and pos: "0 < s_id w"
    using assms unfolding index_inv_def by blast+
  have len: "length (P @ Q) + length (s_available w @ [my_index ob]) = length (s_owners w)"
    using distinct_card [OF d] s by simp
  have keep: "s_owners w ! my_index o' = ((s_owners w)[my_index ob := 0]) ! my_index o'"
    if "o' \<in> set (P @ Q)" for o'
  proof -
    have "my_index o' \<in> my_index ` (set P \<union> set Q)" using that by simp
    moreover have "my_index ob \<notin> my_index ` (set P \<union> set Q)" using d by (simp add: image_Un)
    ultimately have "my_index ob \<noteq> my_index o'" by metis
    then show ?thesis by simp
  qed
  show ?thesis
  proof (cases "length (s_available w @ [my_index ob]) = length (s_owners w)")
    case True
    with len have "length (P @ Q) = 0" by linarith
    then have "P @ Q = []" by (rule length_0_conv [THEN iffD1])
    with True pos show ?thesis by (simp add: index_inv_def tls_destroy_def Let_def)
  next
    case False
    have "distinct (map my_index (P @ Q) @ s_available w @ [my_index ob])" using d by auto
    moreover have "set (map my_index (P @ Q) @ s_available w @ [my_index ob]) = {..<length (s_owners w)}"
      using s by auto
    moreover have "distinct (map my_id (P @ Q))" using di by auto
    ultimately show ?thesis using oo keep pos False
      by (auto simp: index_inv_def tls_destroy_def Let_def)
  qed
qed

lemma index_inv_frame:
  "index_inv obs w \<Longrightarrow> s_owners w' = s_owners w \<Longrightarrow> s_available w' = s_available w \<Longrightarrow> s_id w' = s_id w \<Longrightarrow>
   index_inv obs w'"
  by (simp add: index_inv_def)

subsection \<open>Nodes and the count of values\<close>

lemma set_storage_simps [simp]:
  "s_owners (set_storage th v w) = s_owners w" "s_available (set_storage th v w) = s_available w"
  "s_id (set_storage th v w) = s_id w" "returned (set_storage th v w) = returned w"
  "created (set_storage th v w) = created w"
  by (simp_all add: set_storage_def)

lemma set_storage_locals:
  assumes "distinct (map fst (thread_locals w))"
  shows "distinct (map fst (thread_locals (set_storage th v w)))"
    and "(t, u) \<in> set (thread_locals (set_storage th v w)) \<Longrightarrow> (t = th \<and> u = v) \<or> (t \<noteq> th \<and> (t, u) \<in> set (thread_locals w))"
    and "thread_storage t (set_storage th v w) = (if t = th then v else thread_storage t w)"
proof -
  have m: "map fst (map (\<lambda>(t, u). (t, if t = th then v else u)) xs) = map fst xs" for xs :: "(nat \<times> 'a tls_node list) list"
    by (induction xs) auto
  show "distinct (map fst (thread_locals (set_storage th v w)))"
  proof (cases "th \<in> fst ` set (thread_locals w)")
    case True
    then have e: "thread_locals (set_storage th v w)
        = map (\<lambda>(t, u). (t, if t = th then v else u)) (thread_locals w)" by (simp add: set_storage_def)
    show ?thesis unfolding e m by (rule assms)
  next
    case False
    with assms show ?thesis by (simp add: set_storage_def)
  qed
  show "(t, u) \<in> set (thread_locals (set_storage th v w)) \<Longrightarrow> (t = th \<and> u = v) \<or> (t \<noteq> th \<and> (t, u) \<in> set (thread_locals w))"
  proof (cases "th \<in> fst ` set (thread_locals w)")
    case True
    then show "(t, u) \<in> set (thread_locals (set_storage th v w)) \<Longrightarrow> (t = th \<and> u = v) \<or> (t \<noteq> th \<and> (t, u) \<in> set (thread_locals w))"
      by (simp add: set_storage_def) (clarsimp split: if_splits)
  next
    case False
    then have "(th, u) \<notin> set (thread_locals w)" by (metis fst_conv imageI)
    with False show "(t, u) \<in> set (thread_locals (set_storage th v w)) \<Longrightarrow> (t = th \<and> u = v) \<or> (t \<noteq> th \<and> (t, u) \<in> set (thread_locals w))"
      by (cases "t = th") (simp_all add: set_storage_def)
  qed
  have other: "t \<noteq> th \<Longrightarrow> map_of (map (\<lambda>(t, u). (t, if t = th then v else u)) xs) t = map_of xs t"
    for xs :: "(nat \<times> 'a tls_node list) list" by (induction xs) auto
  have same: "map_of (map (\<lambda>(t, u). (t, if t = th then v else u)) xs) th
      = (case map_of xs th of None \<Rightarrow> None | Some _ \<Rightarrow> Some v)"
    for xs :: "(nat \<times> 'a tls_node list) list" by (induction xs) auto
  show "thread_storage t (set_storage th v w) = (if t = th then v else thread_storage t w)"
  proof (cases "th \<in> fst ` set (thread_locals w)")
    case True
    then obtain u where "map_of (thread_locals w) th = Some u" by (metis map_of_eq_None_iff not_None_eq)
    with True other same show ?thesis by (auto simp: thread_storage_def set_storage_def)
  next
    case False
    then have "map_of (thread_locals w) th = None" by (simp add: map_of_eq_None_iff)
    with False show ?thesis
      by (auto simp: thread_storage_def set_storage_def map_of_append map_add_def split: option.splits)
  qed
qed

definition storage_sum :: "('a tls_node list \<Rightarrow> nat) \<Rightarrow> (nat \<times> 'a tls_node list) list \<Rightarrow> nat" where
  "storage_sum f l = sum_list (map (\<lambda>(th, v). f v) l)"

lemma held_sum: "held w = storage_sum (\<lambda>v. length (filter in_use v)) (thread_locals w)"
  by (simp add: held_def storage_sum_def)

lemma storage_sum_remove:
  assumes "distinct (map fst l)" and "th \<in> fst ` set l"
  shows "storage_sum f l = f (case map_of l th of None \<Rightarrow> [] | Some v \<Rightarrow> v) + storage_sum f (filter (\<lambda>(t, u). t \<noteq> th) l)"
  using assms
proof (induction l)
  case (Cons x l)
  obtain t u where x: "x = (t, u)" by (cases x)
  show ?case
  proof (cases "t = th")
    case True
    with Cons.prems x have "filter (\<lambda>(t, u). t \<noteq> th) l = l" by (intro filter_True) force
    with True x show ?thesis by (simp add: storage_sum_def)
  next
    case False
    with Cons x show ?thesis by (simp add: storage_sum_def)
  qed
qed simp

lemma storage_sum_set:
  assumes "distinct (map fst (thread_locals w))" and "f [] = 0"
  shows "storage_sum f (thread_locals (set_storage th v w)) + f (thread_storage th w)
    = storage_sum f (thread_locals w) + f v"
proof (cases "th \<in> fst ` set (thread_locals w)")
  case True
  let ?w = "set_storage th v w"
  have fl: "filter (\<lambda>(t, u). t \<noteq> th) (map (\<lambda>(t, u). (t, if t = th then v else u)) xs)
      = filter (\<lambda>(t, u). t \<noteq> th) xs" for xs :: "(nat \<times> 'a tls_node list) list"
    by (induction xs) auto
  have "th \<in> fst ` set (thread_locals ?w)" using True by (force simp: set_storage_def)
  from storage_sum_remove [OF set_storage_locals(1) [OF assms(1)] this, of f]
    storage_sum_remove [OF assms(1) True, of f] set_storage_locals(3) [OF assms(1), of th th v] True fl
  show ?thesis by (simp add: thread_storage_def set_storage_def)
next
  case False
  then have "thread_storage th w = []" by (simp add: thread_storage_def map_of_eq_None_iff [THEN iffD2])
  with False assms(2) show ?thesis by (simp add: storage_sum_def set_storage_def)
qed

lemma length_filter_update:
  "i < length v \<Longrightarrow> length (filter P (v[i := x])) + (if P (v ! i) then 1 else 0)
     = length (filter P v) + (if P x then 1 else 0)"
proof (induction v arbitrary: i)
  case (Cons a v)
  then show ?case by (cases i) auto
qed simp

lemma resize_in_use: "length (filter in_use (resize dv n v)) = length (filter in_use v)"
  by (auto simp: resize_def in_use_def new_node_def filter_replicate)

lemma resize_nth:
  "n < length (resize dv n v)"
  "i < length v \<Longrightarrow> resize dv n v ! i = v ! i"
  "length v \<le> i \<Longrightarrow> i < length (resize dv n v) \<Longrightarrow> resize dv n v ! i = new_node dv"
  by (auto simp: resize_def nth_append split: if_splits)

lemma thread_storage_in:
  "thread_storage th w = [] \<or> (th, thread_storage th w) \<in> set (thread_locals w)"
  by (auto simp: thread_storage_def dest: map_of_SomeD split: option.splits)

lemma thread_storage_entry:
  assumes "distinct (map fst (thread_locals w))" and "(th, v) \<in> set (thread_locals w)"
  shows "thread_storage th w = v"
  using assms by (simp add: thread_storage_def)

lemma node_inv_storage:
  assumes "node_inv obs w" and "i < length (thread_storage th w)" and "owner_id (thread_storage th w ! i) \<noteq> 0"
  shows "\<exists>ob \<in> set obs. my_index ob = i \<and> my_id ob = owner_id (thread_storage th w ! i)"
proof -
  have "(th, thread_storage th w) \<in> set (thread_locals w)"
    using thread_storage_in [of th w] assms(2) by (metis less_nat_zero_code list.size(3))
  with assms show ?thesis unfolding node_inv_def by blast
qed

lemma index_inv_ids:
  assumes "index_inv obs w" and "a \<in> set obs" and "b \<in> set obs"
  shows "0 < my_id a" and "my_index a < length (s_owners w)" and "s_owners w ! my_index a = my_id a"
    and "my_index a = my_index b \<Longrightarrow> a = b"
proof -
  show "0 < my_id a" "s_owners w ! my_index a = my_id a" using assms by (auto simp: index_inv_def)
  show "my_index a < length (s_owners w)" using assms unfolding index_inv_def by auto
  assume "my_index a = my_index b"
  moreover have "inj_on my_index (set obs)" using assms(1) unfolding index_inv_def by (simp add: distinct_map)
  ultimately show "a = b" using assms(2,3) by (meson inj_onD)
qed

text \<open>What \<open>get\<close> does, on both branches.\<close>

lemma tls_get_cases:
  assumes inv: "tls_inv obs w" and ob: "ob \<in> set obs" and g: "tls_get dv th ob w = (x, w')"
  shows "tls_inv obs w'"
    and "thread_storage th w' ! my_index ob = \<lparr>owner_id = my_id ob, node_value = x,
           has_return = has_return (thread_storage th w' ! my_index ob)\<rparr>"
    and "my_index ob < length (thread_storage th w')"
    and "t \<noteq> th \<Longrightarrow> thread_storage t w' = thread_storage t w"
    and "i \<noteq> my_index ob \<Longrightarrow> i < length (thread_storage th w) \<Longrightarrow>
           i < length (thread_storage th w') \<and> thread_storage th w' ! i = thread_storage th w ! i"
    and "node_of ob (thread_storage th w) \<Longrightarrow> x = node_value (thread_storage th w ! my_index ob)"
    and "\<not> node_of ob (thread_storage th w) \<Longrightarrow> default_value ob = Some d \<Longrightarrow> x = d"
proof -
  let ?i = "my_index ob"
  let ?u = "thread_storage th w"
  define v where "v = resize dv ?i ?u"
  have ix: "index_inv obs w" and nd: "node_inv obs w" and cnt: "created w = length (returned w) + held w"
    using inv by (simp_all add: tls_inv_def)
  have dl: "distinct (map fst (thread_locals w))" using nd by (simp add: node_inv_def)
  note pos = index_inv_ids(1) [OF ix ob ob]
  have vi: "?i < length v" using resize_nth(1) v_def by simp
  have old: "owner_id (v ! j) \<noteq> 0 \<Longrightarrow> j < length v \<Longrightarrow> j < length ?u \<and> v ! j = ?u ! j" for j
    unfolding v_def using resize_nth(2,3) [where i = j and v = ?u and dv = dv and n = ?i] by (cases "j < length ?u") (auto simp: new_node_def not_less)
  have own: "owner_id (v ! ?i) = 0 \<or> owner_id (v ! ?i) = my_id ob"
  proof (rule ccontr)
    assume n: "\<not> ?thesis"
    with old [of ?i] vi obtain o' where o': "o' \<in> set obs" "my_index o' = ?i" "my_id o' = owner_id (v ! ?i)"
      using node_inv_storage [OF nd, of ?i th] by auto
    have "ob = o'" by (rule index_inv_ids(4) [OF ix ob o'(1)]) (simp add: o'(2))
    with o'(3) n show False by simp
  qed
  have nof: "node_of ob ?u \<longleftrightarrow> owner_id (v ! ?i) = my_id ob"
    using old [of ?i] vi pos resize_nth(2) [of ?i ?u dv ?i] unfolding node_of_def v_def by auto
  define v' where "v' = (if owner_id (v ! ?i) = 0 then v[?i := \<lparr>owner_id = my_id ob,
      node_value = (case default_value ob of None \<Rightarrow> node_value (v ! ?i) | Some x \<Rightarrow> x),
      has_return = return_function ob\<rparr>] else v)"
  define c where "c = (if owner_id (v ! ?i) = 0 \<and> return_function ob then 1 else 0 :: nat)"
  have v'l: "length v' = length v" and v'o: "\<And>j. j \<noteq> ?i \<Longrightarrow> v' ! j = v ! j" by (simp_all add: v'_def)
  have w': "w' = set_storage th v' (w\<lparr>created := created w + c\<rparr>)" and x: "x = node_value (v' ! ?i)"
    using g vi by (auto simp: tls_get_def Let_def v_def [symmetric] v'_def c_def set_storage_def split: if_splits)
  have st: "thread_storage t w' = (if t = th then v' else thread_storage t w)" for t
    using set_storage_locals(3) [of "w\<lparr>created := created w + c\<rparr>" t th v'] dl w' by (simp add: thread_storage_def)
  have v'i: "owner_id (v' ! ?i) = my_id ob" using own vi by (auto simp: v'_def)
  show "thread_storage th w' ! ?i = \<lparr>owner_id = my_id ob, node_value = x,
           has_return = has_return (thread_storage th w' ! ?i)\<rparr>"
    using st [of th] v'i x by (cases "v' ! ?i") simp
  show "?i < length (thread_storage th w')" using st [of th] vi by (simp add: v'_def)
  show "t \<noteq> th \<Longrightarrow> thread_storage t w' = thread_storage t w" using st by simp
  show "i \<noteq> ?i \<Longrightarrow> i < length ?u \<Longrightarrow> i < length (thread_storage th w') \<and> thread_storage th w' ! i = ?u ! i"
    using st [of th] resize_nth(2) [of i ?u dv ?i] by (auto simp: v'_def v_def resize_def nth_append)
  show "node_of ob ?u \<Longrightarrow> x = node_value (?u ! ?i)"
    using nof x old [of ?i] vi pos by (auto simp: v'_def)
  show "\<not> node_of ob ?u \<Longrightarrow> default_value ob = Some d \<Longrightarrow> x = d"
    using nof own x vi by (auto simp: v'_def)
  have "node_inv obs w'"
    unfolding node_inv_def
  proof (intro conjI ballI allI impI, goal_cases)
    case 1
    show ?case using set_storage_locals(1) [of "w\<lparr>created := created w + c\<rparr>" th v'] dl w' by simp
  next
    case (2 e)
    obtain t u where e: "e = (t, u)" by (cases e)
    have "\<exists>ob \<in> set obs. my_index ob = i \<and> my_id ob = owner_id (u ! i)"
      if "i < length u" "owner_id (u ! i) \<noteq> 0" for i
    proof (cases "t = th")
      case True
      then have u: "u = v'" using set_storage_locals(2) [of "w\<lparr>created := created w + c\<rparr>" t u th v'] dl w' 2 e by auto
      show ?thesis
      proof (cases "i = ?i")
        case True
        with ob v'i u show ?thesis by auto
      next
        case False
        with that u v'l v'o have "v' ! i = v ! i" "i < length v" by simp_all
        with that u old [of i] node_inv_storage [OF nd, of i th] show ?thesis by auto
      qed
    next
      case False
      then have "(t, u) \<in> set (thread_locals w)"
        using set_storage_locals(2) [of "w\<lparr>created := created w + c\<rparr>" t u th v'] dl w' 2 e by auto
      with nd that show ?thesis unfolding node_inv_def by blast
    qed
    with e show ?case by simp
  qed
  moreover have "index_inv obs w'" by (rule index_inv_frame [OF ix]) (simp_all add: w')
  moreover have "held w' + length (filter in_use ?u) = held w + length (filter in_use v')"
    using storage_sum_set [of "w\<lparr>created := created w + c\<rparr>" "\<lambda>v. length (filter in_use v)" th v'] dl w'
    by (simp add: held_sum thread_storage_def)
  moreover have "length (filter in_use v') = length (filter in_use ?u) + c"
    using length_filter_update [OF vi, of in_use "v' ! ?i"] resize_in_use [of dv ?i ?u] vi pos
    by (auto simp: v'_def v_def [symmetric] c_def in_use_def split: if_splits)
  ultimately show "tls_inv obs w'" using cnt by (simp add: tls_inv_def w')
qed


lemma tls_create_inv:
  assumes "tls_inv obs w" and "tls_create d r w = (ob, w')"
  shows "tls_inv (obs @ [ob]) w'"
proof -
  have "thread_locals w' = thread_locals w" "created w' = created w" "returned w' = returned w"
    using assms(2) by (auto simp: tls_create_def get_index_def Let_def split: if_splits)
  with assms index_inv_create [of obs w d r ob w'] show ?thesis
    unfolding tls_inv_def node_inv_def held_def by fastforce
qed

lemma destroy_fields:
  "thread_locals (tls_destroy ob w) = map (\<lambda>(th, v). (th, if node_of ob v
       then v[my_index ob := (v ! my_index ob)\<lparr>owner_id := 0\<rparr>] else v)) (thread_locals w)"
  "returned (tls_destroy ob w) = returned w @ map (\<lambda>(th, v). (my_id ob, node_value (v ! my_index ob)))
       (filter (\<lambda>(th, v). node_of ob v \<and> has_return (v ! my_index ob)) (thread_locals w))"
  "created (tls_destroy ob w) = created w"
  by (simp_all add: tls_destroy_def Let_def)

lemma destroy_count:
  assumes "0 < my_id ob"
  shows "storage_sum (\<lambda>v. length (filter in_use v)) (map (\<lambda>(th, v). (th, if node_of ob v
       then v[my_index ob := (v ! my_index ob)\<lparr>owner_id := 0\<rparr>] else v)) l)
    + length (filter (\<lambda>(th, v). node_of ob v \<and> has_return (v ! my_index ob)) l)
    = storage_sum (\<lambda>v. length (filter in_use v)) l"
proof (induction l)
  case (Cons x l)
  obtain th v where x: "x = (th, v)" by (cases x)
  have "length (filter in_use (if node_of ob v then v[my_index ob := (v ! my_index ob)\<lparr>owner_id := 0\<rparr>] else v))
      + (if node_of ob v \<and> has_return (v ! my_index ob) then 1 else 0) = length (filter in_use v)"
    using length_filter_update [of "my_index ob" v in_use "(v ! my_index ob)\<lparr>owner_id := 0\<rparr>"] assms
    by (auto simp: in_use_def node_of_def)
  with Cons x show ?case by (auto simp: storage_sum_def split: if_splits)
qed (simp add: storage_sum_def)

lemma tls_destroy_inv:
  assumes "tls_inv (P @ ob # Q) w"
  shows "tls_inv (P @ Q) (tls_destroy ob w)"
proof -
  have ix: "index_inv (P @ ob # Q) w" and nd: "node_inv (P @ ob # Q) w"
    and cnt: "created w = length (returned w) + held w" using assms by (simp_all add: tls_inv_def)
  have pos: "0 < my_id ob" using index_inv_ids(1) [OF ix, of ob ob] by simp
  have dist: "map fst (map (\<lambda>(th, v). (th, f v)) l) = map fst l" for f and l :: "(nat \<times> 'a tls_node list) list"
    by (simp add: case_prod_beta comp_def)
  have "\<exists>o' \<in> set (P @ Q). my_index o' = i \<and> my_id o' = owner_id (u ! i)"
    if m: "(t, u) \<in> set (thread_locals (tls_destroy ob w))" "i < length u" "owner_id (u ! i) \<noteq> 0" for t u i
  proof -
    from m(1) obtain v where v: "(t, v) \<in> set (thread_locals w)"
      "u = (if node_of ob v then v[my_index ob := (v ! my_index ob)\<lparr>owner_id := 0\<rparr>] else v)"
      by (auto simp: destroy_fields)
    have len: "length u = length v" and same: "u ! i = v ! i" and nb: "\<not> (node_of ob v \<and> i = my_index ob)"
      using v(2) m(2,3) by (auto split: if_splits simp: node_of_def)
    from nd v(1) m(2,3) len same obtain o' where
      o': "o' \<in> set (P @ ob # Q)" "my_index o' = i" "my_id o' = owner_id (v ! i)"
      unfolding node_inv_def by fastforce
    have "o' \<noteq> ob" using nb o' m(2) len by (auto simp: node_of_def)
    with o' same show ?thesis by auto
  qed
  moreover have "distinct (map fst (thread_locals (tls_destroy ob w)))"
    using nd unfolding destroy_fields(1) node_inv_def by (subst dist) blast
  ultimately have "node_inv (P @ Q) (tls_destroy ob w)" unfolding node_inv_def by blast
  moreover have "created (tls_destroy ob w) = length (returned (tls_destroy ob w)) + held (tls_destroy ob w)"
    using cnt destroy_count [OF pos, of "thread_locals w"] by (simp add: held_sum destroy_fields)
  ultimately show ?thesis using index_inv_destroy [OF ix] by (simp add: tls_inv_def)
qed

lemma thread_exit_inv:
  assumes inv: "tls_inv obs w" and th: "th \<in> fst ` set (thread_locals w)"
  shows "tls_inv obs (thread_exit th w)"
    and "set (returned (thread_exit th w)) = set (returned w) \<union>
      {(owner_id nd, node_value nd) |nd. nd \<in> set (thread_storage th w) \<and> in_use nd}"
proof -
  let ?v = "thread_storage th w" and ?n = "min (length (thread_storage th w)) (length (s_owners w))"
  let ?owned = "\<lambda>i. has_return (?v ! i) \<and> owner_id (?v ! i) \<noteq> 0 \<and> s_owners w ! i = owner_id (?v ! i)"
  have ix: "index_inv obs w" and nd: "node_inv obs w" and cnt: "created w = length (returned w) + held w"
    using inv by (simp_all add: tls_inv_def)
  have use: "i < length (s_owners w) \<and> s_owners w ! i = owner_id (?v ! i)"
    if "i < length ?v" "owner_id (?v ! i) \<noteq> 0" for i
    using node_inv_storage [OF nd that] index_inv_ids(2,3) [OF ix] by metis
  have eq: "{i. i < ?n \<and> ?owned i} = {i. i < length ?v \<and> in_use (?v ! i)}"
    using use by (auto simp: in_use_def)
  have flt: "length (filter ?owned [0..<?n]) = card {i. i < ?n \<and> ?owned i}"
    by (simp add: length_filter_conv_card cong: conj_cong)
  have calls: "length (filter ?owned [0..<?n]) = length (filter in_use ?v)"
    unfolding flt eq by (simp add: length_filter_conv_card)
  have ret: "returned (thread_exit th w) = returned w @ map (\<lambda>i. (owner_id (?v ! i), node_value (?v ! i)))
      (filter ?owned [0..<?n])" by (simp add: thread_exit_def Let_def)
  have dl: "distinct (map fst (thread_locals w))" using nd by (simp add: node_inv_def)
  have "storage_sum (\<lambda>v. length (filter in_use v)) (thread_locals w) = length (filter in_use ?v) +
      storage_sum (\<lambda>v. length (filter in_use v)) (filter (\<lambda>(t, u). t \<noteq> th) (thread_locals w))"
    using storage_sum_remove [OF dl th, of "\<lambda>v. length (filter in_use v)"] by (simp add: thread_storage_def)
  then have "held w = length (filter in_use ?v) + held (thread_exit th w)"
    by (simp add: held_sum thread_exit_def Let_def)
  moreover have "distinct (map fst (filter (\<lambda>(t, u). t \<noteq> th) (thread_locals w)))"
    using dl by (rule distinct_map_filter)
  moreover have "index_inv obs (thread_exit th w)"
    by (rule index_inv_frame [OF ix]) (simp_all add: thread_exit_def Let_def)
  ultimately show "tls_inv obs (thread_exit th w)"
    using cnt nd ret calls unfolding tls_inv_def node_inv_def
    by (auto simp: thread_exit_def Let_def)
  have "set (filter ?owned [0..<?n]) = {i. i < length ?v \<and> in_use (?v ! i)}" using eq by auto
  then show "set (returned (thread_exit th w)) = set (returned w) \<union>
      {(owner_id nd, node_value nd) |nd. nd \<in> set ?v \<and> in_use nd}"
    unfolding ret set_append set_map by (auto simp: in_set_conv_nth)
qed

lemma tls_inv_step: "tls_step dv obs w obs' w' \<Longrightarrow> tls_inv obs w \<Longrightarrow> tls_inv obs' w'"
  by (induction rule: tls_step.induct)
     (blast intro: tls_create_inv tls_destroy_inv tls_get_cases(1) thread_exit_inv(1))+

lemma tls_inv_reachable: "tls_reachable dv obs w \<Longrightarrow> tls_inv obs w"
proof (induction rule: tls_reachable.induct)
  case tls_start
  show ?case by (simp add: tls_inv_def index_inv_def node_inv_def tls_init_def held_def)
next
  case (tls_next obs w obs' w')
  then show ?case by (blast intro: tls_inv_step)
qed

section \<open>Properties\<close>

text \<open>Claim C23: Storage boxes are never shared. In every reachable state the live objects have
  distinct box indices, each recorded as its owner, no live object's index is available for
  reuse, and every index is either available or owned.\<close>

theorem storage_index_unique:
  assumes "tls_reachable dv obs w"
  shows "distinct (map my_index obs) \<and> (\<forall>ob \<in> set obs. s_owners w ! my_index ob = my_id ob)
    \<and> set (map my_index obs) \<inter> set (s_available w) = {}
    \<and> set (map my_index obs) \<union> set (s_available w) = {..<length (s_owners w)}"
  using tls_inv_reachable [OF assms] unfolding tls_inv_def index_inv_def by auto

text \<open>\<open>get\<close> returns the calling thread's own value. The first use on a thread gives the
  object's default, every later use the value the thread's box holds; no other thread's and no
  other object's box changes.\<close>

theorem storage_get_own:
  assumes "tls_reachable dv obs w" and "ob \<in> set obs" and "tls_get dv th ob w = (x, w')"
  shows "(node_of ob (thread_storage th w) \<longrightarrow> x = node_value (thread_storage th w ! my_index ob))
    \<and> (\<forall>d. \<not> node_of ob (thread_storage th w) \<longrightarrow> default_value ob = Some d \<longrightarrow> x = d)
    \<and> node_of ob (thread_storage th w') \<and> node_value (thread_storage th w' ! my_index ob) = x
    \<and> (\<forall>t. t \<noteq> th \<longrightarrow> thread_storage t w' = thread_storage t w)
    \<and> (\<forall>o' \<in> set obs. o' \<noteq> ob \<longrightarrow> node_of o' (thread_storage th w) \<longrightarrow>
          thread_storage th w' ! my_index o' = thread_storage th w ! my_index o')"
proof -
  have inv: "tls_inv obs w" using assms(1) by (rule tls_inv_reachable)
  then have ix: "index_inv obs w" by (simp add: tls_inv_def)
  note c = tls_get_cases [OF inv assms(2,3)]
  have o: "owner_id (thread_storage th w' ! my_index ob) = my_id ob"
    "node_value (thread_storage th w' ! my_index ob) = x"
    by (subst c(2), simp)+
  have "thread_storage th w' ! my_index o' = thread_storage th w ! my_index o'"
    if "o' \<in> set obs" "o' \<noteq> ob" "node_of o' (thread_storage th w)" for o'
    using c(5) [of "my_index o'"] index_inv_ids(4) [OF ix that(1) assms(2)] that(2,3)
    by (auto simp: node_of_def)
  with c o show ?thesis unfolding node_of_def by blast
qed

text \<open>Every value an object with a return function handed out is returned exactly once,
  when the object is destroyed or the thread ends: values created are the values returned plus
  the values held by threads, and nothing is held once no object is left.\<close>

theorem storage_returns_once:
  assumes "tls_reachable dv obs w"
  shows "created w = length (returned w) + held w \<and> (obs = [] \<longrightarrow> held w = 0)"
proof -
  have inv: "tls_inv obs w" using assms by (rule tls_inv_reachable)
  have "held w = 0" if "obs = []"
  proof -
    have "filter in_use v = []" if v: "(th, v) \<in> set (thread_locals w)" for th v
      using inv v \<open>obs = []\<close> unfolding tls_inv_def node_inv_def in_use_def filter_empty_conv
      by (fastforce simp: in_set_conv_nth)
    then show ?thesis by (auto simp: held_def)
  qed
  with inv show ?thesis by (simp add: tls_inv_def)
qed

subsection \<open>Concrete runs\<close>

text \<open>Two objects with defaults 10 and 20 and return functions; thread 0 uses the first.\<close>

definition tls_two :: "nat tls_object list \<times> nat tls_world" where
  "tls_two = (case tls_create (Some 10) True tls_init of (a, w1) \<Rightarrow>
     case tls_create (Some 20) True w1 of (b, w2) \<Rightarrow> ([a, b], w2))"

abbreviation tls_ob :: "nat tls_object" where
  "tls_ob \<equiv> \<lparr>my_id = 1, my_index = 0, default_value = Some 10, return_function = True\<rparr>"

lemma tls_two_value: "tls_two = ([tls_ob, \<lparr>my_id = 2, my_index = 1, default_value = Some 20, return_function = True\<rparr>],
    \<lparr>s_id = 3, s_available = [], s_owners = [1, 2], thread_locals = [], returned = [], created = 0\<rparr>)"
  by (simp add: tls_two_def tls_create_def get_index_def tls_init_def)

lemma tls_two_reachable: "tls_reachable 0 (fst tls_two) (snd tls_two)"
proof -
  obtain a w1 where a: "tls_create (Some (10::nat)) True tls_init = (a, w1)" by fastforce
  obtain b w2 where b: "tls_create (Some 20) True w1 = (b, w2)" by fastforce
  have "tls_reachable 0 [a] w1" using tls_next [OF tls_start t_create [OF a]] by simp
  then have "tls_reachable 0 ([a] @ [b]) w2" by (rule tls_next [OF _ t_create [OF b]])
  then show ?thesis using a b by (simp add: tls_two_def)
qed

lemma tls_two_got:
  "tls_get 0 0 tls_ob (snd tls_two) = (10, (snd tls_two)\<lparr>created := 1,
     thread_locals := [(0, [\<lparr>owner_id = 1, node_value = 10, has_return = True\<rparr>])]\<rparr>)"
  by (simp add: tls_two_value tls_get_def thread_storage_def resize_def new_node_def set_storage_def Let_def)

theorem storage_index_unique_witness: "distinct (map my_index (fst tls_two))"
  using storage_index_unique [OF tls_two_reachable] by simp

theorem storage_get_own_witness:
  "node_value (thread_storage 0 (snd (tls_get 0 0 tls_ob (snd tls_two))) ! 0) = 10"
proof -
  have "tls_ob \<in> set (fst tls_two)" by (simp add: tls_two_value)
  from storage_get_own [OF tls_two_reachable this tls_two_got, THEN conjunct2, THEN conjunct2,
      THEN conjunct2, THEN conjunct1]
  show ?thesis unfolding tls_two_got by simp
qed

theorem storage_returns_once_witness:
  "created (snd (tls_get 0 0 tls_ob (snd tls_two))) = 1 \<and> held (snd (tls_get 0 0 tls_ob (snd tls_two))) = 1"
proof -
  have "tls_ob \<in> set (fst tls_two)" by (simp add: tls_two_value)
  from storage_returns_once [OF tls_next [OF tls_two_reachable t_get [OF this tls_two_got]]]
  show ?thesis unfolding tls_two_got snd_conv by (simp add: tls_two_value)
qed

end
