(* ===== verification/ListQueues.thy ===== *)
theory ListQueues
  imports Fifo
begin

text \<open>
  Model of \<open>core/concurrency\<close>: the node allocator \<open>detail::ListNodeAllocator\<close>, the linked
  queue \<open>detail::ListQueue\<close> over it with its two front ends \<open>SpscListQueue\<close> and
  \<open>SpmcListQueue\<close>, and \<open>ObjectPool\<close>. A node is a number; the heap maps it to its \<open>_next\<close>
  and \<open>_data\<close>. Nodes are allocated in blocks and recycled through a free list, never returned to
  the system before the allocator dies.

  The operations are run one after the other; the consumer of a multi-consumer queue, which
  takes the tail pointer away while it works, is also modelled in two halves, so that a
  producer and other consumers can run in between.
\<close>

section \<open>The node allocator\<close>

record 'a allocator =
  alloc_size :: nat
  node_count :: nat
  nxt :: "nat \<Rightarrow> nat option"
  dat :: "nat \<Rightarrow> 'a"
  q_head :: nat
  q_tail :: "nat option"
  free_head :: nat
  free_tail :: "nat option"
  storage :: "nat list"

text \<open>The constructor makes two nodes: the dummy of the queue and the dummy of the free list. The
  storage list records the sizes of the blocks, the empty first one included.\<close>

definition allocator_new :: "nat \<Rightarrow> 'a \<Rightarrow> 'a allocator" where
  "allocator_new n d = \<lparr>alloc_size = n, node_count = 2, nxt = (\<lambda>_. None), dat = (\<lambda>_. d),
     q_head = 0, q_tail = Some 0, free_head = 1, free_tail = Some 1, storage = [0, 2]\<rparr>"

text \<open>\<open>_tryDequeueFreeList\<close>; the outer \<open>None\<close> is the spin on a tail some other thread holds.\<close>

definition try_dequeue_free :: "'a allocator \<Rightarrow> (nat option \<times> 'a allocator) option" where
  "try_dequeue_free a =
     (case free_tail a of
        None \<Rightarrow> None
      | Some node \<Rightarrow>
          Some (case nxt a node of
                  None \<Rightarrow> (None, a)
                | Some next \<Rightarrow> (Some node, a\<lparr>free_tail := Some next, nxt := (nxt a)(node := None)\<rparr>)))"

text \<open>The links of a new block of \<open>n\<close> nodes starting at \<open>b\<close>: node \<open>i\<close> points to node \<open>i - 1\<close>
  for \<open>i\<close> from 2.\<close>

definition block_links :: "nat \<Rightarrow> nat \<Rightarrow> (nat \<Rightarrow> nat option) \<Rightarrow> nat \<Rightarrow> nat option" where
  "block_links b n f = (\<lambda>m. if b + 2 \<le> m \<and> m < b + n then Some (m - 1)
                            else if b \<le> m \<and> m < b + n then None else f m)"

definition alloc_block :: "'a allocator \<Rightarrow> nat \<times> 'a allocator" where
  "alloc_block a =
     (let b = node_count a; n = alloc_size a
      in (b, a\<lparr>node_count := b + n,
               nxt := (block_links b n (nxt a))(free_head a := Some (b + n - 1)),
               free_head := b + 1, storage := storage a @ [n]\<rparr>))"

definition alloc :: "'a allocator \<Rightarrow> (nat \<times> 'a allocator) option" where
  "alloc a =
     (case try_dequeue_free a of
        None \<Rightarrow> None
      | Some (None, a') \<Rightarrow> Some (alloc_block a')
      | Some (Some node, a') \<Rightarrow> Some (node, a'))"

definition free_node :: "nat \<Rightarrow> 'a allocator \<Rightarrow> 'a allocator" where
  "free_node node a =
     a\<lparr>nxt := ((nxt a)(node := None))(free_head a := Some node), free_head := node\<rparr>"

text \<open>The destructor walks the storage list from its first node and deletes the ones after it; the
  result is what it deletes and what it leaks.\<close>

definition allocator_delete :: "'a allocator \<Rightarrow> nat list \<times> nat list" where
  "allocator_delete a = (tl (storage a), take 1 (storage a))"

section \<open>The queue and its front ends\<close>

definition queue_new :: "'a \<Rightarrow> 'a allocator" where
  "queue_new d = allocator_new 32 d"

definition enqueue_sp :: "'a \<Rightarrow> 'a allocator \<Rightarrow> 'a allocator option" where
  "enqueue_sp x a =
     (case alloc a of
        None \<Rightarrow> None
      | Some (node, a') \<Rightarrow>
          Some (a'\<lparr>dat := (dat a')(node := x), nxt := (nxt a')(q_head a' := Some node), q_head := node\<rparr>))"

text \<open>\<open>enqueueMp\<close>, for several producers, calls what \<open>alloc()\<close> returned: \<open>called\<close> is the result of that
  call, which no instance can compile. The exchange of the head and the link that follows it are apart, since other
  producers run in between.\<close>

definition mp_prepare :: "(nat \<Rightarrow> nat) \<Rightarrow> 'a \<Rightarrow> 'a allocator \<Rightarrow> (nat \<times> 'a allocator) option" where
  "mp_prepare called x a =
     (case alloc a of
        None \<Rightarrow> None
      | Some (n, a') \<Rightarrow> (let node = called n in Some (node, a'\<lparr>dat := (dat a')(node := x)\<rparr>)))"

definition mp_exchange :: "nat \<Rightarrow> 'a allocator \<Rightarrow> nat \<times> 'a allocator" where
  "mp_exchange node a = (q_head a, a\<lparr>q_head := node\<rparr>)"

definition mp_link :: "nat \<Rightarrow> nat \<Rightarrow> 'a allocator \<Rightarrow> 'a allocator" where
  "mp_link prev_head node a = a\<lparr>nxt := (nxt a)(prev_head := Some node)\<rparr>"

definition enqueue_mp :: "(nat \<Rightarrow> nat) \<Rightarrow> 'a \<Rightarrow> 'a allocator \<Rightarrow> 'a allocator option" where
  "enqueue_mp called x a =
     (case mp_prepare called x a of
        None \<Rightarrow> None
      | Some (node, a1) \<Rightarrow> (case mp_exchange node a1 of (prev_head, a2) \<Rightarrow> Some (mp_link prev_head node a2)))"

definition dequeue_sc :: "'a allocator \<Rightarrow> ('a option \<times> 'a allocator) option" where
  "dequeue_sc a =
     (case q_tail a of
        None \<Rightarrow> None
      | Some t \<Rightarrow>
          Some (case nxt a t of
                  None \<Rightarrow> (None, a)
                | Some next \<Rightarrow> (Some (dat a next), free_node t (a\<lparr>q_tail := Some next\<rparr>))))"

text \<open>\<open>dequeueMc\<close> and \<open>dequeueMcWeak\<close>: exchange the tail with null; the half that follows when the
  tail was not null.\<close>

definition mc_take :: "'a allocator \<Rightarrow> nat option \<times> 'a allocator" where
  "mc_take a = (q_tail a, a\<lparr>q_tail := None\<rparr>)"

definition mc_finish :: "nat \<Rightarrow> 'a allocator \<Rightarrow> 'a option \<times> 'a allocator" where
  "mc_finish t a =
     (case nxt a t of
        None \<Rightarrow> (None, a\<lparr>q_tail := Some t\<rparr>)
      | Some next \<Rightarrow> (Some (dat a next), free_node t (a\<lparr>q_tail := Some next\<rparr>)))"

definition dequeue_mc :: "'a allocator \<Rightarrow> ('a option \<times> 'a allocator) option" where
  "dequeue_mc a = (case mc_take a of (None, a') \<Rightarrow> None | (Some t, a') \<Rightarrow> Some (mc_finish t a'))"

definition dequeue_mc_weak :: "'a allocator \<Rightarrow> 'a option \<times> 'a allocator" where
  "dequeue_mc_weak a = (case mc_take a of (None, a') \<Rightarrow> (None, a') | (Some t, a') \<Rightarrow> mc_finish t a')"

definition spsc_enqueue :: "'a \<Rightarrow> 'a allocator \<Rightarrow> 'a allocator option" where
  "spsc_enqueue x a = enqueue_sp x a"

definition spsc_dequeue :: "'a allocator \<Rightarrow> ('a option \<times> 'a allocator) option" where
  "spsc_dequeue a = dequeue_sc a"

definition spmc_enqueue :: "'a \<Rightarrow> 'a allocator \<Rightarrow> 'a allocator option" where
  "spmc_enqueue x a = enqueue_sp x a"

definition spmc_dequeue :: "'a allocator \<Rightarrow> ('a option \<times> 'a allocator) option" where
  "spmc_dequeue a = dequeue_mc a"

definition spmc_dequeue_weak :: "'a allocator \<Rightarrow> 'a option \<times> 'a allocator" where
  "spmc_dequeue_weak a = dequeue_mc_weak a"

section \<open>Chains in the heap\<close>

fun chain :: "(nat \<Rightarrow> nat option) \<Rightarrow> nat list \<Rightarrow> bool" where
  "chain f [] = False"
| "chain f [x] = (f x = None)"
| "chain f (x # y # zs) = (f x = Some y \<and> chain f (y # zs))"

lemma chain_frame: "chain f xs \<Longrightarrow> (\<And>x. x \<in> set xs \<Longrightarrow> g x = f x) \<Longrightarrow> chain g xs"
  by (induction f xs rule: chain.induct) auto

lemma chain_link:
  "chain f xs \<Longrightarrow> distinct xs \<Longrightarrow> chain f ys \<Longrightarrow> set xs \<inter> set ys = {} \<Longrightarrow>
   chain (f(last xs := Some (hd ys))) (xs @ ys)"
proof (induction f xs rule: chain.induct)
  case (2 f x)
  then obtain y zs where ys: "ys = y # zs" by (cases ys) auto
  with 2 have "chain (f(x := Some y)) (y # zs)" by (intro chain_frame [OF 2(3) [unfolded ys]]) auto
  with ys show ?case by (simp add: fun_upd_def)
next
  case (3 f x y zs)
  then show ?case by (auto split: if_splits)
qed simp

lemma chain_last: "chain f xs \<Longrightarrow> f (last xs) = None"
  by (induction f xs rule: chain.induct) auto

lemma chain_snoc:
  "chain f xs \<Longrightarrow> distinct xs \<Longrightarrow> n \<notin> set xs \<Longrightarrow> f n = None \<Longrightarrow> chain (f(last xs := Some n)) (xs @ [n])"
  using chain_link [of f xs "[n]"] by simp

lemma chain_tl: "chain f (x # y # zs) \<Longrightarrow> chain f (y # zs)"
  by simp

text \<open>\<open>q\<close> is the queue from its dummy to its head, \<open>F\<close> the free list, \<open>U\<close> the nodes in use
  outside both; \<open>t\<close> is the queue's first node, which a consumer may hold.\<close>

definition nodes_ok :: "'a allocator \<Rightarrow> nat list \<Rightarrow> nat list \<Rightarrow> nat set \<Rightarrow> bool" where
  "nodes_ok a q F U \<longleftrightarrow> 2 \<le> alloc_size a \<and> chain (nxt a) q \<and> chain (nxt a) F \<and> distinct (q @ F) \<and>
     (set q \<union> set F) \<inter> U = {} \<and> (\<forall>n \<in> set q \<union> set F \<union> U. n < node_count a) \<and>
     last q = q_head a \<and> free_tail a = Some (hd F) \<and> last F = free_head a"

lemma chain_down:
  "2 \<le> n \<Longrightarrow> chain (block_links b n f) (rev [b + 1..<b + n])"
proof (induction n)
  case (Suc n)
  show ?case
  proof (cases "n = 1")
    case True
    then show ?thesis by (simp add: block_links_def)
  next
    case False
    with Suc have ih: "chain (block_links b n f) (rev [b + 1..<b + n])" by simp
    have "chain (block_links b (Suc n) f) (rev [b + 1..<b + n])"
      by (rule chain_frame [OF ih]) (auto simp: block_links_def)
    moreover have "rev [b + 1..<b + Suc n] = (b + n) # (b + n - 1) # rev [b + 1..<b + n - 1]"
      using False Suc.prems by (cases n) auto
    moreover have "rev [b + 1..<b + n] = (b + n - 1) # rev [b + 1..<b + n - 1]"
      using False Suc.prems by (cases n) auto
    ultimately show ?thesis using False Suc.prems by (simp add: block_links_def)
  qed
qed simp

subsection \<open>The allocator and the queue keep the chains\<close>

lemma chain_not_Nil: "chain f xs \<Longrightarrow> xs \<noteq> []"
  by auto

lemma nodes_okD:
  assumes "nodes_ok a q F U"
  shows "2 \<le> alloc_size a" and "chain (nxt a) q" and "chain (nxt a) F" and "distinct q" and "distinct F"
    and "set q \<inter> set F = {}" and "set q \<inter> U = {}" and "set F \<inter> U = {}"
    and "\<And>n. n \<in> set q \<Longrightarrow> n < node_count a" and "\<And>n. n \<in> set F \<Longrightarrow> n < node_count a"
    and "\<And>n. n \<in> U \<Longrightarrow> n < node_count a"
    and "last q = q_head a" and "free_tail a = Some (hd F)" and "last F = free_head a"
    and "q \<noteq> []" and "F \<noteq> []"
  using assms unfolding nodes_ok_def by (auto dest: chain_not_Nil)

lemma nodes_okI:
  assumes "2 \<le> alloc_size a" and "chain (nxt a) q" and "chain (nxt a) F" and "distinct q" and "distinct F"
    and "set q \<inter> set F = {}" and "set q \<inter> U = {}" and "set F \<inter> U = {}"
    and "\<And>n. n \<in> set q \<Longrightarrow> n < node_count a" and "\<And>n. n \<in> set F \<Longrightarrow> n < node_count a"
    and "\<And>n. n \<in> U \<Longrightarrow> n < node_count a"
    and "last q = q_head a" and "free_tail a = Some (hd F)" and "last F = free_head a"
  shows "nodes_ok a q F U"
  using assms unfolding nodes_ok_def by auto

lemma block_links_old: "m < b \<Longrightarrow> block_links b n f m = f m"
  by (simp add: block_links_def)

lemma alloc_ok:
  assumes ok: "nodes_ok a q F U"
  obtains n a' F' where "alloc a = Some (n, a')" "nodes_ok a' q F' (insert n U)"
    "n \<notin> set q \<union> U" "nxt a' n = None" "q_tail a' = q_tail a" "q_head a' = q_head a" "dat a' = dat a"
proof -
  have "F \<noteq> []" by (rule nodes_okD(16) [OF ok])
  then obtain x F1 where F1: "F = x # F1" by (cases F) auto
  note d = nodes_okD [OF ok, unfolded F1]
  show thesis
  proof (cases F1)
    case Nil
    let ?b = "node_count a" and ?n = "alloc_size a"
    let ?f = "block_links ?b ?n (nxt a)"
    let ?a = "a\<lparr>node_count := ?b + ?n, nxt := ?f(free_head a := Some (?b + ?n - 1)),
               free_head := ?b + 1, storage := storage a @ [?n]\<rparr>"
    have x: "nxt a x = None" "free_tail a = Some x" "free_head a = x" "x < ?b" using d(3,10,13,14) Nil by auto
    then have al: "alloc a = Some (?b, ?a)"
      by (simp add: alloc_def try_dequeue_free_def alloc_block_def Let_def)
    let ?new = "rev [?b + 1..<?b + ?n]"
    have n2: "2 \<le> ?n" by (rule d(1))
    have lt: "m < ?b" if "m \<in> set q \<union> U" for m using d(9,11) that by auto
    have "chain ?f [x]" using x by (simp add: block_links_old)
    moreover have "hd ?new = ?b + ?n - 1" "last ?new = ?b + 1" using n2 by (simp_all add: hd_rev last_rev)
    ultimately have "chain (?f(x := Some (?b + ?n - 1))) ([x] @ ?new)"
      using chain_link [of ?f "[x]" ?new] chain_down [OF n2, of ?b "nxt a"] x(4) by simp
    moreover have "chain (?f(x := Some (?b + ?n - 1))) q"
    proof (rule chain_frame)
      show "chain (nxt a) q" by (rule d(2))
      show "(?f(x := Some (?b + ?n - 1))) m = nxt a m" if "m \<in> set q" for m
        using that lt d(6) by (auto simp: block_links_old)
    qed
    ultimately have c: "chain (nxt ?a) (x # ?new)" "chain (nxt ?a) q" using x by simp_all
    have "?new \<noteq> []" using n2 by simp
    have bn: "set ?new = {?b + 1..<?b + ?n}" by simp
    have "nodes_ok ?a q (x # ?new) (insert ?b U)"
    proof (rule nodes_okI)
      show "distinct (x # ?new)" using x(4) by simp
      show "set q \<inter> set (x # ?new) = {}" using d(6) lt by fastforce
      show "set q \<inter> insert ?b U = {}" using d(7) lt by fastforce
      show "set (x # ?new) \<inter> insert ?b U = {}" using d(8) lt x(4) by fastforce
      show "last (x # ?new) = free_head ?a" using \<open>?new \<noteq> []\<close> \<open>last ?new = ?b + 1\<close> by simp
    qed (use c d n2 x lt in \<open>auto intro: trans_less_add1\<close>)
    moreover have "nxt ?a ?b = None" using x n2 by (simp add: block_links_def)
    moreover have "?b \<notin> set q \<union> U" using lt by blast
    ultimately show thesis by (intro that [OF al]) simp_all
  next
    case (Cons y zs)
    let ?a = "a\<lparr>free_tail := Some y, nxt := (nxt a)(x := None)\<rparr>"
    have x: "nxt a x = Some y" "free_tail a = Some x" using d(3,13) Cons by auto
    then have al: "alloc a = Some (x, ?a)" by (simp add: alloc_def try_dequeue_free_def)
    have "chain ((nxt a)(x := None)) q" by (rule chain_frame [OF d(2)]) (use d(6) in auto)
    moreover have "chain ((nxt a)(x := None)) (y # zs)"
      by (rule chain_frame [of "nxt a"]) (use d(3,5) Cons in auto)
    ultimately have "nodes_ok ?a q (y # zs) (insert x U)"
      by (intro nodes_okI) (use d Cons in auto)
    moreover have "x \<notin> set q \<union> U" using d(6,8) by auto
    ultimately show thesis by (intro that [OF al]) simp_all
  qed
qed

lemma free_node_ok:
  assumes ok: "nodes_ok a q F (insert n U)" and n: "n \<notin> U"
  shows "nodes_ok (free_node n a) q (F @ [n]) U"
proof -
  note d = nodes_okD [OF ok]
  let ?f = "(nxt a)(n := None)"
  have F: "n \<notin> set F" "n \<notin> set q" using d(7,8) by auto
  have "last F \<in> set F" using d(16) by simp
  then have h: "free_head a \<notin> set q" using d(6,14) by auto
  have "chain ?f F" by (rule chain_frame [OF d(3)]) (use F in auto)
  then have "chain (?f(last F := Some n)) (F @ [n])" using chain_snoc [of ?f F n] F d(5) by simp
  moreover have "chain (?f(last F := Some n)) q"
    by (rule chain_frame [OF d(2)]) (use d(14) F h in auto)
  ultimately show ?thesis unfolding free_node_def
    by (intro nodes_okI) (use d F n in auto)
qed

lemma nodes_ok_fields:
  "nodes_ok a q F U \<Longrightarrow> nodes_ok (a\<lparr>q_tail := t\<rparr>) q F U"
  by (simp_all add: nodes_ok_def)

lemma link_ok:
  assumes ok: "nodes_ok a q F (insert n U)" and n: "n \<notin> U" "nxt a n = None"
  shows "nodes_ok (a\<lparr>dat := (dat a)(n := x), nxt := (nxt a)(q_head a := Some n), q_head := n\<rparr>) (q @ [n]) F U"
proof -
  note d = nodes_okD [OF ok]
  have q: "n \<notin> set q" "n \<notin> set F" using d(7,8) by auto
  have "last q \<in> set q" using d(15) by simp
  then have h: "q_head a \<notin> set F" using d(6,12) by auto
  have "chain ((nxt a)(last q := Some n)) (q @ [n])" using chain_snoc [OF d(2,4) q(1) n(2)] .
  moreover have "chain ((nxt a)(last q := Some n)) F"
    by (rule chain_frame [OF d(3)]) (use d(12) h in auto)
  ultimately show ?thesis
    by (intro nodes_okI) (use d q n in auto)
qed

text \<open>What the queue represents: the values of the nodes after the dummy; \<open>held\<close> is whether a
  consumer has taken the tail pointer (and holds the dummy).\<close>

definition list_rep :: "bool \<Rightarrow> 'a allocator \<Rightarrow> 'a list \<Rightarrow> nat \<Rightarrow> bool" where
  "list_rep held a xs t \<longleftrightarrow> (\<exists>q F. nodes_ok a (t # q) F {} \<and> map (dat a) q = xs \<and>
     q_tail a = (if held then None else Some t))"

lemma queue_new_rep: "list_rep False (queue_new d) [] 0"
  unfolding list_rep_def
  by (rule exI [of _ "[]"], rule exI [of _ "[1]"]) (simp add: nodes_ok_def queue_new_def allocator_new_def)

lemma enqueue_rep:
  assumes "list_rep held a xs t"
  shows "\<exists>a'. enqueue_sp x a = Some a' \<and> list_rep held a' (xs @ [x]) t"
proof -
  from assms obtain q F where r: "nodes_ok a (t # q) F {}" "map (dat a) q = xs"
    "q_tail a = (if held then None else Some t)" by (auto simp: list_rep_def)
  obtain n a' F' where n: "alloc a = Some (n, a')" "nodes_ok a' (t # q) F' (insert n {})"
    "n \<notin> set (t # q) \<union> {}" "nxt a' n = None" "q_tail a' = q_tail a" "dat a' = dat a"
    by (rule alloc_ok [OF r(1)])
  let ?a = "a'\<lparr>dat := (dat a')(n := x), nxt := (nxt a')(q_head a' := Some n), q_head := n\<rparr>"
  have "nodes_ok ?a (t # (q @ [n])) F' {}" using link_ok [OF n(2) _ n(4), of x] by simp
  moreover have "map (dat ?a) (q @ [n]) = xs @ [x]" using n(3,6) r(2) by auto
  ultimately have "list_rep held ?a (xs @ [x]) t" using r(3) n(5) unfolding list_rep_def by auto
  then show ?thesis using n(1) by (simp add: enqueue_sp_def)
qed

lemma mc_finish_rep:
  assumes "list_rep True a xs t"
  shows "\<exists>a' t'. mc_finish t a = (head_option xs, a') \<and> list_rep False a' (tl xs) t'"
proof -
  from assms obtain q F where r: "nodes_ok a (t # q) F {}" "map (dat a) q = xs" by (auto simp: list_rep_def)
  show ?thesis
  proof (cases q)
    case Nil
    then have "nxt a t = None" using nodes_okD(2) [OF r(1)] by simp
    then have "mc_finish t a = (None, a\<lparr>q_tail := Some t\<rparr>)" by (simp add: mc_finish_def)
    moreover have "list_rep False (a\<lparr>q_tail := Some t\<rparr>) [] t"
      using r(1) Nil nodes_ok_fields unfolding list_rep_def by fastforce
    ultimately show ?thesis using r(2) Nil by auto
  next
    case (Cons s rest)
    then have nx: "nxt a t = Some s" using nodes_okD(2) [OF r(1)] by simp
    let ?a = "a\<lparr>q_tail := Some s\<rparr>"
    have "nodes_ok ?a (s # rest) F (insert t {})"
      by (rule nodes_okI) (use nodes_okD [OF r(1)] Cons in auto)
    then have "nodes_ok (free_node t ?a) (s # rest) (F @ [t]) {}" by (rule free_node_ok) simp
    moreover have "dat (free_node t ?a) = dat a" "q_tail (free_node t ?a) = Some s" by (simp_all add: free_node_def)
    ultimately have "list_rep False (free_node t ?a) (map (dat a) rest) s"
      unfolding list_rep_def by (intro exI [of _ rest] exI [of _ "F @ [t]"]) simp
    moreover have "mc_finish t a = (Some (dat a s), free_node t ?a)" using nx by (simp add: mc_finish_def)
    ultimately show ?thesis using r(2) Cons by auto
  qed
qed

lemma mc_take_rep: "list_rep False a xs t \<Longrightarrow> mc_take a = (Some t, a\<lparr>q_tail := None\<rparr>) \<and> list_rep True (a\<lparr>q_tail := None\<rparr>) xs t"
  using nodes_ok_fields [where t = None] by (fastforce simp: list_rep_def mc_take_def)

text \<open>All three ways to dequeue agree when no consumer holds the tail.\<close>

lemma dequeue_variants:
  assumes "list_rep False a xs t"
  shows "dequeue_mc a = Some (mc_finish t (a\<lparr>q_tail := None\<rparr>))"
    and "dequeue_mc_weak a = mc_finish t (a\<lparr>q_tail := None\<rparr>)"
    and "dequeue_sc a = Some (mc_finish t (a\<lparr>q_tail := None\<rparr>))"
proof -
  have tail: "q_tail a = Some t" using assms by (auto simp: list_rep_def)
  then have "a\<lparr>q_tail := Some t\<rparr> = a" by simp
  with tail show "dequeue_sc a = Some (mc_finish t (a\<lparr>q_tail := None\<rparr>))"
    by (simp add: dequeue_sc_def mc_finish_def split: option.split)
qed (use mc_take_rep [OF assms] in \<open>simp_all add: dequeue_mc_def dequeue_mc_weak_def\<close>)

lemma dequeue_rep:
  assumes "list_rep False a xs t"
  shows "\<exists>a' t'. dequeue_sc a = Some (head_option xs, a') \<and> dequeue_mc a = Some (head_option xs, a') \<and>
    dequeue_mc_weak a = (head_option xs, a') \<and> list_rep False a' (tl xs) t'"
  using mc_finish_rep [of "a\<lparr>q_tail := None\<rparr>" xs t] mc_take_rep [OF assms] dequeue_variants [OF assms] by auto

definition queue_of :: "'a allocator \<Rightarrow> 'a list \<Rightarrow> bool" where
  "queue_of a xs \<longleftrightarrow> (\<exists>t. list_rep False a xs t)"

lemma queue_of_enqueue: "queue_of a xs \<Longrightarrow> enqueue_sp x a = Some a' \<Longrightarrow> queue_of a' (xs @ [x])"
  unfolding queue_of_def using enqueue_rep [of False a xs _ x] by fastforce

lemma queue_of_dequeue:
  assumes "queue_of a xs"
  shows "\<exists>a'. dequeue_sc a = Some (head_option xs, a') \<and> dequeue_mc a = Some (head_option xs, a') \<and>
    dequeue_mc_weak a = (head_option xs, a') \<and> queue_of a' (tl xs)"
  using assms dequeue_rep unfolding queue_of_def by blast

interpretation spsc_fifo: total_fifo queue_of "\<lambda>_. True" spsc_enqueue spsc_dequeue
proof
  show "spsc_enqueue x a \<noteq> None" if "queue_of a xs" for a xs x
    using that enqueue_rep [of False a xs _ x] by (auto simp: queue_of_def spsc_enqueue_def)
qed (auto simp: spsc_enqueue_def spsc_dequeue_def intro: queue_of_enqueue dest: queue_of_dequeue)

interpretation spmc_fifo: total_fifo queue_of "\<lambda>_. True" spmc_enqueue spmc_dequeue
proof
  show "spmc_enqueue x a \<noteq> None" if "queue_of a xs" for a xs x
    using that enqueue_rep [of False a xs _ x] by (auto simp: queue_of_def spmc_enqueue_def)
qed (auto simp: spmc_enqueue_def spmc_dequeue_def intro: queue_of_enqueue dest: queue_of_dequeue)

lemma queue_new_of: "queue_of (queue_new d) []"
  unfolding queue_of_def by (rule exI, rule queue_new_rep)

section \<open>The object pool\<close>

definition pool_new :: "'a \<Rightarrow> 'a allocator" where
  "pool_new d = allocator_new 32 d"

text \<open>An object is identified with its node (the code subtracts the offset of \<open>_data\<close>).\<close>

definition pool_alloc :: "'a allocator \<Rightarrow> (nat \<times> 'a allocator) option" where
  "pool_alloc a = alloc a"

definition pool_free :: "nat \<Rightarrow> 'a allocator \<Rightarrow> 'a allocator" where
  "pool_free object a = free_node object a"

text \<open>The contract of a pool: what is allocated is not in use, what is freed may be allocated again.
  A client's run is a list of requests; a \<open>Give\<close> of an object the client does not hold is not a
  request a client may make and is skipped.\<close>

datatype pool_op = Take | Give nat

fun pool_exec :: "('s \<Rightarrow> (nat \<times> 's) option) \<Rightarrow> (nat \<Rightarrow> 's \<Rightarrow> 's) \<Rightarrow> pool_op list \<Rightarrow> 's \<Rightarrow> nat set
    \<Rightarrow> (nat list \<times> 's \<times> nat set) option" where
  "pool_exec al fr [] s U = Some ([], s, U)"
| "pool_exec al fr (Take # ops) s U =
     (case al s of
        None \<Rightarrow> None
      | Some (n, s') \<Rightarrow>
          if n \<in> U then None
          else map_option (\<lambda>(ns, r). (n # ns, r)) (pool_exec al fr ops s' (insert n U)))"
| "pool_exec al fr (Give n # ops) s U =
     (if n \<in> U then pool_exec al fr ops (fr n s) (U - {n}) else pool_exec al fr ops s U)"

locale node_pool =
  fixes holds_nodes :: "'s \<Rightarrow> nat set \<Rightarrow> bool"
    and al :: "'s \<Rightarrow> (nat \<times> 's) option"
    and fr :: "nat \<Rightarrow> 's \<Rightarrow> 's"
  assumes alloc_fresh: "holds_nodes s U \<Longrightarrow> \<exists>n s'. al s = Some (n, s') \<and> n \<notin> U \<and> holds_nodes s' (insert n U)"
    and free_back: "holds_nodes s U \<Longrightarrow> n \<in> U \<Longrightarrow> holds_nodes (fr n s) (U - {n})"
begin

lemma exec_total: "holds_nodes s U \<Longrightarrow> \<exists>ns s' U'. pool_exec al fr ops s U = Some (ns, s', U') \<and> holds_nodes s' U'"
proof (induction ops arbitrary: s U)
  case (Cons op ops)
  show ?case
  proof (cases op)
    case Take
    from alloc_fresh [OF Cons.prems] obtain n s' where
      "al s = Some (n, s')" "n \<notin> U" "holds_nodes s' (insert n U)" by blast
    with Cons.IH [of s' "insert n U"] Take show ?thesis by fastforce
  next
    case (Give n)
    with Cons.IH [of s U] Cons.IH [of "fr n s" "U - {n}"] free_back [of s U n] Cons.prems show ?thesis
      by (cases "n \<in> U") auto
  qed
qed simp

end

definition pool_nodes :: "'a allocator \<Rightarrow> nat set \<Rightarrow> bool" where
  "pool_nodes a U \<longleftrightarrow> (\<exists>q F. nodes_ok a q F U)"

interpretation object_pool: node_pool pool_nodes pool_alloc pool_free
proof
  show "\<exists>n s'. pool_alloc s = Some (n, s') \<and> n \<notin> U \<and> pool_nodes s' (insert n U)"
    if "pool_nodes s U" for s :: "'a allocator" and U
  proof -
    from that obtain q F where ok: "nodes_ok s q F U" by (auto simp: pool_nodes_def)
    obtain n s' F' where "alloc s = Some (n, s')" "nodes_ok s' q F' (insert n U)" "n \<notin> set q \<union> U"
      by (rule alloc_ok [OF ok])
    then show ?thesis by (auto simp: pool_alloc_def pool_nodes_def)
  qed
  show "pool_nodes (pool_free n s) (U - {n})" if "pool_nodes s U" "n \<in> U" for s :: "'a allocator" and U n
  proof -
    from that obtain q F where "nodes_ok s q F (insert n (U - {n}))"
      by (auto simp: pool_nodes_def insert_absorb)
    from free_node_ok [OF this] show ?thesis by (auto simp: pool_nodes_def pool_free_def)
  qed
qed

lemma pool_new_nodes: "pool_nodes (pool_new d) {}"
  unfolding pool_nodes_def
  by (rule exI [of _ "[0]"], rule exI [of _ "[1]"]) (simp add: nodes_ok_def pool_new_def allocator_new_def)

section \<open>Properties\<close>

text \<open>Both front ends are FIFO queues, and total. Any sequence of enqueues and dequeues on a
  new queue, over any number of recycled and newly allocated nodes, runs to its end and gives
  each dequeue the oldest element not dequeued yet; the single- and the multi-consumer dequeue
  give the same.\<close>

theorem list_queue_fifo:
  "\<exists>a b. fifo_run spsc_enqueue spsc_dequeue ops (queue_new d) = Some (fst (fifo_spec ops []), a)
     \<and> fifo_run spmc_enqueue spmc_dequeue ops (queue_new d) = Some (fst (fifo_spec ops []), b)
     \<and> queue_of a (snd (fifo_spec ops [])) \<and> queue_of b (snd (fifo_spec ops []))"
proof -
  have g: "all_enq (\<lambda>_. True) ops" by (simp add: all_enq_def)
  from spsc_fifo.run_total [OF queue_new_of g] spmc_fifo.run_total [OF queue_new_of g]
  show ?thesis by blast
qed

fun enqueue_all :: "'a list \<Rightarrow> 'a allocator \<Rightarrow> 'a allocator option" where
  "enqueue_all [] a = Some a"
| "enqueue_all (x # xs) a = (case spmc_enqueue x a of None \<Rightarrow> None | Some a' \<Rightarrow> enqueue_all xs a')"

lemma enqueue_all_rep:
  "list_rep h a xs t \<Longrightarrow> \<exists>a'. enqueue_all ys a = Some a' \<and> list_rep h a' (xs @ ys) t"
proof (induction ys arbitrary: a xs)
  case (Cons y ys)
  from enqueue_rep [OF Cons.prems, of y] obtain a1 where
    "enqueue_sp y a = Some a1" "list_rep h a1 (xs @ [y]) t" by blast
  with Cons.IH [of a1 "xs @ [y]"] show ?case by (simp add: spmc_enqueue_def)
qed simp

text \<open>A consumer that has taken the tail pointer may be overtaken. While it holds the
  pointer, any enqueues succeed, every weak dequeue returns false without changing anything,
  every strong dequeue spins, and the consumer then takes the oldest element of the queue as it
  is by then.\<close>

theorem mc_dequeue_interleaved:
  assumes "queue_of a xs" and "mc_take a = (Some t, a1)"
  shows "\<exists>a2 a3. enqueue_all ys a1 = Some a2 \<and> spmc_dequeue_weak a2 = (None, a2) \<and> spmc_dequeue a2 = None
    \<and> mc_finish t a2 = (head_option (xs @ ys), a3) \<and> queue_of a3 (tl (xs @ ys))"
proof -
  from assms(1) obtain t' where r: "list_rep False a xs t'" by (auto simp: queue_of_def)
  from mc_take_rep [OF r] assms(2) have t: "t' = t" "a1 = a\<lparr>q_tail := None\<rparr>" "list_rep True a1 xs t" by auto
  obtain a2 where a2: "enqueue_all ys a1 = Some a2" "list_rep True a2 (xs @ ys) t"
    using enqueue_all_rep [OF t(3)] by blast
  obtain a3 t3 where a3: "mc_finish t a2 = (head_option (xs @ ys), a3)" "list_rep False a3 (tl (xs @ ys)) t3"
    using mc_finish_rep [OF a2(2)] by blast
  have "q_tail a2 = None" using a2(2) by (auto simp: list_rep_def)
  then have "spmc_dequeue_weak a2 = (None, a2)" "spmc_dequeue a2 = None"
    by (simp_all add: spmc_dequeue_weak_def dequeue_mc_weak_def spmc_dequeue_def dequeue_mc_def mc_take_def)
  with a2(1) a3 show ?thesis unfolding queue_of_def by blast
qed

theorem mc_dequeue_interleaved_witness:
  "\<exists>a2 a3. enqueue_all [5] ((queue_new (0::nat))\<lparr>q_tail := None\<rparr>) = Some a2 \<and> mc_finish 0 a2 = (Some 5, a3)"
  using mc_dequeue_interleaved [OF queue_new_of, of 0 0 "(queue_new 0)\<lparr>q_tail := None\<rparr>" "[5]"]
  by (auto simp: mc_take_def queue_new_def allocator_new_def)

text \<open>When calling a node is the node itself, \<open>enqueueMp\<close> that runs alone is \<open>enqueueSp\<close>.\<close>

theorem enqueue_mp_alone: "enqueue_mp id x a = enqueue_sp x a"
  by (simp add: enqueue_mp_def mp_prepare_def mp_exchange_def mp_link_def enqueue_sp_def split: option.splits)

lemma mp_prepare_ok:
  assumes "nodes_ok a q F U" and "mp_prepare id x a = Some (n, a')"
  shows "\<exists>F'. nodes_ok a' q F' (insert n U) \<and> n \<notin> set q \<union> U \<and> q_tail a' = q_tail a \<and> q_head a' = q_head a \<and>
    dat a' = (dat a)(n := x)"
proof -
  obtain m a1 F' where m: "alloc a = Some (m, a1)" "nodes_ok a1 q F' (insert m U)" "m \<notin> set q \<union> U"
    "q_tail a1 = q_tail a" "q_head a1 = q_head a" "dat a1 = dat a" by (rule alloc_ok [OF assms(1)])
  with assms(2) have "n = m" "a' = a1\<lparr>dat := (dat a1)(n := x)\<rparr>" by (auto simp: mp_prepare_def)
  with m show ?thesis by (intro exI [of _ F']) (simp add: nodes_ok_def)
qed

text \<open>A producer that has returned from \<open>enqueueMp\<close> may not see its value in the queue: while another one
  is between its exchange and its link, a consumer finds the empty queue empty. The link brings both
  values back, that of the slower producer first.\<close>

theorem enqueue_mp_hides:
  assumes "queue_of a []" and "mp_prepare id x a = Some (m, a1)" and "mp_prepare id y a1 = Some (n, a2)"
    and "mp_exchange m a2 = (h, a3)" and "mp_exchange n a3 = (g, a4)"
  shows "(\<exists>b. dequeue_sc (mp_link g n a4) = Some (None, b)) \<and>
    (\<exists>b c. dequeue_sc (mp_link h m (mp_link g n a4)) = Some (Some x, b) \<and> dequeue_sc b = Some (Some y, c))"
proof -
  from assms(1) obtain t F where t: "nodes_ok a [t] F {}" "q_tail a = Some t" by (auto simp: queue_of_def list_rep_def)
  from mp_prepare_ok [OF t(1) assms(2)] obtain F1 where m: "nodes_ok a1 [t] F1 {m}" "m \<noteq> t"
    "q_tail a1 = Some t" "dat a1 m = x" using t(2) by auto
  from mp_prepare_ok [OF m(1) assms(3)] obtain F2 where n: "nodes_ok a2 [t] F2 {n, m}" "n \<noteq> t" "n \<noteq> m"
    "q_tail a2 = Some t" "dat a2 m = x" "dat a2 n = y" using m by auto
  have "last F2 \<in> set F2" using nodes_okD(16) [OF n(1)] by simp
  with n(1) have h: "q_head a2 = t" "nxt a2 t = None" "free_head a2 \<noteq> m" by (auto simp: nodes_ok_def)
  with assms(4,5) have e: "h = t" "g = m" "a4 = a2\<lparr>q_head := n\<rparr>" by (auto simp: mp_exchange_def)
  from h n(2-6) m(2) show ?thesis
    by (simp add: e mp_link_def dequeue_sc_def free_node_def)
qed

theorem enqueue_mp_hides_witness:
  "\<exists>a1 m a2 n a3 g a4 b. mp_prepare id 5 (queue_new (0::nat)) = Some (m, a1) \<and> mp_prepare id 6 a1 = Some (n, a2) \<and>
     mp_exchange n (snd (mp_exchange m a2)) = (g, a4) \<and> dequeue_sc (mp_link g n a4) = Some (None, b)"
proof -
  obtain m a1 where m: "mp_prepare id 5 (queue_new (0::nat)) = Some (m, a1)"
    by (simp add: mp_prepare_def alloc_def try_dequeue_free_def queue_new_def allocator_new_def Let_def alloc_block_def)
  obtain t F where "nodes_ok (queue_new (0::nat)) [t] F {}" using queue_new_of [of 0] by (auto simp: queue_of_def list_rep_def)
  from mp_prepare_ok [OF this m] obtain F1 where "nodes_ok a1 [t] F1 {m}" by blast
  then obtain n a2 where n: "mp_prepare id 6 a1 = Some (n, a2)"
    by (rule alloc_ok) (simp add: mp_prepare_def)
  obtain h a3 g a4 where e: "mp_exchange m a2 = (h, a3)" "mp_exchange n a3 = (g, a4)" by (simp add: mp_exchange_def)
  from enqueue_mp_hides [OF queue_new_of m n e] m n e show ?thesis by auto
qed

text \<open>The pool never hands out an object that is in use and never spins. Any sequence of
  allocations and releases of held objects on a new pool runs to its end, every object
  allocated being different from all those held at that moment.\<close>

theorem pool_never_aliases:
  "\<exists>ns a U. pool_exec pool_alloc pool_free ops (pool_new d) {} = Some (ns, a, U) \<and> pool_nodes a U"
  by (rule object_pool.exec_total [OF pool_new_nodes])

section \<open>The pool over boost::pool\<close>

text \<open>\<open>detail::ObjectPool\<close> (core/detail/ObjectPool.hpp). The pool of Boost is a parameter: \<open>malloc\<close> gives
  a chunk or null, \<open>free\<close> takes one back.\<close>

record 'p boost_pool =
  bp_malloc :: "'p \<Rightarrow> nat option \<times> 'p"
  bp_free :: "nat \<Rightarrow> 'p \<Rightarrow> 'p"

datatype allocation_error = BadAlloc

definition boost_allocate :: "'p boost_pool \<Rightarrow> 'p \<Rightarrow> allocation_error + (nat \<times> 'p)" where
  "boost_allocate bp p = (case bp_malloc bp p of (None, p') \<Rightarrow> Inl BadAlloc | (Some a, p') \<Rightarrow> Inr (a, p'))"

definition boost_free :: "'p boost_pool \<Rightarrow> nat option \<Rightarrow> 'p \<Rightarrow> 'p" where
  "boost_free bp a p = (case a of None \<Rightarrow> p | Some x \<Rightarrow> bp_free bp x p)"

lemma boost_pool_roundtrip:
  assumes "\<And>p a p'. bp_malloc bp p = (Some a, p') \<Longrightarrow> a \<notin> held p \<and> held p' = insert a (held p)"
    and "\<And>p a. held (bp_free bp a p) = held p - {a}"
    and "boost_allocate bp p = Inr (a, p')"
  shows "a \<notin> held p \<and> a \<in> held p' \<and> held (boost_free bp (Some a) p') = held p \<and> boost_free bp None p' = p'"
proof -
  have "bp_malloc bp p = (Some a, p')" using assms(3) by (auto simp: boost_allocate_def split: option.splits prod.splits)
  from assms(1) [OF this] show ?thesis by (auto simp: boost_free_def assms(2))
qed

end
