(* ===== verification/ListThreads.thy ===== *)
theory ListThreads
  imports ListQueues
begin

text \<open>
  The node allocator, the list queue and the object pool under concurrency
  (core/concurrency/detail/ListNodeAllocator.hpp, ListQueue.hpp): every access of a member function
  to a shared pointer is a step of its thread, any number of threads, sequentially consistent memory.
  A thread is inside one member function at a time, at a program counter of type \<open>lq_pc\<close> that carries
  the local variables. One system has the clients of the queue and those of the pool.

  The clients keep the contracts in the names of the functions: one thread at a time enqueues,
  and \<open>dequeueSc\<close> is called while no other thread dequeues. Memory of the nodes is never returned before
  the allocator dies, so a node is a number for ever.
\<close>

section \<open>Threads\<close>

datatype 'a node_use = ForQueue 'a | ForPool

datatype 'a lq_pc =
    Outside
  | TakeFree "'a node_use"                  \<comment> \<open>\<open>_tryDequeueFreeList\<close>: exchange the tail\<close>
  | NextFree "'a node_use" nat              \<comment> \<open>load \<open>node->_next\<close>\<close>
  | PutBackFree "'a node_use" nat           \<comment> \<open>no next node: store the tail again\<close>
  | AdvanceFree "'a node_use" nat nat       \<comment> \<open>store the next node in the tail\<close>
  | ClearNode "'a node_use" nat             \<comment> \<open>clear \<open>node->_next\<close>\<close>
  | NewBlock "'a node_use"                  \<comment> \<open>\<open>alloc\<close>: make a block of nodes\<close>
  | SpliceBlock "'a node_use" nat           \<comment> \<open>exchange the head of the free list\<close>
  | LinkBlock "'a node_use" nat nat         \<comment> \<open>link the previous head to the block\<close>
  | KeepBlock "'a node_use" nat             \<comment> \<open>append the block to the storage list\<close>
  | WriteData 'a nat                        \<comment> \<open>\<open>enqueueSp\<close>: write the data\<close>
  | ReadHead 'a nat                         \<comment> \<open>load the head\<close>
  | LinkNode 'a nat nat                     \<comment> \<open>link the head to the node\<close>
  | MoveHead nat                            \<comment> \<open>store the head\<close>
  | TakeTail bool                           \<comment> \<open>\<open>dequeueMc\<close>, \<open>dequeueMcWeak\<close> (true): exchange the tail\<close>
  | LoadTail                                \<comment> \<open>\<open>dequeueSc\<close>: load the tail\<close>
  | ReadNext bool nat                       \<comment> \<open>load \<open>tail->_next\<close>; true for \<open>dequeueSc\<close>\<close>
  | PutBackTail nat                         \<comment> \<open>no next node: exchange the tail back\<close>
  | ReadData bool nat nat                   \<comment> \<open>move the data out\<close>
  | MoveTail bool nat nat 'a                \<comment> \<open>store the next node in the tail\<close>
  | FreeClear nat                           \<comment> \<open>\<open>free\<close>: clear \<open>node->_next\<close>\<close>
  | FreeSwap nat                            \<comment> \<open>exchange the head of the free list\<close>
  | FreeLink nat nat                        \<comment> \<open>link the previous head to the node\<close>

text \<open>What a step shows: a queue operation takes effect, or the pool hands out a node.\<close>

datatype 'a lq_effect = Silent | Entered 'a | Left 'a | FoundEmpty | Handed nat

fun give :: "'a node_use \<Rightarrow> nat \<Rightarrow> 'a lq_pc \<times> 'a lq_effect" where
  "give (ForQueue x) n = (WriteData x n, Silent)"
| "give ForPool n = (Outside, Handed n)"

text \<open>One access; \<open>None\<close> for a counter of another function.\<close>

text \<open>\<open>alloc\<close> with \<open>_tryDequeueFreeList\<close>; the block is built before it is shared.\<close>

fun alloc_access :: "'a lq_pc \<Rightarrow> 'a allocator \<Rightarrow> (('a lq_pc \<times> 'a lq_effect) \<times> 'a allocator) option" where
  "alloc_access (TakeFree k) a =
     Some (case free_tail a of
        None \<Rightarrow> ((TakeFree k, Silent), a)
      | Some n \<Rightarrow> ((NextFree k n, Silent), a\<lparr>free_tail := None\<rparr>))"
| "alloc_access (NextFree k n) a =
     Some (case nxt a n of None \<Rightarrow> ((PutBackFree k n, Silent), a) | Some m \<Rightarrow> ((AdvanceFree k n m, Silent), a))"
| "alloc_access (PutBackFree k n) a =
     Some ((NewBlock k, Silent), a\<lparr>free_tail := Some n\<rparr>)"
| "alloc_access (AdvanceFree k n m) a =
     Some ((ClearNode k n, Silent), a\<lparr>free_tail := Some m\<rparr>)"
| "alloc_access (ClearNode k n) a =
     Some (give k n, a\<lparr>nxt := (nxt a)(n := None)\<rparr>)"
| "alloc_access (NewBlock k) a =
     Some (let b = node_count a; n = alloc_size a
      in ((SpliceBlock k b, Silent), a\<lparr>node_count := b + n, nxt := block_links b n (nxt a)\<rparr>))"
| "alloc_access (SpliceBlock k b) a =
     Some ((LinkBlock k b (free_head a), Silent), a\<lparr>free_head := b + 1\<rparr>)"
| "alloc_access (LinkBlock k b p) a =
     Some ((KeepBlock k b, Silent), a\<lparr>nxt := (nxt a)(p := Some (b + alloc_size a - 1))\<rparr>)"
| "alloc_access (KeepBlock k b) a =
     Some (give k b, a\<lparr>storage := storage a @ [alloc_size a]\<rparr>)"
| "alloc_access _ a = None"

text \<open>\<open>free\<close>.\<close>

fun free_access :: "'a lq_pc \<Rightarrow> 'a allocator \<Rightarrow> (('a lq_pc \<times> 'a lq_effect) \<times> 'a allocator) option" where
  "free_access (FreeClear n) a =
     Some ((FreeSwap n, Silent), a\<lparr>nxt := (nxt a)(n := None)\<rparr>)"
| "free_access (FreeSwap n) a =
     Some ((FreeLink n (free_head a), Silent), a\<lparr>free_head := n\<rparr>)"
| "free_access (FreeLink n p) a =
     Some ((Outside, Silent), a\<lparr>nxt := (nxt a)(p := Some n)\<rparr>)"
| "free_access _ a = None"

text \<open>\<open>enqueueSp\<close>, after its call of \<open>alloc\<close>.\<close>

fun enqueue_access :: "'a lq_pc \<Rightarrow> 'a allocator \<Rightarrow> (('a lq_pc \<times> 'a lq_effect) \<times> 'a allocator) option" where
  "enqueue_access (WriteData x n) a =
     Some ((ReadHead x n, Silent), a\<lparr>dat := (dat a)(n := x)\<rparr>)"
| "enqueue_access (ReadHead x n) a =
     Some ((LinkNode x n (q_head a), Silent), a)"
| "enqueue_access (LinkNode x n h) a =
     Some ((MoveHead n, Entered x), a\<lparr>nxt := (nxt a)(h := Some n)\<rparr>)"
| "enqueue_access (MoveHead n) a =
     Some ((Outside, Silent), a\<lparr>q_head := n\<rparr>)"
| "enqueue_access _ a = None"

text \<open>\<open>dequeueSc\<close>, \<open>dequeueMc\<close> and \<open>dequeueMcWeak\<close>, up to their call of \<open>free\<close>.\<close>

fun dequeue_access :: "'a lq_pc \<Rightarrow> 'a allocator \<Rightarrow> (('a lq_pc \<times> 'a lq_effect) \<times> 'a allocator) option" where
  "dequeue_access (TakeTail weak) a =
     Some (case q_tail a of
        None \<Rightarrow> ((if weak then Outside else TakeTail weak, Silent), a)
      | Some n \<Rightarrow> ((ReadNext False n, Silent), a\<lparr>q_tail := None\<rparr>))"
| "dequeue_access LoadTail a =
     Some (case q_tail a of None \<Rightarrow> ((LoadTail, Silent), a) | Some n \<Rightarrow> ((ReadNext True n, Silent), a))"
| "dequeue_access (ReadNext sc n) a =
     Some (case nxt a n of
        None \<Rightarrow> ((if sc then Outside else PutBackTail n, FoundEmpty), a)
      | Some m \<Rightarrow> ((ReadData sc n m, Silent), a))"
| "dequeue_access (PutBackTail n) a =
     Some ((Outside, Silent), a\<lparr>q_tail := Some n\<rparr>)"
| "dequeue_access (ReadData sc n m) a =
     Some ((MoveTail sc n m (dat a m), Silent), a)"
| "dequeue_access (MoveTail sc n m x) a =
     Some ((FreeClear n, Left x), a\<lparr>q_tail := Some m\<rparr>)"
| "dequeue_access _ a = None"

text \<open>A thread outside of the functions does nothing.\<close>

definition lq_advance :: "'a lq_pc \<Rightarrow> 'a allocator \<Rightarrow> ('a lq_pc \<times> 'a lq_effect) \<times> 'a allocator" where
  "lq_advance pc a =
     (case alloc_access pc a of Some r \<Rightarrow> r
      | None \<Rightarrow> (case free_access pc a of Some r \<Rightarrow> r
      | None \<Rightarrow> (case enqueue_access pc a of Some r \<Rightarrow> r
      | None \<Rightarrow> (case dequeue_access pc a of Some r \<Rightarrow> r | None \<Rightarrow> ((pc, Silent), a)))))"

lemma lq_advance_simps [simp]:
  "lq_advance Outside a = ((Outside, Silent), a)"
  "lq_advance (TakeFree k) a =
     (case free_tail a of
        None \<Rightarrow> ((TakeFree k, Silent), a)
      | Some n \<Rightarrow> ((NextFree k n, Silent), a\<lparr>free_tail := None\<rparr>))"
  "lq_advance (NextFree k n) a =
     (case nxt a n of None \<Rightarrow> ((PutBackFree k n, Silent), a) | Some m \<Rightarrow> ((AdvanceFree k n m, Silent), a))"
  "lq_advance (PutBackFree k n) a = ((NewBlock k, Silent), a\<lparr>free_tail := Some n\<rparr>)"
  "lq_advance (AdvanceFree k n m) a = ((ClearNode k n, Silent), a\<lparr>free_tail := Some m\<rparr>)"
  "lq_advance (ClearNode k n) a = (give k n, a\<lparr>nxt := (nxt a)(n := None)\<rparr>)"
  "lq_advance (NewBlock k) a =
     (let b = node_count a; n = alloc_size a
      in ((SpliceBlock k b, Silent), a\<lparr>node_count := b + n, nxt := block_links b n (nxt a)\<rparr>))"
  "lq_advance (SpliceBlock k b) a = ((LinkBlock k b (free_head a), Silent), a\<lparr>free_head := b + 1\<rparr>)"
  "lq_advance (LinkBlock k b p) a =
     ((KeepBlock k b, Silent), a\<lparr>nxt := (nxt a)(p := Some (b + alloc_size a - 1))\<rparr>)"
  "lq_advance (KeepBlock k b) a = (give k b, a\<lparr>storage := storage a @ [alloc_size a]\<rparr>)"
  "lq_advance (WriteData x n) a = ((ReadHead x n, Silent), a\<lparr>dat := (dat a)(n := x)\<rparr>)"
  "lq_advance (ReadHead x n) a = ((LinkNode x n (q_head a), Silent), a)"
  "lq_advance (LinkNode x n h) a = ((MoveHead n, Entered x), a\<lparr>nxt := (nxt a)(h := Some n)\<rparr>)"
  "lq_advance (MoveHead n) a = ((Outside, Silent), a\<lparr>q_head := n\<rparr>)"
  "lq_advance (TakeTail weak) a =
     (case q_tail a of
        None \<Rightarrow> ((if weak then Outside else TakeTail weak, Silent), a)
      | Some n \<Rightarrow> ((ReadNext False n, Silent), a\<lparr>q_tail := None\<rparr>))"
  "lq_advance LoadTail a =
     (case q_tail a of None \<Rightarrow> ((LoadTail, Silent), a) | Some n \<Rightarrow> ((ReadNext True n, Silent), a))"
  "lq_advance (ReadNext sc n) a =
     (case nxt a n of
        None \<Rightarrow> ((if sc then Outside else PutBackTail n, FoundEmpty), a)
      | Some m \<Rightarrow> ((ReadData sc n m, Silent), a))"
  "lq_advance (PutBackTail n) a = ((Outside, Silent), a\<lparr>q_tail := Some n\<rparr>)"
  "lq_advance (ReadData sc n m) a = ((MoveTail sc n m (dat a m), Silent), a)"
  "lq_advance (MoveTail sc n m x) a = ((FreeClear n, Left x), a\<lparr>q_tail := Some m\<rparr>)"
  "lq_advance (FreeClear n) a = ((FreeSwap n, Silent), a\<lparr>nxt := (nxt a)(n := None)\<rparr>)"
  "lq_advance (FreeSwap n) a = ((FreeLink n (free_head a), Silent), a\<lparr>free_head := n\<rparr>)"
  "lq_advance (FreeLink n p) a = ((Outside, Silent), a\<lparr>nxt := (nxt a)(p := Some n)\<rparr>)"
  by (simp_all add: lq_advance_def Let_def split: option.split)

text \<open>The system: the heap, the threads, the objects clients of the pool hold, and the queue operations
  that have taken effect, oldest first, each dequeue with what it found.\<close>

record 'a lq_sys =
  lq_heap :: "'a allocator"
  lq_pcs :: "nat \<Rightarrow> 'a lq_pc"
  lq_held :: "nat set"
  lq_log :: "('a fifo_op \<times> 'a option) list"

definition lq_start :: "nat \<Rightarrow> 'a \<Rightarrow> 'a lq_sys" where
  "lq_start n d = \<lparr>lq_heap = allocator_new n d, lq_pcs = (\<lambda>_. Outside), lq_held = {}, lq_log = []\<rparr>"

fun log_of :: "'a lq_effect \<Rightarrow> ('a fifo_op \<times> 'a option) list" where
  "log_of (Entered x) = [(Enq x, None)]"
| "log_of (Left x) = [(Deq, Some x)]"
| "log_of FoundEmpty = [(Deq, None)]"
| "log_of _ = []"

fun held_of :: "'a lq_effect \<Rightarrow> nat set" where
  "held_of (Handed n) = {n}"
| "held_of _ = {}"

definition lq_run :: "nat \<Rightarrow> 'a lq_sys \<Rightarrow> 'a lq_sys" where
  "lq_run t s =
     (case lq_advance (lq_pcs s t) (lq_heap s) of
        ((pc, e), a) \<Rightarrow> s\<lparr>lq_heap := a, lq_pcs := (lq_pcs s)(t := pc),
                          lq_held := held_of e \<union> lq_held s, lq_log := lq_log s @ log_of e\<rparr>)"

fun for_queue :: "'a node_use \<Rightarrow> bool" where
  "for_queue (ForQueue x) = True" | "for_queue ForPool = False"

text \<open>Inside \<open>enqueueSp\<close>; inside a dequeue up to the store of the tail; inside \<open>dequeueSc\<close>.\<close>

fun producing :: "'a lq_pc \<Rightarrow> bool" where
  "producing (TakeFree k) = for_queue k"
| "producing (NextFree k n) = for_queue k"
| "producing (PutBackFree k n) = for_queue k"
| "producing (AdvanceFree k n m) = for_queue k"
| "producing (ClearNode k n) = for_queue k"
| "producing (NewBlock k) = for_queue k"
| "producing (SpliceBlock k b) = for_queue k"
| "producing (LinkBlock k b p) = for_queue k"
| "producing (KeepBlock k b) = for_queue k"
| "producing (WriteData x n) = True"
| "producing (ReadHead x n) = True"
| "producing (LinkNode x n h) = True"
| "producing (MoveHead n) = True"
| "producing _ = False"

fun consuming :: "'a lq_pc \<Rightarrow> bool" where
  "consuming (TakeTail w) = True"
| "consuming LoadTail = True"
| "consuming (ReadNext sc n) = True"
| "consuming (PutBackTail n) = True"
| "consuming (ReadData sc n m) = True"
| "consuming (MoveTail sc n m x) = True"
| "consuming _ = False"

fun sole :: "'a lq_pc \<Rightarrow> bool" where
  "sole LoadTail = True"
| "sole (ReadNext sc n) = sc"
| "sole (ReadData sc n m) = sc"
| "sole (MoveTail sc n m x) = sc"
| "sole _ = False"

inductive lq_step :: "'a lq_sys \<Rightarrow> 'a lq_sys \<Rightarrow> bool" where
  run: "lq_step s (lq_run t s)"
| call_enqueue: "lq_pcs s t = Outside \<Longrightarrow> \<forall>u. \<not> producing (lq_pcs s u) \<Longrightarrow>
     lq_step s (s\<lparr>lq_pcs := (lq_pcs s)(t := TakeFree (ForQueue x))\<rparr>)"
| call_dequeue: "lq_pcs s t = Outside \<Longrightarrow> \<forall>u. \<not> sole (lq_pcs s u) \<Longrightarrow>
     lq_step s (s\<lparr>lq_pcs := (lq_pcs s)(t := TakeTail weak)\<rparr>)"
| call_dequeue_sc: "lq_pcs s t = Outside \<Longrightarrow> \<forall>u. \<not> consuming (lq_pcs s u) \<Longrightarrow>
     lq_step s (s\<lparr>lq_pcs := (lq_pcs s)(t := LoadTail)\<rparr>)"
| call_alloc: "lq_pcs s t = Outside \<Longrightarrow>
     lq_step s (s\<lparr>lq_pcs := (lq_pcs s)(t := TakeFree ForPool)\<rparr>)"
| call_free: "lq_pcs s t = Outside \<Longrightarrow> n \<in> lq_held s \<Longrightarrow>
     lq_step s (s\<lparr>lq_pcs := (lq_pcs s)(t := FreeClear n), lq_held := lq_held s - {n}\<rparr>)"

inductive_cases lq_step_cases: "lq_step s s'"

section \<open>Who owns a node\<close>

text \<open>A node is in the queue (the dummy included), in the free list, private to a thread, held by a client of
  the pool or not made yet. The free list has gaps while a thread is between its exchange of the head and
  its store of the link; \<open>gp\<close> holds these links. \<open>hq\<close>, \<open>hf\<close> and \<open>hp\<close> are the threads that hold the tail of
  the queue, hold the tail of the free list, and enqueue.\<close>

datatype node_owner = InQueue | InFree | Private nat | Client | Unborn

record lq_ghost =
  gw :: "nat \<Rightarrow> node_owner"
  gq :: "nat list"
  gf :: "nat list"
  gp :: "nat \<Rightarrow> (nat \<times> nat) option"
  hq :: "(nat \<times> bool) option"
  hf :: "nat option"
  hp :: "nat option"

fun own :: "nat \<Rightarrow> 'a lq_pc \<Rightarrow> nat set" where
  "own N (ClearNode k n) = {n}"
| "own N (SpliceBlock k b) = {b..<b + N}"
| "own N (LinkBlock k b p) = {b}"
| "own N (KeepBlock k b) = {b}"
| "own N (WriteData x n) = {n}"
| "own N (ReadHead x n) = {n}"
| "own N (LinkNode x n h) = {n}"
| "own N (FreeClear n) = {n}"
| "own N (FreeSwap n) = {n}"
| "own N _ = {}"

fun pend :: "nat \<Rightarrow> 'a lq_pc \<Rightarrow> (nat \<times> nat) option" where
  "pend N (LinkBlock k b p) = Some (p, b + N - 1)"
| "pend N (FreeLink n p) = Some (p, n)"
| "pend N _ = None"

fun qhold :: "'a lq_pc \<Rightarrow> bool option" where
  "qhold (ReadNext sc n) = Some sc"
| "qhold (PutBackTail n) = Some False"
| "qhold (ReadData sc n m) = Some sc"
| "qhold (MoveTail sc n m x) = Some sc"
| "qhold _ = None"

fun fhold :: "'a lq_pc \<Rightarrow> bool" where
  "fhold (NextFree k n) = True"
| "fhold (PutBackFree k n) = True"
| "fhold (AdvanceFree k n m) = True"
| "fhold _ = False"

definition links :: "(nat \<Rightarrow> nat option) \<Rightarrow> (nat \<Rightarrow> (nat \<times> nat) option) \<Rightarrow> nat \<Rightarrow> nat option" where
  "links f p i = (case p i of None \<Rightarrow> f i | Some (t, j) \<Rightarrow> Some j)"

text \<open>What a thread knows at its program counter.\<close>

fun pc_ok :: "nat list \<Rightarrow> nat list \<Rightarrow> 'a allocator \<Rightarrow> 'a lq_pc \<Rightarrow> bool" where
  "pc_ok q F a (NextFree k n) = (n = hd F)"
| "pc_ok q F a (PutBackFree k n) = (n = hd F)"
| "pc_ok q F a (AdvanceFree k n m) = ((\<exists>r. F = n # m # r) \<and> nxt a n = Some m)"
| "pc_ok q F a (SpliceBlock k b) = (chain (nxt a) (rev [b + 1..<b + alloc_size a]) \<and> nxt a b = None)"
| "pc_ok q F a (LinkBlock k b p) = (nxt a b = None)"
| "pc_ok q F a (KeepBlock k b) = (nxt a b = None)"
| "pc_ok q F a (WriteData x n) = (nxt a n = None)"
| "pc_ok q F a (ReadHead x n) = (nxt a n = None \<and> dat a n = x)"
| "pc_ok q F a (LinkNode x n h) = (nxt a n = None \<and> dat a n = x \<and> h = last q)"
| "pc_ok q F a (MoveHead n) = (n = last q)"
| "pc_ok q F a (ReadNext sc n) = (n = hd q)"
| "pc_ok q F a (PutBackTail n) = (n = hd q)"
| "pc_ok q F a (ReadData sc n m) = (\<exists>r. q = n # m # r)"
| "pc_ok q F a (MoveTail sc n m x) = ((\<exists>r. q = n # m # r) \<and> dat a m = x)"
| "pc_ok q F a (FreeSwap n) = (nxt a n = None)"
| "pc_ok q F a _ = True"

definition log_ok :: "('a fifo_op \<times> 'a option) list \<Rightarrow> 'a list \<Rightarrow> bool" where
  "log_ok l xs \<longleftrightarrow> fifo_spec (map fst l) [] = (map snd (filter (\<lambda>p. fst p = Deq) l), xs)"


text \<open>A tail pointer that a holder has exchanged with null; \<open>dequeueSc\<close> leaves the pointer in place.\<close>

fun held_tail :: "bool \<Rightarrow> nat \<Rightarrow> nat option" where
  "held_tail True n = Some n" | "held_tail False n = None"

fun free_to_take :: "(nat \<times> bool) option \<Rightarrow> bool" where
  "free_to_take (Some (t, sc)) = sc" | "free_to_take None = True"

definition lq_ok :: "lq_ghost \<Rightarrow> 'a lq_sys \<Rightarrow> bool" where
  "lq_ok g s \<longleftrightarrow> (let a = lq_heap s; N = alloc_size a; q = gq g; F = gf g in
     2 \<le> N \<and> chain (nxt a) q \<and> chain (links (nxt a) (gp g)) F \<and> distinct q \<and> distinct F \<and>
     (\<forall>n. n \<in> set q \<longleftrightarrow> gw g n = InQueue) \<and> (\<forall>n. n \<in> set F \<longleftrightarrow> gw g n = InFree) \<and>
     (\<forall>t n. n \<in> own N (lq_pcs s t) \<longleftrightarrow> gw g n = Private t) \<and> (\<forall>n. n \<in> lq_held s \<longleftrightarrow> gw g n = Client) \<and>
     (\<forall>n. node_count a \<le> n \<longleftrightarrow> gw g n = Unborn) \<and>
     (\<forall>i p. gp g i = Some p \<longrightarrow> i \<in> set F \<and> nxt a i = None) \<and>
     (\<forall>t i j. pend N (lq_pcs s t) = Some (i, j) \<longleftrightarrow> gp g i = Some (t, j)) \<and>
     (\<forall>t sc. qhold (lq_pcs s t) = Some sc \<longleftrightarrow> hq g = Some (t, sc)) \<and>
     (\<forall>t. fhold (lq_pcs s t) \<longleftrightarrow> hf g = Some t) \<and> (\<forall>t. producing (lq_pcs s t) \<longleftrightarrow> hp g = Some t) \<and>
     q_tail a = held_tail (free_to_take (hq g)) (hd q) \<and>
     free_tail a = held_tail (hf g = None) (hd F) \<and> free_head a = last F \<and>
     (q_head a = last q \<or> (\<exists>t n. lq_pcs s t = MoveHead n)) \<and>
     (\<forall>t. pc_ok q F a (lq_pcs s t)) \<and>
     (\<forall>t u. sole (lq_pcs s t) \<longrightarrow> consuming (lq_pcs s u) \<longrightarrow> u = t) \<and>
     log_ok (lq_log s) (map (dat a) (tl q)))"

lemma lq_okI:
  assumes "2 \<le> alloc_size (lq_heap s)" "chain (nxt (lq_heap s)) (gq g)"
    "chain (links (nxt (lq_heap s)) (gp g)) (gf g)" "distinct (gq g)" "distinct (gf g)"
    "\<And>n. n \<in> set (gq g) \<longleftrightarrow> gw g n = InQueue" "\<And>n. n \<in> set (gf g) \<longleftrightarrow> gw g n = InFree"
    "\<And>t n. n \<in> own (alloc_size (lq_heap s)) (lq_pcs s t) \<longleftrightarrow> gw g n = Private t"
    "\<And>n. n \<in> lq_held s \<longleftrightarrow> gw g n = Client" "\<And>n. node_count (lq_heap s) \<le> n \<longleftrightarrow> gw g n = Unborn"
    "\<And>i p. gp g i = Some p \<Longrightarrow> i \<in> set (gf g) \<and> nxt (lq_heap s) i = None"
    "\<And>t i j. pend (alloc_size (lq_heap s)) (lq_pcs s t) = Some (i, j) \<longleftrightarrow> gp g i = Some (t, j)"
    "\<And>t sc. qhold (lq_pcs s t) = Some sc \<longleftrightarrow> hq g = Some (t, sc)"
    "\<And>t. fhold (lq_pcs s t) \<longleftrightarrow> hf g = Some t" "\<And>t. producing (lq_pcs s t) \<longleftrightarrow> hp g = Some t"
    "q_tail (lq_heap s) = held_tail (free_to_take (hq g)) (hd (gq g))"
    "free_tail (lq_heap s) = held_tail (hf g = None) (hd (gf g))"
    "free_head (lq_heap s) = last (gf g)"
    "q_head (lq_heap s) = last (gq g) \<or> (\<exists>t n. lq_pcs s t = MoveHead n)"
    "\<And>t. pc_ok (gq g) (gf g) (lq_heap s) (lq_pcs s t)"
    "\<And>t u. sole (lq_pcs s t) \<Longrightarrow> consuming (lq_pcs s u) \<Longrightarrow> u = t"
    "log_ok (lq_log s) (map (dat (lq_heap s)) (tl (gq g)))"
  shows "lq_ok g s"
  using assms unfolding lq_ok_def Let_def by blast

lemma lq_ok_clauses:
  assumes "lq_ok g s"
  shows "2 \<le> alloc_size (lq_heap s)" "chain (nxt (lq_heap s)) (gq g)"
    "chain (links (nxt (lq_heap s)) (gp g)) (gf g)" "distinct (gq g)" "distinct (gf g)"
    "\<forall>n. n \<in> set (gq g) \<longleftrightarrow> gw g n = InQueue" "\<forall>n. n \<in> set (gf g) \<longleftrightarrow> gw g n = InFree"
    "\<forall>t n. n \<in> own (alloc_size (lq_heap s)) (lq_pcs s t) \<longleftrightarrow> gw g n = Private t"
    "\<forall>n. n \<in> lq_held s \<longleftrightarrow> gw g n = Client" "\<forall>n. node_count (lq_heap s) \<le> n \<longleftrightarrow> gw g n = Unborn"
    "\<forall>i p. gp g i = Some p \<longrightarrow> i \<in> set (gf g) \<and> nxt (lq_heap s) i = None"
    "\<forall>t i j. pend (alloc_size (lq_heap s)) (lq_pcs s t) = Some (i, j) \<longleftrightarrow> gp g i = Some (t, j)"
    "\<forall>t sc. qhold (lq_pcs s t) = Some sc \<longleftrightarrow> hq g = Some (t, sc)"
    "\<forall>t. fhold (lq_pcs s t) \<longleftrightarrow> hf g = Some t" "\<forall>t. producing (lq_pcs s t) \<longleftrightarrow> hp g = Some t"
    "q_tail (lq_heap s) = held_tail (free_to_take (hq g)) (hd (gq g))"
    "free_tail (lq_heap s) = held_tail (hf g = None) (hd (gf g))"
    "free_head (lq_heap s) = last (gf g)"
    "q_head (lq_heap s) = last (gq g) \<or> (\<exists>t n. lq_pcs s t = MoveHead n)"
    "\<forall>t. pc_ok (gq g) (gf g) (lq_heap s) (lq_pcs s t)"
    "\<forall>t u. sole (lq_pcs s t) \<longrightarrow> consuming (lq_pcs s u) \<longrightarrow> u = t"
    "log_ok (lq_log s) (map (dat (lq_heap s)) (tl (gq g)))"
  using assms unfolding lq_ok_def Let_def by - (elim conjE, assumption)+

lemmas lq_okD = lq_ok_clauses [rule_format]

lemma lq_ok_nonempty: "lq_ok g s \<Longrightarrow> gq g \<noteq> [] \<and> gf g \<noteq> []"
  by (auto dest: lq_okD(2,3) chain_not_Nil)

lemma lq_start_ok:
  assumes "2 \<le> n"
  shows "lq_ok \<lparr>gw = (\<lambda>m. if m = 0 then InQueue else if m = 1 then InFree else Unborn), gq = [0], gf = [1],
    gp = (\<lambda>_. None), hq = None, hf = None, hp = None\<rparr> (lq_start n d)"
  by (rule lq_okI) (use assms in \<open>auto simp: lq_start_def allocator_new_def links_def log_ok_def split: if_splits\<close>)

text \<open>A thread whose counter does not move keeps what it knows.\<close>

lemma pc_ok_frame:
  assumes "pc_ok q F a pc" "alloc_size a' = alloc_size a" "q \<noteq> []" "F \<noteq> []"
    and "\<And>n. n \<in> own (alloc_size a) pc \<Longrightarrow> nxt a' n = nxt a n \<and> dat a' n = dat a n"
    and "qhold pc \<noteq> None \<Longrightarrow> (\<exists>r. q' = q @ r) \<and> (\<forall>n \<in> set q. dat a' n = dat a n)"
    and "fhold pc \<Longrightarrow> (\<exists>r. F' = F @ r) \<and> (\<forall>n \<in> set F. nxt a n \<noteq> None \<longrightarrow> nxt a' n = nxt a n)"
    and "producing pc \<Longrightarrow> last q' = last q"
  shows "pc_ok q' F' a' pc"
proof (cases pc)
  case (SpliceBlock k b)
  then have c: "chain (nxt a) (rev [b + 1..<b + alloc_size a])" "nxt a b = None" using assms(1) by simp_all
  then have "0 < alloc_size a" by (cases "alloc_size a") auto
  moreover have "nxt a' n = nxt a n" if "b \<le> n" "n < b + alloc_size a" for n using assms(5) [of n] SpliceBlock that by simp
  moreover from this have "chain (nxt a') (rev [b + 1..<b + alloc_size a])" by (intro chain_frame [OF c(1)]) auto
  ultimately show ?thesis using c(2) SpliceBlock assms(2) by simp
qed (use assms in auto)


definition others_move :: "'a lq_sys \<Rightarrow> nat \<Rightarrow> bool" where
  "others_move s t \<longleftrightarrow> (\<exists>u n. u \<noteq> t \<and> lq_pcs s u = MoveHead n)"

text \<open>One thread moves: what has to be shown of its own counter and of the rest.\<close>

lemma lq_ok_step:
  assumes ok: "lq_ok g s" and s': "lq_pcs s' = (lq_pcs s)(t := pc)" and N: "alloc_size (lq_heap s') = alloc_size (lq_heap s)"
    and q: "chain (nxt (lq_heap s')) (gq g')" "distinct (gq g')" "\<And>n. n \<in> set (gq g') \<longleftrightarrow> gw g' n = InQueue"
    and F: "chain (links (nxt (lq_heap s')) (gp g')) (gf g')" "distinct (gf g')" "\<And>n. n \<in> set (gf g') \<longleftrightarrow> gw g' n = InFree"
    and own: "\<And>n. n \<in> own (alloc_size (lq_heap s')) pc \<longleftrightarrow> gw g' n = Private t"
      "\<And>u n. u \<noteq> t \<Longrightarrow> gw g' n = Private u \<longleftrightarrow> gw g n = Private u"
      "\<And>n. n \<in> lq_held s' \<longleftrightarrow> gw g' n = Client" "\<And>n. node_count (lq_heap s') \<le> n \<longleftrightarrow> gw g' n = Unborn"
    and gap: "\<And>i p. gp g' i = Some p \<Longrightarrow> i \<in> set (gf g') \<and> nxt (lq_heap s') i = None"
      "\<And>i j. pend (alloc_size (lq_heap s')) pc = Some (i, j) \<longleftrightarrow> gp g' i = Some (t, j)"
      "\<And>u i j. u \<noteq> t \<Longrightarrow> gp g' i = Some (u, j) \<longleftrightarrow> gp g i = Some (u, j)"
    and hold: "\<And>sc. qhold pc = Some sc \<longleftrightarrow> hq g' = Some (t, sc)" "fhold pc \<longleftrightarrow> hf g' = Some t" "producing pc \<longleftrightarrow> hp g' = Some t"
      "\<And>u sc. u \<noteq> t \<Longrightarrow> hq g' = Some (u, sc) \<longleftrightarrow> hq g = Some (u, sc)" "\<And>u. u \<noteq> t \<Longrightarrow> hf g' = Some u \<longleftrightarrow> hf g = Some u"
      "\<And>u. u \<noteq> t \<Longrightarrow> hp g' = Some u \<longleftrightarrow> hp g = Some u"
    and ends: "q_tail (lq_heap s') = held_tail (free_to_take (hq g')) (hd (gq g'))"
      "free_tail (lq_heap s') = held_tail (hf g' = None) (hd (gf g'))" "free_head (lq_heap s') = last (gf g')"
      "q_head (lq_heap s') = last (gq g') \<or> (\<exists>n. pc = MoveHead n) \<or> others_move s t"
    and pc: "pc_ok (gq g') (gf g') (lq_heap s') pc" "sole pc \<Longrightarrow> sole (lq_pcs s t)" "consuming pc \<Longrightarrow> consuming (lq_pcs s t)"
    and frame: "\<And>u n. u \<noteq> t \<Longrightarrow> gw g n = Private u \<Longrightarrow> nxt (lq_heap s') n = nxt (lq_heap s) n \<and> dat (lq_heap s') n = dat (lq_heap s) n"
      "\<And>u sc. u \<noteq> t \<Longrightarrow> hq g = Some (u, sc) \<Longrightarrow>
         (\<exists>r. gq g' = gq g @ r) \<and> (\<forall>n \<in> set (gq g). dat (lq_heap s') n = dat (lq_heap s) n)"
      "\<And>u. u \<noteq> t \<Longrightarrow> hf g = Some u \<Longrightarrow>
         (\<exists>r. gf g' = gf g @ r) \<and> (\<forall>n \<in> set (gf g). nxt (lq_heap s) n \<noteq> None \<longrightarrow> nxt (lq_heap s') n = nxt (lq_heap s) n)"
      "\<And>u. u \<noteq> t \<Longrightarrow> hp g = Some u \<Longrightarrow> last (gq g') = last (gq g)"
    and log: "log_ok (lq_log s') (map (dat (lq_heap s')) (tl (gq g')))"
  shows "lq_ok g' s'"
proof (rule lq_okI)
  note d = lq_okD [OF ok]
  show "2 \<le> alloc_size (lq_heap s')" using N d(1) by simp
  fix u
  show "n \<in> own (alloc_size (lq_heap s')) (lq_pcs s' u) \<longleftrightarrow> gw g' n = Private u" for n
    using own(1,2) d(8) N s' by auto
  show "pend (alloc_size (lq_heap s')) (lq_pcs s' u) = Some (i, j) \<longleftrightarrow> gp g' i = Some (u, j)" for i j
    using gap(2,3) d(12) N s' by auto
  show "qhold (lq_pcs s' u) = Some sc \<longleftrightarrow> hq g' = Some (u, sc)" for sc
    using hold(1,4) d(13) s' by auto
  show "fhold (lq_pcs s' u) \<longleftrightarrow> hf g' = Some u" using hold(2,5) d(14) s' by auto
  show "producing (lq_pcs s' u) \<longleftrightarrow> hp g' = Some u" using hold(3,6) d(15) s' by auto
  show "sole (lq_pcs s' u) \<Longrightarrow> consuming (lq_pcs s' v) \<Longrightarrow> v = u" for v
    using pc(2,3) d(21) s' by (fastforce split: if_splits)
  show "pc_ok (gq g') (gf g') (lq_heap s') (lq_pcs s' u)"
  proof (cases "u = t")
    case False
    have "pc_ok (gq g') (gf g') (lq_heap s') (lq_pcs s u)"
    proof (rule pc_ok_frame [OF d(20) N])
      show "gq g \<noteq> []" "gf g \<noteq> []" using lq_ok_nonempty [OF ok] by simp_all
      show "nxt (lq_heap s') n = nxt (lq_heap s) n \<and> dat (lq_heap s') n = dat (lq_heap s) n" if "n \<in> own (alloc_size (lq_heap s)) (lq_pcs s u)" for n
        using frame(1) [OF False] that d(8) by blast
      show "(\<exists>r. gq g' = gq g @ r) \<and> (\<forall>n \<in> set (gq g). dat (lq_heap s') n = dat (lq_heap s) n)" if "qhold (lq_pcs s u) \<noteq> None"
        using frame(2) [OF False] that d(13) by blast
      show "(\<exists>r. gf g' = gf g @ r) \<and> (\<forall>n \<in> set (gf g). nxt (lq_heap s) n \<noteq> None \<longrightarrow> nxt (lq_heap s') n = nxt (lq_heap s) n)"
        if "fhold (lq_pcs s u)" using frame(3) [OF False] that d(14) by blast
      show "last (gq g') = last (gq g)" if "producing (lq_pcs s u)" using frame(4) [OF False] that d(15) by blast
    qed
    with False show ?thesis using s' by simp
  qed (use pc(1) s' in simp)
  show "q_head (lq_heap s') = last (gq g') \<or> (\<exists>u n. lq_pcs s' u = MoveHead n)"
    using ends(4) s' by (elim disjE) (auto simp: others_move_def intro: exI [of _ t])
qed (use assms in blast)+


section \<open>Each access keeps the invariant\<close>

lemma log_ok_snoc:
  "log_ok l xs \<Longrightarrow> log_ok (l @ [(Enq x, None)]) (xs @ [x])"
  "log_ok l (x # xs) \<Longrightarrow> log_ok (l @ [(Deq, Some x)]) xs"
  "log_ok l [] \<Longrightarrow> log_ok (l @ [(Deq, None)]) []"
  by (auto simp: log_ok_def fifo_spec_snoc)

lemma links_upd: "links f (p(i \<mapsto> (t, j))) = (links f p)(i := Some j)"
  by (auto simp: links_def)

lemma links_done: "p i = Some (t, j) \<Longrightarrow> links (f(i := Some j)) (p(i := None)) = links f p"
  by (rule ext) (simp add: links_def split: option.split)

lemma links_None: "links f p i = None \<longleftrightarrow> f i = None \<and> p i = None"
  by (auto simp: links_def split: option.splits)

lemma qhold_consuming: "qhold pc = Some sc \<Longrightarrow> consuming pc" "sole pc \<Longrightarrow> consuming pc"
  by (cases pc; simp)+

lemma lq_run_simps:
  "lq_advance (lq_pcs s t) (lq_heap s) = ((pc, e), a) \<Longrightarrow> lq_pcs (lq_run t s) = (lq_pcs s)(t := pc)"
  "lq_advance (lq_pcs s t) (lq_heap s) = ((pc, e), a) \<Longrightarrow> lq_heap (lq_run t s) = a"
  "lq_advance (lq_pcs s t) (lq_heap s) = ((pc, e), a) \<Longrightarrow> lq_held (lq_run t s) = held_of e \<union> lq_held s"
  "lq_advance (lq_pcs s t) (lq_heap s) = ((pc, e), a) \<Longrightarrow> lq_log (lq_run t s) = lq_log s @ log_of e"
  by (simp_all add: lq_run_def)

text \<open>A step that only moves the counter.\<close>

lemma lq_ok_move:
  assumes ok: "lq_ok g s" and s': "lq_pcs s' = (lq_pcs s)(t := pc)" "lq_heap s' = lq_heap s" "lq_held s' = lq_held s"
    and l: "log_ok (lq_log s') (map (dat (lq_heap s)) (tl (gq g)))"
    and pc: "own (alloc_size (lq_heap s)) pc = own (alloc_size (lq_heap s)) (lq_pcs s t)"
      "pend (alloc_size (lq_heap s)) pc = pend (alloc_size (lq_heap s)) (lq_pcs s t)" "qhold pc = qhold (lq_pcs s t)"
      "fhold pc = fhold (lq_pcs s t)" "producing pc = producing (lq_pcs s t)"
      "pc_ok (gq g) (gf g) (lq_heap s) pc" "sole pc \<Longrightarrow> sole (lq_pcs s t)" "consuming pc \<Longrightarrow> consuming (lq_pcs s t)"
      "\<And>n. lq_pcs s t \<noteq> MoveHead n"
  shows "lq_ok g s'"
proof (rule lq_ok_step [OF ok s'(1)])
  note d = lq_okD [OF ok]
  show "q_head (lq_heap s') = last (gq g) \<or> (\<exists>n. pc = MoveHead n) \<or> others_move s t"
    using d(19) pc(9) s'(2) unfolding others_move_def by metis
  show "gp g i = Some p \<Longrightarrow> i \<in> set (gf g) \<and> nxt (lq_heap s') i = None" for i p using d(11) s'(2) by simp
  show "pend (alloc_size (lq_heap s')) pc = Some (i, j) \<longleftrightarrow> gp g i = Some (t, j)" for i j
    using d(12) pc(2) s'(2) by simp
qed (use lq_okD [OF ok] s' pc l in auto)


text \<open>What the invariant says of one thread and of the lists, in the form the steps use.\<close>

lemma lq_at:
  assumes "lq_ok g s" "lq_pcs s t = p"
  shows "\<And>n. gw g n = Private t \<longleftrightarrow> n \<in> own (alloc_size (lq_heap s)) p"
    "\<And>i j. gp g i = Some (t, j) \<longleftrightarrow> pend (alloc_size (lq_heap s)) p = Some (i, j)"
    "\<And>sc. hq g = Some (t, sc) \<longleftrightarrow> qhold p = Some sc" "hf g = Some t \<longleftrightarrow> fhold p" "hp g = Some t \<longleftrightarrow> producing p"
    "pc_ok (gq g) (gf g) (lq_heap s) p"
    "(\<And>n. p \<noteq> MoveHead n) \<Longrightarrow> q_head (lq_heap s) = last (gq g) \<or> others_move s t"
proof -
  note d = lq_okD [OF assms(1)]
  show "\<And>n. gw g n = Private t \<longleftrightarrow> n \<in> own (alloc_size (lq_heap s)) p" using d(8) [of _ t] assms(2) by simp
  show "\<And>i j. gp g i = Some (t, j) \<longleftrightarrow> pend (alloc_size (lq_heap s)) p = Some (i, j)" using d(12) [of t] assms(2) by simp
  show "\<And>sc. hq g = Some (t, sc) \<longleftrightarrow> qhold p = Some sc" using d(13) [of t] assms(2) by simp
  show "hf g = Some t \<longleftrightarrow> fhold p" using d(14) [of t] assms(2) by simp
  show "hp g = Some t \<longleftrightarrow> producing p" using d(15) [of t] assms(2) by simp
  show "pc_ok (gq g) (gf g) (lq_heap s) p" using d(20) [of t] assms(2) by simp
  show "(\<And>n. p \<noteq> MoveHead n) \<Longrightarrow> q_head (lq_heap s) = last (gq g) \<or> others_move s t"
    using d(19) assms(2) unfolding others_move_def by metis
qed

lemmas lq_lists = lq_okD(1-7) lq_okD(9-11) lq_okD(16-18) lq_okD(22)

lemma run_TakeFree:
  assumes ok: "lq_ok g s" and pc: "lq_pcs s t = TakeFree k"
  shows "\<exists>g'. lq_ok g' (lq_run t s)"
proof (cases "free_tail (lq_heap s)")
  case None
  with pc have "lq_run t s = s" by (cases s) (simp add: lq_run_def fun_upd_idem)
  with ok show ?thesis by auto
next
  case (Some n)
  note d = lq_lists [OF ok] and me = lq_at [OF ok pc] and r = lq_run_simps [of s t "NextFree k n" Silent]
  have adv: "lq_advance (lq_pcs s t) (lq_heap s) = ((NextFree k n, Silent), lq_heap s\<lparr>free_tail := None\<rparr>)"
    using pc Some by simp
  have f: "hf g = None" "n = hd (gf g)" using d(12) Some by (cases "hf g"; simp)+
  have "lq_ok (g\<lparr>hf := Some t\<rparr>) (lq_run t s)"
    by (rule lq_ok_step [OF ok r(1) [OF adv]]) (use d me r(2-) [OF adv] pc f in auto)
  then show ?thesis by blast
qed


lemma run_NextFree:
  assumes ok: "lq_ok g s" and pc: "lq_pcs s t = NextFree k n"
  shows "\<exists>g'. lq_ok g' (lq_run t s)"
proof (cases "nxt (lq_heap s) n")
  case None
  note r = lq_run_simps [of s t "PutBackFree k n" Silent]
  have adv: "lq_advance (lq_pcs s t) (lq_heap s) = ((PutBackFree k n, Silent), lq_heap s)" using pc None by simp
  have "lq_ok g (lq_run t s)"
    by (rule lq_ok_move [OF ok r(1) [OF adv]]) (use lq_lists [OF ok] lq_at [OF ok pc] r(2-) [OF adv] pc in auto)
  then show ?thesis by blast
next
  case (Some m)
  note d = lq_lists [OF ok] and me = lq_at [OF ok pc] and r = lq_run_simps [of s t "AdvanceFree k n m" Silent]
  have adv: "lq_advance (lq_pcs s t) (lq_heap s) = ((AdvanceFree k n m, Silent), lq_heap s)" using pc Some by simp
  have "n = hd (gf g)" "gp g n = None" using me(6) d(10) [of n] Some by (auto, cases "gp g n") auto
  then have "\<exists>r. gf g = n # m # r" using d(3) Some by (cases "gf g" rule: remdups_adj.cases) (auto simp: links_def)
  then have "lq_ok g (lq_run t s)"
    by (intro lq_ok_move [OF ok r(1) [OF adv]]) (use d me r(2-) [OF adv] pc Some in auto)
  then show ?thesis by blast
qed

lemma run_PutBackFree:
  assumes ok: "lq_ok g s" and pc: "lq_pcs s t = PutBackFree k n"
  shows "\<exists>g'. lq_ok g' (lq_run t s)"
proof -
  note d = lq_lists [OF ok] and me = lq_at [OF ok pc] and r = lq_run_simps [of s t "NewBlock k" Silent]
  have adv: "lq_advance (lq_pcs s t) (lq_heap s) = ((NewBlock k, Silent), lq_heap s\<lparr>free_tail := Some n\<rparr>)" using pc by simp
  have "lq_ok (g\<lparr>hf := None\<rparr>) (lq_run t s)"
    by (rule lq_ok_step [OF ok r(1) [OF adv]]) (use d me r(2-) [OF adv] pc in auto)
  then show ?thesis by blast
qed

lemma run_AdvanceFree:
  assumes ok: "lq_ok g s" and pc: "lq_pcs s t = AdvanceFree k n m"
  shows "\<exists>g'. lq_ok g' (lq_run t s)"
proof -
  note d = lq_lists [OF ok] and me = lq_at [OF ok pc] and r = lq_run_simps [of s t "ClearNode k n" Silent]
  have adv: "lq_advance (lq_pcs s t) (lq_heap s) = ((ClearNode k n, Silent), lq_heap s\<lparr>free_tail := Some m\<rparr>)" using pc by simp
  obtain f where f: "gf g = n # m # f" "nxt (lq_heap s) n = Some m" using me(6) by auto
  have pn: "gp g n = None" using d(10) [of n] f(2) by (cases "gp g n") auto
  have p: "(i = m \<or> i \<in> set f) \<and> nxt (lq_heap s) i = None" if "gp g i = Some p" for i p
    using d(10) [OF that] pn that f(1) by auto
  have w: "gw g i = InFree \<longleftrightarrow> i = n \<or> i = m \<or> i \<in> set f" for i using d(7) [of i] f by auto
  have "gw g n = InFree" using w by simp
  then have wn: "gw g n \<noteq> InQueue" "gw g n \<noteq> Client" "gw g n \<noteq> Unborn" "\<And>u. gw g n \<noteq> Private u" by simp_all
  have "lq_ok (g\<lparr>hf := None, gf := m # f, gw := (gw g)(n := Private t)\<rparr>) (lq_run t s)"
    by (rule lq_ok_step [OF ok r(1) [OF adv]]) (use d(1-9) d(11-) me r(2-) [OF adv] pc f pn p w wn in \<open>auto simp: links_def\<close>)
  then show ?thesis by blast
qed


lemma links_frame: "(\<And>i. i \<in> set F \<Longrightarrow> f' i = f i) \<Longrightarrow> chain (links f p) F \<Longrightarrow> chain (links f' p) F"
  by (erule chain_frame) (simp add: links_def split: option.split)

lemma private_only:
  assumes "w = Private t"
  shows "w \<noteq> InQueue" "w \<noteq> InFree" "w \<noteq> Client" "w \<noteq> Unborn" "u \<noteq> t \<Longrightarrow> w \<noteq> Private u"
  using assms by simp_all

text \<open>A write to the link of a node that is in none of the lists.\<close>

lemma private_write:
  assumes "lq_ok g s" "gw g n \<noteq> InQueue" "gw g n \<noteq> InFree"
  shows "chain ((nxt (lq_heap s))(n := v)) (gq g)" "chain (links ((nxt (lq_heap s))(n := v)) (gp g)) (gf g)"
    "gp g i = Some p \<Longrightarrow> i \<noteq> n"
proof -
  note d = lq_lists [OF assms(1)]
  show "chain ((nxt (lq_heap s))(n := v)) (gq g)"
    by (rule chain_frame [OF d(2)]) (use d(6) assms(2) in auto)
  show "chain (links ((nxt (lq_heap s))(n := v)) (gp g)) (gf g)"
    by (rule links_frame [OF _ d(3)]) (use d(7) assms(3) in auto)
  show "gp g i = Some p \<Longrightarrow> i \<noteq> n" using d(7,10) assms(3) by blast
qed

lemma run_ClearNode:
  assumes ok: "lq_ok g s" and pc: "lq_pcs s t = ClearNode k n"
  shows "\<exists>g'. lq_ok g' (lq_run t s)"
proof -
  note d = lq_lists [OF ok] and me = lq_at [OF ok pc]
  have w: "gw g n = Private t" using me(1) by simp
  note pw = private_write [OF ok, of n, unfolded w, simplified] and po = private_only [OF w]
  let ?a = "lq_heap s\<lparr>nxt := (nxt (lq_heap s))(n := None)\<rparr>"
  show ?thesis
  proof (cases k)
    case (ForQueue x)
    then have adv: "lq_advance (lq_pcs s t) (lq_heap s) = ((WriteData x n, Silent), ?a)" using pc by simp
    have "lq_ok g (lq_run t s)"
      by (rule lq_ok_step [OF ok lq_run_simps(1) [OF adv]])
        (use d me lq_run_simps(2-) [OF adv] pc pw po ForQueue in auto)
    then show ?thesis by blast
  next
    case ForPool
    then have adv: "lq_advance (lq_pcs s t) (lq_heap s) = ((Outside, Handed n), ?a)" using pc by simp
    have "lq_ok (g\<lparr>gw := (gw g)(n := Client)\<rparr>) (lq_run t s)"
      by (rule lq_ok_step [OF ok lq_run_simps(1) [OF adv]])
        (use d me lq_run_simps(2-) [OF adv] pc pw po ForPool in auto)
    then show ?thesis by blast
  qed
qed

lemma run_NewBlock:
  assumes ok: "lq_ok g s" and pc: "lq_pcs s t = NewBlock k"
  shows "\<exists>g'. lq_ok g' (lq_run t s)"
proof -
  note d = lq_lists [OF ok] and me = lq_at [OF ok pc]
  let ?b = "node_count (lq_heap s)" and ?n = "alloc_size (lq_heap s)"
  let ?a = "lq_heap s\<lparr>node_count := ?b + ?n, nxt := block_links ?b ?n (nxt (lq_heap s))\<rparr>"
  have adv: "lq_advance (lq_pcs s t) (lq_heap s) = ((SpliceBlock k ?b, Silent), ?a)"
    using pc by (simp add: Let_def)
  have lt: "gw g i \<noteq> Unborn \<Longrightarrow> i < ?b" for i using d(9) [of i] by simp
  have old: "nxt ?a i = nxt (lq_heap s) i" if "gw g i \<noteq> Unborn" for i
    using lt [OF that] by (simp add: block_links_old)
  have c: "chain (nxt ?a) (gq g)" "chain (links (nxt ?a) (gp g)) (gf g)"
    using old d(6,7) by (auto intro: chain_frame [OF d(2)] links_frame [OF _ d(3)])
  have new: "nxt ?a ?b = None" "chain (nxt ?a) (rev [?b + 1..<?b + ?n])"
    using chain_down [OF d(1)] d(1) by (simp_all add: block_links_def)
  let ?w = "\<lambda>i. if ?b \<le> i \<and> i < ?b + ?n then Private t else gw g i"
  have w: "?w i = InQueue \<longleftrightarrow> gw g i = InQueue" "?w i = InFree \<longleftrightarrow> gw g i = InFree" "?w i = Client \<longleftrightarrow> gw g i = Client"
    "?w i = Private t \<longleftrightarrow> ?b \<le> i \<and> i < ?b + ?n" "u \<noteq> t \<Longrightarrow> ?w i = Private u \<longleftrightarrow> gw g i = Private u"
    "?w i = Unborn \<longleftrightarrow> ?b + ?n \<le> i" for i u
    using lt [of i] d(9) [of i] me(1) [of i] by auto
  have gap: "gp g i = Some p \<Longrightarrow> gw g i = InFree \<and> nxt ?a i = None" for i p
    using d(7,10) old [of i] by (cases "gw g i") auto
  have "lq_ok (g\<lparr>gw := ?w\<rparr>) (lq_run t s)"
  proof (rule lq_ok_step [OF ok lq_run_simps(1) [OF adv]])
    show "\<And>n. n \<in> set (gq (g\<lparr>gw := ?w\<rparr>)) \<longleftrightarrow> gw (g\<lparr>gw := ?w\<rparr>) n = InQueue"
      "\<And>n. n \<in> set (gf (g\<lparr>gw := ?w\<rparr>)) \<longleftrightarrow> gw (g\<lparr>gw := ?w\<rparr>) n = InFree"
      "\<And>n. n \<in> lq_held (lq_run t s) \<longleftrightarrow> gw (g\<lparr>gw := ?w\<rparr>) n = Client"
      using d(6,7,8) lq_run_simps(3) [OF adv] w(1-3) by simp_all
    show "\<And>u n. u \<noteq> t \<Longrightarrow> gw (g\<lparr>gw := ?w\<rparr>) n = Private u \<longleftrightarrow> gw g n = Private u" using w(5) by simp
    show "\<And>i p. gp (g\<lparr>gw := ?w\<rparr>) i = Some p \<Longrightarrow> i \<in> set (gf (g\<lparr>gw := ?w\<rparr>)) \<and> nxt (lq_heap (lq_run t s)) i = None"
      using gap d(7) lq_run_simps(2) [OF adv] by simp
    show "\<And>u n. u \<noteq> t \<Longrightarrow> gw g n = Private u \<Longrightarrow>
        nxt (lq_heap (lq_run t s)) n = nxt (lq_heap s) n \<and> dat (lq_heap (lq_run t s)) n = dat (lq_heap s) n"
      using old lq_run_simps(2) [OF adv] by simp
    show "\<And>n. n \<in> own (alloc_size (lq_heap (lq_run t s))) (SpliceBlock k ?b) \<longleftrightarrow> gw (g\<lparr>gw := ?w\<rparr>) n = Private t"
      "\<And>n. node_count (lq_heap (lq_run t s)) \<le> n \<longleftrightarrow> gw (g\<lparr>gw := ?w\<rparr>) n = Unborn"
      using w(4,6) lq_run_simps(2) [OF adv] by simp_all
    show "\<And>u. u \<noteq> t \<Longrightarrow> hf g = Some u \<Longrightarrow> (\<exists>r. gf (g\<lparr>gw := ?w\<rparr>) = gf g @ r) \<and>
        (\<forall>n \<in> set (gf g). nxt (lq_heap s) n \<noteq> None \<longrightarrow> nxt (lq_heap (lq_run t s)) n = nxt (lq_heap s) n)"
      using old d(7) lq_run_simps(2) [OF adv] by simp
  qed (use d(1-5) d(11-) me lq_run_simps(2-) [OF adv] pc c new in auto)
  then show ?thesis by blast
qed


text \<open>A part is appended to the free list before it is linked to it.\<close>

lemma splice_gap:
  assumes "lq_ok g s" "chain (nxt (lq_heap s)) ys" "\<And>i. i \<in> set ys \<Longrightarrow> gw g i \<noteq> InFree"
  shows "chain (links (nxt (lq_heap s)) ((gp g)(last (gf g) \<mapsto> (t, hd ys)))) (gf g @ ys)"
    "nxt (lq_heap s) (last (gf g)) = None" "gp g (last (gf g)) = None" "last (gf g) \<in> set (gf g)"
proof -
  note d = lq_lists [OF assms(1)]
  show "last (gf g) \<in> set (gf g)" using lq_ok_nonempty [OF assms(1)] by simp
  show "nxt (lq_heap s) (last (gf g)) = None" "gp g (last (gf g)) = None"
    using chain_last [OF d(3)] links_None by auto
  have "gp g i = None" if "i \<in> set ys" for i using d(7,10) assms(3) [OF that] by (cases "gp g i") auto
  then have "chain (links (nxt (lq_heap s)) (gp g)) ys"
    by (intro chain_frame [OF assms(2)]) (simp add: links_def)
  with d(3,5,7) assms(3) show "chain (links (nxt (lq_heap s)) ((gp g)(last (gf g) \<mapsto> (t, hd ys)))) (gf g @ ys)"
    unfolding links_upd by (intro chain_link) auto
qed

lemma run_SpliceBlock:
  assumes ok: "lq_ok g s" and pc: "lq_pcs s t = SpliceBlock k b"
  shows "\<exists>g'. lq_ok g' (lq_run t s)"
proof -
  note d = lq_lists [OF ok] and me = lq_at [OF ok pc]
  let ?N = "alloc_size (lq_heap s)"
  let ?ys = "rev [b + 1..<b + ?N]"
  have adv: "lq_advance (lq_pcs s t) (lq_heap s) = ((LinkBlock k b (free_head (lq_heap s)), Silent), lq_heap s\<lparr>free_head := b + 1\<rparr>)"
    using pc by simp
  have mine: "gw g i = Private t \<longleftrightarrow> b \<le> i \<and> i < b + ?N" for i using me(1) by auto
  have y: "chain (nxt (lq_heap s)) ?ys" "nxt (lq_heap s) b = None" "hd ?ys = b + ?N - 1" "last ?ys = b + 1" "?ys \<noteq> []"
    "i \<in> set ?ys \<longleftrightarrow> b < i \<and> i < b + ?N" "distinct ?ys" for i
    using me(6) d(1) by (auto simp: hd_rev last_rev)
  have no: "gw g i \<noteq> InFree" if "i \<in> set ?ys" for i using that mine [of i] by auto
  note sp1 = splice_gap(1) [OF ok y(1) no, unfolded y(3), where t = t] and sp = splice_gap [OF ok y(1) no]
  let ?w = "\<lambda>i. if b < i \<and> i < b + ?N then InFree else gw g i"
  let ?g = "g\<lparr>gf := gf g @ ?ys, gp := (gp g)(last (gf g) \<mapsto> (t, b + ?N - 1)), gw := ?w\<rparr>"
  have w: "?w i = InQueue \<longleftrightarrow> gw g i = InQueue" "?w i = InFree \<longleftrightarrow> gw g i = InFree \<or> b < i \<and> i < b + ?N"
    "?w i = Client \<longleftrightarrow> gw g i = Client" "?w i = Private t \<longleftrightarrow> i = b" "u \<noteq> t \<Longrightarrow> ?w i = Private u \<longleftrightarrow> gw g i = Private u"
    "?w i = Unborn \<longleftrightarrow> gw g i = Unborn" for i u
    using mine [of i] d(1) by auto
  have "lq_ok ?g (lq_run t s)"
  proof (rule lq_ok_step [OF ok lq_run_simps(1) [OF adv]])
    show "\<And>n. n \<in> set (gq ?g) \<longleftrightarrow> gw ?g n = InQueue" using d(6) w(1) by simp
    show "\<And>n. n \<in> set (gf ?g) \<longleftrightarrow> gw ?g n = InFree" using d(7) w(2) y(6) by simp
    show "\<And>n. n \<in> lq_held (lq_run t s) \<longleftrightarrow> gw ?g n = Client" using d(8) w(3) lq_run_simps(3) [OF adv] by simp
    show "\<And>n. n \<in> own (alloc_size (lq_heap (lq_run t s))) (LinkBlock k b (free_head (lq_heap s))) \<longleftrightarrow> gw ?g n = Private t"
      using w(4) by simp
    show "\<And>u n. u \<noteq> t \<Longrightarrow> gw ?g n = Private u \<longleftrightarrow> gw g n = Private u" using w(5) by simp
    show "\<And>n. node_count (lq_heap (lq_run t s)) \<le> n \<longleftrightarrow> gw ?g n = Unborn"
      using d(9) w(6) lq_run_simps(2) [OF adv] by simp
    show "distinct (gf ?g)" using d(5,7) no y(7) by auto
    show "chain (links (nxt (lq_heap (lq_run t s))) (gp ?g)) (gf ?g)" using sp1 lq_run_simps(2) [OF adv] by simp
    show "free_head (lq_heap (lq_run t s)) = last (gf ?g)" using y(4,5) lq_run_simps(2) [OF adv] by simp
    show "free_tail (lq_heap (lq_run t s)) = held_tail (hf ?g = None) (hd (gf ?g))"
      using d(12) lq_ok_nonempty [OF ok] lq_run_simps(2) [OF adv] by simp
    show "\<And>i p. gp ?g i = Some p \<Longrightarrow> i \<in> set (gf ?g) \<and> nxt (lq_heap (lq_run t s)) i = None"
      using sp(2,4) d(10) lq_run_simps(2) [OF adv] by (auto split: if_splits)
    show "\<And>i j. pend (alloc_size (lq_heap (lq_run t s))) (LinkBlock k b (free_head (lq_heap s))) = Some (i, j) \<longleftrightarrow> gp ?g i = Some (t, j)"
      using me(2) d(13) lq_run_simps(2) [OF adv] by auto
    show "\<And>u i j. u \<noteq> t \<Longrightarrow> gp ?g i = Some (u, j) \<longleftrightarrow> gp g i = Some (u, j)" using sp(3) by auto
  qed (use d(1,2,4,11,14) me y lq_run_simps(2-) [OF adv] pc in auto)
  then show ?thesis by blast
qed

text \<open>Storing the link closes the gap.\<close>

lemma close_gap:
  assumes "lq_ok g s" "gp g p = Some (t, j)"
  shows "chain ((nxt (lq_heap s))(p := Some j)) (gq g)"
    "chain (links ((nxt (lq_heap s))(p := Some j)) ((gp g)(p := None))) (gf g)"
    "gw g p = InFree" "nxt (lq_heap s) p = None"
proof -
  note d = lq_lists [OF assms(1)]
  show p: "gw g p = InFree" "nxt (lq_heap s) p = None" using d(7,10) assms(2) by blast+
  show "chain ((nxt (lq_heap s))(p := Some j)) (gq g)"
    by (rule chain_frame [OF d(2)]) (use d(6) p in auto)
  show "chain (links ((nxt (lq_heap s))(p := Some j)) ((gp g)(p := None))) (gf g)"
    using d(3) links_done [of "gp g" p t j "nxt (lq_heap s)"] assms(2) by simp
qed

lemma run_LinkBlock:
  assumes ok: "lq_ok g s" and pc: "lq_pcs s t = LinkBlock k b p"
  shows "\<exists>g'. lq_ok g' (lq_run t s)"
proof -
  note d = lq_lists [OF ok] and me = lq_at [OF ok pc]
  let ?v = "Some (b + alloc_size (lq_heap s) - 1)"
  have adv: "lq_advance (lq_pcs s t) (lq_heap s) = ((KeepBlock k b, Silent), lq_heap s\<lparr>nxt := (nxt (lq_heap s))(p := ?v)\<rparr>)"
    using pc by simp
  have g: "gp g p = Some (t, b + alloc_size (lq_heap s) - 1)" using me(2) by simp
  note cg = close_gap [OF ok g]
  have gu: "gp g p \<noteq> Some (u, j)" if "u \<noteq> t" for u j using g that by simp
  have b: "gw g b = Private t" using me(1) by simp
  then have "b \<noteq> p" using cg(3) by auto
  then have "lq_ok (g\<lparr>gp := (gp g)(p := None)\<rparr>) (lq_run t s)"
    by (intro lq_ok_step [OF ok lq_run_simps(1) [OF adv]])
      (use d me cg gu lq_run_simps(2-) [OF adv] pc b in \<open>auto split: if_splits\<close>)
  then show ?thesis by blast
qed

lemma run_FreeLink:
  assumes ok: "lq_ok g s" and pc: "lq_pcs s t = FreeLink n p"
  shows "\<exists>g'. lq_ok g' (lq_run t s)"
proof -
  note d = lq_lists [OF ok] and me = lq_at [OF ok pc]
  have adv: "lq_advance (lq_pcs s t) (lq_heap s) = ((Outside, Silent), lq_heap s\<lparr>nxt := (nxt (lq_heap s))(p := Some n)\<rparr>)"
    using pc by simp
  have g: "gp g p = Some (t, n)" using me(2) by simp
  note cg = close_gap [OF ok g]
  have gu: "gp g p \<noteq> Some (u, j)" if "u \<noteq> t" for u j using g that by simp
  have "lq_ok (g\<lparr>gp := (gp g)(p := None)\<rparr>) (lq_run t s)"
    by (intro lq_ok_step [OF ok lq_run_simps(1) [OF adv]])
      (use d me cg gu lq_run_simps(2-) [OF adv] pc in \<open>auto split: if_splits\<close>)
  then show ?thesis by blast
qed


lemma run_KeepBlock:
  assumes ok: "lq_ok g s" and pc: "lq_pcs s t = KeepBlock k b"
  shows "\<exists>g'. lq_ok g' (lq_run t s)"
proof -
  note d = lq_lists [OF ok] and me = lq_at [OF ok pc]
  have w: "gw g b = Private t" using me(1) by simp
  note po = private_only [OF w]
  let ?a = "lq_heap s\<lparr>storage := storage (lq_heap s) @ [alloc_size (lq_heap s)]\<rparr>"
  show ?thesis
  proof (cases k)
    case (ForQueue x)
    then have adv: "lq_advance (lq_pcs s t) (lq_heap s) = ((WriteData x b, Silent), ?a)" using pc by simp
    have "lq_ok g (lq_run t s)"
      by (rule lq_ok_step [OF ok lq_run_simps(1) [OF adv]])
        (use d me lq_run_simps(2-) [OF adv] pc po ForQueue in auto)
    then show ?thesis by blast
  next
    case ForPool
    then have adv: "lq_advance (lq_pcs s t) (lq_heap s) = ((Outside, Handed b), ?a)" using pc by simp
    have "lq_ok (g\<lparr>gw := (gw g)(b := Client)\<rparr>) (lq_run t s)"
      by (rule lq_ok_step [OF ok lq_run_simps(1) [OF adv]])
        (use d me lq_run_simps(2-) [OF adv] pc po ForPool in auto)
    then show ?thesis by blast
  qed
qed

lemma run_FreeClear:
  assumes ok: "lq_ok g s" and pc: "lq_pcs s t = FreeClear n"
  shows "\<exists>g'. lq_ok g' (lq_run t s)"
proof -
  note d = lq_lists [OF ok] and me = lq_at [OF ok pc]
  have adv: "lq_advance (lq_pcs s t) (lq_heap s) = ((FreeSwap n, Silent), lq_heap s\<lparr>nxt := (nxt (lq_heap s))(n := None)\<rparr>)"
    using pc by simp
  have w: "gw g n = Private t" using me(1) by simp
  note pw = private_write [OF ok, of n, unfolded w, simplified] and po = private_only [OF w]
  have "lq_ok g (lq_run t s)"
    by (rule lq_ok_step [OF ok lq_run_simps(1) [OF adv]]) (use d me lq_run_simps(2-) [OF adv] pc pw po in auto)
  then show ?thesis by blast
qed

lemma run_FreeSwap:
  assumes ok: "lq_ok g s" and pc: "lq_pcs s t = FreeSwap n"
  shows "\<exists>g'. lq_ok g' (lq_run t s)"
proof -
  note d = lq_lists [OF ok] and me = lq_at [OF ok pc]
  have adv: "lq_advance (lq_pcs s t) (lq_heap s) = ((FreeLink n (free_head (lq_heap s)), Silent), lq_heap s\<lparr>free_head := n\<rparr>)"
    using pc by simp
  have w: "gw g n = Private t" using me(1) by simp
  note po = private_only [OF w]
  have n: "chain (nxt (lq_heap s)) [n]" "gw g i \<noteq> InFree" if "i \<in> set [n]" for i using me(6) po that by simp_all
  note sp = splice_gap [OF ok n, simplified] and ne = lq_ok_nonempty [OF ok]
  let ?g = "g\<lparr>gf := gf g @ [n], gp := (gp g)(last (gf g) \<mapsto> (t, n)), gw := (gw g)(n := InFree)\<rparr>"
  have "lq_ok ?g (lq_run t s)"
    by (rule lq_ok_step [OF ok lq_run_simps(1) [OF adv]])
      (use d me lq_run_simps(2-) [OF adv] pc po sp ne in \<open>auto split: if_splits\<close>)
  then show ?thesis by blast
qed

lemma run_WriteData:
  assumes ok: "lq_ok g s" and pc: "lq_pcs s t = WriteData x n"
  shows "\<exists>g'. lq_ok g' (lq_run t s)"
proof -
  note d = lq_lists [OF ok] and me = lq_at [OF ok pc]
  have adv: "lq_advance (lq_pcs s t) (lq_heap s) = ((ReadHead x n, Silent), lq_heap s\<lparr>dat := (dat (lq_heap s))(n := x)\<rparr>)"
    using pc by simp
  have w: "gw g n = Private t" using me(1) by simp
  note po = private_only [OF w]
  have "n \<notin> set (gq g)" using d(6) po by simp
  then have "map ((dat (lq_heap s))(n := x)) (tl (gq g)) = map (dat (lq_heap s)) (tl (gq g))"
    by (cases "gq g") auto
  then have m: "log_ok (lq_log s) (map ((dat (lq_heap s))(n := x)) (tl (gq g)))" using d(14) by (simp only:)
  have "lq_ok g (lq_run t s)"
    by (rule lq_ok_step [OF ok lq_run_simps(1) [OF adv]]) (use d(1-13) me lq_run_simps(2-) [OF adv] pc po m in auto)
  then show ?thesis by blast
qed

lemma run_ReadHead:
  assumes ok: "lq_ok g s" and pc: "lq_pcs s t = ReadHead x n"
  shows "\<exists>g'. lq_ok g' (lq_run t s)"
proof -
  note me = lq_at [OF ok pc]
  have adv: "lq_advance (lq_pcs s t) (lq_heap s) = ((LinkNode x n (q_head (lq_heap s)), Silent), lq_heap s)"
    using pc by simp
  have "u = t" if "lq_pcs s u = MoveHead m" for u m using lq_okD(15) [OF ok, of u] me(5) that by simp
  then have "\<not> others_move s t" unfolding others_move_def by blast
  then have "q_head (lq_heap s) = last (gq g)" using me(7) by simp
  then have "lq_ok g (lq_run t s)"
    by (intro lq_ok_move [OF ok lq_run_simps(1) [OF adv]])
      (use lq_lists [OF ok] me lq_run_simps(2-) [OF adv] pc in auto)
  then show ?thesis by blast
qed



lemma qhold_sole: "qhold pc = Some True \<Longrightarrow> sole pc"
  by (cases pc) simp_all

lemma run_LinkNode:
  assumes ok: "lq_ok g s" and pc: "lq_pcs s t = LinkNode x n h"
  shows "\<exists>g'. lq_ok g' (lq_run t s)"
proof -
  note d = lq_lists [OF ok] and me = lq_at [OF ok pc] and ne = lq_ok_nonempty [OF ok]
  let ?g = "g\<lparr>gq := gq g @ [n], gw := (gw g)(n := InQueue)\<rparr>"
  have adv: "lq_advance (lq_pcs s t) (lq_heap s) = ((MoveHead n, Entered x), lq_heap s\<lparr>nxt := (nxt (lq_heap s))(h := Some n)\<rparr>)"
    using pc by simp
  have w: "gw g n = Private t" and h: "h = last (gq g)" "h \<in> set (gq g)" using me(1,6) ne by auto
  note po = private_only [OF w]
  have n: "n \<notin> set (gq g)" "nxt (lq_heap s) n = None" "dat (lq_heap s) n = x" using d(6) po me(6) by auto
  have c: "chain ((nxt (lq_heap s))(h := Some n)) (gq g @ [n])" using chain_snoc [OF d(2,4) n(1,2)] h(1) by simp
  have hF: "gw g h = InQueue" using d(6) h(2) by simp
  have f: "chain (links ((nxt (lq_heap s))(h := Some n)) (gp g)) (gf g)"
    by (rule links_frame [OF _ d(3)]) (use d(7) hF in auto)
  have gap: "i \<in> set (gf g) \<and> i \<noteq> h \<and> nxt (lq_heap s) i = None" if "gp g i = Some p" for i p
    using d(7,10) that hF by fastforce
  have "tl (gq g @ [n]) = tl (gq g) @ [n]" using ne by (cases "gq g") auto
  with log_ok_snoc(1) [OF d(14), of x] n(3)
  have l: "log_ok (lq_log s @ [(Enq x, None)]) (map (dat (lq_heap s)) (tl (gq g @ [n])))" by simp
  have frame: "nxt (lq_heap s) i = ((nxt (lq_heap s))(h := Some n)) i" if "gw g i \<noteq> InQueue" for i using hF that by auto
  have "lq_ok ?g (lq_run t s)"
  proof (rule lq_ok_step [OF ok lq_run_simps(1) [OF adv]])
    show "\<And>u n. u \<noteq> t \<Longrightarrow> gw g n = Private u \<Longrightarrow>
        nxt (lq_heap (lq_run t s)) n = nxt (lq_heap s) n \<and> dat (lq_heap (lq_run t s)) n = dat (lq_heap s) n"
      using frame lq_run_simps(2) [OF adv] by simp
    show "\<And>u. u \<noteq> t \<Longrightarrow> hf g = Some u \<Longrightarrow> (\<exists>r. gf ?g = gf g @ r) \<and>
        (\<forall>n \<in> set (gf g). nxt (lq_heap s) n \<noteq> None \<longrightarrow> nxt (lq_heap (lq_run t s)) n = nxt (lq_heap s) n)"
      using frame d(7) lq_run_simps(2) [OF adv] by simp
    show "\<And>i p. gp ?g i = Some p \<Longrightarrow> i \<in> set (gf ?g) \<and> nxt (lq_heap (lq_run t s)) i = None"
      using gap lq_run_simps(2) [OF adv] by simp
  qed (use d(1-9) d(11-13) me lq_run_simps(2-) [OF adv] pc po n c f l ne in auto)
  then show ?thesis by blast
qed

lemma run_MoveHead:
  assumes ok: "lq_ok g s" and pc: "lq_pcs s t = MoveHead n"
  shows "\<exists>g'. lq_ok g' (lq_run t s)"
proof -
  note d = lq_lists [OF ok] and me = lq_at [OF ok pc]
  have adv: "lq_advance (lq_pcs s t) (lq_heap s) = ((Outside, Silent), lq_heap s\<lparr>q_head := n\<rparr>)" using pc by simp
  have "lq_ok (g\<lparr>hp := None\<rparr>) (lq_run t s)"
    by (rule lq_ok_step [OF ok lq_run_simps(1) [OF adv]]) (use d me lq_run_simps(2-) [OF adv] pc in auto)
  then show ?thesis by blast
qed

lemma idle_run: "lq_advance (lq_pcs s t) (lq_heap s) = ((lq_pcs s t, Silent), lq_heap s) \<Longrightarrow> lq_run t s = s"
  by (cases s) (simp add: lq_run_def fun_upd_idem)

lemma run_TakeTail:
  assumes ok: "lq_ok g s" and pc: "lq_pcs s t = TakeTail weak"
  shows "\<exists>g'. lq_ok g' (lq_run t s)"
proof (cases "q_tail (lq_heap s)")
  case None
  note r = lq_run_simps [of s t "if weak then Outside else TakeTail weak" Silent]
  have adv: "lq_advance (lq_pcs s t) (lq_heap s) = ((if weak then Outside else TakeTail weak, Silent), lq_heap s)"
    using pc None by simp
  have "lq_ok g (lq_run t s)"
    by (rule lq_ok_move [OF ok r(1) [OF adv]])
      (use lq_lists [OF ok] lq_at [OF ok pc] r(2-) [OF adv] pc in \<open>auto split: if_splits\<close>)
  then show ?thesis by blast
next
  case (Some n)
  note d = lq_lists [OF ok] and me = lq_at [OF ok pc]
  have adv: "lq_advance (lq_pcs s t) (lq_heap s) = ((ReadNext False n, Silent), lq_heap s\<lparr>q_tail := None\<rparr>)"
    using pc Some by simp
  have "\<not> sole (lq_pcs s u)" if "u \<noteq> t" for u using lq_okD(21) [OF ok, of u t] pc that by auto
  then have "hq g \<noteq> Some (u, True)" for u
    using lq_okD(13) [OF ok, of u True] pc qhold_sole [of "lq_pcs s u"] by (cases "u = t") auto
  then have f: "hq g = None" "n = hd (gq g)" using d(11) Some by (cases "hq g"; auto)+
  have "lq_ok (g\<lparr>hq := Some (t, False)\<rparr>) (lq_run t s)"
    by (rule lq_ok_step [OF ok lq_run_simps(1) [OF adv]]) (use d me lq_run_simps(2-) [OF adv] pc f in auto)
  then show ?thesis by blast
qed

lemma run_LoadTail:
  assumes ok: "lq_ok g s" and pc: "lq_pcs s t = LoadTail"
  shows "\<exists>g'. lq_ok g' (lq_run t s)"
proof -
  note d = lq_lists [OF ok] and me = lq_at [OF ok pc]
  have "hq g \<noteq> Some (u, sc)" for u sc
    using lq_okD(13) [OF ok, of u sc] lq_okD(21) [OF ok, of t u] pc qhold_consuming(1) [of "lq_pcs s u" sc] by auto
  then have h: "hq g = None" by (cases "hq g") auto
  have adv: "lq_advance (lq_pcs s t) (lq_heap s) = ((ReadNext True (hd (gq g)), Silent), lq_heap s)"
    using pc d(11) h by simp
  have "lq_ok (g\<lparr>hq := Some (t, True)\<rparr>) (lq_run t s)"
    by (rule lq_ok_step [OF ok lq_run_simps(1) [OF adv]]) (use d me lq_run_simps(2-) [OF adv] pc h in auto)
  then show ?thesis by blast
qed

text \<open>The next node, read by the thread that holds the tail.\<close>

lemma read_next:
  assumes "lq_ok g s" "n = hd (gq g)"
  shows "nxt (lq_heap s) n = None \<Longrightarrow> gq g = [n]" "nxt (lq_heap s) n = Some m \<Longrightarrow> \<exists>r. gq g = n # m # r"
  using lq_okD(2) [OF assms(1)] assms(2) by (cases "gq g" rule: remdups_adj.cases; auto)+

lemma run_ReadNext:
  assumes ok: "lq_ok g s" and pc: "lq_pcs s t = ReadNext sc n"
  shows "\<exists>g'. lq_ok g' (lq_run t s)"
proof (cases "nxt (lq_heap s) n")
  case (Some m)
  note r = lq_run_simps [of s t "ReadData sc n m" Silent] and me = lq_at [OF ok pc]
  have adv: "lq_advance (lq_pcs s t) (lq_heap s) = ((ReadData sc n m, Silent), lq_heap s)" using pc Some by simp
  have "\<exists>r. gq g = n # m # r" using read_next(2) [OF ok _ Some] me(6) by simp
  then have "lq_ok g (lq_run t s)"
    by (intro lq_ok_move [OF ok r(1) [OF adv]]) (use lq_lists [OF ok] me r(2-) [OF adv] pc in auto)
  then show ?thesis by blast
next
  case None
  note d = lq_lists [OF ok] and me = lq_at [OF ok pc]
  have q: "gq g = [n]" using read_next(1) [OF ok _ None] me(6) by simp
  have h: "hq g = Some (t, sc)" using me(3) by simp
  have l: "log_ok (lq_log s @ [(Deq, None)]) []" using d(14) q by (intro log_ok_snoc(3)) simp
  show ?thesis
  proof (cases sc)
    case True
    have adv: "lq_advance (lq_pcs s t) (lq_heap s) = ((Outside, FoundEmpty), lq_heap s)" using pc None True by simp
    have "lq_ok (g\<lparr>hq := None\<rparr>) (lq_run t s)"
      by (rule lq_ok_step [OF ok lq_run_simps(1) [OF adv]]) 
        (use d(1-13) me(1,2,4-) h lq_run_simps(2-) [OF adv] pc q l True in auto)
    then show ?thesis by blast
  next
    case False
    have adv: "lq_advance (lq_pcs s t) (lq_heap s) = ((PutBackTail n, FoundEmpty), lq_heap s)" using pc None False by simp
    have "lq_ok g (lq_run t s)"
      by (rule lq_ok_move [OF ok lq_run_simps(1) [OF adv]]) (use d(1-13) me lq_run_simps(2-) [OF adv] pc q l False in auto)
    then show ?thesis by blast
  qed
qed

lemma run_PutBackTail:
  assumes ok: "lq_ok g s" and pc: "lq_pcs s t = PutBackTail n"
  shows "\<exists>g'. lq_ok g' (lq_run t s)"
proof -
  note d = lq_lists [OF ok] and me = lq_at [OF ok pc]
  have adv: "lq_advance (lq_pcs s t) (lq_heap s) = ((Outside, Silent), lq_heap s\<lparr>q_tail := Some n\<rparr>)" using pc by simp
  have "lq_ok (g\<lparr>hq := None\<rparr>) (lq_run t s)"
    by (rule lq_ok_step [OF ok lq_run_simps(1) [OF adv]]) (use d me lq_run_simps(2-) [OF adv] pc in auto)
  then show ?thesis by blast
qed

lemma run_ReadData:
  assumes ok: "lq_ok g s" and pc: "lq_pcs s t = ReadData sc n m"
  shows "\<exists>g'. lq_ok g' (lq_run t s)"
proof -
  have adv: "lq_advance (lq_pcs s t) (lq_heap s) = ((MoveTail sc n m (dat (lq_heap s) m), Silent), lq_heap s)" using pc by simp
  have "lq_ok g (lq_run t s)"
    by (rule lq_ok_move [OF ok lq_run_simps(1) [OF adv]])
      (use lq_lists [OF ok] lq_at [OF ok pc] lq_run_simps(2-) [OF adv] pc in auto)
  then show ?thesis by blast
qed

lemma run_MoveTail:
  assumes ok: "lq_ok g s" and pc: "lq_pcs s t = MoveTail sc n m x"
  shows "\<exists>g'. lq_ok g' (lq_run t s)"
proof -
  note d = lq_lists [OF ok] and me = lq_at [OF ok pc]
  have adv: "lq_advance (lq_pcs s t) (lq_heap s) = ((FreeClear n, Left x), lq_heap s\<lparr>q_tail := Some m\<rparr>)" using pc by simp
  have h: "hq g = Some (t, sc)" using me(3) by simp
  obtain q where q: "gq g = n # m # q" "dat (lq_heap s) m = x" using me(6) by auto
  have w: "gw g i = InQueue \<longleftrightarrow> i = n \<or> i = m \<or> i \<in> set q" for i using d(6) [of i] q by auto
  then have "gw g n = InQueue" by simp
  then have wn: "gw g n \<noteq> InFree" "gw g n \<noteq> Client" "gw g n \<noteq> Unborn" "\<And>u. gw g n \<noteq> Private u" by simp_all
  have l: "log_ok (lq_log s @ [(Deq, Some x)]) (map (dat (lq_heap s)) q)" using d(14) q by (intro log_ok_snoc(2)) simp
  have "lq_ok (g\<lparr>hq := None, gq := m # q, gw := (gw g)(n := Private t)\<rparr>) (lq_run t s)"
    by (rule lq_ok_step [OF ok lq_run_simps(1) [OF adv]])
      (use d(1-5) d(7-13) me(1,2,4-) h lq_run_simps(2-) [OF adv] pc q w wn l in auto)
  then show ?thesis by blast
qed


lemma lq_ok_run:
  assumes ok: "lq_ok g s" shows "\<exists>g'. lq_ok g' (lq_run t s)"
proof (cases "lq_pcs s t")
  case Outside
  then have "lq_run t s = s" by (intro idle_run) simp
  with ok show ?thesis by auto
qed (use ok in \<open>blast intro: run_TakeFree run_NextFree run_PutBackFree run_AdvanceFree run_ClearNode run_NewBlock
    run_SpliceBlock run_LinkBlock run_KeepBlock run_WriteData run_ReadHead run_LinkNode run_MoveHead run_TakeTail
    run_LoadTail run_ReadNext run_PutBackTail run_ReadData run_MoveTail run_FreeClear run_FreeSwap run_FreeLink\<close>)+

text \<open>A call.\<close>

lemma lq_ok_call:
  assumes ok: "lq_ok g s" and out: "lq_pcs s t = Outside"
    and pc: "own (alloc_size (lq_heap s)) pc = {}" "pend (alloc_size (lq_heap s)) pc = None" "qhold pc = None" "\<not> fhold pc"
      "pc_ok (gq g) (gf g) (lq_heap s) pc" "producing pc \<Longrightarrow> hp g = None"
      "\<And>u. sole (lq_pcs s u) \<Longrightarrow> \<not> consuming pc" "\<And>u. consuming (lq_pcs s u) \<Longrightarrow> \<not> sole pc"
  shows "\<exists>g'. lq_ok g' (s\<lparr>lq_pcs := (lq_pcs s)(t := pc)\<rparr>)"
proof -
  note d = lq_okD [OF ok] and me = lq_at [OF ok out]
  have "lq_ok (if producing pc then g\<lparr>hp := Some t\<rparr> else g) (s\<lparr>lq_pcs := (lq_pcs s)(t := pc)\<rparr>)"
  proof (rule lq_okI)
    fix u v
    let ?p = "lq_pcs (s\<lparr>lq_pcs := (lq_pcs s)(t := pc)\<rparr>)"
    show "sole (?p u) \<Longrightarrow> consuming (?p v) \<Longrightarrow> v = u" using pc(7,8) d(21) by (auto split: if_splits)
    show "pc_ok (gq (if producing pc then g\<lparr>hp := Some t\<rparr> else g)) (gf (if producing pc then g\<lparr>hp := Some t\<rparr> else g))
        (lq_heap (s\<lparr>lq_pcs := (lq_pcs s)(t := pc)\<rparr>)) (?p u)" using pc(5) d(20) by simp
    show "q_head (lq_heap (s\<lparr>lq_pcs := (lq_pcs s)(t := pc)\<rparr>)) = last (gq (if producing pc then g\<lparr>hp := Some t\<rparr> else g))
        \<or> (\<exists>t n. ?p t = MoveHead n)"
      using d(19)
    proof (elim disjE exE)
      fix w n assume w: "lq_pcs s w = MoveHead n"
      then have "w \<noteq> t" using out by auto
      with w show ?thesis by (intro disjI2 exI [of _ w] exI [of _ n]) simp
    qed simp
    show "producing (?p u) \<longleftrightarrow> hp (if producing pc then g\<lparr>hp := Some t\<rparr> else g) = Some u"
      using me(5) d(15) [of u] pc(6) by auto
    show "fhold (?p u) \<longleftrightarrow> hf (if producing pc then g\<lparr>hp := Some t\<rparr> else g) = Some u"
      using me(4) d(14) [of u] pc(4) by auto
    show "qhold (?p u) = Some sc \<longleftrightarrow> hq (if producing pc then g\<lparr>hp := Some t\<rparr> else g) = Some (u, sc)" for sc
      using me(3) d(13) [of u] pc(3) by auto
    show "pend (alloc_size (lq_heap (s\<lparr>lq_pcs := (lq_pcs s)(t := pc)\<rparr>))) (?p u) = Some (i, j) \<longleftrightarrow>
        gp (if producing pc then g\<lparr>hp := Some t\<rparr> else g) i = Some (u, j)" for i j
      using me(2) d(12) [of u] pc(2) by auto
    show "n \<in> own (alloc_size (lq_heap (s\<lparr>lq_pcs := (lq_pcs s)(t := pc)\<rparr>))) (?p u) \<longleftrightarrow>
        gw (if producing pc then g\<lparr>hp := Some t\<rparr> else g) n = Private u" for n
      using me(1) d(8) [of _ u] pc(1) by auto
  qed (use d in \<open>auto split: if_splits\<close>)
  then show ?thesis by blast
qed

lemma lq_ok_free_call:
  assumes ok: "lq_ok g s" and out: "lq_pcs s t = Outside" and n: "n \<in> lq_held s"
  shows "\<exists>g'. lq_ok g' (s\<lparr>lq_pcs := (lq_pcs s)(t := FreeClear n), lq_held := lq_held s - {n}\<rparr>)"
proof -
  note d = lq_lists [OF ok] and me = lq_at [OF ok out]
  have "gw g n = Client" using d(8) n by simp
  then have wn: "gw g n \<noteq> InFree" "gw g n \<noteq> InQueue" "gw g n \<noteq> Unborn" "\<And>u. gw g n \<noteq> Private u" by simp_all
  have "lq_ok (g\<lparr>gw := (gw g)(n := Private t)\<rparr>) (s\<lparr>lq_pcs := (lq_pcs s)(t := FreeClear n), lq_held := lq_held s - {n}\<rparr>)"
    by (rule lq_ok_step [OF ok, where pc = "FreeClear n"]) (use d me out wn in auto)
  then show ?thesis by blast
qed

lemma lq_ok_next:
  assumes ok: "lq_ok g s" and step: "lq_step s s'"
  shows "\<exists>g'. lq_ok g' s'"
  using step
proof cases
  case (run t)
  then show ?thesis using lq_ok_run [OF ok] by simp
next
  case (call_enqueue t x)
  then have "hp g = None" using lq_okD(15) [OF ok] by (cases "hp g") auto
  with call_enqueue show ?thesis using lq_ok_call [OF ok call_enqueue(2), of "TakeFree (ForQueue x)"] by simp
next
  case (call_dequeue t weak)
  then show ?thesis using lq_ok_call [OF ok call_dequeue(2), of "TakeTail weak"] by simp
next
  case (call_dequeue_sc t)
  then show ?thesis using lq_ok_call [OF ok call_dequeue_sc(2), of LoadTail] qhold_consuming(2) by auto
next
  case (call_alloc t)
  then show ?thesis using lq_ok_call [OF ok call_alloc(2), of "TakeFree ForPool"] by simp
next
  case (call_free t n)
  then show ?thesis using lq_ok_free_call [OF ok call_free(2,3)] by simp
qed

lemma lq_ok_reachable:
  assumes "2 \<le> n" "lq_step\<^sup>*\<^sup>* (lq_start n d) s" shows "\<exists>g. lq_ok g s"
  using assms(2)
proof (induction rule: rtranclp_induct)
  case base
  show ?case by (rule exI, rule lq_start_ok [OF assms(1)])
next
  case (step s s')
  then show ?case using lq_ok_next by blast
qed


section \<open>Properties\<close>

definition enqueued :: "('a fifo_op \<times> 'a option) list \<Rightarrow> 'a list" where
  "enqueued l = concat (map (\<lambda>p. case fst p of Enq x \<Rightarrow> [x] | Deq \<Rightarrow> []) l)"

definition found :: "('a fifo_op \<times> 'a option) list \<Rightarrow> 'a option list" where
  "found l = map snd (filter (\<lambda>p. fst p = Deq) l)"

definition somes :: "'a option list \<Rightarrow> 'a list" where
  "somes rs = map the (filter (\<lambda>r. r \<noteq> None) rs)"

lemma fifo_spec_prefix:
  "fifo_spec (map fst l) xs = (outs, ys) \<Longrightarrow> somes outs @ ys = xs @ enqueued l"
proof (induction l arbitrary: xs outs)
  case Nil
  then show ?case by (simp add: somes_def enqueued_def)
next
  case (Cons p l)
  show ?case
  proof (cases "fst p")
    case (Enq x)
    then show ?thesis using Cons.prems Cons.IH [of "xs @ [x]" outs] by (simp add: enqueued_def)
  next
    case Deq
    then obtain outs' where o: "fifo_spec (map fst l) (tl xs) = (outs', ys)" "outs = head_option xs # outs'"
      using Cons.prems by (auto split: prod.splits)
    have "somes outs' @ ys = tl xs @ enqueued l" by (rule Cons.IH [OF o(1)])
    then show ?thesis using o(2) Deq by (cases xs) (simp_all add: somes_def enqueued_def)
  qed
qed

text \<open>Claim C15: The list queue is linearizable. In every interleaving of one enqueuing thread, any number of
  dequeuing threads and any number of clients that allocate and free nodes of the same allocator, the enqueues
  and dequeues, taken in the order in which their one decisive access happens (the store of the link, the store
  of the tail, the load of a null link), are a run of the abstract queue: each dequeue found the oldest
  value not dequeued yet, or nothing when there was none. So what was dequeued, in order, is a prefix
  of what was enqueued: nothing is lost, duplicated or reordered.\<close>

theorem list_queue_linearizable:
  assumes "2 \<le> n" and "lq_step\<^sup>*\<^sup>* (lq_start n d) s"
  shows "\<exists>rest. fifo_spec (map fst (lq_log s)) [] = (found (lq_log s), rest)
    \<and> somes (found (lq_log s)) @ rest = enqueued (lq_log s)"
proof -
  obtain g where "lq_ok g s" using lq_ok_reachable [OF assms] by blast
  from lq_okD(22) [OF this] obtain rest where r: "fifo_spec (map fst (lq_log s)) [] = (found (lq_log s), rest)"
    by (simp add: log_ok_def found_def)
  with fifo_spec_prefix [OF r] show ?thesis by simp
qed

text \<open>A run of several threads: what each call and each access of the listed threads makes of the system.\<close>

fun lq_runs :: "nat list \<Rightarrow> 'a lq_sys \<Rightarrow> 'a lq_sys" where
  "lq_runs [] s = s"
| "lq_runs (t # ts) s = lq_runs ts (lq_run t s)"

lemma lq_runs_reach: "lq_step\<^sup>*\<^sup>* s0 s \<Longrightarrow> lq_step\<^sup>*\<^sup>* s0 (lq_runs ts s)"
  by (induction ts arbitrary: s) (auto intro: rtranclp.rtrancl_into_rtrancl lq_step.run)

definition lq_call :: "nat \<Rightarrow> 'a lq_pc \<Rightarrow> 'a lq_sys \<Rightarrow> 'a lq_sys" where
  "lq_call t pc s = s\<lparr>lq_pcs := (lq_pcs s)(t := pc)\<rparr>"

text \<open>Thread 1 enqueues while thread 2 holds the tail; the dequeue finds the value.\<close>

definition overtaken :: "nat lq_sys" where
  "overtaken = lq_runs [2, 2, 2] (lq_runs [1, 1, 1, 1, 1, 1, 1, 1, 1, 1, 1] (lq_runs [2]
     (lq_call 2 (TakeTail False) (lq_call 1 (TakeFree (ForQueue 7)) (lq_start 2 0)))))"

lemma overtaken_reachable: "lq_step\<^sup>*\<^sup>* (lq_start 2 0) overtaken"
proof -
  let ?s = "lq_start 2 0 :: nat lq_sys"
  have "lq_step ?s (lq_call 1 (TakeFree (ForQueue 7)) ?s)"
    unfolding lq_call_def by (rule lq_step.call_enqueue) (simp_all add: lq_start_def)
  moreover have "lq_step (lq_call 1 (TakeFree (ForQueue 7)) ?s) (lq_call 2 (TakeTail False) (lq_call 1 (TakeFree (ForQueue 7)) ?s))"
    unfolding lq_call_def by (rule lq_step.call_dequeue) (simp_all add: lq_start_def)
  ultimately have "lq_step\<^sup>*\<^sup>* ?s (lq_call 2 (TakeTail False) (lq_call 1 (TakeFree (ForQueue 7)) ?s))" by simp
  then show ?thesis unfolding overtaken_def by (intro lq_runs_reach)
qed

lemma overtaken_log: "lq_log overtaken = [(Enq 7, None), (Deq, Some 7)]"
  by (simp add: overtaken_def lq_call_def lq_run_def lq_start_def allocator_new_def Let_def block_links_def)

theorem list_queue_linearizable_witness: "fifo_spec (map fst (lq_log overtaken)) [] = ([Some 7], [])"
  using list_queue_linearizable [OF _ overtaken_reachable] by (simp add: overtaken_log found_def)

lemma give_Handed: "give k n = (pc, Handed m) \<Longrightarrow> m = n"
  by (cases k) simp_all

text \<open>Claim C16: A node in use belongs to its client. Under any interleaving a node the pool hands out is in no
  client's hands and is neither in the queue nor free, and while a client holds a node no access of any thread
  inside the allocator or the queue changes its link or its data.\<close>

theorem pool_threads_safe:
  assumes "2 \<le> n" and "lq_step\<^sup>*\<^sup>* (lq_start n d) s"
  shows "(lq_advance (lq_pcs s t) (lq_heap s) = ((pc, Handed m), a) \<longrightarrow> m \<notin> lq_held s \<and> m < node_count (lq_heap s))
    \<and> (\<forall>m \<in> lq_held s. nxt (lq_heap (lq_run t s)) m = nxt (lq_heap s) m \<and> dat (lq_heap (lq_run t s)) m = dat (lq_heap s) m)"
proof -
  obtain g where ok: "lq_ok g s" using lq_ok_reachable [OF assms] by blast
  note d = lq_lists [OF ok] and me = lq_at [OF ok refl [of "lq_pcs s t"]]
  have held: "gw g m = Client" if "m \<in> lq_held s" for m using d(8) that by simp
  have free: "gw g i \<noteq> Client" if "gp g i = Some p" for i p using d(7,10) that by fastforce
  have head: "gw g (last (gq g)) \<noteq> Client" using d(6) lq_ok_nonempty [OF ok] by (metis last_in_set node_owner.distinct(5))
  have "lq_advance (lq_pcs s t) (lq_heap s) = ((pc, Handed m), a) \<Longrightarrow> gw g m = Private t"
    using me(1) by (cases "lq_pcs s t") (auto simp: Let_def split: option.splits dest: give_Handed)
  then have "lq_advance (lq_pcs s t) (lq_heap s) = ((pc, Handed m), a) \<Longrightarrow> m \<notin> lq_held s \<and> m < node_count (lq_heap s)"
    using held d(9) [of m] by (auto simp: not_le [symmetric])
  moreover have "nxt (lq_heap (lq_run t s)) m = nxt (lq_heap s) m \<and> dat (lq_heap (lq_run t s)) m = dat (lq_heap s) m"
    if "gw g m = Client" for m
  proof -
    have "m < node_count (lq_heap s)" using d(9) [of m] that by (simp add: not_le [symmetric])
    moreover have "m \<notin> own (alloc_size (lq_heap s)) (lq_pcs s t)" using me(1) [of m] that by auto
    moreover have "pend (alloc_size (lq_heap s)) (lq_pcs s t) \<noteq> Some (m, j)" for j using me(2) free that by blast
    moreover have "lq_pcs s t = LinkNode x i h \<Longrightarrow> m \<noteq> h" for x i h using me(6) head that by auto
    ultimately show ?thesis
      by (cases "lq_pcs s t") (auto simp: lq_run_def Let_def block_links_old split: option.splits prod.splits)
  qed
  ultimately show ?thesis using held by blast
qed


text \<open>Thread 1 has allocated node 2; thread 2 is about to be handed node 1.\<close>

definition two_clients :: "nat lq_sys" where
  "two_clients = lq_runs [2, 2, 2] (lq_call 2 (TakeFree ForPool)
     (lq_runs [1, 1, 1, 1, 1, 1, 1] (lq_call 1 (TakeFree ForPool) (lq_start 2 0))))"

lemma lq_call_alloc_reach:
  "lq_step\<^sup>*\<^sup>* s0 s \<Longrightarrow> lq_pcs s t = Outside \<Longrightarrow> lq_step\<^sup>*\<^sup>* s0 (lq_call t (TakeFree ForPool) s)"
  unfolding lq_call_def by (blast intro: rtranclp.rtrancl_into_rtrancl lq_step.call_alloc)

lemma two_clients_reachable: "lq_step\<^sup>*\<^sup>* (lq_start 2 0) two_clients"
  unfolding two_clients_def
  by (intro lq_runs_reach lq_call_alloc_reach)
    (simp_all add: lq_call_def lq_run_def lq_start_def allocator_new_def Let_def block_links_def)

lemma two_clients_state:
  "lq_held two_clients = {2}" "lq_pcs two_clients 2 = ClearNode ForPool 1" "nxt (lq_heap two_clients) 2 = None"
  by (simp_all add: two_clients_def lq_call_def lq_run_def lq_start_def allocator_new_def Let_def block_links_def)

theorem pool_threads_safe_witness:
  "1 \<notin> lq_held two_clients \<and> nxt (lq_heap (lq_run 2 two_clients)) 2 = None"
  using pool_threads_safe [OF _ two_clients_reachable, of 2 Outside 1] two_clients_state by simp

text \<open>Claim C17: Nobody waits for ever. In every reachable state, when an access of a thread would find the tail
  of the free list or of the queue taken away, another thread holds it and puts it back within its next three accesses,
  whatever it finds; it never waits meanwhile.\<close>

theorem list_tails_come_back:
  assumes "2 \<le> n" and "lq_step\<^sup>*\<^sup>* (lq_start n d) s"
  shows "(lq_pcs s t = TakeFree k \<and> free_tail (lq_heap s) = None \<longrightarrow>
      (\<exists>u. u \<noteq> t \<and> (\<exists>j \<le> 2. free_tail (lq_heap ((lq_run u ^^ j) s)) \<noteq> None)))
    \<and> (lq_pcs s t = TakeTail weak \<and> q_tail (lq_heap s) = None \<longrightarrow>
      (\<exists>u. u \<noteq> t \<and> (\<exists>j \<le> 3. q_tail (lq_heap ((lq_run u ^^ j) s)) \<noteq> None)))"
proof (intro conjI impI; elim conjE)
  obtain g where ok: "lq_ok g s" using lq_ok_reachable [OF assms] by blast
  note d = lq_okD [OF ok]
  {
    assume a: "lq_pcs s t = TakeFree k" "free_tail (lq_heap s) = None"
    then obtain u where u: "hf g = Some u" using d(17) by (cases "hf g") auto
    then have f: "fhold (lq_pcs s u)" using d(14) by simp
    then have ne: "u \<noteq> t" using a(1) by auto
    have "\<exists>j \<le> 2. free_tail (lq_heap ((lq_run u ^^ j) s)) \<noteq> None"
      using f
      by (cases "lq_pcs s u")
        (auto simp: lq_run_def numeral_2_eq_2 split: option.splits intro: exI [of _ 2] exI [of _ 1])
    with ne show "\<exists>u. u \<noteq> t \<and> (\<exists>j \<le> 2. free_tail (lq_heap ((lq_run u ^^ j) s)) \<noteq> None)" by blast
  }
  {
    assume a: "lq_pcs s t = TakeTail weak" "q_tail (lq_heap s) = None"
    then obtain u sc where "hq g = Some (u, sc)" using d(16) by (cases "hq g") auto
    with a d(16) have u: "hq g = Some (u, False)" by (cases sc) auto
    then have f: "qhold (lq_pcs s u) = Some False" using d(13) by simp
    then have ne: "u \<noteq> t" using a(1) by auto
    have "\<exists>j \<le> 3. q_tail (lq_heap ((lq_run u ^^ j) s)) \<noteq> None"
      using f
      by (cases "lq_pcs s u")
        (auto simp: lq_run_def numeral_3_eq_3 split: option.splits intro: exI [of _ 3] exI [of _ 2] exI [of _ 1])
    with ne show "\<exists>u. u \<noteq> t \<and> (\<exists>j \<le> 3. q_tail (lq_heap ((lq_run u ^^ j) s)) \<noteq> None)" by blast
  }
qed

definition tail_taken :: "nat lq_sys" where
  "tail_taken = lq_call 3 (TakeTail True) (lq_run 2 (lq_call 2 (TakeTail False) (lq_start 2 0)))"

lemma lq_call_dequeue_reach:
  "lq_step\<^sup>*\<^sup>* s0 s \<Longrightarrow> lq_pcs s t = Outside \<Longrightarrow> \<forall>u. \<not> sole (lq_pcs s u) \<Longrightarrow> lq_step\<^sup>*\<^sup>* s0 (lq_call t (TakeTail w) s)"
  unfolding lq_call_def by (blast intro: rtranclp.rtrancl_into_rtrancl lq_step.call_dequeue)

lemma tail_taken_reachable: "lq_step\<^sup>*\<^sup>* (lq_start 2 0) tail_taken"
  unfolding tail_taken_def
proof (rule lq_call_dequeue_reach)
  show "lq_step\<^sup>*\<^sup>* (lq_start 2 0) (lq_run 2 (lq_call 2 (TakeTail False) (lq_start 2 (0 :: nat))))"
  proof -
    have "lq_step\<^sup>*\<^sup>* (lq_start 2 0) (lq_runs [2] (lq_call 2 (TakeTail False) (lq_start 2 (0 :: nat))))"
      by (intro lq_runs_reach lq_call_dequeue_reach) (simp_all add: lq_start_def)
    then show ?thesis by simp
  qed
qed (simp_all add: lq_call_def lq_run_def lq_start_def allocator_new_def)

theorem list_tails_come_back_witness:
  "\<exists>u. u \<noteq> 3 \<and> (\<exists>j \<le> 3. q_tail (lq_heap ((lq_run u ^^ j) tail_taken)) \<noteq> None)"
  using list_tails_come_back [OF _ tail_taken_reachable, of 3 _ True]
  by (simp add: tail_taken_def lq_call_def lq_run_def lq_start_def allocator_new_def)

end
