(* ===== verification/NetAddress.thy ===== *)
theory NetAddress
  imports Prelude
begin

text \<open>
  The address classes: \<open>Protocal\<close>, \<open>IpV4Address\<close>, \<open>IpV6Address\<close>,
  \<open>TcpIpV4Address\<close>, \<open>TcpIpV6Address\<close> (net/Protocal.h, net/ip/IpAddress.cpp,
  net/tcp/TcpAddress.cpp). An address object is the byte array it holds. A byte copy or
  comparison that leaves an array is the error \<open>ReadOverrun\<close> or \<open>WriteOverrun\<close>.
  \<open>inet_pton\<close> and \<open>inet_ntop\<close> are parameters (\<open>pton4\<close>, \<open>pton6\<close>,
  \<open>ntop4\<close>, \<open>ntop6\<close>); the contents of an array no constructor initialises is the
  parameter \<open>junk\<close>. The structures \<open>sockaddr_in\<close> and \<open>sockaddr_in6\<close> have the
  layout of Linux on a little-endian machine.
\<close>

subsection \<open>Protocols\<close>

definition UNKNOWN :: u32 where "UNKNOWN = 0"
definition TCP :: u32 where "TCP = push_bit 8 1"
definition UDP :: u32 where "UDP = push_bit 8 2"
definition IPV4 :: u32 where "IPV4 = 1"
definition IPV6 :: u32 where "IPV6 = 2"
definition TCP_IPV4 :: u32 where "TCP_IPV4 = TCP OR IPV4"
definition TCP_IPV6 :: u32 where "TCP_IPV6 = TCP OR IPV6"
definition UDP_IPV4 :: u32 where "UDP_IPV4 = UDP OR IPV4"
definition UDP_IPV6 :: u32 where "UDP_IPV6 = UDP OR IPV6"

definition networkProtocal :: "u32 \<Rightarrow> u32" where
  "networkProtocal p = p AND 0xFF"

definition transportProtocal :: "u32 \<Rightarrow> u32" where
  "transportProtocal p = p AND 0xFF00"

lemmas protocal_defs = UNKNOWN_def TCP_def UDP_def IPV4_def IPV6_def TCP_IPV4_def TCP_IPV6_def
  UDP_IPV4_def UDP_IPV6_def networkProtocal_def transportProtocal_def

lemma protocal_split:
  "networkProtocal TCP_IPV4 = IPV4" "transportProtocal TCP_IPV4 = TCP"
  "networkProtocal TCP_IPV6 = IPV6" "transportProtocal TCP_IPV6 = TCP"
  "networkProtocal UDP_IPV4 = IPV4" "transportProtocal UDP_IPV4 = UDP"
  "networkProtocal UDP_IPV6 = IPV6" "transportProtocal UDP_IPV6 = UDP"
  by (simp_all add: protocal_defs)

subsection \<open>Byte arrays\<close>

datatype fault = ReadOverrun | WriteOverrun

definition put :: "nat \<Rightarrow> 'a list \<Rightarrow> 'a list \<Rightarrow> 'a list" where
  "put i bs m = take i m @ bs @ drop (i + length bs) m"

definition window :: "nat \<Rightarrow> nat \<Rightarrow> 'a list \<Rightarrow> 'a list" where
  "window i n m = take n (drop i m)"

definition memcpy :: "u8 list \<Rightarrow> nat \<Rightarrow> u8 list \<Rightarrow> nat \<Rightarrow> nat \<Rightarrow> fault + u8 list" where
  "memcpy dst d src s n =
     (if length src < s + n then Inl ReadOverrun
      else if length dst < d + n then Inl WriteOverrun
      else Inr (put d (window s n src) dst))"

text \<open>\<open>memcmp(a + i, b + j, n) == 0\<close>.\<close>

definition memcmp_eq :: "u8 list \<Rightarrow> nat \<Rightarrow> u8 list \<Rightarrow> nat \<Rightarrow> nat \<Rightarrow> fault + bool" where
  "memcmp_eq a i b j n =
     (if length a < i + n \<or> length b < j + n then Inl ReadOverrun
      else Inr (window i n a = window j n b))"

lemma length_put [simp]: "i + length bs \<le> length m \<Longrightarrow> length (put i bs m) = length m"
  by (simp add: put_def)

lemma length_window [simp]: "i + n \<le> length m \<Longrightarrow> length (window i n m) = n"
  by (simp add: window_def)

lemma window_put_same [simp]:
  "n = length bs \<Longrightarrow> i + n \<le> length m \<Longrightarrow> window i n (put i bs m) = bs"
  by (simp add: put_def window_def)

lemma window_put_before [simp]:
  assumes "i + n \<le> j" "j + length bs \<le> length m"
  shows "window i n (put j bs m) = window i n m"
proof -
  have "take n (drop i (take j m)) = take n (drop i m)"
    using assms by (metis add.commute le_add_diff_inverse2 take_drop take_take min.absorb1)
  with assms show ?thesis by (simp add: put_def window_def)
qed

lemma window_put_after [simp]:
  assumes "j + length bs \<le> i" "j + length bs \<le> length m"
  shows "window i n (put j bs m) = window i n m"
  using assms by (simp add: put_def window_def)

lemma window_all [simp]: "n = length m \<Longrightarrow> window 0 n m = m"
  by (simp add: window_def)

lemma put_all [simp]: "length bs = length m \<Longrightarrow> put 0 bs m = bs"
  by (simp add: put_def)

subsection \<open>The text argument of the parsers\<close>

text \<open>A \<open>string_view\<close>: the characters stored from \<open>data()\<close> on, and its size.
  \<open>inet_pton\<close> is handed \<open>data()\<close> only, so it reads up to the next NUL.\<close>

record string_view =
  sv_mem :: string
  sv_size :: nat

definition sv_text :: "string_view \<Rightarrow> string" where
  "sv_text v = take (sv_size v) (sv_mem v)"

definition c_str :: "string_view \<Rightarrow> string" where
  "c_str v = takeWhile (\<lambda>c. c \<noteq> CHR 0x00) (sv_mem v)"

type_synonym pton = "string \<Rightarrow> u8 list option"
type_synonym ntop = "u8 list \<Rightarrow> string"

subsection \<open>IpV4Address\<close>

record ip4 = ip4_data :: "u8 list"
record ip6 = ip6_data :: "u8 list"

abbreviation (input) SIZE_OF_IPV4ADDRESS :: nat where "SIZE_OF_IPV4ADDRESS \<equiv> 4"
abbreviation (input) SIZE_OF_IPV6ADDRESS :: nat where "SIZE_OF_IPV6ADDRESS \<equiv> 16"

definition ip4_wf :: "ip4 \<Rightarrow> bool" where "ip4_wf a \<longleftrightarrow> length (ip4_data a) = SIZE_OF_IPV4ADDRESS"
definition ip6_wf :: "ip6 \<Rightarrow> bool" where "ip6_wf a \<longleftrightarrow> length (ip6_data a) = SIZE_OF_IPV6ADDRESS"

definition s_v4mapped_prefix :: "u8 list" where
  "s_v4mapped_prefix = [0, 0, 0, 0, 0, 0, 0, 0, 0, 0, 0xFF, 0xFF]"

definition ip4_size :: "ip4 \<Rightarrow> nat" where "ip4_size a = length (ip4_data a)"
definition ip4_protocal :: "ip4 \<Rightarrow> u32" where "ip4_protocal a = IPV4"
definition ip6_size :: "ip6 \<Rightarrow> nat" where "ip6_size a = length (ip6_data a)"
definition ip6_protocal :: "ip6 \<Rightarrow> u32" where "ip6_protocal a = IPV6"

text \<open>\<open>inet_pton\<close> writes its destination only when it returns 1.\<close>

definition pton_into :: "pton \<Rightarrow> string \<Rightarrow> u8 list \<Rightarrow> fault + (bool \<times> u8 list)" where
  "pton_into pton s buf =
     (case pton s of
        None \<Rightarrow> Inr (False, buf)
      | Some bs \<Rightarrow> map_sum id (Pair True) (memcpy buf 0 bs 0 (length bs)))"

definition ip4_parse :: "pton \<Rightarrow> u8 list \<Rightarrow> string_view \<Rightarrow> fault + ip4 option" where
  "ip4_parse pton4 junk host =
     (case pton_into pton4 (c_str host) junk of
        Inl e \<Rightarrow> Inl e
      | Inr (ok, d) \<Rightarrow> Inr (if ok then Some \<lparr>ip4_data = d\<rparr> else None))"

definition ip4_parse_into ::
  "pton \<Rightarrow> string_view \<Rightarrow> u8 list \<Rightarrow> nat \<Rightarrow> fault + (bool \<times> u8 list)" where
  "ip4_parse_into pton4 host buf sz =
     (if sz < SIZE_OF_IPV4ADDRESS then Inr (False, buf) else pton_into pton4 (c_str host) buf)"

definition ip4_copy :: "u8 list \<Rightarrow> ip4 \<Rightarrow> fault + ip4" where
  "ip4_copy junk rhs =
     map_sum id (\<lambda>d. \<lparr>ip4_data = d\<rparr>) (memcpy junk 0 (ip4_data rhs) 0 (length junk))"

definition ip4_assign :: "bool \<Rightarrow> ip4 \<Rightarrow> ip4 \<Rightarrow> fault + ip4" where
  "ip4_assign same_object a rhs =
     (if \<not> same_object
      then map_sum id (\<lambda>d. \<lparr>ip4_data = d\<rparr>) (memcpy (ip4_data a) 0 (ip4_data rhs) 0 (ip4_size a))
      else Inr a)"

text \<open>\<open>string()\<close> reads the four bytes where a \<open>sockaddr_in\<close> has its \<open>sin_addr\<close>.\<close>

definition ip4_string :: "ntop \<Rightarrow> ip4 \<Rightarrow> fault + string" where
  "ip4_string ntop4 a =
     (if ip4_size a < 4 + 4 then Inl ReadOverrun else Inr (ntop4 (window 4 4 (ip4_data a))))"

definition ip4_toV6_into :: "ip4 \<Rightarrow> u8 list \<Rightarrow> nat \<Rightarrow> fault + (bool \<times> u8 list)" where
  "ip4_toV6_into a buf sz =
     (if sz < SIZE_OF_IPV6ADDRESS then Inr (False, buf)
      else case memcpy buf 0 s_v4mapped_prefix 0 (length s_v4mapped_prefix) of
             Inl e \<Rightarrow> Inl e
           | Inr d \<Rightarrow> map_sum id (Pair True)
               (memcpy d (length s_v4mapped_prefix) (ip4_data a) 0 (ip4_size a)))"

definition ip4_toV6 :: "u8 list \<Rightarrow> ip4 \<Rightarrow> fault + ip6" where
  "ip4_toV6 junk a =
     (case memcpy junk 0 s_v4mapped_prefix 0 (length s_v4mapped_prefix) of
        Inl e \<Rightarrow> Inl e
      | Inr d \<Rightarrow> map_sum id (\<lambda>d. \<lparr>ip6_data = d\<rparr>)
          (memcpy d (length s_v4mapped_prefix) (ip4_data a) 0 (ip4_size a)))"

definition ip4_eq :: "ip4 \<Rightarrow> ip4 \<Rightarrow> fault + bool" where
  "ip4_eq l r = memcmp_eq (ip4_data l) 0 (ip4_data r) 0 (ip4_size l)"

definition ip4_eq6 :: "ip4 \<Rightarrow> ip6 \<Rightarrow> fault + bool" where
  "ip4_eq6 l r =
     (case memcmp_eq (ip6_data r) 0 s_v4mapped_prefix 0 (length s_v4mapped_prefix) of
        Inl e \<Rightarrow> Inl e
      | Inr False \<Rightarrow> Inr False
      | Inr True \<Rightarrow>
          memcmp_eq (ip6_data r) (length s_v4mapped_prefix) (ip4_data l) 0 (ip4_size l))"

subsection \<open>IpV6Address\<close>

definition ip6_parse :: "pton \<Rightarrow> u8 list \<Rightarrow> string_view \<Rightarrow> fault + ip6 option" where
  "ip6_parse pton6 junk host =
     (case pton_into pton6 (c_str host) junk of
        Inl e \<Rightarrow> Inl e
      | Inr (ok, d) \<Rightarrow> Inr (if ok then Some \<lparr>ip6_data = d\<rparr> else None))"

definition ip6_parse_into ::
  "pton \<Rightarrow> string_view \<Rightarrow> u8 list \<Rightarrow> nat \<Rightarrow> fault + (bool \<times> u8 list)" where
  "ip6_parse_into pton6 host buf sz =
     (if sz < SIZE_OF_IPV6ADDRESS then Inr (False, buf) else pton_into pton6 (c_str host) buf)"

definition ip6_copy :: "u8 list \<Rightarrow> ip6 \<Rightarrow> fault + ip6" where
  "ip6_copy junk rhs =
     map_sum id (\<lambda>d. \<lparr>ip6_data = d\<rparr>) (memcpy junk 0 (ip6_data rhs) 0 (length junk))"

definition ip6_assign :: "bool \<Rightarrow> ip6 \<Rightarrow> ip6 \<Rightarrow> fault + ip6" where
  "ip6_assign same_object a rhs =
     (if \<not> same_object
      then map_sum id (\<lambda>d. \<lparr>ip6_data = d\<rparr>) (memcpy (ip6_data a) 0 (ip6_data rhs) 0 (ip6_size a))
      else Inr a)"

definition ip6_string :: "ntop \<Rightarrow> ip6 \<Rightarrow> fault + string" where
  "ip6_string ntop6 a =
     (if ip6_size a < 8 + 16 then Inl ReadOverrun else Inr (ntop6 (window 8 16 (ip6_data a))))"

text \<open>Both conversions copy \<open>size()\<close> bytes, the size of the IPv6 address.\<close>

definition ip6_toV4 :: "u8 list \<Rightarrow> ip6 \<Rightarrow> fault + ip4 option" where
  "ip6_toV4 junk a =
     (case memcmp_eq (ip6_data a) 0 s_v4mapped_prefix 0 (length s_v4mapped_prefix) of
        Inl e \<Rightarrow> Inl e
      | Inr False \<Rightarrow> Inr None
      | Inr True \<Rightarrow> map_sum id (\<lambda>d. Some \<lparr>ip4_data = d\<rparr>)
          (memcpy junk 0 (ip6_data a) (length s_v4mapped_prefix) (ip6_size a)))"

definition ip6_toV4_into :: "ip6 \<Rightarrow> u8 list \<Rightarrow> nat \<Rightarrow> fault + (bool \<times> u8 list)" where
  "ip6_toV4_into a buf sz =
     (if sz < SIZE_OF_IPV4ADDRESS then Inr (False, buf)
      else case memcmp_eq (ip6_data a) 0 s_v4mapped_prefix 0 (length s_v4mapped_prefix) of
             Inl e \<Rightarrow> Inl e
           | Inr False \<Rightarrow> Inr (False, buf)
           | Inr True \<Rightarrow> map_sum id (Pair True)
               (memcpy buf 0 (ip6_data a) (length s_v4mapped_prefix) (ip6_size a)))"

definition ip6_eq :: "ip6 \<Rightarrow> ip6 \<Rightarrow> fault + bool" where
  "ip6_eq l r = memcmp_eq (ip6_data l) 0 (ip6_data r) 0 (ip6_size l)"

definition ip6_eq4 :: "ip6 \<Rightarrow> ip4 \<Rightarrow> fault + bool" where
  "ip6_eq4 l r =
     (case memcmp_eq (ip6_data l) 0 s_v4mapped_prefix 0 (length s_v4mapped_prefix) of
        Inl e \<Rightarrow> Inl e
      | Inr False \<Rightarrow> Inr False
      | Inr True \<Rightarrow>
          memcmp_eq (ip6_data l) (length s_v4mapped_prefix) (ip4_data r) 0 (ip4_size r))"

subsection \<open>IpAddress::parse\<close>

datatype ip_address = Ip4 ip4 | Ip6 ip6

definition ip_parse ::
  "pton \<Rightarrow> pton \<Rightarrow> u8 list \<Rightarrow> u8 list \<Rightarrow> string_view \<Rightarrow> fault + ip_address option" where
  "ip_parse pton4 pton6 junk4 junk6 host =
     (case ip4_parse pton4 junk4 host of
        Inl e \<Rightarrow> Inl e
      | Inr (Some a) \<Rightarrow> Inr (Some (Ip4 a))
      | Inr None \<Rightarrow> map_sum id (map_option Ip6) (ip6_parse pton6 junk6 host))"

definition ip_parse_into ::
  "pton \<Rightarrow> pton \<Rightarrow> string_view \<Rightarrow> u8 list \<Rightarrow> nat \<Rightarrow> fault + (bool \<times> u8 list)" where
  "ip_parse_into pton4 pton6 host buf sz =
     (case ip4_parse_into pton4 host buf sz of
        Inl e \<Rightarrow> Inl e
      | Inr (True, b) \<Rightarrow> Inr (True, b)
      | Inr (False, b) \<Rightarrow> ip6_parse_into pton6 host b sz)"


subsection \<open>TcpAddress\<close>

abbreviation (input) SIZE_OF_TCPIPV4_ADDRESS :: nat where "SIZE_OF_TCPIPV4_ADDRESS \<equiv> 16"
abbreviation (input) SIZE_OF_TCPIPV6_ADDRESS :: nat where "SIZE_OF_TCPIPV6_ADDRESS \<equiv> 28"
abbreviation (input) INET_ADDRSTRLEN :: nat where "INET_ADDRSTRLEN \<equiv> 16"
abbreviation (input) INET6_ADDRSTRLEN :: nat where "INET6_ADDRSTRLEN \<equiv> 46"

record tcp4 = tcp4_data :: "u8 list"
record tcp6 = tcp6_data :: "u8 list"

definition tcp4_wf :: "tcp4 \<Rightarrow> bool" where
  "tcp4_wf a \<longleftrightarrow> length (tcp4_data a) = SIZE_OF_TCPIPV4_ADDRESS"
definition tcp6_wf :: "tcp6 \<Rightarrow> bool" where
  "tcp6_wf a \<longleftrightarrow> length (tcp6_data a) = SIZE_OF_TCPIPV6_ADDRESS"

definition tcp4_size :: "tcp4 \<Rightarrow> nat" where "tcp4_size a = length (tcp4_data a)"
definition tcp6_size :: "tcp6 \<Rightarrow> nat" where "tcp6_size a = length (tcp6_data a)"
definition tcp4_protocal :: "tcp4 \<Rightarrow> u32" where "tcp4_protocal a = TCP_IPV4"
definition tcp6_protocal :: "tcp6 \<Rightarrow> u32" where "tcp6_protocal a = TCP_IPV6"

text \<open>\<open>sa_family\<close> at offset 0 in host order, the port at offset 2 in network order, the
  address at offset 4 (IPv4, 4 bytes) or 8 (IPv6, 16 bytes).\<close>

definition AF_INET_bytes :: "u8 list" where "AF_INET_bytes = [2, 0]"
definition AF_INET6_bytes :: "u8 list" where "AF_INET6_bytes = [10, 0]"

definition htons_bytes :: "u16 \<Rightarrow> u8 list" where
  "htons_bytes p = [ucast (drop_bit 8 p), ucast p]"

definition ntohs_bytes :: "u8 list \<Rightarrow> u16" where
  "ntohs_bytes bs = push_bit 8 (ucast (bs ! 0)) OR ucast (bs ! 1)"

definition sa_port :: "u8 list \<Rightarrow> u16" where "sa_port d = ntohs_bytes (window 2 2 d)"
definition sin_addr :: "u8 list \<Rightarrow> u8 list" where "sin_addr d = window 4 4 d"
definition sin6_addr :: "u8 list \<Rightarrow> u8 list" where "sin6_addr d = window 8 16 d"

definition set_family_port :: "u8 list \<Rightarrow> u16 \<Rightarrow> u8 list \<Rightarrow> u8 list" where
  "set_family_port fam port d = put 2 (htons_bytes port) (put 0 fam d)"

definition tcp4_parse :: "pton \<Rightarrow> u8 list \<Rightarrow> string_view \<Rightarrow> u16 \<Rightarrow> fault + tcp4 option" where
  "tcp4_parse pton4 junk host port =
     (case ip4_parse_into pton4 host (sin_addr junk) 4 of
        Inl e \<Rightarrow> Inl e
      | Inr (ok, a) \<Rightarrow> Inr (if ok
          then Some \<lparr>tcp4_data = set_family_port AF_INET_bytes port (put 4 a junk)\<rparr> else None))"

definition tcp4_parse_into ::
  "pton \<Rightarrow> string_view \<Rightarrow> u16 \<Rightarrow> u8 list \<Rightarrow> nat \<Rightarrow> fault + (bool \<times> u8 list)" where
  "tcp4_parse_into pton4 host port buf sz =
     (if sz < SIZE_OF_TCPIPV4_ADDRESS then Inr (False, buf)
      else case ip4_parse_into pton4 host (sin_addr buf) 4 of
             Inl e \<Rightarrow> Inl e
           | Inr (ok, a) \<Rightarrow> Inr (if ok
               then (True, set_family_port AF_INET_bytes port (put 4 a buf)) else (False, buf)))"

definition tcp4_new :: "u8 list \<Rightarrow> ip4 \<Rightarrow> u16 \<Rightarrow> fault + tcp4" where
  "tcp4_new junk ip port =
     map_sum id (\<lambda>d. \<lparr>tcp4_data = d\<rparr>)
       (memcpy (set_family_port AF_INET_bytes port junk) 4 (ip4_data ip) 0 4)"

definition tcp4_copy :: "u8 list \<Rightarrow> tcp4 \<Rightarrow> fault + tcp4" where
  "tcp4_copy junk rhs =
     map_sum id (\<lambda>d. \<lparr>tcp4_data = d\<rparr>) (memcpy junk 0 (tcp4_data rhs) 0 (length junk))"

definition tcp4_assign :: "bool \<Rightarrow> tcp4 \<Rightarrow> tcp4 \<Rightarrow> fault + tcp4" where
  "tcp4_assign same_object a rhs =
     (if \<not> same_object
      then map_sum id (\<lambda>d. \<lparr>tcp4_data = d\<rparr>) (memcpy (tcp4_data a) 0 (tcp4_data rhs) 0 (tcp4_size a))
      else Inr a)"

definition tcp6_parse :: "pton \<Rightarrow> u8 list \<Rightarrow> string_view \<Rightarrow> u16 \<Rightarrow> fault + tcp6 option" where
  "tcp6_parse pton6 junk host port =
     (case ip6_parse_into pton6 host (sin6_addr junk) 16 of
        Inl e \<Rightarrow> Inl e
      | Inr (ok, a) \<Rightarrow> Inr (if ok
          then Some \<lparr>tcp6_data = set_family_port AF_INET6_bytes port (put 8 a junk)\<rparr> else None))"

definition tcp6_parse_into ::
  "pton \<Rightarrow> string_view \<Rightarrow> u16 \<Rightarrow> u8 list \<Rightarrow> nat \<Rightarrow> fault + (bool \<times> u8 list)" where
  "tcp6_parse_into pton6 host port buf sz =
     (if sz < SIZE_OF_TCPIPV6_ADDRESS then Inr (False, buf)
      else case ip6_parse_into pton6 host (sin6_addr buf) 16 of
             Inl e \<Rightarrow> Inl e
           | Inr (ok, a) \<Rightarrow> Inr (if ok
               then (True, set_family_port AF_INET6_bytes port (put 8 a buf)) else (False, buf)))"

definition tcp6_new :: "u8 list \<Rightarrow> ip6 \<Rightarrow> u16 \<Rightarrow> fault + tcp6" where
  "tcp6_new junk ip port =
     map_sum id (\<lambda>d. \<lparr>tcp6_data = d\<rparr>)
       (memcpy (set_family_port AF_INET6_bytes port junk) 8 (ip6_data ip) 0 16)"

definition tcp6_copy :: "u8 list \<Rightarrow> tcp6 \<Rightarrow> fault + tcp6" where
  "tcp6_copy junk rhs =
     map_sum id (\<lambda>d. \<lparr>tcp6_data = d\<rparr>) (memcpy junk 0 (tcp6_data rhs) 0 (length junk))"

definition tcp6_assign :: "bool \<Rightarrow> tcp6 \<Rightarrow> tcp6 \<Rightarrow> fault + tcp6" where
  "tcp6_assign same_object a rhs =
     (if \<not> same_object
      then map_sum id (\<lambda>d. \<lparr>tcp6_data = d\<rparr>) (memcpy (tcp6_data a) 0 (tcp6_data rhs) 0 (tcp6_size a))
      else Inr a)"

datatype tcp_address = Tcp4 tcp4 | Tcp6 tcp6

definition tcp_parse ::
  "pton \<Rightarrow> pton \<Rightarrow> u8 list \<Rightarrow> u8 list \<Rightarrow> string_view \<Rightarrow> u16 \<Rightarrow> fault + tcp_address option" where
  "tcp_parse pton4 pton6 junk4 junk6 host port =
     (case tcp4_parse pton4 junk4 host port of
        Inl e \<Rightarrow> Inl e
      | Inr (Some a) \<Rightarrow> Inr (Some (Tcp4 a))
      | Inr None \<Rightarrow> map_sum id (map_option Tcp6) (tcp6_parse pton6 junk6 host port))"

definition tcp_parse_into ::
  "pton \<Rightarrow> pton \<Rightarrow> string_view \<Rightarrow> u16 \<Rightarrow> u8 list \<Rightarrow> nat \<Rightarrow> fault + (bool \<times> u8 list)" where
  "tcp_parse_into pton4 pton6 host port buf sz =
     (case tcp4_parse_into pton4 host port buf sz of
        Inl e \<Rightarrow> Inl e
      | Inr (True, b) \<Rightarrow> Inr (True, b)
      | Inr (False, b) \<Rightarrow> tcp6_parse_into pton6 host port b sz)"

subsubsection \<open>Printing\<close>

abbreviation NUL :: char where "NUL \<equiv> CHR 0x00"

definition c_text :: "string \<Rightarrow> string" where
  "c_text m = takeWhile (\<lambda>c. c \<noteq> NUL) m"

text \<open>\<open>inet_ntop(_, src, str + at, cap)\<close>: text and NUL when they fit in \<open>cap\<close>, else
  nothing is written.\<close>

definition inet_ntop :: "ntop \<Rightarrow> u8 list \<Rightarrow> nat \<Rightarrow> nat \<Rightarrow> string \<Rightarrow> string" where
  "inet_ntop ntop src at cap str =
     (if length (ntop src) < cap then put at (ntop src @ [NUL]) str else str)"

text \<open>\<open>snprintf(str + at, sizeof(str) - at, ...)\<close> with the formatted text \<open>t\<close>.\<close>

definition snprintf :: "nat \<Rightarrow> string \<Rightarrow> string \<Rightarrow> fault + string" where
  "snprintf at t str =
     (if length str \<le> at then Inl ReadOverrun
      else Inr (put at (take (length str - at - 1) t @ [NUL]) str))"

fun dec :: "nat \<Rightarrow> string" where
  "dec n = (if n < 10 then [char_of (48 + n)] else dec (n div 10) @ [char_of (48 + n mod 10)])"

declare dec.simps [simp del]

definition tcp4_string :: "ntop \<Rightarrow> string \<Rightarrow> tcp4 \<Rightarrow> fault + string" where
  "tcp4_string ntop4 junk a =
     (let str = inet_ntop ntop4 (sin_addr (tcp4_data a)) 0 INET_ADDRSTRLEN junk;
          len = length (c_text str)
      in map_sum id c_text
           (snprintf len ('':'' @ dec (unat (sa_port (tcp4_data a)))) str))"

definition tcp6_string :: "ntop \<Rightarrow> string \<Rightarrow> tcp6 \<Rightarrow> fault + string" where
  "tcp6_string ntop6 junk a =
     (let str = inet_ntop ntop6 (sin6_addr (tcp6_data a)) 1 INET6_ADDRSTRLEN (put 0 ''['' junk);
          len = length (c_text str)
      in map_sum id c_text
           (snprintf len ('']:'' @ dec (unat (sa_port (tcp6_data a)))) str))"

subsection \<open>Lemmas of the byte operations and the IP addresses\<close>

lemma length_prefix [simp]: "length s_v4mapped_prefix = 12"
  by (simp add: s_v4mapped_prefix_def)

lemma memcpy_fits:
  "s + n \<le> length src \<Longrightarrow> d + n \<le> length dst \<Longrightarrow> memcpy dst d src s n = Inr (put d (window s n src) dst)"
  by (simp add: memcpy_def)

lemma memcmp_fits:
  "i + n \<le> length a \<Longrightarrow> j + n \<le> length b \<Longrightarrow>
   memcmp_eq a i b j n = Inr (window i n a = window j n b)"
  by (simp add: memcmp_eq_def)

lemma length_htons [simp]: "length (htons_bytes p) = 2" by (simp add: htons_bytes_def)
lemma length_AF [simp]: "length AF_INET_bytes = 2" "length AF_INET6_bytes = 2"
  by (simp_all add: AF_INET_bytes_def AF_INET6_bytes_def)

lemma htons_roundtrip [simp]: "ntohs_bytes (htons_bytes p) = p"
  unfolding ntohs_bytes_def htons_bytes_def
  by (rule bit_word_eqI) (auto simp: bit_simps)

lemma windows_split:
  "length m = i + n \<Longrightarrow> window 0 i m @ window i n m = m"
  by (simp add: window_def)

subsection \<open>Copies\<close>

lemma ip4_copy_eq: "ip4_wf a \<Longrightarrow> length junk = 4 \<Longrightarrow> ip4_copy junk a = Inr a"
  by (simp add: ip4_copy_def ip4_wf_def memcpy_fits)

lemma ip4_assign_eq: "ip4_wf a \<Longrightarrow> ip4_wf b \<Longrightarrow> ip4_assign (same) a b = Inr (if same then a else b)"
  by (simp add: ip4_assign_def ip4_wf_def memcpy_fits ip4_size_def)

lemma ip6_copy_eq: "ip6_wf a \<Longrightarrow> length junk = 16 \<Longrightarrow> ip6_copy junk a = Inr a"
  by (simp add: ip6_copy_def ip6_wf_def memcpy_fits)

lemma ip6_assign_eq: "ip6_wf a \<Longrightarrow> ip6_wf b \<Longrightarrow> ip6_assign (same) a b = Inr (if same then a else b)"
  by (simp add: ip6_assign_def ip6_wf_def memcpy_fits ip6_size_def)

lemma tcp4_copy_eq: "tcp4_wf a \<Longrightarrow> length junk = 16 \<Longrightarrow> tcp4_copy junk a = Inr a"
  by (simp add: tcp4_copy_def tcp4_wf_def memcpy_fits)

lemma tcp4_assign_eq:
  "tcp4_wf a \<Longrightarrow> tcp4_wf b \<Longrightarrow> tcp4_assign same a b = Inr (if same then a else b)"
  by (simp add: tcp4_assign_def tcp4_wf_def memcpy_fits tcp4_size_def)

lemma tcp6_copy_eq: "tcp6_wf a \<Longrightarrow> length junk = 28 \<Longrightarrow> tcp6_copy junk a = Inr a"
  by (simp add: tcp6_copy_def tcp6_wf_def memcpy_fits)

lemma tcp6_assign_eq:
  "tcp6_wf a \<Longrightarrow> tcp6_wf b \<Longrightarrow> tcp6_assign same a b = Inr (if same then a else b)"
  by (simp add: tcp6_assign_def tcp6_wf_def memcpy_fits tcp6_size_def)

subsection \<open>IPv4-mapped addresses\<close>

definition mapped :: "ip4 \<Rightarrow> ip6" where
  "mapped a = \<lparr>ip6_data = s_v4mapped_prefix @ ip4_data a\<rparr>"

lemma mapped_wf: "ip4_wf a \<Longrightarrow> ip6_wf (mapped a)"
  by (simp add: mapped_def ip4_wf_def ip6_wf_def)

lemma put_after_put: "length bs = i \<Longrightarrow> length cs = n \<Longrightarrow> length m = i + n \<Longrightarrow> put i cs (put 0 bs m) = bs @ cs"
  by (simp add: put_def)

lemma ip4_toV6_mapped: "ip4_wf a \<Longrightarrow> length junk = 16 \<Longrightarrow> ip4_toV6 junk a = Inr (mapped a)"
  by (simp add: ip4_toV6_def ip4_wf_def memcpy_fits ip4_size_def put_after_put mapped_def)

lemma ip4_toV6_into_mapped:
  "ip4_wf a \<Longrightarrow> length buf = sz \<Longrightarrow> sz = 16 \<Longrightarrow> ip4_toV6_into a buf sz = Inr (True, ip6_data (mapped a))"
  by (simp add: ip4_toV6_into_def ip4_wf_def memcpy_fits ip4_size_def put_after_put mapped_def)

lemma ip4_eq6_iff:
  assumes "ip4_wf a" "ip6_wf b"
  shows "ip4_eq6 a b = Inr (b = mapped a)"
proof -
  have l: "length (ip4_data a) = 4" "length (ip6_data b) = 16"
    using assms by (simp_all add: ip4_wf_def ip6_wf_def)
  have "(window 0 12 (ip6_data b) = s_v4mapped_prefix \<and> window 12 4 (ip6_data b) = ip4_data a)
        \<longleftrightarrow> b = mapped a"
  proof
    assume "window 0 12 (ip6_data b) = s_v4mapped_prefix \<and> window 12 4 (ip6_data b) = ip4_data a"
    with windows_split[of "ip6_data b" 12 4] l
    show "b = mapped a" by (simp add: mapped_def)
  next
    assume "b = mapped a"
    with l show "window 0 12 (ip6_data b) = s_v4mapped_prefix \<and> window 12 4 (ip6_data b) = ip4_data a"
      by (simp add: mapped_def window_def)
  qed
  with l show ?thesis
    by (auto simp: ip4_eq6_def memcmp_fits ip4_size_def split: bool.splits)
qed

lemma ip6_eq4_eq: "ip6_eq4 b a = ip4_eq6 a b"
  by (simp add: ip6_eq4_def ip4_eq6_def)

lemma ip4_eq_iff: "ip4_wf a \<Longrightarrow> ip4_wf b \<Longrightarrow> ip4_eq a b = Inr (a = b)"
  by (cases a; cases b) (simp add: ip4_eq_def memcmp_fits ip4_wf_def ip4_size_def)

lemma ip6_eq_iff: "ip6_wf a \<Longrightarrow> ip6_wf b \<Longrightarrow> ip6_eq a b = Inr (a = b)"
  by (cases a; cases b) (simp add: ip6_eq_def memcmp_fits ip6_wf_def ip6_size_def)

text \<open>The equality operators of the IP addresses read inside their arrays and decide
  equality of the addresses; an IPv4 address equals exactly one IPv6 address under both mixed
  operators, the one \<open>toV6\<close> returns, whatever the new object's array held.\<close>

theorem ip_equality_decides:
  assumes "ip4_wf a" "ip4_wf a'" "ip6_wf b" "ip6_wf b'" "length junk = SIZE_OF_IPV6ADDRESS"
  shows "ip4_eq a a' = Inr (a = a') \<and> ip6_eq b b' = Inr (b = b') \<and>
    (\<exists>m. ip4_toV6 junk a = Inr m \<and> ip6_wf m \<and>
      ip4_eq6 a b = Inr (b = m) \<and> ip6_eq4 b a = Inr (b = m))"
  using assms
  by (auto simp: ip4_eq_iff ip6_eq_iff ip4_toV6_mapped mapped_wf ip4_eq6_iff ip6_eq4_eq)

lemma ip_equality_decides_witness:
  "ip4_eq6 \<lparr>ip4_data = [127, 0, 0, 1]\<rparr>
     \<lparr>ip6_data = [0, 0, 0, 0, 0, 0, 0, 0, 0, 0, 0xFF, 0xFF, 127, 0, 0, 1]\<rparr> = Inr True"
proof -
  let ?a = "\<lparr>ip4_data = [127, 0, 0, 1]\<rparr>"
  let ?b = "\<lparr>ip6_data = [0, 0, 0, 0, 0, 0, 0, 0, 0, 0, 0xFF, 0xFF, 127, 0, 0, 1]\<rparr>"
  have "\<exists>m. ip4_toV6 (replicate 16 0) ?a = Inr m \<and> ip6_wf m \<and> ip4_eq6 ?a ?b = Inr (?b = m) \<and>
    ip6_eq4 ?b ?a = Inr (?b = m)"
    using ip_equality_decides[of ?a ?a ?b ?b "replicate 16 0"]
    by (simp add: ip4_wf_def ip6_wf_def)
  moreover have "ip4_toV6 (replicate 16 0) ?a = Inr ?b"
    by (simp add: ip4_toV6_mapped ip4_wf_def mapped_def s_v4mapped_prefix_def)
  ultimately show ?thesis by auto
qed

text \<open>The conversion of a mapped IPv6 address to IPv4 copies \<open>size()\<close>, 16 bytes,
  from the last four bytes of the address, so both versions of \<open>toV4\<close> leave the address's array
  on every mapped address and answer only for the others; \<open>string()\<close> of both classes reads
  past the array, of every address.\<close>

theorem ip_conversions_overrun:
  assumes "ip4_wf a" "ip6_wf b" "SIZE_OF_IPV4ADDRESS \<le> sz"
  shows "ip6_toV4 junk b =
      (if window 0 12 (ip6_data b) = s_v4mapped_prefix then Inl ReadOverrun else Inr None) \<and>
    ip6_toV4_into b buf sz =
      (if window 0 12 (ip6_data b) = s_v4mapped_prefix then Inl ReadOverrun else Inr (False, buf)) \<and>
    ip6_toV4 junk (mapped a) = Inl ReadOverrun \<and>
    ip4_string ntop4 a = Inl ReadOverrun \<and> ip6_string ntop6 b = Inl ReadOverrun"
proof -
  have l: "length (ip4_data a) = 4" "length (ip6_data b) = 16"
    using assms by (simp_all add: ip4_wf_def ip6_wf_def)
  have w: "window 0 12 (ip6_data (mapped a)) = s_v4mapped_prefix"
    by (simp add: mapped_def window_def)
  have lm: "length (ip6_data (mapped a)) = 16" using l by (simp add: mapped_def)
  have g: "ip6_toV4 j c =
      (if window 0 12 (ip6_data c) = s_v4mapped_prefix then Inl ReadOverrun else Inr None)"
    if "length (ip6_data c) = 16" for c j
    using that by (simp add: ip6_toV4_def memcmp_fits memcpy_def ip6_size_def split: bool.splits)
  have "ip6_toV4_into b buf sz =
      (if window 0 12 (ip6_data b) = s_v4mapped_prefix then Inl ReadOverrun else Inr (False, buf))"
    using l assms(3)
    by (simp add: ip6_toV4_into_def memcmp_fits memcpy_def ip6_size_def split: bool.splits)
  with g[OF l(2)] g[OF lm] w l show ?thesis
    by (simp add: ip4_string_def ip6_string_def ip4_size_def ip6_size_def)
qed

lemma ip_conversions_overrun_witness:
  "ip6_toV4 [0, 0, 0, 0] \<lparr>ip6_data = [0, 0, 0, 0, 0, 0, 0, 0, 0, 0, 0xFF, 0xFF, 127, 0, 0, 1]\<rparr>
     = Inl ReadOverrun"
  using ip_conversions_overrun[of "\<lparr>ip4_data = [127, 0, 0, 1]\<rparr>"
      "\<lparr>ip6_data = [0, 0, 0, 0, 0, 0, 0, 0, 0, 0, 0xFF, 0xFF, 127, 0, 0, 1]\<rparr>" 4 "[0, 0, 0, 0]"]
  by (simp add: ip4_wf_def ip6_wf_def window_def s_v4mapped_prefix_def)

subsection \<open>Parsing and printing\<close>

subsection \<open>Parsing\<close>

definition pton_ok :: "nat \<Rightarrow> pton \<Rightarrow> bool" where
  "pton_ok n pton \<longleftrightarrow> (\<forall>s bs. pton s = Some bs \<longrightarrow> length bs = n)"

lemma pton_okD: "pton_ok n pton \<Longrightarrow> pton s = Some bs \<Longrightarrow> length bs = n"
  by (simp add: pton_ok_def)

lemma pton_intoI:
  "pton_ok n pton \<Longrightarrow> length buf = n \<Longrightarrow>
   pton_into pton s buf = Inr (case pton s of None \<Rightarrow> (False, buf) | Some bs \<Rightarrow> (True, bs))"
  by (auto simp: pton_into_def pton_ok_def memcpy_fits split: option.split)

lemma ip_parse_functional:
  assumes "pton_ok 4 pton4" "pton_ok 16 pton6" "length junk4 = 4" "length junk6 = 16"
  shows "ip_parse pton4 pton6 junk4 junk6 host = Inr
    (case pton4 (c_str host) of Some a \<Rightarrow> Some (Ip4 \<lparr>ip4_data = a\<rparr>)
     | None \<Rightarrow> map_option (\<lambda>b. Ip6 \<lparr>ip6_data = b\<rparr>) (pton6 (c_str host)))"
  using assms
  by (simp add: ip_parse_def ip4_parse_def ip6_parse_def pton_intoI split: option.split)

definition tcp4_bytes :: "u8 list \<Rightarrow> u8 list \<Rightarrow> u16 \<Rightarrow> u8 list" where
  "tcp4_bytes junk a port = AF_INET_bytes @ htons_bytes port @ a @ drop 8 junk"

definition tcp6_bytes :: "u8 list \<Rightarrow> u8 list \<Rightarrow> u16 \<Rightarrow> u8 list" where
  "tcp6_bytes junk a port =
     AF_INET6_bytes @ htons_bytes port @ window 4 4 junk @ a @ drop 24 junk"

lemma set_family_port_eq:
  "length fam = 2 \<Longrightarrow> 4 \<le> length d \<Longrightarrow> set_family_port fam p d = fam @ htons_bytes p @ drop 4 d"
  by (simp add: set_family_port_def put_def)

lemma drop_put: "i + length bs \<le> length d \<Longrightarrow> j \<le> i \<Longrightarrow>
  drop j (put i bs d) = window j (i - j) d @ bs @ drop (i + length bs) d"
  by (simp add: put_def window_def drop_take)

lemma tcp4_fill:
  "length a = 4 \<Longrightarrow> 16 \<le> length d \<Longrightarrow>
   set_family_port AF_INET_bytes p (put 4 a d) = tcp4_bytes d a p"
  by (simp add: set_family_port_eq drop_put tcp4_bytes_def window_def)

lemma tcp6_fill:
  "length a = 16 \<Longrightarrow> 28 \<le> length d \<Longrightarrow>
   set_family_port AF_INET6_bytes p (put 8 a d) = tcp6_bytes d a p"
  by (simp add: set_family_port_eq drop_put tcp6_bytes_def)

lemma length_tcp_bytes [simp]:
  "length a = 4 \<Longrightarrow> 16 \<le> length d \<Longrightarrow> length (tcp4_bytes d a p) = length d"
  "length b = 16 \<Longrightarrow> 28 \<le> length d \<Longrightarrow> length (tcp6_bytes d b p) = length d"
  by (simp_all add: tcp4_bytes_def tcp6_bytes_def)

lemma tcp4_fields:
  "length a = 4 \<Longrightarrow> window 0 2 (tcp4_bytes d a p) = AF_INET_bytes \<and> sa_port (tcp4_bytes d a p) = p \<and>
   sin_addr (tcp4_bytes d a p) = a"
  by (simp add: tcp4_bytes_def window_def sa_port_def sin_addr_def)

lemma tcp6_fields:
  "length a = 16 \<Longrightarrow> 28 \<le> length d \<Longrightarrow>
   window 0 2 (tcp6_bytes d a p) = AF_INET6_bytes \<and> sa_port (tcp6_bytes d a p) = p \<and>
   sin6_addr (tcp6_bytes d a p) = a"
  by (simp add: tcp6_bytes_def window_def sa_port_def sin6_addr_def)

lemma tcp4_parse_eq:
  "pton_ok 4 pton4 \<Longrightarrow> length junk = 16 \<Longrightarrow> tcp4_parse pton4 junk host port =
   Inr (map_option (\<lambda>a. \<lparr>tcp4_data = tcp4_bytes junk a port\<rparr>) (pton4 (c_str host)))"
  by (auto simp: tcp4_parse_def ip4_parse_into_def pton_intoI sin_addr_def tcp4_fill
      dest: pton_okD split: option.splits)

lemma tcp6_parse_eq:
  "pton_ok 16 pton6 \<Longrightarrow> length junk = 28 \<Longrightarrow> tcp6_parse pton6 junk host port =
   Inr (map_option (\<lambda>a. \<lparr>tcp6_data = tcp6_bytes junk a port\<rparr>) (pton6 (c_str host)))"
  by (auto simp: tcp6_parse_def ip6_parse_into_def pton_intoI sin6_addr_def tcp6_fill
      dest: pton_okD split: option.splits)

lemma tcp4_parse_into_eq:
  "pton_ok 4 pton4 \<Longrightarrow> sz \<le> length buf \<Longrightarrow> tcp4_parse_into pton4 host port buf sz =
   Inr (case pton4 (c_str host) of
          Some a \<Rightarrow> if 16 \<le> sz then (True, tcp4_bytes buf a port) else (False, buf)
        | None \<Rightarrow> (False, buf))"
  by (auto simp: tcp4_parse_into_def ip4_parse_into_def pton_intoI sin_addr_def tcp4_fill
      dest: pton_okD split: option.splits)

lemma tcp6_parse_into_eq:
  "pton_ok 16 pton6 \<Longrightarrow> sz \<le> length buf \<Longrightarrow> tcp6_parse_into pton6 host port buf sz =
   Inr (case pton6 (c_str host) of
          Some a \<Rightarrow> if 28 \<le> sz then (True, tcp6_bytes buf a port) else (False, buf)
        | None \<Rightarrow> (False, buf))"
  by (auto simp: tcp6_parse_into_def ip6_parse_into_def pton_intoI sin6_addr_def tcp6_fill
      dest: pton_okD split: option.splits)

lemma tcp4_new_eq: "ip4_wf ip \<Longrightarrow> length junk = 16 \<Longrightarrow>
   tcp4_new junk ip port = Inr \<lparr>tcp4_data = tcp4_bytes junk (ip4_data ip) port\<rparr>"
  by (simp add: tcp4_new_def ip4_wf_def memcpy_fits set_family_port_eq tcp4_bytes_def put_def)

lemma tcp6_new_eq: "ip6_wf ip \<Longrightarrow> length junk = 28 \<Longrightarrow>
   tcp6_new junk ip port = Inr \<lparr>tcp6_data = tcp6_bytes junk (ip6_data ip) port\<rparr>"
  by (simp add: tcp6_new_def ip6_wf_def memcpy_fits set_family_port_eq tcp6_bytes_def put_def window_def)

text \<open>Claim C39: Parsing a TCP address never leaves an array, decides by the C string at
  \<open>data()\<close> (IPv4 tried first), and the object it returns has the family, the port and
  the address asked for, the same bytes as the constructor from an IP address gives; the version
  that fills a buffer accepts exactly when the size it was told is at least that of the family
  (16 bytes for IPv4, 28 for IPv6) and writes the same bytes; otherwise, and for a host that is
  no address, it refuses and leaves the buffer as it was. It is told no more than the buffer's
  size, and \<open>inet_pton\<close> gives 4 and 16 bytes.\<close>

theorem tcp_parse_functional:
  assumes "pton_ok 4 pton4" "pton_ok 16 pton6" "length junk4 = 16" "length junk6 = 28"
    and "sz \<le> length buf"
  shows "case pton4 (c_str host) of
      Some a \<Rightarrow> (\<exists>d. tcp_parse pton4 pton6 junk4 junk6 host port = Inr (Some (Tcp4 \<lparr>tcp4_data = d\<rparr>)) \<and>
         length d = 16 \<and> window 0 2 d = AF_INET_bytes \<and> sa_port d = port \<and> sin_addr d = a \<and>
         tcp4_new junk4 \<lparr>ip4_data = a\<rparr> port = Inr \<lparr>tcp4_data = d\<rparr>) \<and>
         tcp_parse_into pton4 pton6 host port buf sz =
           Inr (if 16 \<le> sz then (True, tcp4_bytes buf a port) else (False, buf))
    | None \<Rightarrow> (case pton6 (c_str host) of
        Some a \<Rightarrow> (\<exists>d. tcp_parse pton4 pton6 junk4 junk6 host port = Inr (Some (Tcp6 \<lparr>tcp6_data = d\<rparr>)) \<and>
           length d = 28 \<and> window 0 2 d = AF_INET6_bytes \<and> sa_port d = port \<and> sin6_addr d = a \<and>
           tcp6_new junk6 \<lparr>ip6_data = a\<rparr> port = Inr \<lparr>tcp6_data = d\<rparr>) \<and>
           tcp_parse_into pton4 pton6 host port buf sz =
             Inr (if 28 \<le> sz then (True, tcp6_bytes buf a port) else (False, buf))
      | None \<Rightarrow> tcp_parse pton4 pton6 junk4 junk6 host port = Inr None \<and>
           tcp_parse_into pton4 pton6 host port buf sz = Inr (False, buf))"
proof (cases "pton4 (c_str host)")
  case (Some a)
  with assms have "length a = 4" by (auto simp: pton_ok_def)
  with Some assms show ?thesis
    by (simp add: tcp_parse_def tcp_parse_into_def tcp4_parse_eq tcp4_parse_into_eq tcp4_fields
        tcp6_parse_into_eq tcp4_new_eq ip4_wf_def split: option.split)
next
  case n4: None
  show ?thesis
  proof (cases "pton6 (c_str host)")
    case (Some a)
    with assms have "length a = 16" by (auto simp: pton_ok_def)
    with n4 Some assms show ?thesis
      by (simp add: tcp_parse_def tcp_parse_into_def tcp4_parse_eq tcp4_parse_into_eq tcp6_fields
          tcp6_parse_eq tcp6_parse_into_eq tcp6_new_eq ip6_wf_def)
  next
    case None
    with n4 assms show ?thesis
      by (simp add: tcp_parse_def tcp_parse_into_def tcp4_parse_eq tcp4_parse_into_eq
          tcp6_parse_eq tcp6_parse_into_eq)
  qed
qed

definition loopback_pton :: pton where
  "loopback_pton s = (if s = ''127.0.0.1'' then Some [127, 0, 0, 1] else None)"

lemma loopback_pton_ok: "pton_ok 4 loopback_pton" "pton_ok 16 (\<lambda>s. None)"
  by (auto simp: pton_ok_def loopback_pton_def split: if_splits)

lemma tcp_parse_functional_witness:
  "\<exists>d. tcp_parse loopback_pton (\<lambda>s. None) (replicate 16 0) (replicate 28 0)
       \<lparr>sv_mem = ''127.0.0.1'', sv_size = 9\<rparr> 80 = Inr (Some (Tcp4 \<lparr>tcp4_data = d\<rparr>)) \<and>
     sa_port d = 80 \<and> sin_addr d = [127, 0, 0, 1]"
proof -
  have e: "loopback_pton (c_str \<lparr>sv_mem = ''127.0.0.1'', sv_size = 9\<rparr>) = Some [127, 0, 0, 1]"
    by (simp add: loopback_pton_def c_str_def)
  show ?thesis
    using tcp_parse_functional[OF loopback_pton_ok, of "replicate 16 0" "replicate 28 0" 16
      "replicate 16 0" "\<lparr>sv_mem = ''127.0.0.1'', sv_size = 9\<rparr>" 80]
    by (simp add: e) blast
qed

text \<open>The size of the view is not used: a view that ends before the NUL is parsed past its
  end.\<close>

lemma c_str_size [simp]: "c_str (host\<lparr>sv_size := n\<rparr>) = c_str host"
  by (simp add: c_str_def)

lemma parse_ignores_view_size:
  "ip_parse pton4 pton6 junk4 junk6 (host\<lparr>sv_size := n\<rparr>) = ip_parse pton4 pton6 junk4 junk6 host"
  "tcp_parse pton4 pton6 junk4' junk6' (host\<lparr>sv_size := n\<rparr>) port
     = tcp_parse pton4 pton6 junk4' junk6' host port"
  unfolding ip_parse_def ip4_parse_def ip6_parse_def tcp_parse_def tcp4_parse_def
    tcp6_parse_def ip4_parse_into_def ip6_parse_into_def by (simp_all only: c_str_size)

subsection \<open>Printing\<close>

lemma dec_length: "n < 10 ^ Suc k \<Longrightarrow> length (dec n) \<le> Suc k"
proof (induction k arbitrary: n)
  case 0 then show ?case by (subst dec.simps) simp
next
  case (Suc k)
  then have "n div 10 < 10 ^ Suc k" by (simp add: less_mult_imp_div_less)
  from Suc.IH[OF this] show ?case by (subst dec.simps) simp
qed

lemma dec_port_length: "length (dec (unat (p :: u16))) \<le> 5"
proof -
  have "unat p < 2 ^ LENGTH(16)" by (rule unsigned_less)
  then have "unat p < 10 ^ Suc 4" by simp
  from dec_length[OF this] show ?thesis by simp
qed

lemma dec_no_nul: "NUL \<notin> set (dec n)"
proof (induction n rule: dec.induct)
  case (1 n)
  have d: "NUL \<noteq> char_of (48 + k)" if "k < 10" for k :: nat
  proof
    assume "NUL = char_of (48 + k)"
    then have "of_char NUL = (of_char (char_of (48 + k) :: char) :: nat)" by simp
    with that show False by simp
  qed
  show ?case
    using 1 d[of n] d[of "n mod 10"] by (subst dec.simps) auto
qed

lemma c_text_put: "NUL \<notin> set t \<Longrightarrow> i + length t < length m \<Longrightarrow>
  c_text (put i (t @ [NUL]) m) = (if NUL \<in> set (take i m) then c_text (take i m) else take i m @ t)"
  by (auto simp: c_text_def put_def takeWhile_append)

lemma snprintf_fits:
  assumes "NUL \<notin> set t" "NUL \<notin> set (take i str)" "i + length t < length str"
  shows "map_sum id c_text (snprintf i t str) = Inr (take i str @ t)"
  using assms by (simp add: snprintf_def c_text_put)

lemma take_put: "i + length bs \<le> length m \<Longrightarrow> n \<le> length bs \<Longrightarrow>
  take (i + n) (put i bs m) = take i m @ take n bs"
  by (simp add: put_def)

definition ntop_ok :: "nat \<Rightarrow> ntop \<Rightarrow> bool" where
  "ntop_ok cap ntop \<longleftrightarrow> (\<forall>a. length (ntop a) < cap \<and> NUL \<notin> set (ntop a))"

text \<open>The local arrays of the two \<open>string()\<close> functions hold the whole text of
  every address and port, the largest port and the longest address included: nothing is
  truncated and no byte outside the array is written.\<close>

theorem tcp_string_fits:
  assumes "ntop_ok INET_ADDRSTRLEN ntop4" "ntop_ok INET6_ADDRSTRLEN ntop6"
    and "length junk4 = INET_ADDRSTRLEN + 6" "length junk6 = INET6_ADDRSTRLEN + 8"
  shows "tcp4_string ntop4 junk4 a =
      Inr (ntop4 (sin_addr (tcp4_data a)) @ '':'' @ dec (unat (sa_port (tcp4_data a)))) \<and>
    tcp6_string ntop6 junk6 b =
      Inr (''['' @ ntop6 (sin6_addr (tcp6_data b)) @ '']:'' @ dec (unat (sa_port (tcp6_data b))))"
proof (intro conjI)
  let ?t4 = "ntop4 (sin_addr (tcp4_data a))"
  have n4: "length ?t4 < 16" "NUL \<notin> set ?t4" using assms(1) by (auto simp: ntop_ok_def)
  let ?s4 = "put 0 (?t4 @ [NUL]) junk4"
  have c4: "c_text ?s4 = ?t4" using n4 assms(3) by (simp add: c_text_put)
  have k4: "take (length ?t4) ?s4 = ?t4" using take_put[of 0 "?t4 @ [NUL]" junk4 "length ?t4"] n4 assms(3) by simp
  have "map_sum id c_text (snprintf (length ?t4) ('':'' @ dec (unat (sa_port (tcp4_data a)))) ?s4)
      = Inr (take (length ?t4) ?s4 @ '':'' @ dec (unat (sa_port (tcp4_data a))))"
    using n4 k4 assms(3) dec_port_length[of "sa_port (tcp4_data a)"]
    by (intro snprintf_fits) (auto simp: dec_no_nul)
  then show "tcp4_string ntop4 junk4 a =
      Inr (?t4 @ '':'' @ dec (unat (sa_port (tcp4_data a))))"
    using n4 c4 k4 by (simp add: tcp4_string_def inet_ntop_def Let_def)
next
  let ?t6 = "ntop6 (sin6_addr (tcp6_data b))"
  have n6: "length ?t6 < 46" "NUL \<notin> set ?t6" using assms(2) by (auto simp: ntop_ok_def)
  let ?j = "put 0 ''['' junk6"
  let ?s6 = "put 1 (?t6 @ [NUL]) ?j"
  have j: "take 1 ?j = ''[''" "length ?j = 54" using assms(4) by (simp_all add: put_def)
  have c6: "c_text ?s6 = ''['' @ ?t6" using n6 j by (simp add: c_text_put)
  have k6: "take (Suc (length ?t6)) ?s6 = ''['' @ ?t6"
    using take_put[of 1 "?t6 @ [NUL]" ?j "length ?t6"] n6 j by simp
  have "map_sum id c_text (snprintf (Suc (length ?t6)) ('']:'' @ dec (unat (sa_port (tcp6_data b)))) ?s6)
      = Inr (take (Suc (length ?t6)) ?s6 @ '']:'' @ dec (unat (sa_port (tcp6_data b))))"
    using n6 k6 j dec_port_length[of "sa_port (tcp6_data b)"]
    by (intro snprintf_fits) (auto simp: dec_no_nul)
  then show "tcp6_string ntop6 junk6 b =
      Inr (''['' @ ?t6 @ '']:'' @ dec (unat (sa_port (tcp6_data b))))"
    using n6 c6 k6 by (simp add: tcp6_string_def inet_ntop_def Let_def)
qed

lemma tcp_string_fits_witness:
  "tcp4_string (\<lambda>_. ''127.127.127.127'') (replicate 22 NUL)
     \<lparr>tcp4_data = AF_INET_bytes @ htons_bytes 65535 @ replicate 12 127\<rparr>
   = Inr ''127.127.127.127:65535''"
  using tcp_string_fits[of "\<lambda>_. ''127.127.127.127''" "\<lambda>_. []" "replicate 22 NUL" "replicate 54 NUL"
      "\<lparr>tcp4_data = AF_INET_bytes @ htons_bytes 65535 @ replicate 12 127\<rparr>" "\<lparr>tcp6_data = []\<rparr>"]
  by (simp add: ntop_ok_def sa_port_def window_def dec.simps char_of_def bit_numeral_rec bit_0)

end
