(* ===== verification/TcpSocket.thy ===== *)
theory TcpSocket
  imports NetAddress
begin

text \<open>
  \<open>Error\<close>, \<open>Buffer\<close> and \<open>TcpSocket\<close> with the two TCP streams' operations over it
  (net/Error.h, net/detail/Buffer.cpp, net/tcp/detail/linux/TcpSocket.cpp,
  TcpSyncReadStream.cpp, TcpSyncWriteStream.cpp).

  The kernel is a parameter: every system call of the code takes the next answer of a list of
  answers (\<open>Ret\<close> with what it returns, or \<open>Fail\<close> with \<open>errno\<close>), so that a loop over system
  calls is a recursion over the list and \<open>None\<close> says that the answers ran out inside the loop.
  Descriptors live in a table (\<open>kern\<close>) with the documented behaviour of \<open>socket\<close> and
  \<open>close\<close>. An output parameter is an \<open>option\<close>, \<open>None\<close> for the null pointer; memory is a
  byte list, an \<open>iovec\<close> a base and a length in it.
\<close>

subsection \<open>Error codes\<close>

definition CLOSED :: int where "CLOSED = -1"
definition REMOTELY_CLOSED :: int where "REMOTELY_CLOSED = -2"
definition TIMEOUT :: int where "TIMEOUT = -3"
definition INTERRUPTED :: int where "INTERRUPTED = -4"
definition INVALID_ARGUMENT :: int where "INVALID_ARGUMENT = -5"
definition INVALID_NETWORK_PROTOCAL :: int where "INVALID_NETWORK_PROTOCAL = -6"
definition INVALID_TRANSPORT_PROTOCAL :: int where "INVALID_TRANSPORT_PROTOCAL = -7"

lemmas error_defs = CLOSED_def REMOTELY_CLOSED_def TIMEOUT_def INTERRUPTED_def
  INVALID_ARGUMENT_def INVALID_NETWORK_PROTOCAL_def INVALID_TRANSPORT_PROTOCAL_def

abbreviation (input) EINTR :: int where "EINTR \<equiv> 4"
abbreviation (input) EBADF :: int where "EBADF \<equiv> 9"
abbreviation (input) EAGAIN :: int where "EAGAIN \<equiv> 11"
abbreviation (input) EINPROGRESS :: int where "EINPROGRESS \<equiv> 115"

datatype 'a sysret = Ret 'a | Fail int

subsection \<open>Buffer\<close>

type_synonym iovec = "nat \<times> nat"

record buffer =
  iovs :: "iovec list"
  buf_size :: nat

definition buffer_new :: buffer where "buffer_new = \<lparr>iovs = [], buf_size = 0\<rparr>"

definition buffer_of :: "nat \<Rightarrow> nat \<Rightarrow> buffer" where
  "buffer_of data n = \<lparr>iovs = [(data, n)], buf_size = n\<rparr>"

definition buffer_concat :: "nat \<Rightarrow> nat \<Rightarrow> buffer \<Rightarrow> buffer" where
  "buffer_concat data n b = b\<lparr>iovs := iovs b @ [(data, n)], buf_size := buf_size b + n\<rparr>"

definition buffer_reset :: "nat \<Rightarrow> nat \<Rightarrow> buffer \<Rightarrow> buffer" where
  "buffer_reset data n b =
     (if iovs b = [] then b\<lparr>iovs := iovs b @ [(data, n)], buf_size := n\<rparr>
      else if length (iovs b) = 1 then b\<lparr>iovs := (iovs b)[0 := (data, n)], buf_size := n\<rparr>
      else b\<lparr>iovs := (take 1 (iovs b))[0 := (data, n)], buf_size := n\<rparr>)"

definition buffer_address :: "buffer \<Rightarrow> iovec list option" where
  "buffer_address b = (if iovs b \<noteq> [] then Some (iovs b) else None)"

definition buffer_count :: "buffer \<Rightarrow> nat" where "buffer_count b = length (iovs b)"

definition buffer_clear :: "buffer \<Rightarrow> buffer" where "buffer_clear b = b\<lparr>iovs := [], buf_size := 0\<rparr>"

definition buffer_wf :: "buffer \<Rightarrow> bool" where
  "buffer_wf b \<longleftrightarrow> buf_size b = sum_list (map snd (iovs b))"

text \<open>What \<open>recvmsg\<close> stores and \<open>sendmsg\<close> reads through a list of \<open>iovec\<close>s.\<close>

fun scatter :: "iovec list \<Rightarrow> u8 list \<Rightarrow> u8 list \<Rightarrow> u8 list" where
  "scatter [] bs m = m"
| "scatter ((base, n) # iv) bs m = scatter iv (drop n bs) (put base (take n bs) m)"

fun gather :: "iovec list \<Rightarrow> u8 list \<Rightarrow> u8 list" where
  "gather [] m = []"
| "gather ((base, n) # iv) m = window base n m @ gather iv m"

subsection \<open>The socket object\<close>

abbreviation (input) INVALID_FD :: int where "INVALID_FD \<equiv> -1"

record tcp_socket = socket_fd :: int

text \<open>The descriptors open in the process. \<open>close\<close> frees the descriptor even when it reports an
  I/O error (\<open>io\<close>, 0 for none), and fails with \<open>EBADF\<close> when it is not open.\<close>

record kern = open_fds :: "int set"

definition sys_close :: "int \<Rightarrow> int \<Rightarrow> kern \<Rightarrow> int \<times> kern" where
  "sys_close io fd k =
     (if fd \<in> open_fds k then (io, k\<lparr>open_fds := open_fds k - {fd}\<rparr>) else (EBADF, k))"

definition sock_new :: tcp_socket where "sock_new = \<lparr>socket_fd = INVALID_FD\<rparr>"
definition sock_of :: "int \<Rightarrow> tcp_socket" where "sock_of fd = \<lparr>socket_fd = fd\<rparr>"

definition sock_close :: "int \<Rightarrow> tcp_socket \<Rightarrow> kern \<Rightarrow> int \<times> tcp_socket \<times> kern" where
  "sock_close io s k =
     (if socket_fd s \<noteq> INVALID_FD
      then let (e, k') = sys_close io (socket_fd s) k
           in if e \<noteq> 0 then (e, s\<lparr>socket_fd := INVALID_FD\<rparr>, k') else (0, s, k')
      else (0, s, k))"

definition sock_delete :: "int \<Rightarrow> tcp_socket \<Rightarrow> kern \<Rightarrow> kern" where
  "sock_delete io s k =
     (if socket_fd s \<noteq> INVALID_FD then snd (snd (sock_close io s k)) else k)"

definition sock_move :: "tcp_socket \<Rightarrow> tcp_socket \<times> tcp_socket" where
  "sock_move another =
     (\<lparr>socket_fd = socket_fd another\<rparr>, another\<lparr>socket_fd := INVALID_FD\<rparr>)"

definition sock_assign ::
  "bool \<Rightarrow> tcp_socket \<Rightarrow> tcp_socket \<Rightarrow> tcp_socket \<times> tcp_socket" where
  "sock_assign same_object s another =
     (if \<not> same_object
      then (s\<lparr>socket_fd := socket_fd another\<rparr>, another\<lparr>socket_fd := INVALID_FD\<rparr>)
      else (s, another))"

definition sock_descriptor :: "tcp_socket \<Rightarrow> int" where "sock_descriptor s = socket_fd s"

definition sock_release :: "tcp_socket \<Rightarrow> int \<times> tcp_socket" where
  "sock_release s = (socket_fd s, s\<lparr>socket_fd := INVALID_FD\<rparr>)"

definition sock_open ::
  "u32 \<Rightarrow> int sysret \<Rightarrow> tcp_socket \<Rightarrow> kern \<Rightarrow> int \<times> tcp_socket \<times> kern" where
  "sock_open protocal reply s k =
     (if protocal = TCP_IPV4 \<or> protocal = TCP_IPV6
      then (case reply of
              Ret fd \<Rightarrow> (0, s\<lparr>socket_fd := fd\<rparr>, k\<lparr>open_fds := insert fd (open_fds k)\<rparr>)
            | Fail e \<Rightarrow> (e, s\<lparr>socket_fd := INVALID_FD\<rparr>, k))
      else if protocal AND IPV4 = 0 \<and> protocal AND IPV6 = 0
      then (INVALID_NETWORK_PROTOCAL, s, k)
      else (INVALID_TRANSPORT_PROTOCAL, s, k))"

text \<open>The other operations issue system calls on the descriptor and report the answer of the
  last one. \<open>answers\<close> gives the kernel's answer to a call; the calls issued are returned.\<close>

datatype how_to_shutdown = SHUTDOWN_RD | SHUTDOWN_WR | SHUTDOWN_RDWR
datatype sockopt = SO_REUSEPORT | TCP_NODELAY

datatype call =
    Shutdown int how_to_shutdown
  | Setsockopt int sockopt int
  | Bind int "u8 list" nat
  | Listen int int
  | Connect int "u8 list" nat

type_synonym answers = "call \<Rightarrow> unit sysret"

definition report :: "answers \<Rightarrow> call \<Rightarrow> int" where
  "report ans c = (case ans c of Ret _ \<Rightarrow> 0 | Fail e \<Rightarrow> e)"

definition sock_shutdown :: "answers \<Rightarrow> how_to_shutdown \<Rightarrow> tcp_socket \<Rightarrow> int \<times> call list" where
  "sock_shutdown ans how s = (let c = Shutdown (socket_fd s) how in (report ans c, [c]))"

definition address_data :: "tcp_address \<Rightarrow> u8 list" where
  "address_data a = (case a of Tcp4 t \<Rightarrow> tcp4_data t | Tcp6 t \<Rightarrow> tcp6_data t)"

definition address_size :: "tcp_address \<Rightarrow> nat" where
  "address_size a = (case a of Tcp4 t \<Rightarrow> tcp4_size t | Tcp6 t \<Rightarrow> tcp6_size t)"

definition sock_bind :: "answers \<Rightarrow> tcp_address \<Rightarrow> tcp_socket \<Rightarrow> int \<times> call list" where
  "sock_bind ans a s =
     (let c = Bind (socket_fd s) (address_data a) (address_size a)
      in (report ans c, [Setsockopt (socket_fd s) SO_REUSEPORT 1, c]))"

definition sock_listen :: "answers \<Rightarrow> tcp_socket \<Rightarrow> int \<times> call list" where
  "sock_listen ans s = (let c = Listen (socket_fd s) 128 in (report ans c, [c]))"

definition sock_connect :: "answers \<Rightarrow> tcp_address \<Rightarrow> tcp_socket \<Rightarrow> int \<times> call list" where
  "sock_connect ans a s =
     (let c = Connect (socket_fd s) (address_data a) (address_size a) in (report ans c, [c]))"

definition sock_setReusePort :: "answers \<Rightarrow> bool \<Rightarrow> tcp_socket \<Rightarrow> int \<times> call list" where
  "sock_setReusePort ans on s =
     (let c = Setsockopt (socket_fd s) SO_REUSEPORT (if on then 1 else 0) in (report ans c, [c]))"

definition sock_setNoDelay :: "answers \<Rightarrow> bool \<Rightarrow> tcp_socket \<Rightarrow> int \<times> call list" where
  "sock_setNoDelay ans on s =
     (let c = Setsockopt (socket_fd s) TCP_NODELAY (if on then 1 else 0) in (report ans c, [c]))"

definition out :: "'a::zero option \<Rightarrow> 'a" where
  "out p = (case p of None \<Rightarrow> 0 | Some v \<Rightarrow> v)"

text \<open>The answer of \<open>getsockopt(SO_ERROR)\<close> is the pending error of the socket.\<close>

definition nonBlockingConnect :: "int sysret \<Rightarrow> bool \<times> int" where
  "nonBlockingConnect r =
     (case r of Fail e \<Rightarrow> (True, e) | Ret so_error \<Rightarrow> (so_error \<noteq> EINPROGRESS, so_error))"

subsection \<open>accept, receive, send\<close>

text \<open>An answer of \<open>accept4\<close>: the descriptor, the bytes of the peer's address and the length
  the kernel reports for it. It stores as much of the address as fits.\<close>

type_synonym accepted = "int \<times> u8 list \<times> nat"

definition store_address :: "u8 list \<Rightarrow> u8 list \<Rightarrow> u8 list" where
  "store_address d a = put 0 (take (length d) a) d"

fun accept_loop ::
  "accepted sysret list \<Rightarrow> u8 list option \<Rightarrow>
   ((bool \<times> int \<times> int \<times> u8 list option) \<times> accepted sysret list) option" where
  "accept_loop [] ra = None"
| "accept_loop (Ret (fd, a, alen) # rs) ra =
     Some ((True, 0, fd,
       (case ra of None \<Rightarrow> None
        | Some d \<Rightarrow> if length d < alen then None else Some (store_address d a))), rs)"
| "accept_loop (Fail e # rs) ra =
     (if e = EAGAIN then Some ((False, e, INVALID_FD, ra), rs)
      else if e = EINTR then accept_loop rs ra
      else Some ((True, e, INVALID_FD, ra), rs))"

text \<open>Result, \<open>*error\<close>, \<open>*accepted_socket\<close> and the remote address object.\<close>

definition nonBlockingAccept ::
  "accepted sysret list \<Rightarrow> u8 list option \<Rightarrow>
   ((bool \<times> int \<times> int \<times> u8 list option) \<times> accepted sysret list) option" where
  "nonBlockingAccept rs remote_address = accept_loop rs remote_address"

definition iov_total :: "iovec list \<Rightarrow> nat" where
  "iov_total iv = sum_list (map snd iv)"

text \<open>An answer of \<open>recvmsg\<close> is the data that has arrived; the call returns as much of it as
  the buffers hold. Result, \<open>*transferred\<close>, \<open>*error\<close>, memory, the answers left.\<close>

fun receive_loop ::
  "u8 list sysret list \<Rightarrow> iovec list \<Rightarrow> int \<Rightarrow> u8 list \<Rightarrow>
   ((bool \<times> nat \<times> int) \<times> u8 list \<times> u8 list sysret list) option" where
  "receive_loop [] iv err m = None"
| "receive_loop (Ret bs # rs) iv err m =
     (let got = take (iov_total iv) bs
      in if got \<noteq> [] then Some ((True, length got, 0), scatter iv got m, rs)
         else Some ((True, 0, err), m, rs))"
| "receive_loop (Fail e # rs) iv err m =
     (if e = EAGAIN then Some ((False, 0, e), m, rs)
      else if e = EINTR then receive_loop rs iv err m
      else Some ((True, 0, e), m, rs))"

definition nonBlockingReceive ::
  "u8 list sysret list \<Rightarrow> buffer \<Rightarrow> int option \<Rightarrow> u8 list \<Rightarrow>
   ((bool \<times> nat \<times> int) \<times> u8 list \<times> u8 list sysret list) option" where
  "nonBlockingReceive rs b error m =
     receive_loop rs (case buffer_address b of None \<Rightarrow> [] | Some iv \<Rightarrow> iv) (out error) m"

text \<open>An answer of \<open>sendmsg\<close> is the number of bytes the socket has room for. Result,
  \<open>*transferred\<close>, \<open>*error\<close>, the bytes that entered the connection, the answers left. A
  \<open>sendmsg\<close> that returns 0 leaves \<open>errno\<close> 0.\<close>

fun send_loop ::
  "nat sysret list \<Rightarrow> iovec list \<Rightarrow> u8 list \<Rightarrow>
   ((bool \<times> nat \<times> int) \<times> u8 list \<times> nat sysret list) option" where
  "send_loop [] iv m = None"
| "send_loop (Ret n # rs) iv m =
     (let gone = take n (gather iv m)
      in if gone \<noteq> [] then Some ((True, length gone, 0), gone, rs)
         else Some ((True, 0, 0), [], rs))"
| "send_loop (Fail e # rs) iv m =
     (if e = EAGAIN then Some ((False, 0, e), [], rs)
      else if e = EINTR then send_loop rs iv m
      else Some ((True, 0, e), [], rs))"

definition nonBlockingSend ::
  "nat sysret list \<Rightarrow> buffer \<Rightarrow> u8 list \<Rightarrow>
   ((bool \<times> nat \<times> int) \<times> u8 list \<times> nat sysret list) option" where
  "nonBlockingSend rs b m =
     send_loop rs (case buffer_address b of None \<Rightarrow> [] | Some iv \<Rightarrow> iv) m"

subsection \<open>Addresses of a socket\<close>

text \<open>\<open>getsockname\<close> and \<open>getpeername\<close> store into 128 bytes whose first contents are
  \<open>junk\<close>; an answer is the stored address and the length the kernel reports.\<close>

definition address_of ::
  "u8 list \<Rightarrow> u8 list \<Rightarrow> u8 list \<Rightarrow> (u8 list \<times> nat) sysret \<Rightarrow> fault + tcp_address option \<times> int" where
  "address_of junk junk4 junk6 reply =
     (case reply of
        Fail e \<Rightarrow> Inr (None, e)
      | Ret (a, alen) \<Rightarrow>
          let d = store_address junk a
          in if length junk < alen then Inr (None, INVALID_NETWORK_PROTOCAL)
             else if window 0 2 d = AF_INET_bytes
             then map_sum id (\<lambda>t. (Some (Tcp4 \<lparr>tcp4_data = t\<rparr>), 0)) (memcpy junk4 0 d 0 (length junk4))
             else if window 0 2 d = AF_INET6_bytes
             then map_sum id (\<lambda>t. (Some (Tcp6 \<lparr>tcp6_data = t\<rparr>), 0)) (memcpy junk6 0 d 0 (length junk6))
             else Inr (None, INVALID_NETWORK_PROTOCAL))"

definition getLocalAddress ::
  "u8 list \<Rightarrow> u8 list \<Rightarrow> u8 list \<Rightarrow> (u8 list \<times> nat) sysret \<Rightarrow> fault + tcp_address option \<times> int" where
  "getLocalAddress junk junk4 junk6 getsockname = address_of junk junk4 junk6 getsockname"

definition getRemoteAddress ::
  "u8 list \<Rightarrow> u8 list \<Rightarrow> u8 list \<Rightarrow> (u8 list \<times> nat) sysret \<Rightarrow> fault + tcp_address option \<times> int" where
  "getRemoteAddress junk junk4 junk6 getpeername = address_of junk junk4 junk6 getpeername"

subsection \<open>The operations of the TCP streams\<close>

definition nonBlockingReadSome ::
  "nat \<Rightarrow> nat \<Rightarrow> int option \<Rightarrow> u8 list sysret list \<Rightarrow> u8 list \<Rightarrow>
   ((bool \<times> nat \<times> int) \<times> u8 list \<times> u8 list sysret list) option" where
  "nonBlockingReadSome buf n error rs m = nonBlockingReceive rs (buffer_reset buf n buffer_new) error m"

definition nonBlockingWriteSome ::
  "nat \<Rightarrow> nat \<Rightarrow> nat sysret list \<Rightarrow> u8 list \<Rightarrow>
   ((bool \<times> nat \<times> int) \<times> u8 list \<times> nat sysret list) option" where
  "nonBlockingWriteSome data n rs m = nonBlockingSend rs (buffer_reset data n buffer_new) m"

definition read_shutdownStream :: "answers \<Rightarrow> tcp_socket \<Rightarrow> int \<times> call list" where
  "read_shutdownStream ans s = sock_shutdown ans SHUTDOWN_RD s"

definition write_shutdownStream :: "answers \<Rightarrow> tcp_socket \<Rightarrow> int \<times> call list" where
  "write_shutdownStream ans s = sock_shutdown ans SHUTDOWN_WR s"

subsection \<open>Lemmas of the socket\<close>

lemma buffer_wf_ops:
  "buffer_wf buffer_new" "buffer_wf (buffer_of d n)" "buffer_wf (buffer_clear b)"
  "buffer_wf b \<Longrightarrow> buffer_wf (buffer_concat d n b)" "buffer_wf (buffer_reset d n b)"
  by (cases "iovs b"; simp add: buffer_wf_def buffer_new_def buffer_of_def buffer_clear_def
      buffer_concat_def buffer_reset_def)+

lemma iovs_reset_new [simp]: "iovs (buffer_reset d n buffer_new) = [(d, n)]"
  by (simp add: buffer_reset_def buffer_new_def)

lemma buffer_address_reset [simp]: "buffer_address (buffer_reset d n buffer_new) = Some [(d, n)]"
  by (simp add: buffer_address_def)

subsection \<open>Retrying interrupted calls\<close>

lemma receive_retry: "receive_loop (replicate k (Fail EINTR) @ rs) iv err m = receive_loop rs iv err m"
  by (induction k) simp_all

lemma send_retry: "send_loop (replicate k (Fail EINTR) @ rs) iv m = send_loop rs iv m"
  by (induction k) simp_all

lemma accept_retry: "accept_loop (replicate k (Fail EINTR) @ rs) ra = accept_loop rs ra"
  by (induction k) simp_all

lemma eintr_prefix:
  "(\<exists>k. rs = replicate k (Fail EINTR)) \<or>
   (\<exists>k r rs'. rs = replicate k (Fail EINTR) @ r # rs' \<and> r \<noteq> Fail EINTR)"
proof (induction rs)
  case Nil
  have "([] :: 'a sysret list) = replicate 0 (Fail EINTR)" by simp
  then show ?case by blast
next
  case (Cons a rs)
  show ?case
  proof (cases "a = Fail EINTR")
    case False
    then have "a # rs = replicate 0 (Fail EINTR) @ a # rs \<and> a \<noteq> Fail EINTR" by simp
    then show ?thesis by blast
  next
    case True
    from Cons.IH show ?thesis
    proof (elim disjE exE conjE)
      fix k assume "rs = replicate k (Fail EINTR)"
      with True have "a # rs = replicate (Suc k) (Fail EINTR)" by simp
      then show ?thesis by blast
    next
      fix k r rs' assume "rs = replicate k (Fail EINTR) @ r # rs'" "r \<noteq> Fail EINTR"
      with True have "a # rs = replicate (Suc k) (Fail EINTR) @ r # rs' \<and> r \<noteq> Fail EINTR" by simp
      then show ?thesis by blast
    qed
  qed
qed

text \<open>A non-blocking receive into one buffer returns as soon as the kernel answers
  anything but \<open>EINTR\<close>, and never before; it then returns false exactly for \<open>EAGAIN\<close>, stores
  at most the bytes asked for, in order, inside the buffer only, and at the end of the stream it
  leaves \<open>*error\<close> as the caller had set it.\<close>

theorem receive_outcome:
  assumes "buf + n \<le> length m" "r \<noteq> Fail EINTR"
  shows "nonBlockingReadSome buf n err (replicate k (Fail EINTR)) m = None \<and>
    nonBlockingReadSome buf n err (replicate k (Fail EINTR) @ r # rs) m =
      Some (case r of
          Ret bs \<Rightarrow> (if take n bs = [] then ((True, 0, out err), m, rs)
             else ((True, length (take n bs), 0), take buf m @ take n bs @ drop (buf + length (take n bs)) m, rs))
        | Fail e \<Rightarrow> ((e \<noteq> EAGAIN, 0, e), m, rs))"
proof (intro conjI)
  have "receive_loop (replicate k (Fail EINTR) @ []) [(buf, n)] (out err) m = None"
    by (subst receive_retry) simp
  then show "nonBlockingReadSome buf n err (replicate k (Fail EINTR)) m = None"
    by (simp add: nonBlockingReadSome_def nonBlockingReceive_def)
  show "nonBlockingReadSome buf n err (replicate k (Fail EINTR) @ r # rs) m =
      Some (case r of
          Ret bs \<Rightarrow> (if take n bs = [] then ((True, 0, out err), m, rs)
             else ((True, length (take n bs), 0), take buf m @ take n bs @ drop (buf + length (take n bs)) m, rs))
        | Fail e \<Rightarrow> ((e \<noteq> EAGAIN, 0, e), m, rs))"
    using assms
    by (auto simp: nonBlockingReadSome_def nonBlockingReceive_def receive_retry iov_total_def put_def
        Let_def split: sysret.split)
qed

lemma receive_outcome_witness:
  "nonBlockingReadSome 1 2 None [Fail 4, Ret [7, 8, 9]] [0, 0, 0, 0] =
     Some ((True, 2, 0), [0, 7, 8, 0], [])"
  using receive_outcome[of 1 2 "[0, 0, 0, 0]" "Ret [7, 8, 9]" None 1 "[]"] by simp

text \<open>A non-blocking send from one buffer returns with the first answer that is not
  \<open>EINTR\<close>, false exactly for \<open>EAGAIN\<close>, and what entered the connection is a prefix of the
  buffer of the length it reports.\<close>

theorem send_outcome:
  assumes "r \<noteq> Fail EINTR"
  shows "nonBlockingWriteSome data n (replicate k (Fail EINTR)) m = None \<and>
    nonBlockingWriteSome data n (replicate k (Fail EINTR) @ r # rs) m =
      Some (case r of
          Ret room \<Rightarrow> ((True, length (take room (window data n m)), 0), take room (window data n m), rs)
        | Fail e \<Rightarrow> ((e \<noteq> EAGAIN, 0, e), [], rs))"
proof (intro conjI)
  have "send_loop (replicate k (Fail EINTR) @ []) [(data, n)] m = None"
    by (subst send_retry) simp
  then show "nonBlockingWriteSome data n (replicate k (Fail EINTR)) m = None"
    by (simp add: nonBlockingWriteSome_def nonBlockingSend_def)
  show "nonBlockingWriteSome data n (replicate k (Fail EINTR) @ r # rs) m =
      Some (case r of
          Ret room \<Rightarrow> ((True, length (take room (window data n m)), 0), take room (window data n m), rs)
        | Fail e \<Rightarrow> ((e \<noteq> EAGAIN, 0, e), [], rs))"
    using assms
    by (auto simp: nonBlockingWriteSome_def nonBlockingSend_def send_retry Let_def split: sysret.split)
qed

lemma send_outcome_witness:
  "nonBlockingWriteSome 1 3 [Fail 4, Ret 2] [5, 6, 7, 8] = Some ((True, 2, 0), [6, 7], [])"
  using send_outcome[of "Ret 2" 1 3 1 "[5, 6, 7, 8]" "[]"] by (simp add: window_def)

text \<open>The accept loop: an address longer than the object makes the object go away, any other
  leaves an object of the same size.\<close>

lemma accept_outcome:
  assumes "r \<noteq> Fail EINTR"
  shows "nonBlockingAccept (replicate k (Fail EINTR) @ r # rs) ra =
    Some (case r of
        Ret (fd, a, alen) \<Rightarrow> ((True, 0, fd,
          (case ra of None \<Rightarrow> None
           | Some d \<Rightarrow> if length d < alen then None else Some (store_address d a))), rs)
      | Fail e \<Rightarrow> ((e \<noteq> EAGAIN, e, INVALID_FD, ra), rs))"
  using assms
  by (auto simp: nonBlockingAccept_def accept_retry split: sysret.split)

lemma accept_pending: "nonBlockingAccept (replicate k (Fail EINTR)) ra = None"
  using accept_retry[of k "[]" ra] by (simp add: nonBlockingAccept_def)

lemma length_store_address [simp]: "length (store_address d a) = length d"
  by (simp add: store_address_def)

subsection \<open>Descriptors\<close>

lemma sock_move_one_owner:
  "fst (sock_move s) = s \<and> socket_fd (snd (sock_move s)) = INVALID_FD"
  by (simp add: sock_move_def)

lemma sock_release_keeps_open:
  "sock_release s = (socket_fd s, s') \<Longrightarrow> sock_delete io s' k = k"
  by (auto simp: sock_release_def sock_delete_def)

text \<open>A close that succeeds leaves the number of the closed descriptor in the object;
  when the kernel has since given that number to another socket of the process, closing again, or
  destroying the object, closes the other socket's descriptor.\<close>

theorem close_keeps_descriptor:
  assumes "socket_fd s \<in> open_fds k" "socket_fd s \<noteq> INVALID_FD" "p = TCP_IPV4 \<or> p = TCP_IPV6"
  shows "\<exists>k1. sock_close 0 s k = (0, s, k1) \<and> socket_fd s \<notin> open_fds k1 \<and>
    (\<exists>t k2. sock_open p (Ret (socket_fd s)) sock_new k1 = (0, t, k2) \<and>
      socket_fd t \<in> open_fds k2 \<and>
      socket_fd t \<notin> open_fds (sock_delete 0 s k2) \<and>
      fst (sock_close 0 s k2) = 0 \<and> socket_fd t \<notin> open_fds (snd (snd (sock_close 0 s k2))))"
  using assms
  by (auto simp: sock_close_def sys_close_def sock_open_def sock_new_def sock_delete_def)

lemma close_keeps_descriptor_witness:
  "\<exists>k1. sock_close 0 (sock_of 5) \<lparr>open_fds = {5}\<rparr> = (0, sock_of 5, k1) \<and> 5 \<notin> open_fds k1"
  using close_keeps_descriptor[of "sock_of 5" "\<lparr>open_fds = {5}\<rparr>" TCP_IPV4]
  by (auto simp: sock_of_def)

text \<open>A move assignment over an open socket, and a second \<open>open\<close>, lose the old descriptor: it
  stays open and no object has it.\<close>

lemma assign_leaks:
  "socket_fd s \<noteq> socket_fd t \<Longrightarrow> sock_assign False s t = (s', t') \<Longrightarrow>
   socket_fd s \<in> open_fds k \<Longrightarrow> socket_fd s \<noteq> INVALID_FD \<Longrightarrow>
   socket_fd s \<in> open_fds (sock_delete io t' (sock_delete io s' k))"
  by (auto simp: sock_assign_def sock_delete_def sock_close_def sys_close_def Let_def)

lemma open_outcome:
  "sock_open p reply s k =
    (if p = TCP_IPV4 \<or> p = TCP_IPV6 then
       (case reply of Ret fd \<Rightarrow> (0, \<lparr>socket_fd = fd\<rparr>, \<lparr>open_fds = insert fd (open_fds k)\<rparr>)
        | Fail e \<Rightarrow> (e, \<lparr>socket_fd = INVALID_FD\<rparr>, k))
     else (if p AND 3 = 0 then INVALID_NETWORK_PROTOCAL else INVALID_TRANSPORT_PROTOCAL, s, k))"
proof -
  have "(p AND IPV4 = 0 \<and> p AND IPV6 = 0) = (p AND 3 = 0)"
  proof -
    have e: "p AND 3 = (p AND 1) OR (p AND 2)"
      by (simp flip: bit.conj_disj_distrib)
    show ?thesis unfolding e IPV4_def IPV6_def by (simp add: or_eq_0_iff)
  qed
  then show ?thesis
    by (cases s; cases k) (auto simp: sock_open_def split: sysret.split)
qed

subsection \<open>Addresses\<close>

lemma address_of_outcome:
  assumes "length junk = 128" "length junk4 = 16" "length junk6 = 28" "length a = alen" "alen \<le> 128"
  shows "address_of junk junk4 junk6 (Ret (a, alen)) = Inr
    (let d = a @ drop alen junk in
     if window 0 2 d = AF_INET_bytes then (Some (Tcp4 \<lparr>tcp4_data = take 16 d\<rparr>), 0)
     else if window 0 2 d = AF_INET6_bytes then (Some (Tcp6 \<lparr>tcp6_data = take 28 d\<rparr>), 0)
     else (None, INVALID_NETWORK_PROTOCAL))"
proof -
  have s: "store_address junk a = a @ drop alen junk"
    using assms by (simp add: store_address_def put_def)
  have l: "length (a @ drop alen junk) = 128" using assms by simp
  have w: "window 0 n (a @ drop alen junk) = take n (a @ drop alen junk)" for n
    by (simp add: window_def)
  show ?thesis using assms
    by (simp add: address_of_def s memcpy_fits l Let_def w del: append_take_drop_id)
qed

end
