(* ===== verification/EpollSelector.thy ===== *)
theory EpollSelector
  imports Semaphore TcpSocket
begin

text \<open>
  \<open>EventNotifier\<close>, \<open>EpollSelector\<close> and \<open>EventObject\<close> (net/detail/EventNotifier.h,
  net/detail/linux/EpollSelector.cpp, net/detail/EventObject.hpp).

  A notifier has a descriptor and one semaphore per event type. The selector holds the notifiers
  its pool has constructed, by address, and which of them are in use; an address the pool returns
  is a parameter. The kernel's answers are parameters and the system calls issued are returned, in
  order. \<open>epoll_event.data\<close> is a union: \<open>data.fd\<close> is the low half of \<open>data.ptr\<close>.
\<close>

subsection \<open>Notifiers\<close>

datatype event_type = EVENT_IN | EVENT_OUT

record notifier =
  n_descriptor :: int
  n_semaphores :: "event_type \<Rightarrow> semaphore"

definition notify_event :: "event_type \<Rightarrow> notifier \<Rightarrow> notifier" where
  "notify_event ev n = n\<lparr>n_semaphores := (n_semaphores n)(ev := sem_notify (n_semaphores n ev))\<rparr>"

definition EPOLLIN :: u32 where "EPOLLIN = 1"
definition EPOLLOUT :: u32 where "EPOLLOUT = 4"
definition EPOLLERR :: u32 where "EPOLLERR = 8"
definition EPOLLHUP :: u32 where "EPOLLHUP = 16"
definition EPOLLET :: u32 where "EPOLLET = push_bit 31 1"

lemmas epoll_bits = EPOLLIN_def EPOLLOUT_def EPOLLERR_def EPOLLHUP_def EPOLLET_def

definition readable :: "u32 \<Rightarrow> bool" where
  "readable events \<longleftrightarrow> events AND (EPOLLIN OR EPOLLERR OR EPOLLHUP) \<noteq> 0"

definition writable :: "u32 \<Rightarrow> bool" where
  "writable events \<longleftrightarrow> events AND (EPOLLOUT OR EPOLLERR OR EPOLLHUP) \<noteq> 0"

text \<open>What \<open>select\<close> does with one event of a notifier.\<close>

definition deliver :: "u32 \<Rightarrow> notifier \<Rightarrow> notifier" where
  "deliver events n =
     (if readable events then notify_event EVENT_IN n
      else if writable events then notify_event EVENT_OUT n
      else n)"

subsection \<open>The selector\<close>

datatype epoll_call =
    EpollAdd int int u32 u64
  | EpollDel int int
  | CloseFd int
  | ReadSignal int
  | BlockSignal u32
  | KillThread nat u32

datatype selector_error = Terminates | BadPointer u64

record selector =
  epoll_fd :: int
  sel_signal :: u32
  signal_fd :: int
  notifiers :: "u64 \<Rightarrow> notifier option"
  in_use :: "u64 set"

text \<open>The two initialisers return the error code and the object as they leave it.\<close>

definition initEpollFd :: "int sysret \<Rightarrow> selector \<Rightarrow> int \<times> selector" where
  "initEpollFd epoll_create1 s =
     (case epoll_create1 of
        Ret fd \<Rightarrow> (0, s\<lparr>epoll_fd := fd\<rparr>)
      | Fail e \<Rightarrow> (e, s\<lparr>epoll_fd := INVALID_FD\<rparr>))"

definition fd_data :: "int \<Rightarrow> u64 \<Rightarrow> u64" where
  "fd_data fd junk = (junk AND NOT (mask 32)) OR (of_int fd AND mask 32)"

definition data_fd :: "u64 \<Rightarrow> int" where
  "data_fd data = sint (ucast data :: u32)"

definition initSignalFd ::
  "u32 \<Rightarrow> u64 \<Rightarrow> int sysret \<Rightarrow> unit sysret \<Rightarrow> selector \<Rightarrow> (int \<times> selector) \<times> epoll_call list" where
  "initSignalFd signal junk signalfd epoll_ctl s =
     (case signalfd of
        Fail e \<Rightarrow> ((e, s\<lparr>signal_fd := INVALID_FD\<rparr>), [])
      | Ret fd \<Rightarrow>
          let s' = s\<lparr>signal_fd := fd\<rparr>;
              add = EpollAdd (epoll_fd s) fd (EPOLLIN OR EPOLLET) (fd_data fd junk)
          in case epoll_ctl of
               Fail e \<Rightarrow> ((e, s'), [add, CloseFd fd])
             | Ret _ \<Rightarrow> ((0, s'\<lparr>sel_signal := signal\<rparr>), [add]))"

text \<open>The constructor rethrows although no exception is being handled, which ends the program.\<close>

definition selector_new ::
  "u32 \<Rightarrow> u64 \<Rightarrow> int sysret \<Rightarrow> int sysret \<Rightarrow> unit sysret \<Rightarrow> selector_error + selector" where
  "selector_new signal junk epoll_create1 signalfd epoll_ctl =
     (let s0 = \<lparr>epoll_fd = INVALID_FD, sel_signal = 0, signal_fd = INVALID_FD,
                notifiers = Map.empty, in_use = {}\<rparr>;
          (e1, s1) = initEpollFd epoll_create1 s0
      in if 0 < e1 then Inl Terminates
         else let ((e2, s2), _) = initSignalFd signal junk signalfd epoll_ctl s1
              in if 0 < e2 then Inl Terminates else Inr s2)"

definition destroySignalFd :: "selector \<Rightarrow> epoll_call list" where
  "destroySignalFd s =
     (if signal_fd s \<noteq> INVALID_FD then [EpollDel (epoll_fd s) (signal_fd s), CloseFd (signal_fd s)] else [])"

definition destroyEpollFd :: "selector \<Rightarrow> epoll_call list" where
  "destroyEpollFd s = (if epoll_fd s \<noteq> INVALID_FD then [CloseFd (epoll_fd s)] else [])"

definition selector_delete :: "selector \<Rightarrow> epoll_call list" where
  "selector_delete s = destroySignalFd s @ destroyEpollFd s"

definition selector_mask :: "nat \<Rightarrow> int \<Rightarrow> selector \<Rightarrow> (nat \<times> int) \<times> epoll_call list" where
  "selector_mask self pthread_sigmask s = ((self, pthread_sigmask), [BlockSignal (sel_signal s)])"

definition selector_notify :: "nat \<Rightarrow> selector \<Rightarrow> epoll_call list" where
  "selector_notify thread s = [KillThread thread (sel_signal s)]"

definition readSignal :: "nat \<Rightarrow> u32 \<Rightarrow> u32" where
  "readSignal size_read signo = (if size_read \<noteq> 128 then 0 else signo)"

text \<open>The pool gives out an address not in use; the object there is one freed before, in the state
  it was freed in, or a new one with an uninitialised descriptor.\<close>

definition allocateNotifier :: "u64 \<Rightarrow> int \<Rightarrow> selector \<Rightarrow> selector" where
  "allocateNotifier a junk s =
     s\<lparr>notifiers := (case notifiers s a of
                        Some _ \<Rightarrow> notifiers s
                      | None \<Rightarrow> (notifiers s)(a \<mapsto> \<lparr>n_descriptor = junk, n_semaphores = (\<lambda>_. sem_default)\<rparr>)),
       in_use := insert a (in_use s)\<rparr>"

definition reset_semaphores :: "notifier \<Rightarrow> notifier" where
  "reset_semaphores n = n\<lparr>n_semaphores := (\<lambda>ev. sem_reset (n_semaphores n ev))\<rparr>"

definition freeNotifier :: "u64 \<Rightarrow> selector \<Rightarrow> selector" where
  "freeNotifier a s =
     (if a = 0 then s
      else s\<lparr>notifiers := (notifiers s)(a := map_option reset_semaphores (notifiers s a)),
             in_use := in_use s - {a}\<rparr>)"

definition set_descriptor :: "int \<Rightarrow> u64 \<Rightarrow> selector \<Rightarrow> selector" where
  "set_descriptor fd a s =
     s\<lparr>notifiers := (notifiers s)(a := map_option (n_descriptor_update (\<lambda>_. fd)) (notifiers s a))\<rparr>"

definition registerObject ::
  "u64 \<Rightarrow> int \<Rightarrow> unit sysret \<Rightarrow> int \<Rightarrow> selector \<Rightarrow> (u64 option \<times> int) \<times> selector \<times> epoll_call list" where
  "registerObject a junk epoll_ctl fd s =
     (let s1 = set_descriptor fd a (allocateNotifier a junk s);
          add = EpollAdd (epoll_fd s) fd (EPOLLIN OR EPOLLOUT OR EPOLLERR OR EPOLLHUP OR EPOLLET) a
      in case epoll_ctl of
           Fail e \<Rightarrow> ((None, e), freeNotifier a s1, [add])
         | Ret _ \<Rightarrow> ((Some a, 0), s1, [add]))"

definition deregisterObject :: "u64 option \<Rightarrow> selector \<Rightarrow> selector \<times> epoll_call list" where
  "deregisterObject p s =
     (case p of
        None \<Rightarrow> (s, [])
      | Some a \<Rightarrow>
          let del = (case notifiers s a of None \<Rightarrow> [] | Some n \<Rightarrow> [EpollDel (epoll_fd s) (n_descriptor n)])
          in (freeNotifier a (set_descriptor INVALID_FD a s), del))"

fun select_loop :: "(u32 \<times> u64) list \<Rightarrow> selector \<Rightarrow> selector_error + (selector \<times> epoll_call list)" where
  "select_loop [] s = Inr (s, [])"
| "select_loop ((events, data) # rest) s =
     (if data_fd data = signal_fd s
      then (case select_loop rest s of Inl e \<Rightarrow> Inl e | Inr (s', c) \<Rightarrow> Inr (s', ReadSignal (signal_fd s) # c))
      else if data \<noteq> 0
      then (case notifiers s data of
              None \<Rightarrow> Inl (BadPointer data)
            | Some n \<Rightarrow> select_loop rest (s\<lparr>notifiers := (notifiers s)(data \<mapsto> deliver events n)\<rparr>))
      else select_loop rest s)"

abbreviation (input) EPOLL_EVENTS_MAX :: nat where "EPOLL_EVENTS_MAX \<equiv> 128"

definition select ::
  "(u32 \<times> u64) list sysret \<Rightarrow> selector \<Rightarrow> selector_error + (selector \<times> epoll_call list)" where
  "select epoll_wait s =
     (case epoll_wait of
        Fail _ \<Rightarrow> Inr (s, [])
      | Ret events \<Rightarrow> select_loop (take EPOLL_EVENTS_MAX events) s)"

subsection \<open>EventObject\<close>

text \<open>\<open>EventObject\<close> over a \<open>TcpSocket\<close>, the only resource the program gives it.\<close>

record event_object =
  eo_notifier :: "u64 option"
  eo_resource :: tcp_socket

definition eo_new :: "tcp_socket \<Rightarrow> event_object \<times> tcp_socket" where
  "eo_new device =
     (case sock_move device of (r, d) \<Rightarrow> (\<lparr>eo_notifier = None, eo_resource = r\<rparr>, d))"

text \<open>The body of the destructor; the destructor of the member \<open>_resource\<close> follows it.\<close>

definition eo_delete_body ::
  "int \<Rightarrow> event_object \<Rightarrow> selector \<Rightarrow> kern \<Rightarrow> event_object \<times> selector \<times> kern \<times> epoll_call list" where
  "eo_delete_body io ob s k =
     (if eo_notifier ob \<noteq> None
      then let (_, r, k') = sock_close io (eo_resource ob) k;
               (s', c) = deregisterObject (eo_notifier ob) s
           in (\<lparr>eo_notifier = None, eo_resource = r\<rparr>, s', k', CloseFd (socket_fd (eo_resource ob)) # c)
      else (ob, s, k, []))"

definition eo_delete_member :: "int \<Rightarrow> event_object \<Rightarrow> kern \<Rightarrow> kern" where
  "eo_delete_member io ob k = sock_delete io (eo_resource ob) k"

definition eo_init ::
  "u64 \<Rightarrow> int \<Rightarrow> unit sysret \<Rightarrow> event_object \<Rightarrow> selector \<Rightarrow> int \<times> event_object \<times> selector" where
  "eo_init a junk epoll_ctl ob s =
     (case registerObject a junk epoll_ctl (sock_descriptor (eo_resource ob)) s of
        ((p, e), s', _) \<Rightarrow> (e, ob\<lparr>eo_notifier := p\<rparr>, s'))"

definition eo_get :: "event_object \<Rightarrow> tcp_socket" where "eo_get ob = eo_resource ob"

definition eo_release :: "event_object \<Rightarrow> selector \<Rightarrow> event_object \<times> selector" where
  "eo_release ob s =
     (if eo_notifier ob \<noteq> None
      then (ob\<lparr>eo_notifier := None\<rparr>, fst (deregisterObject (eo_notifier ob) s))
      else (ob, s))"

text \<open>Waiting and notifying are those of the semaphore; without a notifier the assertion fails
  (\<open>None\<close>). The inner \<open>None\<close> of \<open>eo_wait\<close>: the caller sleeps.\<close>

definition eo_semaphore :: "event_type \<Rightarrow> event_object \<Rightarrow> selector \<Rightarrow> semaphore option" where
  "eo_semaphore ev ob s =
     Option.bind (eo_notifier ob) (\<lambda>a. map_option (\<lambda>n. n_semaphores n ev) (notifiers s a))"

definition set_semaphore :: "event_type \<Rightarrow> event_object \<Rightarrow> semaphore \<Rightarrow> selector \<Rightarrow> selector" where
  "set_semaphore ev ob x s =
     (case eo_notifier ob of
        None \<Rightarrow> s
      | Some a \<Rightarrow> s\<lparr>notifiers := (notifiers s)(a := map_option
           (\<lambda>n. n\<lparr>n_semaphores := (n_semaphores n)(ev := x)\<rparr>) (notifiers s a))\<rparr>)"

definition eo_wait :: "event_type \<Rightarrow> event_object \<Rightarrow> selector \<Rightarrow> selector option option" where
  "eo_wait ev ob s =
     map_option (\<lambda>x. map_option (\<lambda>y. set_semaphore ev ob y s) (sem_wait x)) (eo_semaphore ev ob s)"

definition eo_wait_until :: "event_type \<Rightarrow> event_object \<Rightarrow> selector \<Rightarrow> (bool \<times> selector) option" where
  "eo_wait_until ev ob s =
     map_option (\<lambda>x. let (r, y) = sem_wait_until x in (r, set_semaphore ev ob y s)) (eo_semaphore ev ob s)"

definition eo_wait_for :: "event_type \<Rightarrow> event_object \<Rightarrow> selector \<Rightarrow> (bool \<times> selector) option" where
  "eo_wait_for ev ob s =
     map_option (\<lambda>x. let (r, y) = sem_wait_for x in (r, set_semaphore ev ob y s)) (eo_semaphore ev ob s)"

definition eo_notify :: "event_type \<Rightarrow> event_object \<Rightarrow> selector \<Rightarrow> selector option" where
  "eo_notify ev ob s =
     map_option (\<lambda>x. set_semaphore ev ob (sem_notify x) s) (eo_semaphore ev ob s)"

subsection \<open>Lemmas of the selector\<close>

lemma notifier_eqI:
  "n_descriptor m = n_descriptor n \<Longrightarrow> n_semaphores m = n_semaphores n \<Longrightarrow> (m :: notifier) = n"
  by simp

lemma fd_data_roundtrip: "- (2 ^ 31) \<le> fd \<Longrightarrow> fd < 2 ^ 31 \<Longrightarrow> data_fd (fd_data fd junk) = fd"
proof -
  assume r: "- (2 ^ 31) \<le> fd" "fd < 2 ^ 31"
  have "ucast (fd_data fd junk) = (of_int fd :: u32)"
    unfolding fd_data_def by (rule bit_word_eqI) (auto simp: bit_simps)
  moreover have "sint (of_int fd :: u32) = fd"
    using r by (simp add: signed_of_int signed_take_bit_int_eq_self)
  ultimately show ?thesis by (simp add: data_fd_def)
qed

subsection \<open>Semaphores nobody waits on\<close>

text \<open>The two counters agree when no caller is inside an operation.\<close>

definition quiet :: "semaphore \<Rightarrow> bool" where
  "quiet x \<longleftrightarrow> sem_count x = min (atomic_count x) 0"

lemma quiet_default [simp]: "quiet sem_default"
  by (simp add: quiet_def sem_ops)

lemma quiet_reset: "quiet x \<Longrightarrow> sem_reset x = sem_default"
  by (cases x) (auto simp: quiet_def sem_ops Let_def min_def split: if_splits)

definition quiet_notifier :: "notifier \<Rightarrow> bool" where
  "quiet_notifier n \<longleftrightarrow> (\<forall>ev. quiet (n_semaphores n ev))"

lemma reset_quiet: "quiet_notifier n \<Longrightarrow> n_semaphores (reset_semaphores n) = (\<lambda>_. sem_default)"
  by (simp add: quiet_notifier_def reset_semaphores_def quiet_reset)

definition set_sem :: "u64 \<Rightarrow> event_type \<Rightarrow> semaphore \<Rightarrow> selector \<Rightarrow> selector" where
  "set_sem a ev x s = s\<lparr>notifiers := (notifiers s)(a := map_option
     (\<lambda>n. n\<lparr>n_semaphores := (n_semaphores n)(ev := x)\<rparr>) (notifiers s a))\<rparr>"

subsection \<open>Registering and removing\<close>

definition registered :: "u64 \<Rightarrow> int \<Rightarrow> int \<Rightarrow> selector \<Rightarrow> selector" where
  "registered a junk fd s = set_descriptor fd a (allocateNotifier a junk s)"

lemma registered_simps:
  "in_use (registered a junk fd s) = insert a (in_use s)"
  "b \<noteq> a \<Longrightarrow> notifiers (registered a junk fd s) b = notifiers s b"
  "notifiers (registered a junk fd s) a =
     Some (case notifiers s a of Some n \<Rightarrow> n\<lparr>n_descriptor := fd\<rparr>
           | None \<Rightarrow> \<lparr>n_descriptor = fd, n_semaphores = (\<lambda>_. sem_default)\<rparr>)"
  by (auto simp: registered_def set_descriptor_def allocateNotifier_def split: option.split)

text \<open>An address whose next owner finds a notifier like a new one.\<close>

definition fresh_slot :: "u64 \<Rightarrow> selector \<Rightarrow> bool" where
  "fresh_slot a s \<longleftrightarrow> a \<noteq> 0 \<and> a \<notin> in_use s \<and>
     (\<forall>n. notifiers s a = Some n \<longrightarrow> n_semaphores n = (\<lambda>_. sem_default))"

lemma registered_fresh:
  assumes "fresh_slot a s"
  shows "notifiers (registered a junk fd s) a =
    Some \<lparr>n_descriptor = fd, n_semaphores = (\<lambda>_. sem_default)\<rparr>"
  using assms
  by (cases "notifiers s a") (auto simp: registered_simps fresh_slot_def)

subsection \<open>What select delivers\<close>

definition addressed :: "selector \<Rightarrow> u64 \<Rightarrow> bool" where
  "addressed s a \<longleftrightarrow> a \<noteq> 0 \<and> data_fd a \<noteq> signal_fd s"

definition events_for :: "u64 \<Rightarrow> (u32 \<Rightarrow> bool) \<Rightarrow> (u32 \<times> u64) list \<Rightarrow> nat" where
  "events_for a P evs = length (filter (\<lambda>(e, d). d = a \<and> P e) evs)"

lemma events_for_simps [simp]:
  "events_for a P [] = 0"
  "events_for a P ((e, d) # evs) = (if d = a \<and> P e then 1 else 0) + events_for a P evs"
  by (simp_all add: events_for_def)

lemma deliver_sems:
  "n_semaphores (deliver e n) EVENT_IN =
     (if readable e then sem_notify (n_semaphores n EVENT_IN) else n_semaphores n EVENT_IN)"
  "n_semaphores (deliver e n) EVENT_OUT =
     (if \<not> readable e \<and> writable e then sem_notify (n_semaphores n EVENT_OUT)
      else n_semaphores n EVENT_OUT)"
  by (simp_all add: deliver_def notify_event_def)

definition delivered :: "(u32 \<times> u64) list \<Rightarrow> selector \<Rightarrow> selector \<Rightarrow> bool" where
  "delivered evs s s' \<longleftrightarrow> in_use s' = in_use s \<and>
     (\<forall>a n. addressed s a \<longrightarrow> notifiers s a = Some n \<longrightarrow> (\<exists>n'. notifiers s' a = Some n' \<and>
        n_semaphores n' EVENT_IN = (sem_notify ^^ events_for a readable evs) (n_semaphores n EVENT_IN) \<and>
        n_semaphores n' EVENT_OUT =
          (sem_notify ^^ events_for a (\<lambda>e. \<not> readable e \<and> writable e) evs) (n_semaphores n EVENT_OUT)))"

lemma delivered_skip:
  assumes "delivered evs s s'" "\<not> addressed s d"
  shows "delivered ((e, d) # evs) s s'"
proof -
  have *: "addressed s a \<Longrightarrow> events_for a P ((e, d) # evs) = events_for a P evs" for a P
    using assms(2) by auto
  from assms(1) show ?thesis unfolding delivered_def by (simp add: * del: events_for_simps)
qed

lemma delivered_step:
  assumes "delivered evs (s\<lparr>notifiers := (notifiers s)(d \<mapsto> deliver e n)\<rparr>) s'" "notifiers s d = Some n"
  shows "delivered ((e, d) # evs) s s'"
  unfolding delivered_def
proof (intro conjI allI impI)
  let ?s = "s\<lparr>notifiers := (notifiers s)(d \<mapsto> deliver e n)\<rparr>"
  have a: "addressed ?s = addressed s" by (rule ext) (simp add: addressed_def)
  show "in_use s' = in_use s" using assms(1) by (simp add: delivered_def)
  fix b m assume b: "addressed s b" "notifiers s b = Some m"
  let ?m = "if b = d then deliver e n else m"
  have "notifiers ?s b = Some ?m" using b by simp
  with assms(1) b(1) obtain n' where n': "notifiers s' b = Some n'"
    "n_semaphores n' EVENT_IN = (sem_notify ^^ events_for b readable evs) (n_semaphores ?m EVENT_IN)"
    "n_semaphores n' EVENT_OUT =
       (sem_notify ^^ events_for b (\<lambda>e. \<not> readable e \<and> writable e) evs) (n_semaphores ?m EVENT_OUT)"
    unfolding delivered_def a by blast
  have f: "(sem_notify ^^ events_for b P ((e, d) # evs)) x =
      (sem_notify ^^ events_for b P evs) (if d = b \<and> P e then sem_notify x else x)" for P x
    by (simp add: funpow_swap1)
  have mn: "b = d \<Longrightarrow> m = n" using b assms(2) by simp
  have g: "n_semaphores ?m EVENT_IN =
      (if d = b \<and> readable e then sem_notify (n_semaphores m EVENT_IN) else n_semaphores m EVENT_IN)"
    "n_semaphores ?m EVENT_OUT =
      (if d = b \<and> \<not> readable e \<and> writable e then sem_notify (n_semaphores m EVENT_OUT)
       else n_semaphores m EVENT_OUT)"
    using mn by (auto simp: deliver_sems)
  show "\<exists>n'. notifiers s' b = Some n' \<and>
      n_semaphores n' EVENT_IN =
        (sem_notify ^^ events_for b readable ((e, d) # evs)) (n_semaphores m EVENT_IN) \<and>
      n_semaphores n' EVENT_OUT =
        (sem_notify ^^ events_for b (\<lambda>e. \<not> readable e \<and> writable e) ((e, d) # evs))
          (n_semaphores m EVENT_OUT)"
    unfolding f using n' unfolding g by blast
qed

lemma select_loop_counts:
  "\<forall>(e, d) \<in> set evs. d \<noteq> 0 \<longrightarrow> notifiers s d \<noteq> None \<Longrightarrow>
   \<exists>s' c. select_loop evs s = Inr (s', c) \<and> delivered evs s s'"
proof (induction evs s rule: select_loop.induct)
  case (1 s) show ?case by (simp add: delivered_def)
next
  case (2 events data rest s)
  consider "data_fd data = signal_fd s" | "data_fd data \<noteq> signal_fd s" "data = 0"
    | n where "data_fd data \<noteq> signal_fd s" "data \<noteq> 0" "notifiers s data = Some n"
    using "2.prems" by auto
  then show ?case
  proof cases
    case 1
    then have "\<not> addressed s data" by (simp add: addressed_def)
    with 1 "2.IH"(1) "2.prems" show ?thesis by (auto intro: delivered_skip)
  next
    case 2
    then have "\<not> addressed s data" by (simp add: addressed_def)
    with 2 "2.IH"(3) "2.prems" show ?thesis by (auto intro: delivered_skip)
  next
    case (3 n)
    let ?s = "s\<lparr>notifiers := (notifiers s)(data \<mapsto> deliver events n)\<rparr>"
    have p: "\<forall>(e, d) \<in> set rest. d \<noteq> 0 \<longrightarrow> notifiers ?s d \<noteq> None" using "2.prems" by auto
    have e: "select_loop ((events, data) # rest) s = select_loop rest ?s" using 3 by simp
    from "2.IH"(2)[OF 3 p] show ?thesis
      unfolding e using delivered_step[OF _ 3(3)] by blast
  qed
qed

text \<open>The notifier of an object afterwards is the one before, with the object's events
  handled in the order in which the kernel reports them.\<close>

definition events_of :: "u64 \<Rightarrow> (u32 \<times> u64) list \<Rightarrow> u32 list" where
  "events_of a evs = map fst (filter (\<lambda>(e, d). d = a) evs)"

lemma events_of_simps [simp]:
  "events_of a [] = []"
  "events_of a ((e, d) # evs) = (if d = a then e # events_of a evs else events_of a evs)"
  by (simp_all add: events_of_def)

lemma set_events_of: "e \<in> set (events_of a evs) \<longleftrightarrow> (e, a) \<in> set evs"
  by (force simp: events_of_def)

lemma select_loop_notifier:
  "\<forall>(e, d) \<in> set evs. d \<noteq> 0 \<longrightarrow> notifiers s d \<noteq> None \<Longrightarrow> addressed s a \<Longrightarrow> notifiers s a = Some n \<Longrightarrow>
   \<exists>s' c. select_loop evs s = Inr (s', c) \<and> notifiers s' a = Some (fold deliver (events_of a evs) n)"
proof (induction evs s arbitrary: n rule: select_loop.induct)
  case (1 s) then show ?case by simp
next
  case (2 events data rest s)
  consider "data_fd data = signal_fd s" | "data_fd data \<noteq> signal_fd s" "data = 0"
    | m where "data_fd data \<noteq> signal_fd s" "data \<noteq> 0" "notifiers s data = Some m"
    using "2.prems" by auto
  then show ?case
  proof cases
    case 1
    then have "data \<noteq> a" using "2.prems"(2) by (auto simp: addressed_def)
    with 1 "2.IH"(1)[OF 1 _ "2.prems"(2,3)] "2.prems"(1) show ?thesis by auto
  next
    case 2
    then have "data \<noteq> a" using "2.prems"(2) by (auto simp: addressed_def)
    with 2 "2.IH"(3)[of n] "2.prems" show ?thesis by auto
  next
    case (3 m)
    let ?s = "s\<lparr>notifiers := (notifiers s)(data \<mapsto> deliver events m)\<rparr>"
    have p: "\<forall>(e, d) \<in> set rest. d \<noteq> 0 \<longrightarrow> notifiers ?s d \<noteq> None" "addressed ?s a"
      using "2.prems" by (auto simp: addressed_def)
    have e: "select_loop ((events, data) # rest) s = select_loop rest ?s" using 3 by simp
    have "notifiers ?s a = Some (if data = a then deliver events n else n)" using "2.prems"(3) 3(3) by auto
    from "2.IH"(2)[OF 3 p this] show ?thesis unfolding e by auto
  qed
qed

lemma fold_deliver_sems:
  "n_semaphores (fold deliver es n) EVENT_IN =
     (sem_notify ^^ length (filter readable es)) (n_semaphores n EVENT_IN)"
  "n_semaphores (fold deliver es n) EVENT_OUT =
     (sem_notify ^^ length (filter (\<lambda>e. \<not> readable e \<and> writable e) es)) (n_semaphores n EVENT_OUT)"
  by (induction es arbitrary: n) (simp_all add: deliver_sems funpow_swap1)

subsection \<open>Runs of the selector\<close>

text \<open>
  A selector together with the callers inside each semaphore, as in the theory Semaphore. A step
  registers or deregisters an object, is one call of \<open>select\<close> with any events the kernel can
  report for notifiers the pool has constructed (given back or not: an event fetched before a
  deregistration is handled after it), or is one atomic section of any caller of any semaphore,
  asleep, woken, timed or notifying. Two ghost sets record the addresses used while they were in
  the pool, since they were last given back, and those given back while a caller was inside.
\<close>

record sel_world =
  w_sel :: selector
  w_callers :: "u64 \<Rightarrow> event_type \<Rightarrow> sem_pc multiset"
  w_touched :: "u64 set"
  w_disturbed :: "u64 set"

definition world_of :: "selector \<Rightarrow> sel_world" where
  "world_of s = \<lparr>w_sel = s, w_callers = (\<lambda>_ _. {#}), w_touched = {}, w_disturbed = {}\<rparr>"

definition busy :: "sel_world \<Rightarrow> u64 \<Rightarrow> bool" where
  "busy w a \<longleftrightarrow> w_callers w a EVENT_IN \<noteq> {#} \<or> w_callers w a EVENT_OUT \<noteq> {#}"

definition given_back :: "u64 \<Rightarrow> sel_world \<Rightarrow> sel_world" where
  "given_back a w = w\<lparr>w_touched := w_touched w - {a},
     w_disturbed := (if busy w a then insert a (w_disturbed w) else w_disturbed w)\<rparr>"

definition sem_here :: "notifier \<Rightarrow> event_type \<Rightarrow> sem_pc multiset \<Rightarrow> sem_system" where
  "sem_here n ev cs =
     \<lparr>sem = n_semaphores n ev, callers = cs, acquired = 0, expired = 0, posted = 0\<rparr>"

inductive sel_step :: "sel_world \<Rightarrow> sel_world \<Rightarrow> bool" where
  register: "a \<noteq> 0 \<Longrightarrow> a \<notin> in_use (w_sel w) \<Longrightarrow>
     registerObject a junk (Ret ()) fd (w_sel w) = (r, s', c) \<Longrightarrow> sel_step w (w\<lparr>w_sel := s'\<rparr>)"
| refused: "a \<noteq> 0 \<Longrightarrow> a \<notin> in_use (w_sel w) \<Longrightarrow>
     registerObject a junk (Fail e) fd (w_sel w) = (r, s', c) \<Longrightarrow>
     sel_step w (given_back a (w\<lparr>w_sel := s'\<rparr>))"
| deregister: "a \<in> in_use (w_sel w) \<Longrightarrow> deregisterObject (Some a) (w_sel w) = (s', c) \<Longrightarrow>
     sel_step w (given_back a (w\<lparr>w_sel := s'\<rparr>))"
| selected: "select (Ret evs) (w_sel w) = Inr (s', c) \<Longrightarrow>
     sel_step w (w\<lparr>w_sel := s', w_touched := w_touched w \<union>
       {d. d \<notin> in_use (w_sel w) \<and> addressed (w_sel w) d \<and> (\<exists>e. (e, d) \<in> set (take EPOLL_EVENTS_MAX evs))}\<rparr>)"
| inside: "notifiers (w_sel w) a = Some n \<Longrightarrow> sem_step (sem_here n ev (w_callers w a ev)) \<sigma> \<Longrightarrow>
     sel_step w (w\<lparr>w_sel := set_sem a ev (sem \<sigma>) (w_sel w),
       w_callers := (w_callers w)(a := (w_callers w a)(ev := callers \<sigma>)),
       w_touched := (if a \<in> in_use (w_sel w) then w_touched w else insert a (w_touched w))\<rparr>)"

definition settled :: "notifier \<Rightarrow> (event_type \<Rightarrow> sem_pc multiset) \<Rightarrow> bool" where
  "settled n cs \<longleftrightarrow> (\<forall>ev. counters_agree 0 (sem_here n ev (cs ev)))"

definition fresh_sems :: "notifier \<Rightarrow> bool" where
  "fresh_sems n \<longleftrightarrow> n_semaphores n = (\<lambda>_. sem_default)"

text \<open>What holds of one address.\<close>

definition world_ok :: "u64 \<Rightarrow> sel_world \<Rightarrow> bool" where
  "world_ok a w \<longleftrightarrow> (a \<in> in_use (w_sel w) \<longrightarrow> a \<noteq> 0) \<and>
     (case notifiers (w_sel w) a of
        None \<Rightarrow> \<not> busy w a \<and> a \<notin> in_use (w_sel w)
      | Some n \<Rightarrow> a \<notin> w_disturbed w \<longrightarrow> settled n (w_callers w a) \<and>
          (a \<notin> in_use (w_sel w) \<longrightarrow> a \<notin> w_touched w \<longrightarrow> \<not> busy w a \<and> fresh_sems n))"

lemma world_okD:
  assumes "world_ok a w"
  shows "notifiers (w_sel w) a = None \<Longrightarrow> \<not> busy w a \<and> a \<notin> in_use (w_sel w)"
    and "notifiers (w_sel w) a = Some n \<Longrightarrow> a \<notin> w_disturbed w \<Longrightarrow> settled n (w_callers w a)"
    and "notifiers (w_sel w) a = Some n \<Longrightarrow> a \<notin> w_disturbed w \<Longrightarrow> a \<notin> in_use (w_sel w) \<Longrightarrow>
      a \<notin> w_touched w \<Longrightarrow> \<not> busy w a \<and> fresh_sems n"
  using assms by (auto simp: world_ok_def)

lemma all_events: "(\<forall>ev. P ev) \<longleftrightarrow> P EVENT_IN \<and> P EVENT_OUT"
  by (metis event_type.exhaust)

lemma settled_quiet: "\<not> busy w a \<Longrightarrow> settled n (w_callers w a) \<longleftrightarrow> quiet_notifier n"
  by (auto simp: settled_def all_events quiet_notifier_def quiet_def busy_def counters_agree_def
      sem_here_def sem_counts)

lemma fresh_settled: "fresh_sems n \<Longrightarrow> \<not> busy w a \<Longrightarrow> settled n (w_callers w a)"
  by (simp add: settled_quiet quiet_notifier_def fresh_sems_def)

lemma settled_notify: "settled n cs \<Longrightarrow> settled (deliver e n) cs"
  by (auto simp: settled_def all_events deliver_def notify_event_def counters_agree_def sem_here_def
      sem_counts sem_ops)

lemma settled_fold: "settled n cs \<Longrightarrow> settled (fold deliver es n) cs"
  by (induction es arbitrary: n) (simp_all add: settled_notify)

lemma settled_sem_step:
  assumes "settled n cs" and "sem_step (sem_here n ev (cs ev)) \<sigma>"
  shows "settled (n\<lparr>n_semaphores := (n_semaphores n)(ev := sem \<sigma>)\<rparr>) (cs(ev := callers \<sigma>))"
proof -
  have "counters_agree 0 \<sigma>" using counters_agree_step[OF assms(2)] assms(1) by (simp add: settled_def)
  then have "counters_agree 0 (\<sigma>\<lparr>acquired := 0, expired := 0, posted := 0\<rparr>)"
    by (simp add: counters_agree_def sem_counts)
  then show ?thesis using assms(1)
    by (cases \<sigma>) (auto simp: settled_def sem_here_def)
qed

text \<open>Giving a notifier back resets its semaphores.\<close>

lemma given_back_ok:
  assumes "world_ok a w"
    and "\<And>n. notifiers (w_sel w) a = Some n \<Longrightarrow> \<exists>m. n_semaphores m = n_semaphores n \<and>
      notifiers s' a = Some (reset_semaphores m)"
    and "notifiers (w_sel w) a = None \<Longrightarrow> \<exists>m. fresh_sems m \<and> notifiers s' a = Some (reset_semaphores m)"
    and "a \<notin> in_use s'"
  shows "world_ok a (given_back a (w\<lparr>w_sel := s'\<rparr>))"
proof (cases "busy w a \<or> a \<in> w_disturbed w")
  case True
  then have "notifiers (w_sel w) a \<noteq> None \<or> a \<in> w_disturbed w" using world_okD(1)[OF assms(1)] by auto
  have "a \<in> w_disturbed (given_back a (w\<lparr>w_sel := s'\<rparr>))"
    using True by (auto simp: given_back_def busy_def)
  moreover have "notifiers s' a \<noteq> None" using assms(2,3) by (cases "notifiers (w_sel w) a") auto
  ultimately show ?thesis using assms(4) by (auto simp: world_ok_def given_back_def)
next
  case False
  then have nb: "\<not> busy w a" "a \<notin> w_disturbed w" by auto
  obtain m where m: "notifiers s' a = Some (reset_semaphores m)" "quiet_notifier m"
  proof (cases "notifiers (w_sel w) a")
    case None
    with assms(3) that show ?thesis by (auto simp: fresh_sems_def quiet_notifier_def)
  next
    case (Some n)
    with assms(2) obtain m where "n_semaphores m = n_semaphores n"
      "notifiers s' a = Some (reset_semaphores m)" by blast
    moreover have "quiet_notifier n" using world_okD(2)[OF assms(1) Some nb(2)] settled_quiet[OF nb(1)] by simp
    ultimately show ?thesis using that by (simp add: quiet_notifier_def)
  qed
  have f: "fresh_sems (reset_semaphores m)" using reset_quiet[OF m(2)] by (simp add: fresh_sems_def)
  then show ?thesis using m(1) assms(4) nb fresh_settled[OF f nb(1)]
    by (auto simp: world_ok_def given_back_def busy_def)
qed

text \<open>A step at one address leaves every other address as it was.\<close>

lemma world_ok_cong:
  assumes "world_ok b w" and "notifiers (w_sel v) b = notifiers (w_sel w) b"
    and "b \<in> in_use (w_sel v) \<longleftrightarrow> b \<in> in_use (w_sel w)" and "w_callers v b = w_callers w b"
    and "b \<in> w_touched v \<longleftrightarrow> b \<in> w_touched w" and "b \<in> w_disturbed v \<longleftrightarrow> b \<in> w_disturbed w"
  shows "world_ok b v"
  using assms by (auto simp: world_ok_def busy_def split: option.splits)

lemma select_loop_each:
  "select_loop evs s = Inr (s', c) \<Longrightarrow> in_use s' = in_use s \<and> notifiers s' a =
     (if addressed s a then map_option (fold deliver (events_of a evs)) (notifiers s a)
      else notifiers s a)"
proof (induction evs s arbitrary: s' c rule: select_loop.induct)
  case (1 s) then show ?case by (auto simp: option.map_id)
next
  case (2 events data rest s)
  consider "data_fd data = signal_fd s" | "data_fd data \<noteq> signal_fd s" "data = 0"
    | m where "data_fd data \<noteq> signal_fd s" "data \<noteq> 0" "notifiers s data = Some m"
    using "2.prems" by (auto split: if_splits option.splits)
  then show ?case
  proof cases
    case 1
    then obtain c' where "select_loop rest s = Inr (s', c')"
      using "2.prems" by (auto split: sum.splits prod.splits)
    with "2.IH"(1)[OF 1] have "in_use s' = in_use s \<and> notifiers s' a =
        (if addressed s a then map_option (fold deliver (events_of a rest)) (notifiers s a)
         else notifiers s a)" by blast
    moreover have "addressed s a \<Longrightarrow> data \<noteq> a" using 1 by (auto simp: addressed_def)
    ultimately show ?thesis by auto
  next
    case 2
    with "2.IH"(3)[of s' c] "2.prems" have "in_use s' = in_use s \<and> notifiers s' a =
        (if addressed s a then map_option (fold deliver (events_of a rest)) (notifiers s a)
         else notifiers s a)" by simp
    moreover have "addressed s a \<Longrightarrow> data \<noteq> a" using 2 by (auto simp: addressed_def)
    ultimately show ?thesis by auto
  next
    case (3 m)
    let ?s = "s\<lparr>notifiers := (notifiers s)(data \<mapsto> deliver events m)\<rparr>"
    have "select_loop rest ?s = Inr (s', c)" using 3 "2.prems" by simp
    from "2.IH"(2)[OF 3 this] have i: "in_use s' = in_use s" "notifiers s' a =
        (if addressed s a then map_option (fold deliver (events_of a rest)) (notifiers ?s a)
         else notifiers ?s a)" by (auto simp: addressed_def)
    have "addressed s data" using 3 by (simp add: addressed_def)
    then show ?thesis using i 3(3) by (cases "data = a") auto
  qed
qed

lemma deregistered_at:
  assumes "a \<in> in_use s" and "a \<noteq> 0" and "deregisterObject (Some a) s = (s', c)"
  shows "in_use s' = in_use s - {a}"
    and "notifiers s' b = (if b = a then map_option (\<lambda>n. reset_semaphores (n\<lparr>n_descriptor := INVALID_FD\<rparr>))
      (notifiers s a) else notifiers s b)"
  using assms
  by (auto simp: deregisterObject_def Let_def freeNotifier_def set_descriptor_def option.map_comp comp_def)

lemma refused_at:
  assumes "a \<noteq> 0" and "registerObject a junk (Fail e) fd s = (r, s', c)"
  shows "in_use s' = in_use s - {a}"
    and "b \<noteq> a \<Longrightarrow> notifiers s' b = notifiers s b"
    and "notifiers s' a = Some (reset_semaphores (case notifiers s a of Some n \<Rightarrow> n\<lparr>n_descriptor := fd\<rparr>
      | None \<Rightarrow> \<lparr>n_descriptor = fd, n_semaphores = (\<lambda>_. sem_default)\<rparr>))"
  using assms
  by (auto simp: registerObject_def Let_def freeNotifier_def registered_simps
      simp flip: registered_def)

lemma world_ok_step:
  assumes "sel_step w v" and "world_ok b w"
  shows "world_ok b v"
  using assms(1)
proof cases
  case (register a junk fd r s' c)
  then have s': "s' = registered a junk fd (w_sel w)"
    by (simp add: registerObject_def Let_def registered_def)
  show ?thesis
  proof (cases "b = a")
    case True
    have "settled (n\<lparr>n_descriptor := fd\<rparr>) cs = settled n cs" for n cs
      by (simp add: settled_def sem_here_def)
    then show ?thesis using True assms(2) register(1,2) s'
      by (auto simp: world_ok_def registered_simps busy_def fresh_sems_def quiet_notifier_def
          settled_quiet[unfolded busy_def] split: option.splits)
  next
    case False
    then show ?thesis using assms(2) register(1) s' by (intro world_ok_cong[OF assms(2)]) (simp_all add: registered_simps)
  qed
next
  case (refused a junk e fd r s' c)
  note at = refused_at[OF refused(2,4)]
  show ?thesis
  proof (cases "b = a")
    case True
    show ?thesis
      unfolding True refused(1)
    proof (rule given_back_ok)
      fix n assume "notifiers (w_sel w) a = Some n"
      then show "\<exists>m. n_semaphores m = n_semaphores n \<and> notifiers s' a = Some (reset_semaphores m)"
        using at(3) by (intro exI[of _ "n\<lparr>n_descriptor := fd\<rparr>"]) simp
    next
      assume "notifiers (w_sel w) a = None"
      then show "\<exists>m. fresh_sems m \<and> notifiers s' a = Some (reset_semaphores m)"
        using at(3) by (intro exI[of _ "\<lparr>n_descriptor = fd, n_semaphores = (\<lambda>_. sem_default)\<rparr>"])
          (simp add: fresh_sems_def)
    qed (use assms(2) True at(1) in auto)
  next
    case False
    then show ?thesis using refused(1) at(1,2)
      by (intro world_ok_cong[OF assms(2)]) (auto simp: given_back_def)
  qed
next
  case (deregister a s' c)
  show ?thesis
  proof (cases "b = a")
    case True
    then have nz: "a \<noteq> 0" and sm: "notifiers (w_sel w) a \<noteq> None"
      using assms(2) deregister(2) by (auto simp: world_ok_def split: option.splits)
    note at = deregistered_at[OF deregister(2) nz deregister(3)]
    show ?thesis
      unfolding True deregister(1)
    proof (rule given_back_ok)
      fix n assume "notifiers (w_sel w) a = Some n"
      then show "\<exists>m. n_semaphores m = n_semaphores n \<and> notifiers s' a = Some (reset_semaphores m)"
        using at(2)[of a] by (intro exI[of _ "n\<lparr>n_descriptor := INVALID_FD\<rparr>"]) simp
    qed (use assms(2) True at(1) sm in auto)
  next
    case False
    have "b \<in> in_use s' \<longleftrightarrow> b \<in> in_use (w_sel w)" "notifiers s' b = notifiers (w_sel w) b"
      using deregister(3) False
      by (cases "a = 0"; auto simp: deregisterObject_def Let_def freeNotifier_def set_descriptor_def)+
    then show ?thesis using deregister(1) False
      by (intro world_ok_cong[OF assms(2)]) (auto simp: given_back_def)
  qed
next
  case (selected evs s' c)
  then have "select_loop (take EPOLL_EVENTS_MAX evs) (w_sel w) = Inr (s', c)" by (simp add: select_def)
  note at = select_loop_each[OF this, of b]
  show ?thesis
  proof (cases "addressed (w_sel w) b \<and> events_of b (take EPOLL_EVENTS_MAX evs) \<noteq> []")
    case True
    then obtain e where "(e, b) \<in> set (take EPOLL_EVENTS_MAX evs)"
      using set_events_of[of _ b "take EPOLL_EVENTS_MAX evs"] by (metis list.set_intros(1) neq_Nil_conv)
    then have t: "b \<notin> in_use (w_sel w) \<Longrightarrow> b \<in> w_touched v" using True selected(1) by auto
    have v: "w_sel v = s'" "w_callers v = w_callers w" "w_disturbed v = w_disturbed w"
      using selected(1) by simp_all
    show ?thesis using assms(2) at True t unfolding world_ok_def v
      by (auto simp: settled_fold busy_def v split: option.splits)
  next
    case False
    then have "notifiers s' b = notifiers (w_sel w) b"
      using at by (cases "notifiers (w_sel w) b") auto
    moreover have "addressed (w_sel w) b \<Longrightarrow> (e, b) \<notin> set (take EPOLL_EVENTS_MAX evs)" for e
      using False set_events_of[of e b "take EPOLL_EVENTS_MAX evs"] by auto
    ultimately show ?thesis using selected(1) at by (intro world_ok_cong[OF assms(2)]) auto
  qed
next
  case (inside a n ev \<sigma>)
  show ?thesis
  proof (cases "b = a")
    case True
    note st = settled_sem_step[where cs = "w_callers w a", OF _ inside(3)]
    have nb: "notifiers (w_sel v) a = Some (n\<lparr>n_semaphores := (n_semaphores n)(ev := sem \<sigma>)\<rparr>)"
      "w_callers v a = (w_callers w a)(ev := callers \<sigma>)" "w_disturbed v = w_disturbed w"
      "in_use (w_sel v) = in_use (w_sel w)" "a \<notin> in_use (w_sel w) \<Longrightarrow> a \<in> w_touched v"
      using inside(1,2) by (simp_all add: set_sem_def)
    show ?thesis using assms(2) st nb inside(2) True by (auto simp: world_ok_def)
  next
    case False
    then show ?thesis using inside(1) by (intro world_ok_cong[OF assms(2)]) (auto simp: set_sem_def)
  qed
qed

lemma world_ok_run: "sel_step\<^sup>*\<^sup>* w v \<Longrightarrow> world_ok a w \<Longrightarrow> world_ok a v"
  by (induction rule: rtranclp_induct) (auto dest: world_ok_step)

lemma selector_new_ok: "selector_new sig junk e f g = Inr s \<Longrightarrow> world_ok a (world_of s)"
  by (auto simp: selector_new_def initEpollFd_def initSignalFd_def world_ok_def world_of_def busy_def
      Let_def split: sysret.splits if_splits prod.splits)

lemma world_fresh_slot:
  "world_ok a w \<Longrightarrow> a \<noteq> 0 \<Longrightarrow> a \<notin> in_use (w_sel w) \<Longrightarrow> a \<notin> w_touched w \<Longrightarrow> a \<notin> w_disturbed w \<Longrightarrow>
   fresh_slot a (w_sel w)"
  using world_okD(3)[of a w] by (auto simp: fresh_slot_def fresh_sems_def)

text \<open>Claim C24: In every run of a selector, with any number of callers asleep, timed or notifying
  on any semaphore at any moment, a registered object gets a notifier whose semaphores are those
  of a new one and whose descriptor is its own, and no other notifier changes, whatever events,
  waits and timed-out waits its former owners left, provided that no caller was inside the
  notifier when it was given back (ever), and that nothing used it between then and the
  registration: neither a caller, nor \<open>select\<close> with an event it had fetched before. What
  happens otherwise: \<open>stale_event_reaches_next_owner\<close>, \<open>reset_strands_sleeper\<close>.\<close>

theorem register_fresh:
  assumes "selector_new sig junk e f g = Inr s0" and "sel_step\<^sup>*\<^sup>* (world_of s0) w"
    and "a \<notin> in_use (w_sel w)" and "a \<notin> w_touched w" and "a \<notin> w_disturbed w"
  shows "\<exists>s'. registerObject a junk' (Ret ()) fd (w_sel w) = ((Some a, 0), s',
      [EpollAdd (epoll_fd (w_sel w)) fd (EPOLLIN OR EPOLLOUT OR EPOLLERR OR EPOLLHUP OR EPOLLET) a]) \<and>
    notifiers s' a = Some \<lparr>n_descriptor = fd, n_semaphores = (\<lambda>_. sem_default)\<rparr> \<and>
    a \<in> in_use s' \<and> (\<forall>b. b \<noteq> a \<longrightarrow> notifiers s' b = notifiers (w_sel w) b)"
proof (intro exI conjI)
  let ?s = "w_sel w"
  have ok: "world_ok a w" using world_ok_run[OF assms(2)] selector_new_ok[OF assms(1)] by blast
  show "registerObject a junk' (Ret ()) fd ?s = ((Some a, 0), registered a junk' fd ?s,
      [EpollAdd (epoll_fd ?s) fd (EPOLLIN OR EPOLLOUT OR EPOLLERR OR EPOLLHUP OR EPOLLET) a])"
    by (simp add: registerObject_def registered_def Let_def)
  show "notifiers (registered a junk' fd ?s) a =
      Some \<lparr>n_descriptor = fd, n_semaphores = (\<lambda>_. sem_default)\<rparr>"
    using world_okD(3)[OF ok _ assms(5,3,4)]
    by (cases "notifiers ?s a") (auto simp: registered_simps fresh_sems_def)
  show "a \<in> in_use (registered a junk' fd ?s)"
    "\<forall>b. b \<noteq> a \<longrightarrow> notifiers (registered a junk' fd ?s) b = notifiers ?s b"
    by (simp_all add: registered_simps)
qed

definition empty_selector :: selector where
  "empty_selector = \<lparr>epoll_fd = 3, sel_signal = 10, signal_fd = 4, notifiers = Map.empty, in_use = {}\<rparr>"

lemma empty_selector_new: "selector_new 10 0 (Ret 3) (Ret 4) (Ret ()) = Inr empty_selector"
  by (simp add: selector_new_def initEpollFd_def initSignalFd_def empty_selector_def Let_def)


text \<open>A notifier is registered, one caller sleeps on it, an event wakes the caller, who takes the
  permit, and the notifier is given back and registered again.\<close>

definition counters :: "int \<Rightarrow> int \<Rightarrow> selector \<Rightarrow> selector" where
  "counters x y s = set_sem 64 EVENT_IN \<lparr>atomic_count = x, sem_count = y\<rparr> s"

definition used_world :: "int \<Rightarrow> int \<Rightarrow> sem_pc multiset \<Rightarrow> sel_world" where
  "used_world x y cs =
     (world_of empty_selector)\<lparr>w_sel := counters x y (registered 64 0 5 empty_selector),
       w_callers := (\<lambda>_ _. {#})(64 := (\<lambda>_. {#})(EVENT_IN := cs))\<rparr>"

lemma used_world_notifier:
  "notifiers (w_sel (used_world x y cs)) 64 = Some \<lparr>n_descriptor = 5,
     n_semaphores = (\<lambda>_. sem_default)(EVENT_IN := \<lparr>atomic_count = x, sem_count = y\<rparr>)\<rparr>"
  "64 \<in> in_use (w_sel (used_world x y cs))" "w_callers (used_world x y cs) 64 EVENT_IN = cs"
  by (auto simp: used_world_def counters_def set_sem_def registered_simps empty_selector_def)

lemma used_world_step:
  assumes "sem_step \<lparr>sem = \<lparr>atomic_count = x, sem_count = y\<rparr>, callers = cs, acquired = 0, expired = 0,
      posted = 0\<rparr> \<sigma>"
  shows "sel_step (used_world x y cs)
     (used_world (atomic_count (sem \<sigma>)) (sem_count (sem \<sigma>)) (callers \<sigma>))"
proof -
  let ?w = "used_world x y cs"
  have "sel_step ?w (?w\<lparr>w_sel := set_sem 64 EVENT_IN (sem \<sigma>) (w_sel ?w),
      w_callers := (w_callers ?w)(64 := (w_callers ?w 64)(EVENT_IN := callers \<sigma>)),
      w_touched := (if 64 \<in> in_use (w_sel ?w) then w_touched ?w else insert 64 (w_touched ?w))\<rparr>)"
    by (rule sel_step.inside[OF used_world_notifier(1)])
      (use assms in \<open>simp add: sem_here_def used_world_notifier(3)\<close>)
  then show ?thesis using used_world_notifier(2)
    by (cases "sem \<sigma>") (simp add: used_world_def counters_def set_sem_def registered_simps fun_eq_iff)
qed

lemma used_world_start: "sel_step (world_of empty_selector) (used_world 0 0 {#})"
proof -
  have "registered 64 0 5 empty_selector = counters 0 0 (registered 64 0 5 empty_selector)"
    by (auto simp: counters_def set_sem_def registered_def set_descriptor_def allocateNotifier_def
        empty_selector_def sem_ops fun_eq_iff)
  moreover have "(\<lambda>_ _. {#})((64 :: u64) := (\<lambda>_. {#})(EVENT_IN := {#})) = (\<lambda>_ _. {#})"
    by (simp add: fun_eq_iff)
  ultimately have "used_world 0 0 {#} =
      (world_of empty_selector)\<lparr>w_sel := registered 64 0 5 empty_selector\<rparr>"
    by (simp add: used_world_def world_of_def)
  then show ?thesis
    using sel_step.register[of 64 "world_of empty_selector" 0 5]
    by (simp add: registerObject_def registered_def Let_def world_of_def empty_selector_def)
qed

lemma used_world_event: "sel_step (used_world (- 1) 0 cs) (used_world 0 1 cs)"
proof -
  let ?w = "used_world (- 1) 0 cs"
  have "select (Ret [(EPOLLIN, 64)]) (w_sel ?w) = Inr (w_sel (used_world 0 1 cs), [])"
    using used_world_notifier(1)[of "- 1" 0 cs]
    by (simp add: select_def data_fd_def used_world_def counters_def set_sem_def registered_def
        set_descriptor_def allocateNotifier_def empty_selector_def deliver_def readable_def epoll_bits
        notify_event_def sem_ops)
  from sel_step.selected[OF this] show ?thesis
    using used_world_notifier(2)[of "- 1" 0 cs] by (simp add: used_world_def world_of_def counters_def set_sem_def cong: conj_cong)
qed

lemma used_world_run: "sel_step\<^sup>*\<^sup>* (world_of empty_selector) (used_world 0 0 {#})"
proof -
  have 1: "sel_step (used_world 0 0 {#}) (used_world (- 1) 0 {#Check False#})"
    using used_world_step[OF sem_step.wait_call[of _ True _ False], of 0 0 "{#}"] by (simp add: wait_enter_def)
  have 2: "sel_step (used_world (- 1) 0 {#Check False#}) (used_world (- 1) 0 {#Asleep False#})"
    using used_world_step[OF sem_step.wait_sleep[of False], of "- 1" 0 "{#Check False#}"] by (simp add: wait_locked_def move_def)
  have 3: "sel_step (used_world 0 1 {#Asleep False#}) (used_world 0 1 {#Check False#})"
    using used_world_step[OF sem_step.spurious[of False], of "0" 1 "{#Asleep False#}"] by (simp add: move_def)
  have 4: "sel_step (used_world 0 1 {#Check False#}) (used_world 0 0 {#})"
    using used_world_step[OF sem_step.wait_ok[of False], of "0" 1 "{#Check False#}"] by (simp add: wait_locked_def move_def)
  show ?thesis using used_world_start 1 2 used_world_event 3 4
    by (meson converse_rtranclp_into_rtranclp rtranclp.rtrancl_refl)
qed

definition given_world :: sel_world where
  "given_world = given_back 64 ((used_world 0 0 {#})\<lparr>w_sel :=
     fst (deregisterObject (Some 64) (w_sel (used_world 0 0 {#})))\<rparr>)"

lemma given_world_facts:
  "64 \<notin> in_use (w_sel given_world)" "64 \<notin> w_touched given_world" "64 \<notin> w_disturbed given_world"
  "notifiers (w_sel given_world) 64 \<noteq> None" "signal_fd (w_sel given_world) = 4"
  by (auto simp: given_world_def given_back_def deregisterObject_def freeNotifier_def busy_def
      set_descriptor_def used_world_def counters_def set_sem_def registered_simps world_of_def
      registered_def allocateNotifier_def empty_selector_def)

lemma given_world_run: "sel_step\<^sup>*\<^sup>* (world_of empty_selector) given_world"
proof -
  have "sel_step (used_world 0 0 {#}) given_world"
    unfolding given_world_def by (rule sel_step.deregister[OF used_world_notifier(2)]) (rule prod.collapse[symmetric])
  with used_world_run show ?thesis by (rule rtranclp.rtrancl_into_rtrancl)
qed

lemma register_fresh_witness:
  "\<exists>s'. registerObject 64 0 (Ret ()) 7 (w_sel given_world) = ((Some 64, 0), s',
      [EpollAdd (epoll_fd (w_sel given_world)) 7 (EPOLLIN OR EPOLLOUT OR EPOLLERR OR EPOLLHUP OR EPOLLET) 64]) \<and>
    notifiers s' 64 = Some \<lparr>n_descriptor = 7, n_semaphores = (\<lambda>_. sem_default)\<rparr>"
  using register_fresh[OF empty_selector_new given_world_run given_world_facts(1-3), of 0 7] by auto

text \<open>An event that \<open>select\<close> had fetched for an object and handles after the object was
  deregistered reaches the next owner of the notifier: the next object registered there finds a
  permit it was never sent, and its first wait returns at once.\<close>

theorem stale_event_reaches_next_owner:
  assumes "selector_new sig junk e f g = Inr s0" and "sel_step\<^sup>*\<^sup>* (world_of s0) w"
    and "a \<notin> in_use (w_sel w)" and "a \<notin> w_touched w" and "a \<notin> w_disturbed w"
    and "notifiers (w_sel w) a \<noteq> None" and "addressed (w_sel w) a" and "readable events"
  shows "\<exists>s1 s2 n c. select (Ret [(events, a)]) (w_sel w) = Inr (s1, []) \<and>
    registerObject a junk' (Ret ()) fd s1 = ((Some a, 0), s2, c) \<and> notifiers s2 a = Some n \<and>
    n_descriptor n = fd \<and> n_semaphores n EVENT_IN = sem_notify sem_default \<and>
    sem_wait (n_semaphores n EVENT_IN) = Some sem_default"
proof -
  have ok: "world_ok a w" using world_ok_run[OF assms(2)] selector_new_ok[OF assms(1)] by blast
  obtain n where n: "notifiers (w_sel w) a = Some n" using assms(6) by auto
  then have f: "n_semaphores n EVENT_IN = sem_default"
    using world_okD(3)[OF ok n assms(5,3,4)] by (simp add: fresh_sems_def)
  let ?n = "deliver events n"
  let ?s = "(w_sel w)\<lparr>notifiers := (notifiers (w_sel w))(a \<mapsto> ?n)\<rparr>"
  have s: "select (Ret [(events, a)]) (w_sel w) = Inr (?s, [])"
    using assms(7) n by (simp add: select_def addressed_def)
  have "n_semaphores ?n EVENT_IN = sem_notify sem_default" using assms(8) f by (simp add: deliver_sems)
  moreover have "sem_wait (sem_notify sem_default) = Some sem_default" by (simp add: sem_ops)
  ultimately show ?thesis using s
    by (auto simp: registerObject_def Let_def registered_simps simp flip: registered_def)
qed

lemma stale_event_reaches_next_owner_witness:
  "\<exists>s1 s2 n c. select (Ret [(EPOLLIN, 64)]) (w_sel given_world) = Inr (s1, []) \<and>
    registerObject 64 0 (Ret ()) 7 s1 = ((Some 64, 0), s2, c) \<and> notifiers s2 64 = Some n \<and>
    sem_wait (n_semaphores n EVENT_IN) = Some sem_default"
proof -
  have "addressed (w_sel given_world) 64" using given_world_facts(5) by (simp add: addressed_def data_fd_def)
  moreover have "readable EPOLLIN" by (simp add: readable_def epoll_bits)
  ultimately show ?thesis
    using stale_event_reaches_next_owner[OF empty_selector_new given_world_run given_world_facts(1-4), of EPOLLIN 0 7]
    by blast
qed

text \<open>Claim C25: One call of \<open>select\<close> notifies the input semaphore of each registered object
  once per event of it that is readable, in error or hung up, and the output semaphore once per
  event that is writable and none of those. An event that is readable and writable wakes readers
  only; with edge-triggered registration it is the only one the kernel reports.\<close>

theorem select_delivers:
  assumes "\<forall>(e, d) \<in> set evs. d \<noteq> 0 \<longrightarrow> notifiers s d \<noteq> None" "length evs \<le> EPOLL_EVENTS_MAX"
    and "notifiers s a = Some n" "a \<noteq> 0" "data_fd a \<noteq> signal_fd s"
  shows "\<exists>s' c n'. select (Ret evs) s = Inr (s', c) \<and> notifiers s' a = Some n' \<and>
    n_semaphores n' EVENT_IN = (sem_notify ^^ events_for a readable evs) (n_semaphores n EVENT_IN) \<and>
    n_semaphores n' EVENT_OUT =
      (sem_notify ^^ events_for a (\<lambda>e. \<not> readable e \<and> writable e) evs) (n_semaphores n EVENT_OUT)"
  using select_loop_counts[OF assms(1)] assms(2-) by (fastforce simp: select_def addressed_def delivered_def)

lemma select_delivers_witness:
  "\<exists>s' c n'. select (Ret [(EPOLLIN OR EPOLLOUT, 64)])
      (registered 64 0 5 empty_selector) = Inr (s', c) \<and> notifiers s' 64 = Some n' \<and>
    n_semaphores n' EVENT_IN = sem_notify sem_default \<and> n_semaphores n' EVENT_OUT = sem_default"
proof -
  have n: "notifiers (registered 64 0 5 empty_selector) 64 =
      Some \<lparr>n_descriptor = 5, n_semaphores = (\<lambda>_. sem_default)\<rparr>"
    "data_fd 64 \<noteq> signal_fd (registered 64 0 5 empty_selector)"
    by (simp_all add: registered_simps registered_def set_descriptor_def allocateNotifier_def
        empty_selector_def data_fd_def)
  have "readable (EPOLLIN OR EPOLLOUT)" by (simp add: readable_def epoll_bits)
  with select_delivers[of "[(EPOLLIN OR EPOLLOUT, 64)]" "registered 64 0 5 empty_selector" 64, OF _ _ n(1) _ n(2)]
  show ?thesis using n(1) by simp
qed

subsection \<open>Destroying an event object\<close>

text \<open>Destroying a registered event object closes its descriptor, only then removes
  that number from the epoll set, and afterwards the destructor of the member socket closes the
  number once more: if another socket of the process has got the number meanwhile, it is closed.\<close>

theorem event_object_closes_twice:
  assumes "eo_notifier ob = Some a" "notifiers s a = Some n" "n_descriptor n = socket_fd (eo_resource ob)"
    and "socket_fd (eo_resource ob) \<noteq> INVALID_FD" "socket_fd (eo_resource ob) \<in> open_fds k"
  shows "\<exists>ob' s' k'. eo_delete_body 0 ob s k = (ob', s', k',
      [CloseFd (socket_fd (eo_resource ob)), EpollDel (epoll_fd s) (socket_fd (eo_resource ob))]) \<and>
    socket_fd (eo_resource ob) \<notin> open_fds k' \<and> a \<notin> in_use s' - {0} \<and>
    (\<forall>k2. socket_fd (eo_resource ob) \<in> open_fds k2 \<longrightarrow>
       socket_fd (eo_resource ob) \<notin> open_fds (eo_delete_member 0 ob' k2))"
  using assms
  by (auto simp: eo_delete_body_def deregisterObject_def sock_close_def sys_close_def
      eo_delete_member_def sock_delete_def Let_def freeNotifier_def)

lemma event_object_closes_twice_witness:
  "\<exists>ob' s' k'. eo_delete_body 0 \<lparr>eo_notifier = Some 64, eo_resource = sock_of 5\<rparr>
      (registered 64 0 5 empty_selector) \<lparr>open_fds = {5}\<rparr> =
    (ob', s', k', [CloseFd 5, EpollDel 3 5]) \<and> 5 \<notin> open_fds (eo_delete_member 0 ob' \<lparr>open_fds = {5}\<rparr>)"
proof -
  let ?ob = "\<lparr>eo_notifier = Some 64, eo_resource = sock_of 5\<rparr>"
  let ?s = "registered 64 0 5 empty_selector"
  have n: "notifiers ?s 64 = Some \<lparr>n_descriptor = 5, n_semaphores = (\<lambda>_. sem_default)\<rparr>" "epoll_fd ?s = 3"
    by (simp_all add: registered_def set_descriptor_def allocateNotifier_def empty_selector_def)
  obtain ob' s' k' where "eo_delete_body 0 ?ob ?s \<lparr>open_fds = {5}\<rparr> = (ob', s', k', [CloseFd 5, EpollDel 3 5])"
    "\<forall>k2. 5 \<in> open_fds k2 \<longrightarrow> 5 \<notin> open_fds (eo_delete_member 0 ob' k2)"
    using event_object_closes_twice[of ?ob 64 ?s _ "\<lparr>open_fds = {5}\<rparr>", OF _ n(1)] n(2)
    by (auto simp: sock_of_def)
  then show ?thesis by auto
qed

end
