(* ===== verification/EventStream.thy ===== *)
theory EventStream
  imports EpollSelector
begin

text \<open>
  \<open>EventOperation\<close>, \<open>ReactorSyncReadStream\<close> and \<open>ReactorSyncWriteStream\<close> over a
  \<open>TcpSocket\<close> (net/detail/EventOperation.hpp, ReactorSyncReadStream.hpp,
  ReactorSyncWriteStream.hpp): the loop that makes a blocking operation of a non-blocking one.

  A \<open>stream\<close> is what one operation sees: the stream's own flag and timeout, the notifier of its
  device, the caller's memory, the kernel's answers to come, the bytes sent, and the \<open>agenda\<close>,
  the things other threads do while the operation sleeps, in order. The loop is a
  \<open>partial_function\<close>: \<open>None\<close> says that the operation has not returned when the
  answers and the agenda are used up, or never will.
\<close>

datatype env =
    Ready u32        \<comment> \<open>\<open>select\<close> handles an event of the device\<close>
  | OtherShutdown    \<comment> \<open>another thread calls \<open>shutdown\<close>\<close>
  | OtherInterrupt   \<comment> \<open>another thread calls \<open>interrupt\<close>\<close>
  | Deadline         \<comment> \<open>the time of a timed wait is over\<close>

record stream =
  st_object :: bool
  st_shutdown :: bool
  st_timeout :: int
  st_notifier :: notifier
  st_agenda :: "env list"
  st_memory :: "u8 list"
  st_rx :: "u8 list sysret list"
  st_tx :: "nat sysret list"
  st_wire :: "u8 list"

abbreviation st_sem :: "event_type \<Rightarrow> stream \<Rightarrow> semaphore" where
  "st_sem ev st \<equiv> n_semaphores (st_notifier st) ev"

definition st_set_sem :: "event_type \<Rightarrow> semaphore \<Rightarrow> stream \<Rightarrow> stream" where
  "st_set_sem ev x st = st\<lparr>st_notifier := (st_notifier st)
     \<lparr>n_semaphores := (n_semaphores (st_notifier st))(ev := x)\<rparr>\<rparr>"

subsection \<open>EventOperation\<close>

record event_operation =
  op_object :: bool
  op_event :: event_type
  op_interrupted :: bool

definition op_new :: "bool \<Rightarrow> event_type \<Rightarrow> event_operation" where
  "op_new ob ev = \<lparr>op_object = ob, op_event = ev, op_interrupted = False\<rparr>"

definition op_interrupt :: "event_operation \<Rightarrow> stream \<Rightarrow> event_operation \<times> stream" where
  "op_interrupt op st =
     (if op_object op
      then (op\<lparr>op_interrupted := True\<rparr>, st\<lparr>st_notifier := notify_event (op_event op) (st_notifier st)\<rparr>)
      else (op, st))"

text \<open>\<open>interrupt\<close> of a stream makes an operation of its own, interrupts that one and destroys
  it.\<close>

definition stream_interrupt :: "event_type \<Rightarrow> stream \<Rightarrow> stream" where
  "stream_interrupt ev st = snd (op_interrupt (op_new (st_object st) ev) st)"

text \<open>What another thread does, while the operation sleeps on the semaphore of \<open>ev\<close>.\<close>

fun env_step :: "event_type \<Rightarrow> env \<Rightarrow> stream \<Rightarrow> stream" where
  "env_step ev (Ready events) st = st\<lparr>st_notifier := deliver events (st_notifier st)\<rparr>"
| "env_step ev OtherShutdown st = st\<lparr>st_shutdown := True\<rparr>"
| "env_step ev OtherInterrupt st = stream_interrupt ev st"
| "env_step ev Deadline st = st"

text \<open>The section of \<open>wait\<close> and \<open>waitFor\<close> under the mutex: the predicate, else sleep until
  the next item of the agenda.\<close>

fun sleep :: "bool \<Rightarrow> event_type \<Rightarrow> env list \<Rightarrow> stream \<Rightarrow> (bool \<times> stream) option" where
  "sleep timed ev [] st =
     map_option (\<lambda>x. (True, st_set_sem ev x (st\<lparr>st_agenda := []\<rparr>))) (wait_locked (st_sem ev st))"
| "sleep timed ev (e # es) st =
     (case wait_locked (st_sem ev st) of
        Some x \<Rightarrow> Some (True, st_set_sem ev x (st\<lparr>st_agenda := e # es\<rparr>))
      | None \<Rightarrow>
          if timed \<and> e = Deadline
          then (case wait_deadline (st_sem ev st) of
                  (r, x) \<Rightarrow> Some (r, st_set_sem ev x (st\<lparr>st_agenda := es\<rparr>)))
          else sleep timed ev es (env_step ev e st))"

definition event_wait :: "bool \<Rightarrow> event_type \<Rightarrow> stream \<Rightarrow> (bool \<times> stream) option" where
  "event_wait timed ev st =
     (case wait_enter (st_sem ev st) of
        (slow, x) \<Rightarrow>
          let st' = st_set_sem ev x st
          in if slow then sleep timed ev (st_agenda st) st' else Some (True, st'))"

datatype abort = AssertionFailed | MemoryFault fault

text \<open>The four function arguments of \<open>perform\<close>: \<open>is_open\<close>, the non-blocking operation,
  \<open>on_operated\<close> and \<open>on_notified\<close>; \<open>l\<close> are the local variables they capture by
  reference.\<close>

partial_function (option) perform_loop ::
  "(stream \<Rightarrow> bool) \<Rightarrow> (int \<Rightarrow> 'l \<Rightarrow> stream \<Rightarrow> (bool \<times> int \<times> 'l \<times> stream) option) \<Rightarrow>
   (int \<Rightarrow> 'l \<Rightarrow> abort + (bool \<times> int \<times> 'l)) \<Rightarrow> (int \<Rightarrow> bool \<times> int) \<Rightarrow> int \<Rightarrow>
   int \<Rightarrow> event_operation \<Rightarrow> 'l \<Rightarrow> stream \<Rightarrow> (abort + (int \<times> 'l \<times> stream)) option" where
  "perform_loop is_open nbo on_operated on_notified timeout error op l st =
     (if \<not> is_open st then Some (Inr (CLOSED, l, st))
      else case nbo error l st of
        None \<Rightarrow> None
      | Some (finished, error, l, st) \<Rightarrow>
          if finished
          then (case on_operated error l of
                  Inl a \<Rightarrow> Some (Inl a)
                | Inr (stop, error, l) \<Rightarrow>
                    if stop then Some (Inr (error, l, st))
                    else perform_loop is_open nbo on_operated on_notified timeout error op l st)
          else (case event_wait (0 < timeout) (op_event op) st of
                  None \<Rightarrow> None
                | Some (notified, st) \<Rightarrow>
                    if 0 < timeout \<and> \<not> notified then Some (Inr (TIMEOUT, l, st))
                    else if op_interrupted op then Some (Inr (INTERRUPTED, l, st))
                    else (case on_notified error of
                            (stop, error) \<Rightarrow>
                              if stop then Some (Inr (error, l, st))
                              else perform_loop is_open nbo on_operated on_notified timeout error op l st)))"

definition perform ::
  "(stream \<Rightarrow> bool) \<Rightarrow> (int \<Rightarrow> 'l \<Rightarrow> stream \<Rightarrow> (bool \<times> int \<times> 'l \<times> stream) option) \<Rightarrow>
   (int \<Rightarrow> 'l \<Rightarrow> abort + (bool \<times> int \<times> 'l)) \<Rightarrow> (int \<Rightarrow> bool \<times> int) \<Rightarrow> int \<Rightarrow>
   event_operation \<Rightarrow> 'l \<Rightarrow> stream \<Rightarrow> (abort + (int \<times> 'l \<times> stream)) option" where
  "perform is_open nbo on_operated on_notified timeout op l st =
     (if \<not> op_object op then Some (Inr (CLOSED, l, st))
      else perform_loop is_open nbo on_operated on_notified timeout 0 (op\<lparr>op_interrupted := False\<rparr>) l st)"

subsection \<open>The read stream\<close>

definition stream_shutdown :: "answers \<Rightarrow> how_to_shutdown \<Rightarrow> tcp_socket \<Rightarrow> stream \<Rightarrow> int \<times> stream" where
  "stream_shutdown ans how s st = (fst (sock_shutdown ans how s), st\<lparr>st_shutdown := True\<rparr>)"

definition isShutdown :: "stream \<Rightarrow> bool" where "isShutdown st = st_shutdown st"

definition stream_setTimeout :: "int \<Rightarrow> stream \<Rightarrow> stream" where
  "stream_setTimeout milliseconds st = st\<lparr>st_timeout := milliseconds\<rparr>"

text \<open>The write stream has its own flag and timeout, and shuts its half of the socket.\<close>

definition write_shutdown :: "answers \<Rightarrow> how_to_shutdown \<Rightarrow> tcp_socket \<Rightarrow> stream \<Rightarrow> int \<times> stream" where
  "write_shutdown ans how s st = (fst (sock_shutdown ans how s), st\<lparr>st_shutdown := True\<rparr>)"

definition write_isShutdown :: "stream \<Rightarrow> bool" where "write_isShutdown st = st_shutdown st"

definition write_setTimeout :: "int \<Rightarrow> stream \<Rightarrow> stream" where
  "write_setTimeout milliseconds st = st\<lparr>st_timeout := milliseconds\<rparr>"

text \<open>Local variables: the bytes of the last operation, how far \<open>next_buffer\<close> has moved, and
  \<open>next_size\<close>. The lambda that reads captured \<open>next_buffer\<close> and \<open>next_size\<close> by value,
  before the loop.\<close>

record progress =
  bytes :: nat
  moved :: nat
  next_size :: nat

definition progress0 :: "nat \<Rightarrow> progress" where
  "progress0 n = \<lparr>bytes = 0, moved = 0, next_size = n\<rparr>"

definition never :: "int \<Rightarrow> bool \<times> int" where "never error = (False, error)"

definition read_op ::
  "nat \<Rightarrow> nat \<Rightarrow> int \<Rightarrow> progress \<Rightarrow> stream \<Rightarrow> (bool \<times> int \<times> progress \<times> stream) option" where
  "read_op buf n error l st =
     (case nonBlockingReadSome buf n (Some error) (st_rx st) (st_memory st) of
        None \<Rightarrow> None
      | Some ((fin, t, e), m, rx) \<Rightarrow> Some (fin, e, l\<lparr>bytes := t\<rparr>, st\<lparr>st_memory := m, st_rx := rx\<rparr>))"

definition readSome_on_operated :: "int \<Rightarrow> progress \<Rightarrow> abort + (bool \<times> int \<times> progress)" where
  "readSome_on_operated error l = Inr (True, if bytes l = 0 then REMOTELY_CLOSED else error, l)"

definition read_on_operated :: "int \<Rightarrow> progress \<Rightarrow> abort + (bool \<times> int \<times> progress)" where
  "read_on_operated error l =
     (if error \<noteq> 0 then Inr (True, error, l)
      else if bytes l = 0 then Inr (True, REMOTELY_CLOSED, l)
      else if bytes l < next_size l
      then Inr (False, error, l\<lparr>moved := moved l + bytes l, next_size := next_size l - bytes l\<rparr>)
      else if bytes l = next_size l
      then Inr (True, error, l\<lparr>moved := moved l + bytes l, next_size := 0\<rparr>)
      else Inl AssertionFailed)"

definition readSome :: "nat \<Rightarrow> nat \<Rightarrow> stream \<Rightarrow> (abort + (nat \<times> int \<times> stream)) option" where
  "readSome buf n st =
     map_option (map_sum id (\<lambda>(e, l, st). (bytes l, e, st)))
       (perform (\<lambda>st. \<not> isShutdown st) (read_op buf n) readSome_on_operated never (st_timeout st)
         (op_new (st_object st) EVENT_IN) (progress0 n) st)"

definition stream_read :: "nat \<Rightarrow> nat \<Rightarrow> stream \<Rightarrow> (abort + (nat \<times> int \<times> stream)) option" where
  "stream_read buf n st =
     map_option (map_sum id (\<lambda>(e, l, st). (moved l, e, st)))
       (perform (\<lambda>st. \<not> isShutdown st) (read_op buf n) read_on_operated never (st_timeout st)
         (op_new (st_object st) EVENT_IN) (progress0 n) st)"

definition read_interrupt :: "stream \<Rightarrow> stream" where
  "read_interrupt st = stream_interrupt EVENT_IN st"

subsection \<open>The write stream\<close>

abbreviation (input) EPIPE :: int where "EPIPE \<equiv> 32"

definition write_op ::
  "nat \<Rightarrow> nat \<Rightarrow> int \<Rightarrow> progress \<Rightarrow> stream \<Rightarrow> (bool \<times> int \<times> progress \<times> stream) option" where
  "write_op data n error l st =
     (case nonBlockingWriteSome data n (st_tx st) (st_memory st) of
        None \<Rightarrow> None
      | Some ((fin, t, e), gone, tx) \<Rightarrow>
          Some (fin, e, l\<lparr>bytes := t\<rparr>, st\<lparr>st_wire := st_wire st @ gone, st_tx := tx\<rparr>))"

definition writeSome_on_operated :: "int \<Rightarrow> progress \<Rightarrow> abort + (bool \<times> int \<times> progress)" where
  "writeSome_on_operated error l = Inr (True, if error = EPIPE then REMOTELY_CLOSED else error, l)"

definition write_on_operated :: "int \<Rightarrow> progress \<Rightarrow> abort + (bool \<times> int \<times> progress)" where
  "write_on_operated error l =
     (if error = EPIPE then Inr (True, REMOTELY_CLOSED, l)
      else if error \<noteq> 0 then Inr (True, error, l)
      else if bytes l < next_size l
      then Inr (False, error, l\<lparr>moved := moved l + bytes l, next_size := next_size l - bytes l\<rparr>)
      else if bytes l = next_size l
      then Inr (True, error, l\<lparr>moved := moved l + bytes l, next_size := 0\<rparr>)
      else Inl AssertionFailed)"

definition writeSome :: "nat \<Rightarrow> nat \<Rightarrow> stream \<Rightarrow> (abort + (nat \<times> int \<times> stream)) option" where
  "writeSome data n st =
     map_option (map_sum id (\<lambda>(e, l, st). (bytes l, e, st)))
       (perform (\<lambda>st. \<not> isShutdown st) (write_op data n) writeSome_on_operated never (st_timeout st)
         (op_new (st_object st) EVENT_OUT) (progress0 n) st)"

definition stream_write :: "nat \<Rightarrow> nat \<Rightarrow> stream \<Rightarrow> (abort + (nat \<times> int \<times> stream)) option" where
  "stream_write data n st =
     map_option (map_sum id (\<lambda>(e, l, st). (moved l, e, st)))
       (perform (\<lambda>st. \<not> isShutdown st) (write_op data n) write_on_operated never (st_timeout st)
         (op_new (st_object st) EVENT_OUT) (progress0 n) st)"

definition write_interrupt :: "stream \<Rightarrow> stream" where
  "write_interrupt st = stream_interrupt EVENT_OUT st"

subsection \<open>Lemmas of the operation loop\<close>

subsection \<open>Waiting\<close>

lemma wait_frame_step: "st_rx (env_step ev e st) = st_rx st \<and> st_tx (env_step ev e st) = st_tx st \<and>
    st_object (env_step ev e st) = st_object st \<and> st_timeout (env_step ev e st) = st_timeout st \<and>
    st_memory (env_step ev e st) = st_memory st \<and> st_wire (env_step ev e st) = st_wire st"
  by (cases e) (auto simp: stream_interrupt_def op_interrupt_def)

definition same_io :: "stream \<Rightarrow> stream \<Rightarrow> bool" where
  "same_io st st' \<longleftrightarrow> st_rx st' = st_rx st \<and> st_tx st' = st_tx st \<and> st_memory st' = st_memory st \<and>
     st_wire st' = st_wire st"

lemma same_io_trans: "same_io a b \<Longrightarrow> same_io b c \<Longrightarrow> same_io a c"
  by (simp add: same_io_def)

lemma same_io_set_sem [simp]: "same_io st (st_set_sem ev x st')= same_io st st'"
  by (simp add: same_io_def st_set_sem_def)

lemma same_io_agenda [simp]: "same_io st (st'\<lparr>st_agenda := a\<rparr>) = same_io st st'"
  by (simp add: same_io_def)

lemma same_io_refl [simp]: "same_io st st" by (simp add: same_io_def)

lemma sleep_same_io: "sleep timed ev es st = Some (r, st') \<Longrightarrow> same_io st st'"
proof (induction timed ev es st rule: sleep.induct)
  case (1 timed ev st) then show ?case by auto
next
  case (2 timed ev e es st)
  have f: "same_io st (env_step ev e st)" using wait_frame_step by (simp add: same_io_def)
  show ?case
  proof (cases "wait_locked (st_sem ev st)")
    case None
    with 2 f show ?thesis by (auto split: if_splits prod.splits dest: same_io_trans)
  next
    case (Some x)
    with "2.prems" show ?thesis by auto
  qed
qed

lemma event_wait_same_io: "event_wait timed ev st = Some (r, st') \<Longrightarrow> same_io st st'"
  using sleep_same_io[of timed ev "st_agenda st" "st_set_sem ev (snd (wait_enter (st_sem ev st))) st" r st']
  by (auto simp: event_wait_def Let_def same_io_def st_set_sem_def split: prod.splits if_splits)

text \<open>An operation that sleeps on a fresh semaphore and is notified: by an event of its kind or
  by \<open>interrupt\<close>.\<close>

definition waker :: "event_type \<Rightarrow> bool \<Rightarrow> env \<Rightarrow> bool" where
  "waker ev ob e \<longleftrightarrow>
     (case e of
        Ready events \<Rightarrow> (case ev of EVENT_IN \<Rightarrow> readable events
                          | EVENT_OUT \<Rightarrow> \<not> readable events \<and> writable events)
      | OtherInterrupt \<Rightarrow> ob
      | _ \<Rightarrow> False)"

lemma waker_step:
  "waker ev (st_object st) e \<Longrightarrow>
   env_step ev e st = st\<lparr>st_notifier := notify_event ev (st_notifier st)\<rparr> \<and> e \<noteq> Deadline"
  by (cases e; cases ev)
    (auto simp: waker_def deliver_def stream_interrupt_def op_interrupt_def op_new_def)

lemma wait_locked_new: "wait_locked \<lparr>atomic_count = -1, sem_count = 0\<rparr> = None"
  by (simp add: wait_locked_def)

lemma wait_locked_woken:
  "wait_locked (sem_notify \<lparr>atomic_count = -1, sem_count = 0\<rparr>) = Some sem_default"
  by (simp add: wait_locked_def sem_ops)

lemma st_set_sem_simps [simp]:
  "st_sem ev (st_set_sem ev x st) = x" "st_object (st_set_sem ev x st) = st_object st"
  "st_agenda (st_set_sem ev x st) = st_agenda st"
  "st_set_sem ev y (st_set_sem ev x st) = st_set_sem ev y st"
  "(st_set_sem ev x st)\<lparr>st_agenda := ag\<rparr> = st_set_sem ev x (st\<lparr>st_agenda := ag\<rparr>)"
  "(st_set_sem ev x st)\<lparr>st_notifier := notify_event ev (st_notifier (st_set_sem ev x st))\<rparr>
     = st_set_sem ev (sem_notify x) st"
  by (simp_all add: st_set_sem_def notify_event_def)

lemma st_set_sem_id: "st_sem ev st = x \<Longrightarrow> st_set_sem ev x st = st"
  by (cases st; cases "st_notifier st") (auto simp: st_set_sem_def fun_upd_idem)

lemma wait_woken:
  assumes "st_sem ev st = sem_default" "st_agenda st = e # ag" "waker ev (st_object st) e"
  shows "event_wait timed ev st = Some (True, st\<lparr>st_agenda := ag\<rparr>)"
proof -
  let ?x = "\<lparr>atomic_count = -1, sem_count = 0\<rparr>" and ?st = "st_set_sem ev \<lparr>atomic_count = -1, sem_count = 0\<rparr> st"
  have s: "env_step ev e ?st = st_set_sem ev (sem_notify ?x) st" "e \<noteq> Deadline"
    using waker_step[of ev ?st e] assms(3) by simp_all
  have "event_wait timed ev st = sleep timed ev (e # ag) ?st"
    using assms(1,2) by (simp add: event_wait_def wait_enter_def sem_default_def sem_new_def Let_def)
  also have "\<dots> = sleep timed ev ag (st_set_sem ev (sem_notify ?x) st)"
    using s by (simp add: wait_locked_new)
  also have "\<dots> = Some (True, st_set_sem ev sem_default (st\<lparr>st_agenda := ag\<rparr>))"
    by (cases ag) (simp_all add: wait_locked_woken)
  also have "st_set_sem ev sem_default (st\<lparr>st_agenda := ag\<rparr>) = st\<lparr>st_agenda := ag\<rparr>"
    using assms(1) by (intro st_set_sem_id) simp
  finally show ?thesis .
qed

subsection \<open>The operations never report an interruption\<close>

locale event_op =
  fixes good :: "stream \<Rightarrow> bool"
    and nbo :: "int \<Rightarrow> 'l \<Rightarrow> stream \<Rightarrow> (bool \<times> int \<times> 'l \<times> stream) option"
    and on_operated :: "int \<Rightarrow> 'l \<Rightarrow> abort + (bool \<times> int \<times> 'l)"
  assumes good_io: "good st \<Longrightarrow> same_io st st' \<Longrightarrow> good st'"
    and nbo_good: "good st \<Longrightarrow> e \<noteq> INTERRUPTED \<Longrightarrow> nbo e l st = Some (fin, e', l', st') \<Longrightarrow> good st' \<and> e' \<noteq> INTERRUPTED"
    and operated_ok: "e \<noteq> INTERRUPTED \<Longrightarrow> on_operated e l = Inr (stop, e', l') \<Longrightarrow> e' \<noteq> INTERRUPTED"
begin

definition calm :: "int \<Rightarrow> event_operation \<Rightarrow> stream \<Rightarrow> bool" where
  "calm e op st \<longleftrightarrow> good st \<and> \<not> op_interrupted op \<and> e \<noteq> INTERRUPTED"

definition quiet_result :: "abort + (int \<times> 'l \<times> stream) \<Rightarrow> bool" where
  "quiet_result r \<longleftrightarrow> (\<forall>e l st. r = Inr (e, l, st) \<longrightarrow> e \<noteq> INTERRUPTED)"

lemma codes_ok [simp]: "CLOSED \<noteq> INTERRUPTED" "TIMEOUT \<noteq> INTERRUPTED"
  by (simp_all add: error_defs)

lemma loop_never_interrupted:
  assumes ret: "perform_loop is_open nbo on_operated never timeout e op l st = Some r"
    and "calm e op st"
  shows "quiet_result r"
proof -
  let ?P = "\<lambda>is_open nbo' on' nev (timeout :: int) e op l st r.
      nbo' = nbo \<longrightarrow> on' = on_operated \<longrightarrow> nev = never \<longrightarrow> calm e op st \<longrightarrow> quiet_result r"
  have "?P is_open nbo on_operated never timeout e op l st r"
  proof (rule perform_loop.raw_induct[where P = ?P, OF _ ret], intro impI)
    fix f is_open nbo' on' nev e op l st r and timeout :: int
    assume IH: "\<And>is_open nbo' on' nev timeout e op l st r.
        f is_open nbo' on' nev timeout e op l st = Some r \<Longrightarrow> ?P is_open nbo' on' nev timeout e op l st r"
      and eq: "(if \<not> is_open st then Some (Inr (CLOSED, l, st))
      else case nbo' e l st of
        None \<Rightarrow> None
      | Some (finished, error, l, st) \<Rightarrow>
          if finished
          then (case on' error l of
                  Inl a \<Rightarrow> Some (Inl a)
                | Inr (stop, error, l) \<Rightarrow>
                    if stop then Some (Inr (error, l, st))
                    else f is_open nbo' on' nev timeout error op l st)
          else (case event_wait (0 < timeout) (op_event op) st of
                  None \<Rightarrow> None
                | Some (notified, st) \<Rightarrow>
                    if 0 < timeout \<and> \<not> notified then Some (Inr (TIMEOUT, l, st))
                    else if op_interrupted op then Some (Inr (INTERRUPTED, l, st))
                    else (case nev error of
                            (stop, error) \<Rightarrow>
                              if stop then Some (Inr (error, l, st))
                              else f is_open nbo' on' nev timeout error op l st))) = Some r"
      and h: "nbo' = nbo" "on' = on_operated" "nev = never" "calm e op st"
    note IH = IH[rule_format, OF _ h(1-3)]
    show "quiet_result r"
    proof (cases "is_open st")
      case False with eq show ?thesis by (auto simp: quiet_result_def)
    next
      case o: True
      then obtain fin e1 l1 st1 where n: "nbo e l st = Some (fin, e1, l1, st1)"
        using eq h by (auto split: option.splits)
      have g: "good st1" "e1 \<noteq> INTERRUPTED" using nbo_good[OF _ _ n] h(4) by (auto simp: calm_def)
      show ?thesis
      proof (cases fin)
        case True
        show ?thesis
        proof (cases "on_operated e1 l1")
          case (Inl a) with eq h o n True show ?thesis by (auto simp: quiet_result_def)
        next
          case (Inr b)
          obtain stop e2 l2 where b: "b = (stop, e2, l2)" by (cases b)
          have e2: "e2 \<noteq> INTERRUPTED" using operated_ok[OF g(2)] Inr b by simp
          then have "calm e2 op st1" using g h(4) by (simp add: calm_def)
          with eq h o n True Inr b e2 IH show ?thesis by (auto simp: quiet_result_def split: if_splits)
        qed
      next
        case False
        then obtain w st2 where w: "event_wait (0 < timeout) (op_event op) st1 = Some (w, st2)"
          using eq h o n by (auto split: option.splits)
        have "calm e1 op st2" using g h(4) good_io[OF g(1) event_wait_same_io[OF w]] by (simp add: calm_def)
        moreover have "\<not> op_interrupted op" using h(4) by (simp add: calm_def)
        ultimately show ?thesis
          using eq h o n False w IH[of is_open timeout e1 op l1 st2]
          by (auto simp: never_def quiet_result_def split: if_splits)
      qed
    qed
  qed
  with assms(2) show ?thesis by simp
qed

lemma perform_never_interrupted:
  assumes "perform is_open nbo on_operated never timeout op l st = Some r" "good st"
  shows "quiet_result r"
proof (cases "op_object op")
  case False
  with assms show ?thesis by (auto simp: perform_def quiet_result_def)
next
  case True
  with assms(1) have "perform_loop is_open nbo on_operated never timeout 0
      (op\<lparr>op_interrupted := False\<rparr>) l st = Some r" by (simp add: perform_def)
  then show ?thesis
    by (rule loop_never_interrupted) (use assms(2) in \<open>simp add: calm_def error_defs\<close>)
qed

end

text \<open>The kernel's errors are positive numbers.\<close>

definition kernel_ok :: "stream \<Rightarrow> bool" where
  "kernel_ok st \<longleftrightarrow> (\<forall>e. Fail e \<in> set (st_rx st) \<longrightarrow> 0 < e) \<and> (\<forall>e. Fail e \<in> set (st_tx st) \<longrightarrow> 0 < e)"

lemma receive_loop_ok:
  "receive_loop rs iv err m = Some ((fin, t, e), m', rs') \<Longrightarrow> \<forall>x. Fail x \<in> set rs \<longrightarrow> 0 < x \<Longrightarrow>
   err \<noteq> INTERRUPTED \<Longrightarrow> set rs' \<subseteq> set rs \<and> e \<noteq> INTERRUPTED"
  by (induction rs iv err m arbitrary: m' rs' rule: receive_loop.induct)
    (auto simp: Let_def error_defs split: if_splits)

lemma send_loop_ok:
  "send_loop rs iv m = Some ((fin, t, e), g, rs') \<Longrightarrow> \<forall>x. Fail x \<in> set rs \<longrightarrow> 0 < x \<Longrightarrow>
   set rs' \<subseteq> set rs \<and> e \<noteq> INTERRUPTED"
  by (induction rs iv m arbitrary: rs' rule: send_loop.induct)
    (auto simp: Let_def error_defs split: if_splits)


lemma read_op_ok:
  assumes "kernel_ok st" "e \<noteq> INTERRUPTED" "read_op buf n e l st = Some (fin, e', l', st')"
  shows "kernel_ok st' \<and> e' \<noteq> INTERRUPTED"
proof -
  obtain t m rx where r: "nonBlockingReadSome buf n (Some e) (st_rx st) (st_memory st) = Some ((fin, t, e'), m, rx)"
    and s: "st' = st\<lparr>st_memory := m, st_rx := rx\<rparr>"
    using assms(3) by (auto simp: read_op_def split: option.splits)
  from r have "receive_loop (st_rx st) [(buf, n)] e (st_memory st) = Some ((fin, t, e'), m, rx)"
    by (simp add: nonBlockingReadSome_def nonBlockingReceive_def out_def)
  from receive_loop_ok[OF this] assms(1,2) s show ?thesis by (auto simp: kernel_ok_def)
qed

lemma write_op_ok:
  assumes "kernel_ok st" "write_op buf n e l st = Some (fin, e', l', st')"
  shows "kernel_ok st' \<and> e' \<noteq> INTERRUPTED"
proof -
  obtain t g tx where r: "nonBlockingWriteSome buf n (st_tx st) (st_memory st) = Some ((fin, t, e'), g, tx)"
    and s: "st' = st\<lparr>st_wire := st_wire st @ g, st_tx := tx\<rparr>"
    using assms(2) by (auto simp: write_op_def split: option.splits)
  from r have "send_loop (st_tx st) [(buf, n)] (st_memory st) = Some ((fin, t, e'), g, tx)"
    by (simp add: nonBlockingWriteSome_def nonBlockingSend_def)
  from send_loop_ok[OF this] assms(1) s show ?thesis by (auto simp: kernel_ok_def)
qed

lemma kernel_ok_io: "kernel_ok st \<Longrightarrow> same_io st st' \<Longrightarrow> kernel_ok st'"
  by (simp add: kernel_ok_def same_io_def)

interpretation rs: event_op kernel_ok "read_op buf n" readSome_on_operated for buf n
  by unfold_locales
    (auto intro: kernel_ok_io dest: read_op_ok simp: readSome_on_operated_def error_defs split: if_splits)

interpretation rd: event_op kernel_ok "read_op buf n" read_on_operated for buf n
  by unfold_locales
    (auto intro: kernel_ok_io dest: read_op_ok simp: read_on_operated_def error_defs split: if_splits)

interpretation ws: event_op kernel_ok "write_op data n" writeSome_on_operated for data n
  by unfold_locales
    (auto intro: kernel_ok_io dest: write_op_ok simp: writeSome_on_operated_def error_defs split: if_splits)

interpretation wr: event_op kernel_ok "write_op data n" write_on_operated for data n
  by unfold_locales
    (auto intro: kernel_ok_io dest: write_op_ok simp: write_on_operated_def error_defs split: if_splits)

lemma map_outcome:
  "map_option (map_sum id f) x = Some (Inr y) \<Longrightarrow> \<exists>z. x = Some (Inr z) \<and> f z = y"
  by (cases x; cases "the x") auto

lemma replicate_app: "replicate (Suc k) x @ ys = x # replicate k x @ ys" by simp

subsection \<open>Rounds of blocking\<close>

text \<open>A stream whose operation is woken for each of its first \<open>k\<close> waits.\<close>

definition blocks :: "event_type \<Rightarrow> env list \<Rightarrow> stream \<Rightarrow> bool" where
  "blocks ev es st \<longleftrightarrow> st_object st \<and> \<not> st_shutdown st \<and> st_sem ev st = sem_default \<and>
     (\<exists>ag. st_agenda st = es @ ag) \<and> (\<forall>e \<in> set es. waker ev True e)"

lemma blocksD:
  assumes "blocks ev es st"
  shows "st_object st" "\<not> st_shutdown st" "st_sem ev st = sem_default"
    "st_agenda st = es @ drop (length es) (st_agenda st)" "e \<in> set es \<Longrightarrow> waker ev True e"
  using assms by (auto simp: blocks_def)

lemma blocks_tl:
  "blocks ev (e # es) st \<Longrightarrow> blocks ev es (st\<lparr>st_agenda := tl (st_agenda st)\<rparr>)"
  by (auto simp: blocks_def)

lemma blocks_rx [simp]: "blocks ev es (st\<lparr>st_rx := rx\<rparr>) = blocks ev es st"
  "blocks ev es (st\<lparr>st_tx := tx\<rparr>) = blocks ev es st"
  "blocks ev es (st\<lparr>st_rx := rx, st_agenda := ag\<rparr>) = blocks ev es (st\<lparr>st_agenda := ag\<rparr>)"
  "blocks ev es (st\<lparr>st_tx := tx, st_agenda := ag\<rparr>) = blocks ev es (st\<lparr>st_agenda := ag\<rparr>)"
  by (auto simp: blocks_def)

lemma read_op_again:
  "st_rx st = Fail EAGAIN # rs \<Longrightarrow>
   read_op buf n e l st = Some (False, EAGAIN, l\<lparr>bytes := 0\<rparr>, st\<lparr>st_rx := rs\<rparr>)"
  by (cases st) (simp add: read_op_def nonBlockingReadSome_def nonBlockingReceive_def)

lemma write_op_again:
  "st_tx st = Fail EAGAIN # rs \<Longrightarrow>
   write_op buf n e l st = Some (False, EAGAIN, l\<lparr>bytes := 0\<rparr>, st\<lparr>st_tx := rs\<rparr>)"
  by (cases st) (simp add: write_op_def nonBlockingWriteSome_def nonBlockingSend_def)

lemma loop_round:
  assumes "blocks (op_event op) (w # es) st" "\<not> op_interrupted op"
    and "nbo e l st = Some (False, e1, l1, st1)" "blocks (op_event op) (w # es) st1"
  shows "perform_loop (\<lambda>st. \<not> isShutdown st) nbo on_op never t e op l st =
    perform_loop (\<lambda>st. \<not> isShutdown st) nbo on_op never t e1 op l1 (st1\<lparr>st_agenda := tl (st_agenda st1)\<rparr>)"
proof -
  have "event_wait b (op_event op) st1 = Some (True, st1\<lparr>st_agenda := tl (st_agenda st1)\<rparr>)" for b
    using assms(4) blocksD(4)[OF assms(4)] by (intro wait_woken[of _ _ w]) (auto simp: blocks_def)
  with assms show ?thesis
    by (subst perform_loop.simps) (simp add: isShutdown_def blocks_def never_def)
qed

definition after_rounds :: "nat \<Rightarrow> int \<Rightarrow> int" where
  "after_rounds k e = (if k = 0 then e else EAGAIN)"

lemma read_rounds:
  "blocks (op_event op) es st \<Longrightarrow> \<not> op_interrupted op \<Longrightarrow>
   st_rx st = replicate (length es) (Fail EAGAIN) @ rs \<Longrightarrow> bytes l = 0 \<Longrightarrow>
   perform_loop (\<lambda>st. \<not> isShutdown st) (read_op buf n) on_op never t e op l st =
   perform_loop (\<lambda>st. \<not> isShutdown st) (read_op buf n) on_op never t (after_rounds (length es) e) op l
     (st\<lparr>st_rx := rs, st_agenda := drop (length es) (st_agenda st)\<rparr>)"
proof (induction es arbitrary: st e)
  case Nil then show ?case by (cases st) (simp add: after_rounds_def)
next
  case (Cons w es)
  let ?st1 = "st\<lparr>st_rx := replicate (length es) (Fail EAGAIN) @ rs\<rparr>"
  have b: "l\<lparr>bytes := 0\<rparr> = l" using Cons.prems(4) by simp
  have "read_op buf n e l st = Some (False, EAGAIN, l, ?st1)"
    using read_op_again[of st "replicate (length es) (Fail EAGAIN) @ rs"] Cons.prems(3) b by simp
  from loop_round[where nbo = "read_op buf n", OF Cons.prems(1,2) this] Cons.prems(1)
  have "perform_loop (\<lambda>st. \<not> isShutdown st) (read_op buf n) on_op never t e op l st =
    perform_loop (\<lambda>st. \<not> isShutdown st) (read_op buf n) on_op never t EAGAIN op l
      (?st1\<lparr>st_agenda := tl (st_agenda st)\<rparr>)" by simp
  also have "\<dots> = perform_loop (\<lambda>st. \<not> isShutdown st) (read_op buf n) on_op never t
      (after_rounds (length es) EAGAIN) op l
      (st\<lparr>st_rx := rs, st_agenda := drop (length es) (tl (st_agenda st))\<rparr>)"
    using Cons.IH[of "?st1\<lparr>st_agenda := tl (st_agenda st)\<rparr>" EAGAIN] blocks_tl[OF Cons.prems(1)] Cons.prems(2,4)
    by simp
  finally show ?case by (simp add: after_rounds_def drop_Suc)
qed

lemma write_rounds:
  "blocks (op_event op) es st \<Longrightarrow> \<not> op_interrupted op \<Longrightarrow>
   st_tx st = replicate (length es) (Fail EAGAIN) @ rs \<Longrightarrow> bytes l = 0 \<Longrightarrow>
   perform_loop (\<lambda>st. \<not> isShutdown st) (write_op buf n) on_op never t e op l st =
   perform_loop (\<lambda>st. \<not> isShutdown st) (write_op buf n) on_op never t (after_rounds (length es) e) op l
     (st\<lparr>st_tx := rs, st_agenda := drop (length es) (st_agenda st)\<rparr>)"
proof (induction es arbitrary: st e)
  case Nil then show ?case by (cases st) (simp add: after_rounds_def)
next
  case (Cons w es)
  let ?st1 = "st\<lparr>st_tx := replicate (length es) (Fail EAGAIN) @ rs\<rparr>"
  have b: "l\<lparr>bytes := 0\<rparr> = l" using Cons.prems(4) by simp
  have "write_op buf n e l st = Some (False, EAGAIN, l, ?st1)"
    using write_op_again[of st "replicate (length es) (Fail EAGAIN) @ rs"] Cons.prems(3) b by simp
  from loop_round[where nbo = "write_op buf n", OF Cons.prems(1,2) this] Cons.prems(1)
  have "perform_loop (\<lambda>st. \<not> isShutdown st) (write_op buf n) on_op never t e op l st =
    perform_loop (\<lambda>st. \<not> isShutdown st) (write_op buf n) on_op never t EAGAIN op l
      (?st1\<lparr>st_agenda := tl (st_agenda st)\<rparr>)" by simp
  also have "\<dots> = perform_loop (\<lambda>st. \<not> isShutdown st) (write_op buf n) on_op never t
      (after_rounds (length es) EAGAIN) op l
      (st\<lparr>st_tx := rs, st_agenda := drop (length es) (tl (st_agenda st))\<rparr>)"
    using Cons.IH[of "?st1\<lparr>st_agenda := tl (st_agenda st)\<rparr>" EAGAIN] blocks_tl[OF Cons.prems(1)] Cons.prems(2,4)
    by simp
  finally show ?case by (simp add: after_rounds_def drop_Suc)
qed

subsection \<open>Outcomes of a read\<close>

subsection \<open>What a read returns\<close>

abbreviation open_st :: "stream \<Rightarrow> bool" where "open_st \<equiv> \<lambda>st. \<not> isShutdown st"

definition skip_rounds :: "env list \<Rightarrow> stream \<Rightarrow> stream" where
  "skip_rounds es st = st\<lparr>st_agenda := drop (length es) (st_agenda st)\<rparr>"

lemma skip_rounds_simps [simp]:
  "st_shutdown (skip_rounds es st) = st_shutdown st" "st_memory (skip_rounds es st) = st_memory st"
  "st_wire (skip_rounds es st) = st_wire st" "st_rx (skip_rounds es st) = st_rx st"
  "st_tx (skip_rounds es st) = st_tx st"
  by (simp_all add: skip_rounds_def)

lemma skip_rounds_io:
  "skip_rounds es st\<lparr>st_rx := rs\<rparr> = st\<lparr>st_rx := rs, st_agenda := drop (length es) (st_agenda st)\<rparr>"
  "skip_rounds es st\<lparr>st_tx := tx\<rparr> = st\<lparr>st_tx := tx, st_agenda := drop (length es) (st_agenda st)\<rparr>"
  by (cases st; simp add: skip_rounds_def)+

lemma op_new_simps [simp]:
  "op_event (op_new b ev) = ev" "op_interrupted (op_new b ev) = False" "op_object (op_new b ev) = b"
  "(op_new b ev)\<lparr>op_interrupted := False\<rparr> = op_new b ev"
  by (simp_all add: op_new_def)

lemma bytes_progress0 [simp]: "bytes (progress0 n) = 0"
  by (simp add: progress0_def)

lemma put_nil [simp]: "put i [] m = m" by (simp add: put_def)

lemma read_op_data:
  assumes "st_rx st = Ret bs # rs" "buf + n \<le> length (st_memory st)" "take n bs \<noteq> []"
  shows "read_op buf n e l st = Some (True, 0, l\<lparr>bytes := length (take n bs)\<rparr>,
         st\<lparr>st_memory := put buf (take n bs) (st_memory st), st_rx := rs\<rparr>)"
  using assms by (simp add: read_op_def nonBlockingReadSome_def nonBlockingReceive_def iov_total_def Let_def)

lemma read_op_eof:
  assumes "st_rx st = Ret bs # rs" "take n bs = []"
  shows "read_op buf n e l st = Some (True, e, l\<lparr>bytes := 0\<rparr>, st\<lparr>st_rx := rs\<rparr>)"
proof -
  have m: "st\<lparr>st_memory := st_memory st, st_rx := rs\<rparr> = st\<lparr>st_rx := rs\<rparr>" by (cases st) simp
  show ?thesis using assms m
    by (simp add: read_op_def nonBlockingReadSome_def nonBlockingReceive_def iov_total_def out_def)
qed

lemma read_op_error:
  assumes "st_rx st = Fail x # rs" "x \<noteq> EAGAIN" "x \<noteq> EINTR"
  shows "read_op buf n e l st = Some (True, x, l\<lparr>bytes := 0\<rparr>, st\<lparr>st_rx := rs\<rparr>)"
proof -
  have m: "st\<lparr>st_memory := st_memory st, st_rx := rs\<rparr> = st\<lparr>st_rx := rs\<rparr>" by (cases st) simp
  show ?thesis using assms m
    by (simp add: read_op_def nonBlockingReadSome_def nonBlockingReceive_def)
qed

lemma perform_starts:
  "perform op nbo on_op nev t (op_new True ev) l st =
     perform_loop op nbo on_op nev t 0 (op_new True ev) l st"
  by (simp add: perform_def)

lemma readSome_start:
  assumes "blocks EVENT_IN es st" "st_rx st = replicate (length es) (Fail EAGAIN) @ rs"
  shows "readSome buf n st = map_option (map_sum id (\<lambda>(e, l, st). (bytes l, e, st)))
    (perform_loop open_st (read_op buf n) readSome_on_operated never (st_timeout st)
      (after_rounds (length es) 0) (op_new True EVENT_IN) (progress0 n) (skip_rounds es st\<lparr>st_rx := rs\<rparr>))"
  using read_rounds[of "op_new True EVENT_IN" es st rs "progress0 n" buf n readSome_on_operated
      "st_timeout st" 0] assms blocksD(1)[OF assms(1)]
  by (simp add: readSome_def perform_starts skip_rounds_io)

lemma stream_read_start:
  assumes "blocks EVENT_IN es st" "st_rx st = replicate (length es) (Fail EAGAIN) @ rs"
  shows "stream_read buf n st = map_option (map_sum id (\<lambda>(e, l, st). (moved l, e, st)))
    (perform_loop open_st (read_op buf n) read_on_operated never (st_timeout st)
      (after_rounds (length es) 0) (op_new True EVENT_IN) (progress0 n) (skip_rounds es st\<lparr>st_rx := rs\<rparr>))"
  using read_rounds[of "op_new True EVENT_IN" es st rs "progress0 n" buf n read_on_operated
      "st_timeout st" 0] assms blocksD(1)[OF assms(1)]
  by (simp add: stream_read_def perform_starts skip_rounds_io)

lemma stream_write_start:
  assumes "blocks EVENT_OUT es st" "st_tx st = replicate (length es) (Fail EAGAIN) @ rs"
  shows "stream_write buf n st = map_option (map_sum id (\<lambda>(e, l, st). (moved l, e, st)))
    (perform_loop open_st (write_op buf n) write_on_operated never (st_timeout st)
      (after_rounds (length es) 0) (op_new True EVENT_OUT) (progress0 n) (skip_rounds es st\<lparr>st_tx := rs\<rparr>))"
  using write_rounds[of "op_new True EVENT_OUT" es st rs "progress0 n" buf n write_on_operated
      "st_timeout st" 0] assms blocksD(1)[OF assms(1)]
  by (simp add: stream_write_def perform_starts skip_rounds_io)

text \<open>One iteration whose operation finished.\<close>

lemma loop_finished:
  assumes "\<not> st_shutdown st" "nbo e l st = Some (True, e1, l1, st1)"
  shows "perform_loop open_st nbo on_op nev t e op l st =
    (case on_op e1 l1 of
       Inl a \<Rightarrow> Some (Inl a)
     | Inr (stop, e2, l2) \<Rightarrow>
         if stop then Some (Inr (e2, l2, st1)) else perform_loop open_st nbo on_op nev t e2 op l2 st1)"
  by (subst perform_loop.simps) (use assms in \<open>simp add: isShutdown_def\<close>)

text \<open>Claim C26: A read of what is available, started on an open stream and woken each time it
  sleeps, by an event or by \<open>interrupt\<close>, returns after as many waits as the kernel answers
  \<open>EAGAIN\<close>: the first data to arrive, cut to the size asked for and stored at the buffer, or
  \<open>REMOTELY_CLOSED\<close>, for the end of the stream and for every error alike.\<close>

theorem readSome_outcome:
  assumes "blocks EVENT_IN es st" "st_rx st = replicate (length es) (Fail EAGAIN) @ r # rs"
    and "r \<noteq> Fail EINTR" "r \<noteq> Fail EAGAIN" "buf + n \<le> length (st_memory st)"
  shows "readSome buf n st = Some (Inr (case r of
      Ret bs \<Rightarrow> (length (take n bs), if take n bs = [] then REMOTELY_CLOSED else 0,
        skip_rounds es st\<lparr>st_memory := put buf (take n bs) (st_memory st), st_rx := rs\<rparr>)
    | Fail x \<Rightarrow> (0, REMOTELY_CLOSED, skip_rounds es st\<lparr>st_rx := rs\<rparr>)))"
proof -
  let ?st = "skip_rounds es st\<lparr>st_rx := r # rs\<rparr>"
  let ?l = "progress0 n" and ?e = "after_rounds (length es) 0"
  have o: "\<not> st_shutdown ?st" using blocksD(2)[OF assms(1)] by simp
  have m: "skip_rounds es st\<lparr>st_memory := st_memory st, st_rx := rs\<rparr> = skip_rounds es st\<lparr>st_rx := rs\<rparr>"
    by (cases st) (simp add: skip_rounds_def)
  show ?thesis
  proof (cases r)
    case (Fail x)
    then have "read_op buf n ?e ?l ?st = Some (True, x, ?l\<lparr>bytes := 0\<rparr>, ?st\<lparr>st_rx := rs\<rparr>)"
      using assms(3,4) by (intro read_op_error) auto
    from loop_finished[OF o, where nbo = "read_op buf n", OF this] show ?thesis
      by (simp add: readSome_start[OF assms(1,2)] readSome_on_operated_def Fail)
  next
    case (Ret bs)
    show ?thesis
    proof (cases "take n bs = []")
      case True
      then have "read_op buf n ?e ?l ?st = Some (True, ?e, ?l\<lparr>bytes := 0\<rparr>, ?st\<lparr>st_rx := rs\<rparr>)"
        using Ret by (intro read_op_eof) auto
      from loop_finished[OF o, where nbo = "read_op buf n", OF this] True m show ?thesis
        by (auto simp: readSome_start[OF assms(1,2)] readSome_on_operated_def Ret)
    next
      case False
      then have "read_op buf n ?e ?l ?st = Some (True, 0, ?l\<lparr>bytes := length (take n bs)\<rparr>,
          ?st\<lparr>st_memory := put buf (take n bs) (st_memory ?st), st_rx := rs\<rparr>)"
        using Ret assms(5) by (intro read_op_data) auto
      from loop_finished[OF o, where nbo = "read_op buf n", OF this] False show ?thesis
        by (auto simp: readSome_start[OF assms(1,2)] readSome_on_operated_def Ret min_def)
    qed
  qed
qed

definition idle_stream :: "env list \<Rightarrow> u8 list sysret list \<Rightarrow> nat sysret list \<Rightarrow> u8 list \<Rightarrow> stream" where
  "idle_stream ag rx tx m = \<lparr>st_object = True, st_shutdown = False, st_timeout = -1,
     st_notifier = \<lparr>n_descriptor = 5, n_semaphores = (\<lambda>_. sem_default)\<rparr>, st_agenda = ag,
     st_memory = m, st_rx = rx, st_tx = tx, st_wire = []\<rparr>"

lemma idle_simps [simp]:
  "st_memory (idle_stream ag rx tx m) = m" "st_rx (idle_stream ag rx tx m) = rx"
  "st_tx (idle_stream ag rx tx m) = tx" "st_wire (idle_stream ag rx tx m) = []"
  by (simp_all add: idle_stream_def)

lemma idle_blocks: "\<forall>e \<in> set es. waker ev True e \<Longrightarrow> blocks ev es (idle_stream (es @ ag) rx tx m)"
  by (simp add: blocks_def idle_stream_def)

lemma idle_blocks_in: "blocks EVENT_IN [OtherInterrupt, Ready EPOLLIN] (idle_stream [OtherInterrupt, Ready EPOLLIN] rx tx m)"
  "blocks EVENT_IN [Ready EPOLLIN] (idle_stream [Ready EPOLLIN] rx tx m)"
  "blocks EVENT_OUT [Ready EPOLLOUT] (idle_stream [Ready EPOLLOUT] rx tx m)"
  "blocks ev [] (idle_stream [] rx tx m)"
  using idle_blocks[of "[OtherInterrupt, Ready EPOLLIN]" EVENT_IN "[]"] idle_blocks[of "[Ready EPOLLIN]" EVENT_IN "[]"]
    idle_blocks[of "[Ready EPOLLOUT]" EVENT_OUT "[]"] idle_blocks[of "[]" ev "[]"]
  by (simp_all add: waker_def readable_def writable_def epoll_bits)

text \<open>The reader sleeps, is interrupted, sleeps again, and gets two bytes when they arrive.\<close>

lemma readSome_outcome_witness:
  "\<exists>st'. readSome 1 3 (idle_stream [OtherInterrupt, Ready EPOLLIN] [Fail 11, Fail 11, Ret [7, 8]] [] [0, 0, 0, 0])
     = Some (Inr (2, 0, st')) \<and> st_memory st' = [0, 7, 8, 0]"
  using readSome_outcome[OF idle_blocks_in(1), of "[Fail 11, Fail 11, Ret [7, 8]]" "[]" "[0, 0, 0, 0]" "Ret [7, 8]" "[]" 1 3]
  by (simp add: put_def)

text \<open>Claim C32: A read of \<open>n\<close> bytes returns all of them, in place, when they arrive in one
  piece, and the kernel's error when there is one; at the end of the stream it reports
  \<open>REMOTELY_CLOSED\<close> only if it has not slept before, else \<open>EAGAIN\<close>, the error left by the
  last attempt.\<close>

theorem read_outcome:
  assumes "blocks EVENT_IN es st" "st_rx st = replicate (length es) (Fail EAGAIN) @ r # rs"
    and "r \<noteq> Fail EINTR" "r \<noteq> Fail EAGAIN" "r \<noteq> Fail 0" "buf + n \<le> length (st_memory st)"
    and "\<forall>bs. r = Ret bs \<longrightarrow> take n bs = [] \<or> n \<le> length bs"
  shows "stream_read buf n st = Some (Inr (case r of
      Ret bs \<Rightarrow> if take n bs = []
        then (0, if es = [] then REMOTELY_CLOSED else EAGAIN, skip_rounds es st\<lparr>st_rx := rs\<rparr>)
        else (n, 0, skip_rounds es st\<lparr>st_memory := put buf (take n bs) (st_memory st), st_rx := rs\<rparr>)
    | Fail x \<Rightarrow> (0, x, skip_rounds es st\<lparr>st_rx := rs\<rparr>)))"
proof -
  let ?st = "skip_rounds es st\<lparr>st_rx := r # rs\<rparr>"
  let ?l = "progress0 n" and ?e = "after_rounds (length es) 0"
  have o: "\<not> st_shutdown ?st" using blocksD(2)[OF assms(1)] by simp
  show ?thesis
  proof (cases r)
    case (Fail x)
    then have "read_op buf n ?e ?l ?st = Some (True, x, ?l\<lparr>bytes := 0\<rparr>, ?st\<lparr>st_rx := rs\<rparr>)"
      using assms(3,4) by (intro read_op_error) auto
    from loop_finished[OF o, where nbo = "read_op buf n", OF this] assms(5) show ?thesis
      by (simp add: stream_read_start[OF assms(1,2)] read_on_operated_def Fail progress0_def)
  next
    case (Ret bs)
    show ?thesis
    proof (cases "take n bs = []")
      case True
      then have "read_op buf n ?e ?l ?st = Some (True, ?e, ?l\<lparr>bytes := 0\<rparr>, ?st\<lparr>st_rx := rs\<rparr>)"
        using Ret by (intro read_op_eof) auto
      from loop_finished[OF o, where nbo = "read_op buf n", OF this] True show ?thesis
        by (simp add: stream_read_start[OF assms(1,2)] read_on_operated_def Ret after_rounds_def progress0_def)
    next
      case False
      then have n: "length (take n bs) = n" "n \<noteq> 0" using Ret assms(7) by auto
      have "read_op buf n ?e ?l ?st = Some (True, 0, ?l\<lparr>bytes := length (take n bs)\<rparr>,
          ?st\<lparr>st_memory := put buf (take n bs) (st_memory ?st), st_rx := rs\<rparr>)"
        using Ret assms(6) False by (intro read_op_data) auto
      from loop_finished[OF o, where nbo = "read_op buf n", OF this] False n show ?thesis
        by (simp add: stream_read_start[OF assms(1,2)] read_on_operated_def Ret progress0_def)
    qed
  qed
qed

lemma read_outcome_witness:
  "\<exists>st'. stream_read 1 2 (idle_stream [Ready EPOLLIN] [Fail 11, Ret []] [] [0, 0, 0, 0])
     = Some (Inr (0, 11, st'))"
  using read_outcome[OF idle_blocks_in(2), of "[Fail 11, Ret []]" "[]" "[0, 0, 0, 0]" "Ret []" "[]" 1 2]
  by simp

subsection \<open>Pieces, interruption and missed wake-ups\<close>

text \<open>When the data of a read of \<open>n\<close> bytes arrives in two pieces, the second piece is
  stored over the first, at the start of the buffer: a second piece that completes the count
  makes the read report all \<open>n\<close> bytes although the first bytes are those of the second piece, and
  a longer one fails the assertion.\<close>

theorem read_overwrites_first_piece:
  assumes "blocks EVENT_IN es st" "st_rx st = replicate (length es) (Fail EAGAIN) @ Ret a # Ret b # rs"
    and "a \<noteq> []" "length a < n" "n \<le> length a + length b" "buf + n \<le> length (st_memory st)"
  shows "if length (take n b) = n - length a
    then \<exists>st'. stream_read buf n st = Some (Inr (n, 0, st')) \<and>
      st_memory st' = put buf b (put buf a (st_memory st)) \<and> window buf (length b) (st_memory st') = b
    else stream_read buf n st = Some (Inl AssertionFailed)"
proof -
  let ?st = "skip_rounds es st\<lparr>st_rx := Ret a # Ret b # rs\<rparr>"
  let ?l = "progress0 n" and ?e = "after_rounds (length es) 0"
  have ta: "take n a = a" using assms(4) by simp
  have o: "\<not> st_shutdown ?st" using blocksD(2)[OF assms(1)] by simp
  let ?st1 = "?st\<lparr>st_memory := put buf a (st_memory st), st_rx := Ret b # rs\<rparr>"
  have r1: "read_op buf n ?e ?l ?st = Some (True, 0, ?l\<lparr>bytes := length a\<rparr>, ?st1)"
    using read_op_data[of ?st a "Ret b # rs" buf n ?e ?l] ta assms(3,6) by simp
  let ?l1 = "\<lparr>bytes = length a, moved = length a, next_size = n - length a\<rparr>"
  have step1: "perform_loop open_st (read_op buf n) read_on_operated never t ?e (op_new True EVENT_IN) ?l ?st =
      perform_loop open_st (read_op buf n) read_on_operated never t 0 (op_new True EVENT_IN) ?l1 ?st1" for t
    using loop_finished[OF o, where nbo = "read_op buf n", OF r1] assms(3,4)
    by (simp add: read_on_operated_def progress0_def)
  let ?b = "take n b"
  have b: "?b \<noteq> []" using assms(4,5) by auto
  have o1: "\<not> st_shutdown ?st1" using o by simp
  let ?st2 = "?st1\<lparr>st_memory := put buf ?b (put buf a (st_memory st)), st_rx := rs\<rparr>"
  have r2: "read_op buf n 0 ?l1 ?st1 = Some (True, 0, ?l1\<lparr>bytes := length ?b\<rparr>, ?st2)"
    using read_op_data[of ?st1 b rs buf n 0 ?l1] b assms(3-6) by simp
  have e: "stream_read buf n st = map_option (map_sum id (\<lambda>(e, l, st). (moved l, e, st)))
      (case read_on_operated 0 (?l1\<lparr>bytes := length ?b\<rparr>) of
         Inl a \<Rightarrow> Some (Inl a)
       | Inr (stop, e2, l2) \<Rightarrow> if stop then Some (Inr (e2, l2, ?st2))
           else perform_loop open_st (read_op buf n) read_on_operated never (st_timeout st) e2
             (op_new True EVENT_IN) l2 ?st2)"
    unfolding stream_read_start[OF assms(1,2)] step1
    by (subst loop_finished[OF o1, where nbo = "read_op buf n", OF r2]) (rule refl)
  show ?thesis
  proof (cases "length ?b = n - length a")
    case True
    have "length b \<le> n"
    proof (rule ccontr)
      assume "\<not> length b \<le> n"
      then have "length ?b = n" by simp
      moreover have "0 < length a" using assms(3) by simp
      ultimately show False using True assms(4) by linarith
    qed
    then have bb: "?b = b" by simp
    with e True b assms(3-5) show ?thesis using assms(6) by (auto simp: read_on_operated_def)
  next
    case False
    with b assms(3-5) have "\<not> length ?b \<le> n - length a" by auto
    with e False b show ?thesis by (auto simp: read_on_operated_def)
  qed
qed

lemma read_overwrites_first_piece_witness:
  "\<exists>st'. stream_read 0 3 (idle_stream [] [Ret [1, 2], Ret [3]] [] [0, 0, 0]) = Some (Inr (3, 0, st')) \<and>
     st_memory st' = [3, 2, 0]"
  using read_overwrites_first_piece[OF idle_blocks_in(4)[where rx = "[Ret [1, 2], Ret [3]]" and tx = "[]" and m = "[0, 0, 0]"],
      of "[1, 2]" "[3]" "[]" 3 0]
  by (auto simp: put_def)

subsection \<open>What a write sends\<close>

lemma write_op_sent:
  assumes "st_tx st = Ret room # rs"
  shows "write_op data n e l st = Some (True, 0, l\<lparr>bytes := length (take room (window data n (st_memory st)))\<rparr>,
    st\<lparr>st_wire := st_wire st @ take room (window data n (st_memory st)), st_tx := rs\<rparr>)"
  using assms by (simp add: write_op_def nonBlockingWriteSome_def nonBlockingSend_def Let_def)

text \<open>When the socket takes the data of a write in two parts, the write sends the second
  part from the start of the data again: it reports success for all \<open>n\<close> bytes when the second part
  has the missing length, and what entered the connection is the first part followed by a prefix
  of the same data; with room for more the assertion fails.\<close>

theorem write_resends_prefix:
  assumes "blocks EVENT_OUT es st" "st_tx st = replicate (length es) (Fail EAGAIN) @ Ret r1 # Ret r2 # rs"
    and "0 < r1" "r1 < n" "n \<le> r1 + r2" "data + n \<le> length (st_memory st)"
  shows "if r2 = n - r1
    then \<exists>st'. stream_write data n st = Some (Inr (n, 0, st')) \<and>
      st_wire st' = st_wire st @ window data r1 (st_memory st) @ window data (n - r1) (st_memory st)
    else stream_write data n st = Some (Inl AssertionFailed)"
proof -
  let ?d = "window data n (st_memory st)"
  let ?st = "skip_rounds es st\<lparr>st_tx := Ret r1 # Ret r2 # rs\<rparr>"
  let ?l = "progress0 n" and ?e = "after_rounds (length es) 0"
  have l: "length ?d = n" using assms(6) by simp
  have o: "\<not> st_shutdown ?st" using blocksD(2)[OF assms(1)] by simp
  let ?st1 = "?st\<lparr>st_wire := st_wire st @ take r1 ?d, st_tx := Ret r2 # rs\<rparr>"
  have w1: "write_op data n ?e ?l ?st = Some (True, 0, ?l\<lparr>bytes := r1\<rparr>, ?st1)"
    using write_op_sent[of ?st r1 "Ret r2 # rs" data n ?e ?l] assms(4) l by simp
  let ?l1 = "\<lparr>bytes = r1, moved = r1, next_size = n - r1\<rparr>"
  have step1: "perform_loop open_st (write_op data n) write_on_operated never t ?e (op_new True EVENT_OUT) ?l ?st =
      perform_loop open_st (write_op data n) write_on_operated never t 0 (op_new True EVENT_OUT) ?l1 ?st1" for t
    using loop_finished[OF o, where nbo = "write_op data n", OF w1] assms(3,4)
    by (simp add: write_on_operated_def progress0_def)
  have o1: "\<not> st_shutdown ?st1" using o by simp
  let ?st2 = "?st1\<lparr>st_wire := (st_wire st @ take r1 ?d) @ take r2 ?d, st_tx := rs\<rparr>"
  have w2: "write_op data n 0 ?l1 ?st1 = Some (True, 0, ?l1\<lparr>bytes := min r2 n\<rparr>, ?st2)"
    using write_op_sent[of ?st1 r2 rs data n 0 ?l1] l by (simp add: min.commute)
  have e: "stream_write data n st = map_option (map_sum id (\<lambda>(e, l, st). (moved l, e, st)))
      (case write_on_operated 0 (?l1\<lparr>bytes := min r2 n\<rparr>) of
         Inl a \<Rightarrow> Some (Inl a)
       | Inr (stop, e2, l2) \<Rightarrow> if stop then Some (Inr (e2, l2, ?st2))
           else perform_loop open_st (write_op data n) write_on_operated never (st_timeout st) e2
             (op_new True EVENT_OUT) l2 ?st2)"
    unfolding stream_write_start[OF assms(1,2)] step1
    by (subst loop_finished[OF o1, where nbo = "write_op data n", OF w2]) (rule refl)
  have t: "take k ?d = window data k (st_memory st)" if "k \<le> n" for k
    using that by (simp add: window_def min_def)
  show ?thesis
  proof (cases "r2 = n - r1")
    case True
    then have "min r2 n = n - r1" by simp
    with e True assms(3,4) t[of r1] t[of "n - r1"] show ?thesis by (auto simp: write_on_operated_def)
  next
    case False
    with assms(3-5) have "\<not> min r2 n \<le> n - r1" by auto
    with e False show ?thesis by (auto simp: write_on_operated_def)
  qed
qed

lemma write_resends_prefix_witness:
  "\<exists>st'. stream_write 0 3 (idle_stream [Ready EPOLLOUT] [] [Fail 11, Ret 2, Ret 1] [7, 8, 9]) = Some (Inr (3, 0, st')) \<and>
     st_wire st' = [7, 8, 7]"
  using write_resends_prefix[OF idle_blocks_in(3)[where rx = "[]" and tx = "[Fail 11, Ret 2, Ret 1]" and m = "[7, 8, 9]"],
      of 2 1 "[]" 3 0]
  by (auto simp: window_def)

subsection \<open>A writer that is not woken\<close>

lemma sleep_unwoken:
  "st_sem ev st = \<lparr>atomic_count = -1, sem_count = 0\<rparr> \<Longrightarrow>
   (\<And>e st. e \<in> set es \<Longrightarrow> st_sem ev (env_step ev e st) = st_sem ev st) \<Longrightarrow> sleep False ev es st = None"
proof (induction es arbitrary: st)
  case Nil then show ?case by (simp add: wait_locked_new)
next
  case (Cons e es)
  have "st_sem ev (env_step ev e st) = \<lparr>atomic_count = -1, sem_count = 0\<rparr>"
    using Cons.prems(2)[of e st] Cons.prems(1) by simp
  from Cons.IH[OF this] Cons.prems show ?case by (simp add: wait_locked_new)
qed

text \<open>A write without a timeout that found the socket full never returns while all the
  events \<open>select\<close> handles for the socket are also readable, in error or hung up, whatever room
  the kernel has by then, and whoever shuts the stream down meanwhile.\<close>

theorem writer_not_woken:
  assumes "blocks EVENT_OUT [] st" "st_tx st = Fail EAGAIN # rs" "st_timeout st \<le> 0"
    and "\<forall>e \<in> set (st_agenda st). e = OtherShutdown \<or> (\<exists>events. e = Ready events \<and> readable events)"
  shows "stream_write data n st = None"
proof -
  have w: "write_op data n 0 (progress0 n) st = Some (False, EAGAIN, progress0 n\<lparr>bytes := 0\<rparr>, st\<lparr>st_tx := rs\<rparr>)"
    by (rule write_op_again[OF assms(2)])
  let ?s = "st_set_sem EVENT_OUT \<lparr>atomic_count = -1, sem_count = 0\<rparr> (st\<lparr>st_tx := rs\<rparr>)"
  have n: "st_sem EVENT_OUT (env_step EVENT_OUT e x) = st_sem EVENT_OUT x" if "e \<in> set (st_agenda st)" for e x
    using assms(4) that by (auto simp: deliver_def notify_event_def)
  have "event_wait False EVENT_OUT (st\<lparr>st_tx := rs\<rparr>) = sleep False EVENT_OUT (st_agenda st) ?s"
    using blocksD(3)[OF assms(1)]
    by (simp add: event_wait_def wait_enter_def sem_default_def sem_new_def Let_def)
  also have "\<dots> = None" using n by (intro sleep_unwoken) auto
  finally have "event_wait False EVENT_OUT (st\<lparr>st_tx := rs\<rparr>) = None" .
  with w assms(3) blocksD(1,2)[OF assms(1)] show ?thesis
    by (simp add: stream_write_def perform_starts) (subst perform_loop.simps, simp add: isShutdown_def)
qed

lemma writer_not_woken_witness:
  "stream_write 0 1 (idle_stream [Ready (EPOLLIN OR EPOLLOUT), OtherShutdown] [] [Fail 11, Ret 1] [7]) = None"
proof (rule writer_not_woken)
  show "blocks EVENT_OUT [] (idle_stream [Ready (EPOLLIN OR EPOLLOUT), OtherShutdown] [] [Fail 11, Ret 1] [7])"
    using idle_blocks[of "[]" EVENT_OUT] by simp
qed (auto simp: idle_stream_def readable_def epoll_bits)

text \<open>Claim C33: A call of \<open>interrupt\<close> never makes a read or a write return \<open>INTERRUPTED\<close>: it sets
  the flag of an operation object of its own and only wakes the sleeping one, which tries again.
  None of the four stream operations returns that code, whatever the agenda holds.\<close>

theorem interrupt_never_reported:
  assumes "kernel_ok st"
    and "op = readSome \<or> op = stream_read \<or> op = writeSome \<or> op = stream_write"
    and "op buf n st = Some (Inr (t, e, st'))"
  shows "e \<noteq> INTERRUPTED"
proof -
  let ?open = "\<lambda>st. \<not> isShutdown st" and ?t = "st_timeout st"
  let ?r = "op_new (st_object st) EVENT_IN" and ?w = "op_new (st_object st) EVENT_OUT"
  consider (rs) "op = readSome" | (rd) "op = stream_read" | (ws) "op = writeSome" | (wr) "op = stream_write"
    using assms(2) by blast
  then show ?thesis
  proof cases
    case rs
    with assms(3) have "readSome buf n st = Some (Inr (t, e, st'))" by simp
    from map_outcome[OF this[unfolded readSome_def]] obtain l where "perform ?open (read_op buf n) readSome_on_operated never ?t ?r
        (progress0 n) st = Some (Inr (e, l, st'))"
      by auto
    from rs.perform_never_interrupted[OF this assms(1)] show ?thesis by (simp add: rs.quiet_result_def)
  next
    case rd
    with assms(3) have "stream_read buf n st = Some (Inr (t, e, st'))" by simp
    from map_outcome[OF this[unfolded stream_read_def]] obtain l where "perform ?open (read_op buf n) read_on_operated never ?t ?r
        (progress0 n) st = Some (Inr (e, l, st'))"
      by auto
    from rd.perform_never_interrupted[OF this assms(1)] show ?thesis by (simp add: rd.quiet_result_def)
  next
    case ws
    with assms(3) have "writeSome buf n st = Some (Inr (t, e, st'))" by simp
    from map_outcome[OF this[unfolded writeSome_def]] obtain l where "perform ?open (write_op buf n) writeSome_on_operated never ?t ?w
        (progress0 n) st = Some (Inr (e, l, st'))"
      by auto
    from ws.perform_never_interrupted[OF this assms(1)] show ?thesis by (simp add: ws.quiet_result_def)
  next
    case wr
    with assms(3) have "stream_write buf n st = Some (Inr (t, e, st'))" by simp
    from map_outcome[OF this[unfolded stream_write_def]] obtain l where "perform ?open (write_op buf n) write_on_operated never ?t ?w
        (progress0 n) st = Some (Inr (e, l, st'))"
      by auto
    from wr.perform_never_interrupted[OF this assms(1)] show ?thesis by (simp add: wr.quiet_result_def)
  qed
qed

lemma interrupt_never_reported_witness:
  "\<exists>t e st'. readSome 1 3 (idle_stream [OtherInterrupt, Ready EPOLLIN] [Fail 11, Fail 11, Ret [7, 8]] [] [0, 0, 0, 0])
     = Some (Inr (t, e, st')) \<and> e \<noteq> INTERRUPTED"
proof -
  let ?st = "idle_stream [OtherInterrupt, Ready EPOLLIN] [Fail 11, Fail 11, Ret [7, 8]] [] [0, 0, 0, 0]"
  obtain st' where r: "readSome 1 3 ?st = Some (Inr (2, 0, st'))"
    using readSome_start[OF idle_blocks_in(1), of "[Fail 11, Fail 11, Ret [7, 8]]" "[]" "[0, 0, 0, 0]" "[Ret [7, 8]]" 1 3]
      loop_finished[of "skip_rounds [OtherInterrupt, Ready EPOLLIN] ?st\<lparr>st_rx := [Ret [7, 8]]\<rparr>" "read_op 1 3", OF _ read_op_data]
    by (auto simp: readSome_on_operated_def idle_stream_def)
  have "(0 :: int) \<noteq> INTERRUPTED"
    by (rule interrupt_never_reported[of ?st readSome 1 3 2 0 st', OF _ _ r]) (simp_all add: kernel_ok_def)
  with r show ?thesis by blast
qed

end
