(* ===== verification/TcpNet.thy ===== *)
theory TcpNet
  imports EventStream
begin

text \<open>
  \<open>TcpConnection\<close>, \<open>TcpDialer\<close> and \<open>TcpListener\<close> (net/tcp/TcpConnection.cpp,
  net/tcp/detail/linux/TcpDialer.cpp, TcpListener.cpp) over the socket, the selector and the event
  operation. The answers of the kernel, the addresses the notifier pool returns and what other
  threads do during a wait are gathered in one record per call (\<open>dial_env\<close>,
  \<open>listen_env\<close>, \<open>accept_env\<close>). The local objects a function destroys on its way out are
  destroyed in the model, in the order of the code. A result is \<open>None\<close> when the call has not
  returned, \<open>Inl\<close> when an assertion fails.
\<close>

subsection \<open>Destroying an event object\<close>

definition eo_destroy :: "event_object \<Rightarrow> selector \<Rightarrow> kern \<Rightarrow> selector \<times> kern" where
  "eo_destroy ob s k =
     (case eo_delete_body 0 ob s k of (ob', s', k', _) \<Rightarrow> (s', eo_delete_member 0 ob' k'))"

subsection \<open>TcpConnection\<close>

record connection =
  c_socket :: event_object
  c_read_shutdown :: bool
  c_write_shutdown :: bool
  c_read_timeout :: int
  c_write_timeout :: int
  c_local :: "tcp_address option"
  c_remote :: "tcp_address option"

definition conn_new :: "event_object \<Rightarrow> tcp_address option \<Rightarrow> tcp_address option \<Rightarrow> connection" where
  "conn_new ob local_address remote_address =
     \<lparr>c_socket = ob, c_read_shutdown = False, c_write_shutdown = False, c_read_timeout = -1,
      c_write_timeout = -1, c_local = local_address, c_remote = remote_address\<rparr>"

definition notifier_of :: "event_object \<Rightarrow> selector \<Rightarrow> notifier option" where
  "notifier_of ob s = Option.bind (eo_notifier ob) (notifiers s)"

definition put_notifier :: "event_object \<Rightarrow> notifier \<Rightarrow> selector \<Rightarrow> selector" where
  "put_notifier ob n s =
     (case eo_notifier ob of None \<Rightarrow> s | Some a \<Rightarrow> s\<lparr>notifiers := (notifiers s)(a \<mapsto> n)\<rparr>)"

text \<open>\<open>interrupt\<close> of an operation object on \<open>ob\<close>; without a notifier the assertion of
  \<open>notify\<close> fails (\<open>None\<close>).\<close>

definition eo_interrupt :: "event_type \<Rightarrow> event_object \<Rightarrow> selector \<Rightarrow> selector option" where
  "eo_interrupt ev ob s = eo_notify ev ob s"

definition conn_interrupt :: "connection \<Rightarrow> selector \<Rightarrow> selector option" where
  "conn_interrupt c s =
     Option.bind (eo_interrupt EVENT_IN (c_socket c) s) (eo_interrupt EVENT_OUT (c_socket c))"

definition conn_shutdown ::
  "answers \<Rightarrow> connection \<Rightarrow> selector \<Rightarrow> (connection \<times> selector \<times> call list) option" where
  "conn_shutdown ans c s =
     (let (_, c1) = read_shutdownStream ans (eo_resource (c_socket c));
          (_, c2) = write_shutdownStream ans (eo_resource (c_socket c))
      in map_option (\<lambda>s'. (c\<lparr>c_read_shutdown := True, c_write_shutdown := True\<rparr>, s', c1 @ c2))
           (conn_interrupt c s))"

definition conn_close :: "connection \<Rightarrow> kern \<Rightarrow> connection \<times> kern" where
  "conn_close c k =
     (case sock_close 0 (eo_get (c_socket c)) k of
        (_, r, k') \<Rightarrow> (c\<lparr>c_socket := (c_socket c)\<lparr>eo_resource := r\<rparr>, c_local := None, c_remote := None\<rparr>, k'))"

definition conn_delete :: "connection \<Rightarrow> selector \<Rightarrow> kern \<Rightarrow> selector \<times> kern" where
  "conn_delete c s k = eo_destroy (c_socket c) s k"

text \<open>The stream a transfer on the connection works on, and the connection after it.\<close>

definition conn_stream ::
  "bool \<Rightarrow> int \<Rightarrow> notifier \<Rightarrow> env list \<Rightarrow> u8 list \<Rightarrow> u8 list sysret list \<Rightarrow> nat sysret list \<Rightarrow> stream" where
  "conn_stream down timeout n ag m rx tx = \<lparr>st_object = True, st_shutdown = down, st_timeout = timeout,
     st_notifier = n, st_agenda = ag, st_memory = m, st_rx = rx, st_tx = tx, st_wire = []\<rparr>"

definition conn_readSome ::
  "connection \<Rightarrow> notifier \<Rightarrow> env list \<Rightarrow> u8 list \<Rightarrow> u8 list sysret list \<Rightarrow> nat \<Rightarrow> nat \<Rightarrow>
   (abort + (nat \<times> int \<times> stream)) option" where
  "conn_readSome c n ag m rx buf len =
     readSome buf len (conn_stream (c_read_shutdown c) (c_read_timeout c) n ag m rx [])"

definition conn_read ::
  "connection \<Rightarrow> notifier \<Rightarrow> env list \<Rightarrow> u8 list \<Rightarrow> u8 list sysret list \<Rightarrow> nat \<Rightarrow> nat \<Rightarrow>
   (abort + (nat \<times> int \<times> stream)) option" where
  "conn_read c n ag m rx buf len =
     stream_read buf len (conn_stream (c_read_shutdown c) (c_read_timeout c) n ag m rx [])"

definition conn_writeSome ::
  "connection \<Rightarrow> notifier \<Rightarrow> env list \<Rightarrow> u8 list \<Rightarrow> nat sysret list \<Rightarrow> nat \<Rightarrow> nat \<Rightarrow>
   (abort + (nat \<times> int \<times> stream)) option" where
  "conn_writeSome c n ag m tx data len =
     writeSome data len (conn_stream (c_write_shutdown c) (c_write_timeout c) n ag m [] tx)"

definition conn_write ::
  "connection \<Rightarrow> notifier \<Rightarrow> env list \<Rightarrow> u8 list \<Rightarrow> nat sysret list \<Rightarrow> nat \<Rightarrow> nat \<Rightarrow>
   (abort + (nat \<times> int \<times> stream)) option" where
  "conn_write c n ag m tx data len =
     stream_write data len (conn_stream (c_write_shutdown c) (c_write_timeout c) n ag m [] tx)"

definition localAddress :: "connection \<Rightarrow> tcp_address option" where "localAddress c = c_local c"
definition remoteAddress :: "connection \<Rightarrow> tcp_address option" where "remoteAddress c = c_remote c"

definition setReadTimeout :: "int \<Rightarrow> connection \<Rightarrow> connection" where
  "setReadTimeout milliseconds c = c\<lparr>c_read_timeout := milliseconds\<rparr>"

definition setWriteTimeout :: "int \<Rightarrow> connection \<Rightarrow> connection" where
  "setWriteTimeout milliseconds c = c\<lparr>c_write_timeout := milliseconds\<rparr>"

subsection \<open>TcpDialer\<close>

record dialer =
  d_socket :: "event_object option"
  d_timeout :: int
  d_connecting :: bool

record dial_env =
  a_socket :: "int sysret"
  a_slot1 :: u64
  a_register1 :: "unit sysret"
  a_answers :: answers
  a_so_error :: "int sysret list"
  a_agenda :: "env list"
  a_getsockname :: "(u8 list \<times> nat) sysret"
  a_junk :: "u8 list \<times> u8 list \<times> u8 list"
  a_slot2 :: u64
  a_register2 :: "unit sysret"

definition dialer_open :: "dialer \<times> int" where
  "dialer_open = (\<lparr>d_socket = None, d_timeout = -1, d_connecting = False\<rparr>, 0)"

definition setConnectTimeout :: "int \<Rightarrow> dialer \<Rightarrow> dialer" where
  "setConnectTimeout milliseconds d = d\<lparr>d_timeout := milliseconds\<rparr>"

definition connect_op ::
  "int \<Rightarrow> int sysret list \<Rightarrow> stream \<Rightarrow> (bool \<times> int \<times> int sysret list \<times> stream) option" where
  "connect_op error rs st =
     (case rs of
        [] \<Rightarrow> None
      | r # rs' \<Rightarrow> (case nonBlockingConnect r of (fin, e) \<Rightarrow> Some (fin, e, rs', st)))"

definition stop_operated :: "int \<Rightarrow> 'l \<Rightarrow> abort + (bool \<times> int \<times> 'l)" where
  "stop_operated error l = Inr (True, error, l)"

definition connect_wait ::
  "dial_env \<Rightarrow> int \<Rightarrow> event_object \<Rightarrow> selector \<Rightarrow> (abort + (int \<times> selector \<times> env list)) option" where
  "connect_wait a timeout ob s =
     (case notifier_of ob s of
        None \<Rightarrow> Some (Inl AssertionFailed)
      | Some n \<Rightarrow>
          map_option (map_sum id (\<lambda>(e, _, st). (e, put_notifier ob (st_notifier st) s, st_agenda st)))
            (perform (\<lambda>_. True) connect_op stop_operated never timeout (op_new True EVENT_OUT)
              (a_so_error a) (conn_stream False timeout n (a_agenda a) [] [] [])))"

type_synonym dialled = "(connection option \<times> int) \<times> event_object \<times> selector \<times> kern"

text \<open>After the connection is made: the socket leaves the dialling object and gets one of its
  own. \<open>ipv6\<close> selects the assertion of the IPv6 version.\<close>

definition dial_connected ::
  "bool \<Rightarrow> dial_env \<Rightarrow> tcp_address \<Rightarrow> event_object \<Rightarrow> selector \<Rightarrow> kern \<Rightarrow> abort + dialled" where
  "dial_connected ipv6 a remote ob s k =
     (let (ob, s) = eo_release ob s;
          (connected, r) = sock_move (eo_resource ob);
          ob = ob\<lparr>eo_resource := r\<rparr>;
          (junk, junk4, junk6) = a_junk a
      in case getLocalAddress junk junk4 junk6 (a_getsockname a) of
           Inl f \<Rightarrow> Inl (MemoryFault f)
         | Inr (local_address, e) \<Rightarrow>
             if e \<noteq> 0 then Inr ((None, e), ob, s, sock_delete 0 connected k)
             else if ipv6 \<and> (\<forall>t. local_address \<noteq> Some (Tcp6 t)) then Inl AssertionFailed
             else let (ev, _) = eo_new connected;
                      (e, ev, s) = eo_init (a_slot2 a) 0 (a_register2 a) ev s
                  in if e \<noteq> 0
                     then (case eo_destroy ev s k of (s, k) \<Rightarrow> Inr ((None, e), ob, s, k))
                     else Inr ((Some (conn_new ev local_address (Some remote)), 0), ob, s, k))"

text \<open>The body of the function once \<open>_is_connecting\<close> is set. The first component is the event
  object left in \<open>_event_dial_socket\<close>, if one was made; the last is the part of the agenda
  \<open>a_agenda\<close> (what other threads and the selector do while the call sleeps) not used up.\<close>

definition dial_block ::
  "bool \<Rightarrow> dial_env \<Rightarrow> tcp_address \<Rightarrow> int \<Rightarrow> selector \<Rightarrow> kern \<Rightarrow>
   (abort + (event_object option \<times> (connection option \<times> int) \<times> selector \<times> kern \<times> env list)) option" where
  "dial_block ipv6 a remote timeout s k =
     (case sock_open (if ipv6 then TCP_IPV6 else TCP_IPV4) (a_socket a) sock_new k of
        (e, sock, k) \<Rightarrow>
          if e \<noteq> 0 then Some (Inr (None, (None, e), s, sock_delete 0 sock k, a_agenda a))
          else let (ob, _) = eo_new sock;
                   (e, ob, s) = eo_init (a_slot1 a) 0 (a_register1 a) ob s
               in if e \<noteq> 0 then Some (Inr (Some ob, (None, e), s, k, a_agenda a))
                  else let e = fst (sock_connect (a_answers a) remote (eo_get ob))
                       in if e = EINPROGRESS
                          then (case connect_wait a timeout ob s of
                                  None \<Rightarrow> None
                                | Some (Inl x) \<Rightarrow> Some (Inl x)
                                | Some (Inr (e, s, ag)) \<Rightarrow>
                                    if e \<noteq> 0 then Some (Inr (Some ob, (None, e), s, k, ag))
                                    else Some (map_sum id (\<lambda>(r, ob, s, k). (Some ob, r, s, k, ag))
                                           (dial_connected ipv6 a remote ob s k)))
                          else if e \<noteq> 0 then Some (Inr (Some ob, (None, e), s, k, a_agenda a))
                          else Some (map_sum id (\<lambda>(r, ob, s, k). (Some ob, r, s, k, a_agenda a))
                                 (dial_connected ipv6 a remote ob s k)))"

text \<open>The end of the function. The event object is destroyed unless the operation of another
  call still refers to it (\<open>shared\<close>).\<close>

definition dial_finally ::
  "bool \<Rightarrow> event_object option \<Rightarrow> (connection option \<times> int) \<Rightarrow> dialer \<Rightarrow> selector \<Rightarrow> kern \<Rightarrow>
   (connection option \<times> int) \<times> dialer \<times> selector \<times> kern" where
  "dial_finally shared ob r d s k =
     (let (s, k) = (case ob of None \<Rightarrow> (s, k) | Some ob \<Rightarrow> if shared then (s, k) else eo_destroy ob s k);
          (conn, e) = r
      in ((if e \<noteq> 0 then None else conn, e), d\<lparr>d_socket := None, d_connecting := False\<rparr>, s, k))"

definition dial ::
  "bool \<Rightarrow> bool \<Rightarrow> dial_env \<Rightarrow> tcp_address option \<Rightarrow> dialer \<Rightarrow> selector \<Rightarrow> kern \<Rightarrow>
   (abort + ((connection option \<times> int) \<times> dialer \<times> selector \<times> kern \<times> env list)) option" where
  "dial ipv6 shared a remote d s k =
     (case remote of
        None \<Rightarrow> Some (Inr ((None, INVALID_ARGUMENT), d, s, k, a_agenda a))
      | Some address \<Rightarrow>
          if d_connecting d
          then (case dial_finally shared (d_socket d) (None, 0) d s k of
                  (r, d, s, k) \<Rightarrow> Some (Inr (r, d, s, k, a_agenda a)))
          else map_option (map_sum id (\<lambda>(ob, r, s, k, ag).
                   case dial_finally False ob r (d\<lparr>d_connecting := True\<rparr>) s k of
                     (r, d, s, k) \<Rightarrow> (r, d, s, k, ag)))
                 (dial_block ipv6 a address (d_timeout d) s k))"

definition dial_v4 where "dial_v4 = dial False"
definition dial_v6 where "dial_v6 = dial True"

datatype address = TcpAddr tcp_address | IpAddr ip_address

definition address_protocal :: "address \<Rightarrow> u32" where
  "address_protocal a =
     (case a of TcpAddr (Tcp4 t) \<Rightarrow> tcp4_protocal t | TcpAddr (Tcp6 t) \<Rightarrow> tcp6_protocal t
      | IpAddr (Ip4 i) \<Rightarrow> ip4_protocal i | IpAddr (Ip6 i) \<Rightarrow> ip6_protocal i)"

definition tcp_part :: "address \<Rightarrow> tcp_address option" where
  "tcp_part a = (case a of TcpAddr t \<Rightarrow> Some t | IpAddr _ \<Rightarrow> None)"

definition wrong_protocal :: "u32 \<Rightarrow> int" where
  "wrong_protocal p =
     (if p AND IPV4 = 0 \<and> p AND IPV6 = 0 then INVALID_NETWORK_PROTOCAL else INVALID_TRANSPORT_PROTOCAL)"

definition dialer_connect ::
  "bool \<Rightarrow> dial_env \<Rightarrow> address option \<Rightarrow> dialer \<Rightarrow> selector \<Rightarrow> kern \<Rightarrow>
   (abort + ((connection option \<times> int) \<times> dialer \<times> selector \<times> kern \<times> env list)) option" where
  "dialer_connect shared a remote d s k =
     (case remote of
        None \<Rightarrow> Some (Inr ((None, INVALID_ARGUMENT), d, s, k, a_agenda a))
      | Some x \<Rightarrow>
          if address_protocal x = TCP_IPV4 then dial_v4 shared a (tcp_part x) d s k
          else if address_protocal x = TCP_IPV6 then dial_v6 shared a (tcp_part x) d s k
          else Some (Inr ((None, wrong_protocal (address_protocal x)), d, s, k, a_agenda a)))"

definition isConnecting :: "dialer \<Rightarrow> bool" where "isConnecting d = d_connecting d"

text \<open>\<open>None\<close>: the assertion of \<open>notify\<close> fails. Without an event object nothing
  happens.\<close>

definition dialer_interrupt :: "dialer \<Rightarrow> selector \<Rightarrow> selector option" where
  "dialer_interrupt d s =
     (if isConnecting d
      then (case d_socket d of None \<Rightarrow> Some s | Some ob \<Rightarrow> eo_interrupt EVENT_OUT ob s)
      else Some s)"


subsection \<open>TcpListener\<close>

record listener =
  l_socket :: "event_object option"
  l_address :: "tcp_address option"
  l_timeout :: int
  l_listening :: bool

record listen_env =
  n_socket :: "int sysret"
  n_slot :: u64
  n_register :: "unit sysret"
  n_answers :: answers

definition listener_new :: "event_object \<Rightarrow> tcp_address \<Rightarrow> listener" where
  "listener_new ob local_address =
     \<lparr>l_socket = Some ob, l_address = Some local_address, l_timeout = -1, l_listening = True\<rparr>"

text \<open>\<open>open\<close> for one protocol. When the socket cannot be made or configured it is closed, and
  then destroyed.\<close>

definition listen_on ::
  "u32 \<Rightarrow> listen_env \<Rightarrow> tcp_address option \<Rightarrow> selector \<Rightarrow> kern \<Rightarrow>
   (listener option \<times> int) \<times> selector \<times> kern" where
  "listen_on protocal a local_address s k =
     (case local_address of
        None \<Rightarrow> ((None, INVALID_ARGUMENT), s, k)
      | Some addr \<Rightarrow>
          (case sock_open protocal (n_socket a) sock_new k of
             (e1, sock, k) \<Rightarrow>
               let e = (if e1 \<noteq> 0 then e1 else fst (sock_setReusePort (n_answers a) True sock))
               in if e \<noteq> 0
                  then (case sock_close 0 sock k of
                          (_, sock, k) \<Rightarrow> ((None, e), s, sock_delete 0 sock k))
                  else let (ob, _) = eo_new sock;
                           (e2, ob, s) = eo_init (n_slot a) 0 (n_register a) ob s;
                           e = (if e2 \<noteq> 0 then e2
                                else let e3 = fst (sock_bind (n_answers a) addr (eo_get ob))
                                     in if e3 \<noteq> 0 then e3 else fst (sock_listen (n_answers a) (eo_get ob)))
                       in if e \<noteq> 0
                          then (case eo_destroy ob s k of (s, k) \<Rightarrow> ((None, e), s, k))
                          else ((Some (listener_new ob addr), 0), s, k)))"

definition listen_v4 where "listen_v4 = listen_on TCP_IPV4"
definition listen_v6 where "listen_v6 = listen_on TCP_IPV6"

definition listener_open ::
  "listen_env \<Rightarrow> tcp_address option \<Rightarrow> selector \<Rightarrow> kern \<Rightarrow> (listener option \<times> int) \<times> selector \<times> kern" where
  "listener_open a local_address s k =
     (case local_address of
        None \<Rightarrow> ((None, INVALID_ARGUMENT), s, k)
      | Some x \<Rightarrow>
          let p = address_protocal (TcpAddr x)
          in if p = TCP_IPV4 then listen_v4 a (Some x) s k
             else if p = TCP_IPV6 then listen_v6 a (Some x) s k
             else ((None, wrong_protocal p), s, k))"

definition setAcceptTimeout :: "int \<Rightarrow> listener \<Rightarrow> listener" where
  "setAcceptTimeout milliseconds l = l\<lparr>l_timeout := milliseconds\<rparr>"

record accept_env =
  x_accepts :: "accepted sysret list"
  x_agenda :: "env list"
  x_junk :: "u8 list"
  x_slot :: u64
  x_register :: "unit sysret"

record accepting =
  ac_answers :: "accepted sysret list"
  ac_fd :: int
  ac_remote :: "u8 list option"

definition accept_op ::
  "int \<Rightarrow> accepting \<Rightarrow> stream \<Rightarrow> (bool \<times> int \<times> accepting \<times> stream) option" where
  "accept_op error l st =
     (case nonBlockingAccept (ac_answers l) (ac_remote l) of
        None \<Rightarrow> None
      | Some ((fin, e, fd, ra), rs) \<Rightarrow> Some (fin, e, \<lparr>ac_answers = rs, ac_fd = fd, ac_remote = ra\<rparr>, st))"

definition like :: "tcp_address \<Rightarrow> u8 list \<Rightarrow> tcp_address" where
  "like a d = (case a of Tcp4 _ \<Rightarrow> Tcp4 \<lparr>tcp4_data = d\<rparr> | Tcp6 _ \<Rightarrow> Tcp6 \<lparr>tcp6_data = d\<rparr>)"

text \<open>The listener is the stream of the wait: \<open>is_open\<close> reads \<open>_is_listening\<close>, which
  another thread's \<open>close\<close> clears (\<open>OtherShutdown\<close>). Without an event object the operation
  reports \<open>CLOSED\<close>.\<close>

definition accept_wait ::
  "accept_env \<Rightarrow> listener \<Rightarrow> selector \<Rightarrow> (abort + (int \<times> accepting \<times> stream)) option" where
  "accept_wait a l s =
     (let l0 = \<lparr>ac_answers = x_accepts a, ac_fd = INVALID_FD, ac_remote = Some (x_junk a)\<rparr>;
          go = (\<lambda>present n. perform (\<lambda>st. \<not> st_shutdown st) accept_op stop_operated never (l_timeout l)
                 (op_new present EVENT_IN) l0
                 (conn_stream (\<not> l_listening l) (l_timeout l) n (x_agenda a) [] [] []))
      in case l_socket l of
           None \<Rightarrow> go False \<lparr>n_descriptor = INVALID_FD, n_semaphores = (\<lambda>_. sem_default)\<rparr>
         | Some ob \<Rightarrow> (case notifier_of ob s of None \<Rightarrow> Some (Inl AssertionFailed) | Some n \<Rightarrow> go True n))"

text \<open>\<open>accept4\<close> has opened the descriptor it returned.\<close>

definition listener_accept ::
  "accept_env \<Rightarrow> listener \<Rightarrow> selector \<Rightarrow> kern \<Rightarrow>
   (abort + ((connection option \<times> int) \<times> selector \<times> kern)) option" where
  "listener_accept a l s k =
     (if \<not> l_listening l then Some (Inr ((None, CLOSED), s, k))
      else case l_address l of
        None \<Rightarrow> Some (Inl AssertionFailed)
      | Some own \<Rightarrow>
          (case accept_wait a l s of
             None \<Rightarrow> None
           | Some (Inl x) \<Rightarrow> Some (Inl x)
           | Some (Inr (e, ac, st)) \<Rightarrow>
               let s = (case l_socket l of None \<Rightarrow> s | Some ob \<Rightarrow> put_notifier ob (st_notifier st) s)
               in if e \<noteq> 0 then Some (Inr ((None, e), s, k))
                  else case ac_remote ac of
                    None \<Rightarrow> Some (Inl AssertionFailed)
                  | Some d \<Rightarrow>
                      let k = k\<lparr>open_fds := insert (ac_fd ac) (open_fds k)\<rparr>;
                          (ev, _) = eo_new (sock_of (ac_fd ac));
                          (e, ev, s) = eo_init (x_slot a) 0 (x_register a) ev s
                      in if e \<noteq> 0
                         then (case eo_destroy ev s k of (s, k) \<Rightarrow> Some (Inr ((None, e), s, k)))
                         else Some (Inr ((Some (conn_new ev (Some own) (Some (like own d))), 0), s, k))))"

definition listener_interrupt :: "listener \<Rightarrow> selector \<Rightarrow> selector option" where
  "listener_interrupt l s =
     (case l_socket l of None \<Rightarrow> Some s | Some ob \<Rightarrow> eo_interrupt EVENT_IN ob s)"

text \<open>\<open>shared\<close>: an \<open>accept\<close> in progress still refers to the event object.\<close>

definition listener_close :: "bool \<Rightarrow> listener \<Rightarrow> selector \<Rightarrow> kern \<Rightarrow> (listener \<times> selector \<times> kern) option" where
  "listener_close shared l s k =
     (let l = l\<lparr>l_listening := False\<rparr>
      in map_option (\<lambda>s.
           let (s, k) = (case l_socket l of None \<Rightarrow> (s, k)
                         | Some ob \<Rightarrow> if shared then (s, k) else eo_destroy ob s k)
           in (l\<lparr>l_socket := None, l_address := None\<rparr>, s, k))
         (listener_interrupt l s))"

definition listener_delete :: "bool \<Rightarrow> listener \<Rightarrow> selector \<Rightarrow> kern \<Rightarrow> (selector \<times> kern) option" where
  "listener_delete shared l s k = map_option snd (listener_close shared l s k)"

definition listener_address :: "listener \<Rightarrow> tcp_address option" where "listener_address l = l_address l"

definition isListening :: "listener \<Rightarrow> bool" where "isListening l = l_listening l"

subsection \<open>Descriptors of the dialer\<close>

subsection \<open>Descriptors over a destruction\<close>

lemma sys_close_fds: "open_fds (snd (sys_close io fd k)) = open_fds k - {fd}"
  by (auto simp: sys_close_def)

lemma sock_close_fds:
  "open_fds (snd (snd (sock_close 0 s k))) = open_fds k - (if socket_fd s = INVALID_FD then {} else {socket_fd s})"
  by (auto simp: sock_close_def sys_close_def)

lemma sock_delete_fds:
  "open_fds (sock_delete 0 s k) = open_fds k - (if socket_fd s = INVALID_FD then {} else {socket_fd s})"
  using sock_close_fds[of s k] by (simp add: sock_delete_def)

lemma sock_close_resource: "fst (snd (sock_close 0 s k)) = s \<or> socket_fd (fst (snd (sock_close 0 s k))) = INVALID_FD"
  by (auto simp: sock_close_def sys_close_def)

lemma eo_destroy_fds:
  "open_fds (snd (eo_destroy ob s k)) =
     open_fds k - (if socket_fd (eo_resource ob) = INVALID_FD then {} else {socket_fd (eo_resource ob)})"
proof (cases "eo_notifier ob")
  case None
  then show ?thesis
    by (simp add: eo_destroy_def eo_delete_body_def eo_delete_member_def sock_delete_fds)
next
  case (Some a)
  obtain e r k' where c: "sock_close 0 (eo_resource ob) k = (e, r, k')" by (cases "sock_close 0 (eo_resource ob) k")
  have "open_fds k' = open_fds k - (if socket_fd (eo_resource ob) = INVALID_FD then {} else {socket_fd (eo_resource ob)})"
    using sock_close_fds[of "eo_resource ob" k] c by simp
  moreover have "r = eo_resource ob \<or> socket_fd r = INVALID_FD"
    using sock_close_resource[of "eo_resource ob" k] c by simp
  ultimately show ?thesis using Some c
    by (auto simp: eo_destroy_def eo_delete_body_def eo_delete_member_def Let_def sock_delete_fds
        split: prod.splits)
qed

text \<open>The errors of the kernel are not zero, and the new descriptor is a new one.\<close>

definition dial_env_ok :: "dial_env \<Rightarrow> kern \<Rightarrow> bool" where
  "dial_env_ok a k \<longleftrightarrow>
     (case a_socket a of Ret fd \<Rightarrow> fd \<noteq> INVALID_FD \<and> fd \<notin> open_fds k | Fail e \<Rightarrow> e \<noteq> 0) \<and>
     (\<forall>e. a_register1 a = Fail e \<longrightarrow> e \<noteq> 0) \<and> (\<forall>e. a_register2 a = Fail e \<longrightarrow> e \<noteq> 0)"

lemma eo_init_cases:
  assumes "eo_init p junk reply ob s = (e, ob', s')" "\<forall>x. reply = Fail x \<longrightarrow> x \<noteq> 0"
  shows "eo_resource ob' = eo_resource ob \<and> (e = 0 \<longrightarrow> eo_notifier ob' = Some p)"
  using assms by (auto simp: eo_init_def registerObject_def Let_def split: sysret.splits)

text \<open>What the block leaves open: nothing of its own without a connection, the connection's
  descriptor with one.\<close>

definition block_ok ::
  "int \<Rightarrow> kern \<Rightarrow> event_object option \<Rightarrow> connection option \<times> int \<Rightarrow> kern \<Rightarrow> bool" where
  "block_ok fd k ob r k' \<longleftrightarrow>
     (case r of
        (Some c, e) \<Rightarrow> e = 0 \<and> socket_fd (eo_resource (c_socket c)) = fd \<and>
          open_fds k' = insert fd (open_fds k) \<and> (\<exists>x. ob = Some x \<and> socket_fd (eo_resource x) = INVALID_FD)
      | (None, e) \<Rightarrow> e \<noteq> 0 \<and> (\<exists>x. ob = Some x \<and>
          open_fds k' - (if socket_fd (eo_resource x) = INVALID_FD then {} else {socket_fd (eo_resource x)})
            = open_fds k))"

lemma dial_connected_ok:
  assumes "dial_connected ipv6 a remote ob s k1 = Inr (r, ob', s', k')" "dial_env_ok a k"
    and "socket_fd (eo_resource ob) = fd" "fd \<noteq> INVALID_FD" "fd \<notin> open_fds k" "open_fds k1 = insert fd (open_fds k)"
  shows "block_ok fd k (Some ob') r k'"
proof -
  obtain junk junk4 junk6 where j: "a_junk a = (junk, junk4, junk6)" by (cases "a_junk a")
  obtain ob1 s1 where rel: "eo_release ob s = (ob1, s1)" by (cases "eo_release ob s")
  have r1: "eo_resource ob1 = eo_resource ob" using rel by (auto simp: eo_release_def split: if_splits)
  obtain la e where g: "getLocalAddress junk junk4 junk6 (a_getsockname a) = Inr (la, e)"
    using assms(1) j rel by (auto simp: dial_connected_def Let_def split: sum.splits prod.splits)
  let ?ob = "ob1\<lparr>eo_resource := (eo_resource ob1)\<lparr>socket_fd := INVALID_FD\<rparr>\<rparr>"
  let ?c = "\<lparr>socket_fd = fd\<rparr>"
  show ?thesis
  proof (cases "e = 0")
    case False
    with assms(1) j rel g r1 assms(3) have "r = (None, e)" "ob' = ?ob" "k' = sock_delete 0 ?c k1"
      by (auto simp: dial_connected_def Let_def sock_move_def)
    with False assms(4-6) show ?thesis by (auto simp: block_ok_def sock_delete_fds)
  next
    case True
    obtain e2 ev s2 where i: "eo_init (a_slot2 a) 0 (a_register2 a) \<lparr>eo_notifier = None, eo_resource = ?c\<rparr> s1 = (e2, ev, s2)"
      by (cases "eo_init (a_slot2 a) 0 (a_register2 a) \<lparr>eo_notifier = None, eo_resource = ?c\<rparr> s1")
    have ev: "eo_resource ev = ?c" using eo_init_cases[OF i] assms(2) by (auto simp: dial_env_ok_def)
    have res: "if e2 \<noteq> 0 then r = (None, e2) \<and> ob' = ?ob \<and> k' = snd (eo_destroy ev s2 k1)
      else r = (Some (conn_new ev la (Some remote)), 0) \<and> ob' = ?ob \<and> k' = k1"
      using assms(1) j rel g True r1 assms(3) i
      by (auto simp: dial_connected_def Let_def sock_move_def eo_new_def split: if_splits prod.splits)
    show ?thesis
    proof (cases "e2 = 0")
      case True
      with res ev assms(6) show ?thesis by (simp add: block_ok_def conn_new_def)
    next
      case False
      with res have "k' = snd (eo_destroy ev s2 k1)" by simp
      then have "open_fds k' = open_fds k" using assms(4-6) ev by (auto simp: eo_destroy_fds)
      with False res show ?thesis by (simp add: block_ok_def)
    qed
  qed
qed

lemma dial_block_ok:
  assumes "dial_block ipv6 a remote t s k = Some (Inr (ob, r, s', k', ag))" "dial_env_ok a k"
  shows "(\<exists>e. a_socket a = Fail e \<and> ob = None \<and> r = (None, e) \<and> e \<noteq> 0 \<and> k' = k) \<or>
    (\<exists>fd. a_socket a = Ret fd \<and> block_ok fd k ob r k')"
proof (cases "a_socket a")
  case (Fail e)
  with assms show ?thesis
    by (auto simp: dial_block_def open_outcome sock_new_def dial_env_ok_def sock_delete_def split: if_splits)
next
  case (Ret fd)
  let ?k = "\<lparr>open_fds = insert fd (open_fds k)\<rparr>"
  have f: "fd \<noteq> INVALID_FD" "fd \<notin> open_fds k" using assms(2) Ret by (auto simp: dial_env_ok_def)
  obtain e ob1 s1 where i: "eo_init (a_slot1 a) 0 (a_register1 a) \<lparr>eo_notifier = None, eo_resource = \<lparr>socket_fd = fd\<rparr>\<rparr> s = (e, ob1, s1)"
    by (cases "eo_init (a_slot1 a) 0 (a_register1 a) \<lparr>eo_notifier = None, eo_resource = \<lparr>socket_fd = fd\<rparr>\<rparr> s")
  have ob1: "socket_fd (eo_resource ob1) = fd" using eo_init_cases[OF i] assms(2) by (auto simp: dial_env_ok_def)
  have closed: "open_fds ?k - (if socket_fd (eo_resource ob1) = INVALID_FD then {} else {socket_fd (eo_resource ob1)}) = open_fds k"
    using ob1 f by auto
  have conn: "block_ok fd k ob r k'"
    if "map_sum id (\<lambda>(r, ob, s, k). (Some ob, r, s, k, ag')) (dial_connected ipv6 a remote ob1 s2 ?k) =
      Inr (ob, r, s', k', ag)" for s2 ag'
    using that dial_connected_ok[OF _ assms(2) ob1 f, of ipv6 remote s2 ?k]
    by (cases "dial_connected ipv6 a remote ob1 s2 ?k") auto
  have fail: "block_ok fd k ob r k'" if "ob = Some ob1" "r = (None, x)" "x \<noteq> 0" "k' = ?k" for x
    using that closed by (simp add: block_ok_def)
  have "block_ok fd k ob r k'"
    using assms(1) Ret i conn fail
    by (auto simp: dial_block_def open_outcome eo_new_def sock_move_def Let_def
        split: if_splits option.splits sum.splits)
  with Ret show ?thesis by blast
qed

text \<open>Claim C29: A call of the dialer with an address, whatever the kernel answers (its errors are
  not zero and a new socket gets a descriptor that was not open), leaves no connect in progress when it returns. Made while no connect is in
  progress, it returns a connection exactly when it reports no error, and keeps no descriptor
  open but the connection's. Made while one is in progress it returns neither a connection nor an
  error and opens nothing, but takes the event object away from the call in progress.\<close>

theorem dial_descriptors:
  assumes "dial ipv6 shared a (Some remote) d s k = Some (Inr ((conn, e), d', s', k', ag))"
    and "dial_env_ok a k"
  shows "\<not> d_connecting d' \<and> d_socket d' = None \<and>
    (if d_connecting d
     then conn = None \<and> e = 0 \<and> open_fds k' \<subseteq> open_fds k \<and> (shared \<longrightarrow> s' = s \<and> k' = k)
     else (conn = None \<longleftrightarrow> e \<noteq> 0) \<and>
       (case conn of
          None \<Rightarrow> open_fds k' = open_fds k
        | Some c \<Rightarrow> a_socket a = Ret (socket_fd (eo_resource (c_socket c))) \<and>
            open_fds k' = insert (socket_fd (eo_resource (c_socket c))) (open_fds k)))"
proof (cases "d_connecting d")
  case True
  have "dial_finally shared (d_socket d) (None, 0) d s k = ((conn, e), d', s', k')"
    using assms(1) True by (auto simp: dial_def split: prod.splits)
  then have f: "conn = None" "e = 0" "d' = d\<lparr>d_socket := None, d_connecting := False\<rparr>"
    "(s', k') = (case d_socket d of None \<Rightarrow> (s, k)
       | Some ob \<Rightarrow> if shared then (s, k) else eo_destroy ob s k)"
    by (auto simp: dial_finally_def Let_def split: prod.splits)
  have "open_fds k' \<subseteq> open_fds k \<and> (shared \<longrightarrow> s' = s \<and> k' = k)"
  proof (cases "d_socket d")
    case (Some ob)
    then show ?thesis using f(4) eo_destroy_fds[of ob s k] by (cases shared) (auto dest: arg_cong[of _ _ snd])
  qed (use f(4) in simp)
  with True f(1-3) show ?thesis by simp
next
  case False
  have "map_option (map_sum id (\<lambda>(ob, r, s, k, ag).
      case dial_finally False ob r (d\<lparr>d_connecting := True\<rparr>) s k of (r, d, s, k) \<Rightarrow> (r, d, s, k, ag)))
      (dial_block ipv6 a remote (d_timeout d) s k) = Some (Inr ((conn, e), d', s', k', ag))"
    using assms(1) False by (simp add: dial_def)
  from map_outcome[OF this] obtain x
    where x: "dial_block ipv6 a remote (d_timeout d) s k = Some (Inr x)"
    "(\<lambda>(ob, r, s, k, ag). case dial_finally False ob r (d\<lparr>d_connecting := True\<rparr>) s k of
        (r, d, s, k) \<Rightarrow> (r, d, s, k, ag)) x = ((conn, e), d', s', k', ag)"
    by auto
  obtain ob r s1 k1 ag1 where x5: "x = (ob, r, s1, k1, ag1)" by (cases x)
  have b: "dial_block ipv6 a remote (d_timeout d) s k = Some (Inr (ob, r, s1, k1, ag1))"
    using x(1) x5 by simp
  have fin: "dial_finally False ob r (d\<lparr>d_connecting := True\<rparr>) s1 k1 = ((conn, e), d', s', k')"
    using x(2) x5 by (cases "dial_finally False ob r (d\<lparr>d_connecting := True\<rparr>) s1 k1") auto
  obtain c0 e0 where r: "r = (c0, e0)" by (cases r)
  have d': "\<not> d_connecting d' \<and> d_socket d' = None" and ce: "e = e0" "conn = (if e0 \<noteq> 0 then None else c0)"
    using fin r by (auto simp: dial_finally_def Let_def split: prod.splits option.splits)
  from dial_block_ok[OF b assms(2)] show ?thesis
  proof (elim disjE exE conjE)
    fix x assume "a_socket a = Fail x" "ob = None" "r = (None, x)" "x \<noteq> 0" "k1 = k"
    with fin d' False show ?thesis by (auto simp: dial_finally_def Let_def)
  next
    fix fd assume f: "a_socket a = Ret fd" "block_ok fd k ob r k1"
    then obtain x where x: "ob = Some x" using r by (auto simp: block_ok_def split: option.splits)
    have k': "k' = snd (eo_destroy x s1 k1)"
      using fin x by (auto simp: dial_finally_def Let_def split: prod.splits)
    show ?thesis
    proof (cases c0)
      case None
      with f r x k' ce d' False show ?thesis by (simp add: block_ok_def eo_destroy_fds)
    next
      case (Some c)
      with f r x k' ce d' False show ?thesis by (simp add: block_ok_def eo_destroy_fds)
    qed
  qed
qed

subsection \<open>Waiting for a connection\<close>

text \<open>The operation loop over local state: \<open>again k l\<close> says that the next \<open>k\<close> attempts will
  not finish, \<open>nxt\<close> is what an attempt does to the local variables.\<close>

lemma loop_rounds:
  assumes open_ok: "\<And>st. \<not> st_shutdown st \<Longrightarrow> is_open st"
    and again: "\<And>k e l st. again (Suc k) l \<Longrightarrow> nbo e l st = Some (False, e1, nxt l, st) \<and> again k (nxt l)"
  shows "blocks (op_event op) es st \<Longrightarrow> \<not> op_interrupted op \<Longrightarrow> again (length es) l \<Longrightarrow>
    perform_loop is_open nbo on_op never t e op l st =
    perform_loop is_open nbo on_op never t (if es = [] then e else e1) op ((nxt ^^ length es) l) (skip_rounds es st)"
proof (induction es arbitrary: st e l)
  case Nil then show ?case by (cases st) (simp add: skip_rounds_def)
next
  case (Cons w es)
  let ?st = "st\<lparr>st_agenda := tl (st_agenda st)\<rparr>"
  have n: "nbo e l st = Some (False, e1, nxt l, st)" "again (length es) (nxt l)"
    using again[of "length es" l e st] Cons.prems(3) by simp_all
  have "event_wait b (op_event op) st = Some (True, ?st)" for b
    using Cons.prems(1) blocksD(4)[OF Cons.prems(1)] by (intro wait_woken[of _ _ w]) (auto simp: blocks_def)
  with n Cons.prems open_ok[OF blocksD(2)[OF Cons.prems(1)]]
  have "perform_loop is_open nbo on_op never t e op l st = perform_loop is_open nbo on_op never t e1 op (nxt l) ?st"
    by (subst perform_loop.simps) (simp add: never_def)
  also have "\<dots> = perform_loop is_open nbo on_op never t e1 op ((nxt ^^ length es) (nxt l)) (skip_rounds es ?st)"
    using Cons.IH[OF blocks_tl[OF Cons.prems(1)] Cons.prems(2) n(2), of e1] by simp
  also have "skip_rounds es ?st = skip_rounds (w # es) st" by (simp add: skip_rounds_def drop_Suc)
  finally show ?case by (simp add: funpow_swap1)
qed

lemma skip_notifier [simp]: "st_notifier (skip_rounds es st) = st_notifier st"
  by (simp add: skip_rounds_def)

lemma conn_stream_simps [simp]:
  "st_notifier (conn_stream b t n ag m rx tx) = n" "st_shutdown (conn_stream b t n ag m rx tx) = b"
  by (simp_all add: conn_stream_def)

lemma blocks_conn_stream:
  "n_semaphores n ev = sem_default \<Longrightarrow> \<forall>e \<in> set es. waker ev True e \<Longrightarrow>
   blocks ev es (conn_stream False t n (es @ ag) m rx tx)"
  by (simp add: blocks_def conn_stream_def)

lemma tl_funpow: "(tl ^^ k) (replicate k x @ rs) = rs"
  by (induction k) (simp_all add: funpow_swap1)

lemma put_notifier_same: "notifier_of ob s = Some n \<Longrightarrow> put_notifier ob n s = s"
  by (cases s; cases "eo_notifier ob") (auto simp: put_notifier_def notifier_of_def fun_upd_idem)

lemma connect_wait_done:
  assumes "notifier_of ob s = Some n" "n_semaphores n EVENT_OUT = sem_default"
    and "a_so_error a = replicate (length es) (Ret EINPROGRESS) @ Ret x # rs" "x \<noteq> EINPROGRESS"
    and "a_agenda a = es @ ag" "\<forall>e \<in> set es. waker EVENT_OUT True e"
  shows "connect_wait a t ob s = Some (Inr (x, s, ag))"
proof -
  let ?st = "conn_stream False t n (a_agenda a) [] [] []"
  let ?again = "\<lambda>k l. l = replicate k (Ret EINPROGRESS) @ Ret x # rs"
  have b: "blocks EVENT_OUT es ?st" using assms by (simp add: blocks_conn_stream)
  have s: "connect_op e l st = Some (False, EINPROGRESS, tl l, st) \<and> ?again k (tl l)"
    if "?again (Suc k) l" for k e l st
    using that by (simp add: connect_op_def nonBlockingConnect_def)
  have "perform_loop (\<lambda>_. True) connect_op stop_operated never t 0 (op_new True EVENT_OUT) (a_so_error a) ?st =
    perform_loop (\<lambda>_. True) connect_op stop_operated never t (if es = [] then 0 else EINPROGRESS)
      (op_new True EVENT_OUT) (Ret x # rs) (skip_rounds es ?st)"
    using loop_rounds[of "\<lambda>_. True" ?again connect_op EINPROGRESS tl "op_new True EVENT_OUT" es ?st
        "a_so_error a" stop_operated t 0, OF _ s] b assms(3) by (simp add: tl_funpow)
  also have "\<dots> = Some (Inr (x, rs, skip_rounds es ?st))"
    using assms(4) by (subst perform_loop.simps) (simp add: connect_op_def nonBlockingConnect_def stop_operated_def)
  finally show ?thesis
    using assms(1,5) by (simp add: connect_wait_def perform_starts put_notifier_same)
      (simp add: skip_rounds_def conn_stream_def)
qed

lemma eo_init_registered:
  "eo_init p junk (Ret ()) ob s = (0, ob\<lparr>eo_notifier := Some p\<rparr>, registered p junk (socket_fd (eo_resource ob)) s)"
  by (simp add: eo_init_def registerObject_def registered_def sock_descriptor_def Let_def)

lemma eo_destroy_empty:
  "eo_notifier ob = None \<Longrightarrow> socket_fd (eo_resource ob) = INVALID_FD \<Longrightarrow> eo_destroy ob s k = (s, k)"
  by (simp add: eo_destroy_def eo_delete_body_def eo_delete_member_def sock_delete_def)

text \<open>A selector after an object was registered and removed.\<close>

definition released :: "u64 \<Rightarrow> selector \<Rightarrow> selector" where
  "released p s = freeNotifier p (set_descriptor INVALID_FD p s)"

lemma released_fresh:
  assumes "fresh_slot p s" "fresh_slot q s"
  shows "fresh_slot q (released p (registered p junk fd s))"
proof -
  have "sem_reset sem_default = sem_default" by (simp add: sem_ops)
  then show ?thesis using assms registered_fresh[OF assms(1), of junk fd]
    by (auto simp: fresh_slot_def released_def freeNotifier_def set_descriptor_def registered_simps
        reset_semaphores_def)
qed

lemma released_in_use: "p \<noteq> 0 \<Longrightarrow> in_use (released p s) = in_use s - {p}"
  by (simp add: released_def freeNotifier_def set_descriptor_def)

lemma eo_release_registered:
  "eo_notifier ob = Some p \<Longrightarrow> eo_release ob s = (ob\<lparr>eo_notifier := None\<rparr>, released p s)"
  by (simp add: eo_release_def deregisterObject_def released_def Let_def)

lemma dial_connected_done:
  assumes "eo_notifier ob = Some p" "p \<noteq> 0" "socket_fd (eo_resource ob) = fd"
    and "a_junk a = (j, j4, j6)" "getLocalAddress j j4 j6 (a_getsockname a) = Inr (Some la, 0)"
    and "ipv6 \<Longrightarrow> \<exists>t. la = Tcp6 t" "a_register2 a = Ret ()"
  shows "dial_connected ipv6 a remote ob s k =
    Inr ((Some (conn_new \<lparr>eo_notifier = Some (a_slot2 a), eo_resource = sock_of fd\<rparr> (Some la) (Some remote)), 0),
      \<lparr>eo_notifier = None, eo_resource = \<lparr>socket_fd = INVALID_FD\<rparr>\<rparr>,
      registered (a_slot2 a) 0 fd (released p s), k)"
proof -
  have "\<not> (ipv6 \<and> (\<forall>t. Some la \<noteq> Some (Tcp6 t)))" using assms(6) by auto
  then show ?thesis
    using assms(1-5,7)
    by (simp add: dial_connected_def eo_release_registered sock_move_def eo_new_def eo_init_registered Let_def sock_of_def)
qed


definition sample_dial :: dial_env where
  "sample_dial = \<lparr>a_socket = Ret 7, a_slot1 = 64, a_register1 = Ret (), a_answers = (\<lambda>_. Fail EINPROGRESS),
     a_so_error = [Ret EINPROGRESS, Ret 0], a_agenda = [Ready EPOLLOUT],
     a_getsockname = Ret (AF_INET_bytes @ replicate 14 0, 16),
     a_junk = (replicate 128 0, replicate 16 0, replicate 28 0), a_slot2 = 64, a_register2 = Ret ()\<rparr>"

definition local0 :: tcp_address where "local0 = Tcp4 \<lparr>tcp4_data = AF_INET_bytes @ replicate 14 0\<rparr>"

lemma sample_local:
  "getLocalAddress (replicate 128 0) (replicate 16 0) (replicate 28 0) (Ret (AF_INET_bytes @ replicate 14 0, 16))
     = Inr (Some local0, 0)"
proof -
  have "getLocalAddress (replicate 128 0) (replicate 16 0) (replicate 28 0) (Ret (AF_INET_bytes @ replicate 14 0, 16)) =
    Inr (let d = (AF_INET_bytes @ replicate 14 0) @ drop 16 (replicate 128 0) in
     if window 0 2 d = AF_INET_bytes then (Some (Tcp4 \<lparr>tcp4_data = take 16 d\<rparr>), 0)
     else if window 0 2 d = AF_INET6_bytes then (Some (Tcp6 \<lparr>tcp6_data = take 28 d\<rparr>), 0)
     else (None, INVALID_NETWORK_PROTOCAL))"
    unfolding getLocalAddress_def by (rule address_of_outcome) simp_all
  also have "\<dots> = Inr (Some local0, 0)" by (simp add: window_def local0_def Let_def)
  finally show ?thesis .
qed

lemma empty_selector_slot: "a \<noteq> 0 \<Longrightarrow> fresh_slot a empty_selector"
  by (simp add: fresh_slot_def empty_selector_def)


lemma dial_descriptors_witness:
  "\<exists>d' s' k'. dial False False (sample_dial\<lparr>a_register1 := Fail 12\<rparr>) (Some local0) (fst dialer_open) empty_selector
      \<lparr>open_fds = {}\<rparr> = Some (Inr ((None, 12), d', s', k', [Ready EPOLLOUT])) \<and> open_fds k' = {}"
proof -
  let ?a = "sample_dial\<lparr>a_register1 := Fail 12\<rparr>"
  have "\<exists>d' s' k'. dial False False ?a (Some local0) (fst dialer_open) empty_selector \<lparr>open_fds = {}\<rparr> =
      Some (Inr ((None, 12), d', s', k', [Ready EPOLLOUT]))"
    by (simp add: dial_def dial_block_def sample_dial_def sock_open_def sock_new_def eo_new_def sock_move_def
        eo_init_def registerObject_def dialer_open_def dial_finally_def Let_def split: prod.splits)
  then obtain d' s' k' where r: "dial False False ?a (Some local0) (fst dialer_open) empty_selector \<lparr>open_fds = {}\<rparr> =
      Some (Inr ((None, 12), d', s', k', [Ready EPOLLOUT]))" by blast
  have "open_fds k' = {}"
    using dial_descriptors[OF r] by (simp add: dialer_open_def dial_env_ok_def sample_dial_def)
  with r show ?thesis by blast
qed

text \<open>A second call while one is in progress takes the event object from it, clears the flag and
  returns no connection and no error.\<close>

lemma second_dial_breaks_first:
  "d_connecting d \<Longrightarrow> dial ipv6 True a (Some remote) d s k =
     Some (Inr ((None, 0), d\<lparr>d_socket := None, d_connecting := False\<rparr>, s, k, a_agenda a))"
  by (cases "d_socket d") (simp_all add: dial_def dial_finally_def)

subsection \<open>Accepting\<close>

definition accept_start :: "accept_env \<Rightarrow> accepting" where
  "accept_start a = \<lparr>ac_answers = x_accepts a, ac_fd = INVALID_FD, ac_remote = Some (x_junk a)\<rparr>"

definition accept_again :: "accepted sysret list \<Rightarrow> nat \<Rightarrow> accepting \<Rightarrow> bool" where
  "accept_again rest k l \<longleftrightarrow> ac_answers l = replicate k (Fail EAGAIN) @ rest"

definition accept_next :: "accepting \<Rightarrow> accepting" where
  "accept_next l = l\<lparr>ac_answers := tl (ac_answers l), ac_fd := INVALID_FD\<rparr>"

lemma accept_again_step:
  "accept_again rest (Suc k) l \<Longrightarrow>
   accept_op e l st = Some (False, EAGAIN, accept_next l, st) \<and> accept_again rest k (accept_next l)"
  by (cases l) (simp add: accept_again_def accept_op_def nonBlockingAccept_def accept_next_def)

lemma accept_next_funpow:
  "(accept_next ^^ k) l = (if k = 0 then l else l\<lparr>ac_answers := drop k (ac_answers l), ac_fd := INVALID_FD\<rparr>)"
  by (induction k) (auto simp: accept_next_def drop_Suc tl_drop)

lemma accept_rounds:
  assumes "blocks EVENT_IN es st" "x_accepts a = replicate (length es) (Fail EAGAIN) @ rest"
  shows "perform_loop (\<lambda>st. \<not> st_shutdown st) accept_op stop_operated never t 0 (op_new True EVENT_IN) (accept_start a) st =
    perform_loop (\<lambda>st. \<not> st_shutdown st) accept_op stop_operated never t (if es = [] then 0 else EAGAIN)
      (op_new True EVENT_IN) \<lparr>ac_answers = rest, ac_fd = INVALID_FD, ac_remote = Some (x_junk a)\<rparr> (skip_rounds es st)"
proof -
  have g: "accept_again rest (length es) (accept_start a)"
    using assms(2) by (simp add: accept_again_def accept_start_def)
  have f: "(accept_next ^^ length es) (accept_start a) = \<lparr>ac_answers = rest, ac_fd = INVALID_FD, ac_remote = Some (x_junk a)\<rparr>"
    using assms(2) by (simp add: accept_next_funpow accept_start_def)
  show ?thesis
    using loop_rounds[of "\<lambda>st. \<not> st_shutdown st" "accept_again rest" accept_op EAGAIN accept_next
        "op_new True EVENT_IN" es st "accept_start a" stop_operated t 0, OF _ accept_again_step] assms(1) g
    by (simp add: f)
qed

lemma accept_op_answer:
  assumes "r \<noteq> Fail EINTR" "r \<noteq> Fail EAGAIN"
  shows "accept_op e \<lparr>ac_answers = r # rs, ac_fd = fd0, ac_remote = Some d\<rparr> st = Some (True, (case r of
      Ret (fd, x, n) \<Rightarrow> (0, \<lparr>ac_answers = rs, ac_fd = fd, ac_remote =
        if length d < n then None else Some (store_address d x)\<rparr>, st)
    | Fail x \<Rightarrow> (x, \<lparr>ac_answers = rs, ac_fd = INVALID_FD, ac_remote = Some d\<rparr>, st)))"
  using assms by (auto simp: accept_op_def nonBlockingAccept_def split: sysret.split)

text \<open>A listener with an accept that is woken each time it sleeps.\<close>

definition accept_ready :: "accept_env \<Rightarrow> env list \<Rightarrow> listener \<Rightarrow> event_object \<Rightarrow> tcp_address \<Rightarrow> selector \<Rightarrow> bool" where
  "accept_ready a es l ob own s \<longleftrightarrow> l_listening l \<and> l_socket l = Some ob \<and> l_address l = Some own \<and>
     (\<exists>n. notifier_of ob s = Some n \<and> n_semaphores n EVENT_IN = sem_default) \<and>
     (\<exists>ag. x_agenda a = es @ ag) \<and> (\<forall>e \<in> set es. waker EVENT_IN True e)"

lemma accept_wait_loop:
  assumes "accept_ready a es l ob own s" "x_accepts a = replicate (length es) (Fail EAGAIN) @ rest"
  shows "\<exists>n. notifier_of ob s = Some n \<and> n_semaphores n EVENT_IN = sem_default \<and> accept_wait a l s =
    perform_loop (\<lambda>st. \<not> st_shutdown st) accept_op stop_operated never (l_timeout l) (if es = [] then 0 else EAGAIN)
      (op_new True EVENT_IN) \<lparr>ac_answers = rest, ac_fd = INVALID_FD, ac_remote = Some (x_junk a)\<rparr>
      (skip_rounds es (conn_stream False (l_timeout l) n (x_agenda a) [] [] []))"
proof -
  obtain n ag where n: "notifier_of ob s = Some n" "n_semaphores n EVENT_IN = sem_default"
    "x_agenda a = es @ ag" "\<forall>e \<in> set es. waker EVENT_IN True e"
    using assms(1) by (auto simp: accept_ready_def)
  have b: "blocks EVENT_IN es (conn_stream False (l_timeout l) n (x_agenda a) [] [] [])"
    using n by (simp add: blocks_conn_stream)
  have "accept_wait a l s = perform_loop (\<lambda>st. \<not> st_shutdown st) accept_op stop_operated never (l_timeout l) 0
      (op_new True EVENT_IN) (accept_start a) (conn_stream False (l_timeout l) n (x_agenda a) [] [] [])"
    using assms(1) n by (simp add: accept_wait_def accept_ready_def perform_starts accept_start_def Let_def)
  with accept_rounds[OF b assms(2)] n show ?thesis by simp
qed

text \<open>An accept on an open listener, woken each time it sleeps, waits once per
  \<open>EAGAIN\<close> and returns a connection on the accepted descriptor, registered with a fresh
  notifier, with the listener's address and the peer's; it returns the kernel's error, with no
  connection, when there is one. An address the kernel reports longer than the object fails the
  assertion.\<close>

theorem accept_returns:
  assumes "accept_ready a es l ob own s" "fresh_slot (x_slot a) s"
    and "x_accepts a = replicate (length es) (Fail EAGAIN) @ r # rs"
    and "r \<noteq> Fail EINTR" "r \<noteq> Fail EAGAIN" "r \<noteq> Fail 0"
    and "x_register a = Ret ()"
  shows "case r of
      Ret (fd, x, n) \<Rightarrow>
        if length (x_junk a) < n then listener_accept a l s k = Some (Inl AssertionFailed)
        else \<exists>s'. listener_accept a l s k = Some (Inr ((Some (conn_new
            \<lparr>eo_notifier = Some (x_slot a), eo_resource = sock_of fd\<rparr> (Some own)
            (Some (like own (store_address (x_junk a) x)))), 0), s', k\<lparr>open_fds := insert fd (open_fds k)\<rparr>)) \<and>
          notifiers s' (x_slot a) = Some \<lparr>n_descriptor = fd, n_semaphores = (\<lambda>_. sem_default)\<rparr>
    | Fail e \<Rightarrow> listener_accept a l s k = Some (Inr ((None, e), s, k))"
proof -
  let ?st = "\<lambda>n. skip_rounds es (conn_stream False (l_timeout l) n (x_agenda a) [] [] [])"
  obtain n where n: "notifier_of ob s = Some n" "accept_wait a l s =
    perform_loop (\<lambda>st. \<not> st_shutdown st) accept_op stop_operated never (l_timeout l) (if es = [] then 0 else EAGAIN)
      (op_new True EVENT_IN) \<lparr>ac_answers = r # rs, ac_fd = INVALID_FD, ac_remote = Some (x_junk a)\<rparr> (?st n)"
    using accept_wait_loop[OF assms(1,3)] by blast
  have l: "l_listening l" "l_address l = Some own" "l_socket l = Some ob" using assms(1) by (auto simp: accept_ready_def)
  have p: "put_notifier ob n s = s" by (rule put_notifier_same[OF n(1)])
  show ?thesis
  proof (cases r)
    case (Fail e)
    have "accept_wait a l s = Some (Inr (e, \<lparr>ac_answers = rs, ac_fd = INVALID_FD, ac_remote = Some (x_junk a)\<rparr>, ?st n))"
      unfolding n(2) by (subst perform_loop.simps) (use assms(4,5) Fail in \<open>simp add: accept_op_answer stop_operated_def\<close>)
    with l p assms(6) Fail show ?thesis by (simp add: listener_accept_def Let_def)
  next
    case (Ret w)
    obtain fd x m where w: "w = (fd, x, m)" by (cases w)
    have aw: "accept_wait a l s = Some (Inr (0, \<lparr>ac_answers = rs, ac_fd = fd, ac_remote =
        if length (x_junk a) < m then None else Some (store_address (x_junk a) x)\<rparr>, ?st n))"
      unfolding n(2) by (subst perform_loop.simps) (use Ret w in \<open>simp add: accept_op_answer stop_operated_def\<close>)
    have f: "notifiers (registered (x_slot a) 0 fd s) (x_slot a) =
        Some \<lparr>n_descriptor = fd, n_semaphores = (\<lambda>_. sem_default)\<rparr>"
      by (rule registered_fresh[OF assms(2)])
    show ?thesis
    proof (cases "length (x_junk a) < m")
      case True
      with aw l p Ret w show ?thesis by (simp add: listener_accept_def Let_def)
    next
      case False
      with aw l p Ret w assms(7) f show ?thesis
        by (simp add: listener_accept_def eo_new_def sock_move_def sock_of_def eo_init_registered Let_def)
    qed
  qed
qed

lemma wait_closed:
  assumes "st_sem EVENT_IN st = sem_default" "st_agenda st = OtherShutdown # OtherInterrupt # ag" "st_object st"
  shows "event_wait timed EVENT_IN st = Some (True, st\<lparr>st_shutdown := True, st_agenda := ag\<rparr>)"
proof -
  let ?x = "\<lparr>atomic_count = -1, sem_count = 0\<rparr>"
  let ?c = "st\<lparr>st_shutdown := True\<rparr>"
  have m: "(st_set_sem EVENT_IN ?x st)\<lparr>st_shutdown := True\<rparr> = st_set_sem EVENT_IN ?x ?c"
    by (simp add: st_set_sem_def)
  have i: "env_step EVENT_IN OtherInterrupt (st_set_sem EVENT_IN ?x ?c) = st_set_sem EVENT_IN (sem_notify ?x) ?c"
    using waker_step[of EVENT_IN "st_set_sem EVENT_IN ?x ?c" OtherInterrupt] assms(3) by (simp add: waker_def)
  have "event_wait timed EVENT_IN st = sleep timed EVENT_IN (OtherShutdown # OtherInterrupt # ag) (st_set_sem EVENT_IN ?x st)"
    using assms(1,2) by (simp add: event_wait_def wait_enter_def sem_default_def sem_new_def Let_def)
  also have "\<dots> = sleep timed EVENT_IN (OtherInterrupt # ag) (st_set_sem EVENT_IN ?x ?c)"
    by (simp add: wait_locked_new m)
  also have "\<dots> = sleep timed EVENT_IN ag (st_set_sem EVENT_IN (sem_notify ?x) ?c)"
    using i by (simp add: wait_locked_new del: env_step.simps)
  also have "\<dots> = Some (True, st_set_sem EVENT_IN sem_default (?c\<lparr>st_agenda := ag\<rparr>))"
    by (cases ag) (simp_all add: wait_locked_woken)
  also have "st_set_sem EVENT_IN sem_default (?c\<lparr>st_agenda := ag\<rparr>) = ?c\<lparr>st_agenda := ag\<rparr>"
    using assms(1) by (intro st_set_sem_id) simp
  finally show ?thesis .
qed

text \<open>Closing a listener ends an accept that sleeps on it: the accept, with or without a
  timeout, is woken by the interruption that follows the clearing of the flag and returns
  \<open>CLOSED\<close> without a connection; an accept started afterwards returns it at once.\<close>

theorem accept_ends_on_close:
  assumes "accept_ready a es l ob own s" "x_agenda a = es @ OtherShutdown # OtherInterrupt # ag"
    and "x_accepts a = replicate (length es) (Fail EAGAIN) @ Fail EAGAIN # rs"
  shows "listener_accept a l s k = Some (Inr ((None, CLOSED), s, k)) \<and>
    (\<forall>l' s' k'. listener_close sh l s k = Some (l', s', k') \<longrightarrow>
       listener_accept b l' s' k' = Some (Inr ((None, CLOSED), s', k')))"
proof
  let ?st = "\<lambda>n. skip_rounds es (conn_stream False (l_timeout l) n (x_agenda a) [] [] [])"
  let ?l = "\<lparr>ac_answers = Fail EAGAIN # rs, ac_fd = INVALID_FD, ac_remote = Some (x_junk a)\<rparr>"
  obtain n where n: "notifier_of ob s = Some n" "n_semaphores n EVENT_IN = sem_default" "accept_wait a l s =
    perform_loop (\<lambda>st. \<not> st_shutdown st) accept_op stop_operated never (l_timeout l) (if es = [] then 0 else EAGAIN)
      (op_new True EVENT_IN) ?l (?st n)"
    using accept_wait_loop[OF assms(1,3)] by blast
  have l: "l_listening l" "l_address l = Some own" "l_socket l = Some ob" using assms(1) by (auto simp: accept_ready_def)
  have ag: "st_agenda (?st n) = OtherShutdown # OtherInterrupt # ag" "st_object (?st n)"
    using assms(2) by (simp_all add: skip_rounds_def conn_stream_def)
  have w: "event_wait t EVENT_IN (?st n) = Some (True, (?st n)\<lparr>st_shutdown := True, st_agenda := ag\<rparr>)" for t
    using n(2) ag by (intro wait_closed) simp_all
  have o: "accept_op e ?l (?st n) = Some (False, EAGAIN, \<lparr>ac_answers = rs, ac_fd = INVALID_FD, ac_remote = Some (x_junk a)\<rparr>, ?st n)" for e
    by (simp add: accept_op_def nonBlockingAccept_def)
  have "accept_wait a l s = Some (Inr (CLOSED, \<lparr>ac_answers = rs, ac_fd = INVALID_FD, ac_remote = Some (x_junk a)\<rparr>,
      (?st n)\<lparr>st_shutdown := True, st_agenda := ag\<rparr>))"
    unfolding n(3)
    by (subst perform_loop.simps, simp add: o w never_def) (subst perform_loop.simps, simp)
  then show "listener_accept a l s k = Some (Inr ((None, CLOSED), s, k))"
    using l put_notifier_same[OF n(1)] by (simp add: listener_accept_def CLOSED_def)
next
  show "\<forall>l' s' k'. listener_close sh l s k = Some (l', s', k') \<longrightarrow>
       listener_accept b l' s' k' = Some (Inr ((None, CLOSED), s', k'))"
    by (auto simp: listener_close_def listener_accept_def Let_def split: option.splits prod.splits)
qed

definition sample_listener :: listener where
  "sample_listener = listener_new \<lparr>eo_notifier = Some 64, eo_resource = sock_of 5\<rparr> local0"

definition sample_accept :: "env list \<Rightarrow> accepted sysret list \<Rightarrow> accept_env" where
  "sample_accept ag rs = \<lparr>x_accepts = rs, x_agenda = ag, x_junk = replicate 16 0, x_slot = 128, x_register = Ret ()\<rparr>"

definition listening_selector :: selector where
  "listening_selector = registered 64 0 5 empty_selector"

lemma listening_selector_facts:
  "fresh_slot 128 listening_selector" "in_use listening_selector = {64}"
  "notifiers listening_selector 64 = Some \<lparr>n_descriptor = 5, n_semaphores = (\<lambda>_. sem_default)\<rparr>"
proof -
  have u: "fresh_slot 64 empty_selector" by (rule empty_selector_slot) simp
  show "fresh_slot 128 listening_selector"
    by (simp add: listening_selector_def fresh_slot_def registered_simps) (simp add: empty_selector_def)
  show "notifiers listening_selector 64 = Some \<lparr>n_descriptor = 5, n_semaphores = (\<lambda>_. sem_default)\<rparr>"
    unfolding listening_selector_def by (rule registered_fresh[OF u])
  show "in_use listening_selector = {64}"
    by (simp add: listening_selector_def registered_simps) (simp add: empty_selector_def)
qed

lemma sample_accept_ready:
  "\<forall>e \<in> set es. waker EVENT_IN True e \<Longrightarrow>
   accept_ready (sample_accept (es @ ag) rs) es sample_listener \<lparr>eo_notifier = Some 64, eo_resource = sock_of 5\<rparr>
     local0 listening_selector"
  by (simp add: accept_ready_def sample_accept_def sample_listener_def listener_new_def notifier_of_def
      listening_selector_facts)

lemma accept_returns_witness:
  "\<exists>s'. listener_accept (sample_accept [Ready EPOLLIN] [Fail EAGAIN, Ret (9, replicate 16 0, 16)]) sample_listener
      listening_selector \<lparr>open_fds = {5}\<rparr> =
    Some (Inr ((Some (conn_new \<lparr>eo_notifier = Some 128, eo_resource = sock_of 9\<rparr> (Some local0)
      (Some (like local0 (replicate 16 0)))), 0), s', \<lparr>open_fds = {5, 9}\<rparr>))"
proof -
  have w: "\<forall>e \<in> set [Ready EPOLLIN]. waker EVENT_IN True e"
    by (simp add: waker_def readable_def epoll_bits)
  have f: "store_address (replicate 16 0) (replicate 16 0) = replicate 16 (0 :: u8)"
    by (simp add: store_address_def)
  show ?thesis
    using accept_returns[OF sample_accept_ready[OF w, where ag = "[]" and rs = "[Fail EAGAIN, Ret (9, replicate 16 0, 16)]"]
        _, of "Ret (9, replicate 16 0, 16)" "[]" "\<lparr>open_fds = {5}\<rparr>"]
    by (simp add: sample_accept_def listening_selector_facts f insert_commute) blast
qed

lemma accept_ends_on_close_witness:
  "listener_accept (sample_accept [OtherShutdown, OtherInterrupt] [Fail EAGAIN]) sample_listener
      listening_selector \<lparr>open_fds = {5}\<rparr> = Some (Inr ((None, CLOSED), listening_selector, \<lparr>open_fds = {5}\<rparr>))"
  using accept_ends_on_close[OF sample_accept_ready[of "[]" "[OtherShutdown, OtherInterrupt]" "[Fail EAGAIN]"],
      of "[]" "[]" "\<lparr>open_fds = {5}\<rparr>"]
  by (simp add: sample_accept_def)

end
