(* ===== verification/FiberInfo.thy ===== *)
theory FiberInfo
  imports Prelude
begin

text \<open>
  \<open>FiberDebugInfo\<close> (core/FiberDebugInfo.cpp) and \<open>Fiber\<close> (core/Fiber.cpp, core/Fiber.hpp).

  A debug info is addressed by a number; \<open>_prev\<close> and \<open>_next\<close> are addresses or null. libunwind
  is a parameter: the first cursor, the step (its result and the next cursor) and the instruction
  pointer a cursor shows. The contexts, stacks and schedulers of Boost.Fiber are outside: \<open>start\<close>,
  \<open>join\<close> and \<open>detach\<close> return the calls they make on them, in order. A string is a list of bytes.
\<close>

section \<open>Debug information\<close>

record debug_info =
  di_prev :: "nat option"
  di_next :: "nat option"
  di_description :: "u8 list"
  di_terminated :: bool
  di_size :: nat
  di_backtrace :: "u64 list"

abbreviation (input) backtrace_size :: nat where "backtrace_size \<equiv> 64"

definition debug_info_new :: debug_info where
  "debug_info_new = \<lparr>di_prev = None, di_next = None, di_description = [], di_terminated = False,
     di_size = 0, di_backtrace = replicate backtrace_size 0\<rparr>"

definition setDescription :: "u8 list \<Rightarrow> debug_info \<Rightarrow> debug_info" where
  "setDescription description d = d\<lparr>di_description := description\<rparr>"

definition setTerminated :: "bool \<Rightarrow> debug_info \<Rightarrow> debug_info" where
  "setTerminated b d = d\<lparr>di_terminated := b\<rparr>"

definition terminated :: "debug_info \<Rightarrow> bool" where
  "terminated d = di_terminated d"

record 'c unwinder =
  unw_init_local :: 'c
  unw_step :: "'c \<Rightarrow> int \<times> 'c"
  unw_get_reg :: "'c \<Rightarrow> u64"

text \<open>The do-while loop, entered with \<open>i < backtrace_size\<close>; the result is \<open>i\<close> and the array.\<close>

function frame_loop :: "'c unwinder \<Rightarrow> 'c \<Rightarrow> nat \<Rightarrow> u64 list \<Rightarrow> nat \<times> u64 list" where
  "frame_loop u cursor i bt =
     (let bt1 = bt[i := unw_get_reg u cursor];
          (r, cursor') = unw_step u cursor
      in if r = 0 then
           (if i + 1 < backtrace_size
            then (i + 2, bt1[i + 1 := unw_get_reg u cursor'])
            else (i + 1, bt1))
         else if i + 1 < backtrace_size then frame_loop u cursor' (i + 1) bt1
         else (i + 1, bt1))"
  by pat_completeness auto
termination by (relation "measure (\<lambda>(_, _, i, _). backtrace_size - i)") auto

declare frame_loop.simps [simp del]

fun zero_from :: "nat \<Rightarrow> u64 list \<Rightarrow> u64 list" where
  "zero_from i [] = []"
| "zero_from 0 (b # bs) = 0 # zero_from 0 bs"
| "zero_from (Suc i) (b # bs) = b # zero_from i bs"

definition updateFrame :: "'c unwinder \<Rightarrow> debug_info \<Rightarrow> debug_info" where
  "updateFrame u d =
     (case frame_loop u (unw_init_local u) 0 (di_backtrace d) of
        (n, bt) \<Rightarrow> d\<lparr>di_size := n, di_backtrace := zero_from n bt\<rparr>)"

subsection \<open>What a backtrace holds\<close>

text \<open>The instruction pointers of at most \<open>n\<close> frames: those shown before each step, and the one shown
  after the step that returned 0.\<close>

fun frame_ips :: "'c unwinder \<Rightarrow> nat \<Rightarrow> 'c \<Rightarrow> u64 list" where
  "frame_ips u 0 c = []"
| "frame_ips u (Suc n) c =
     (case unw_step u c of
        (r, c') \<Rightarrow> unw_get_reg u c #
          (if r = 0 then take n [unw_get_reg u c'] else frame_ips u n c'))"

lemma frame_ips_numeral [simp]:
  "frame_ips u (numeral k) c =
     (case unw_step u c of
        (r, c') \<Rightarrow> unw_get_reg u c #
          (if r = 0 then take (pred_numeral k) [unw_get_reg u c'] else frame_ips u (pred_numeral k) c'))"
  by (simp add: numeral_eq_Suc)

lemma frame_ips_length: "length (frame_ips u n c) \<le> n"
  by (induction n arbitrary: c) (auto split: prod.splits)

lemma zero_from_take: "zero_from n bs = take n bs @ replicate (length bs - n) 0"
  by (induction n bs rule: zero_from.induct) (auto simp: replicate_Suc [symmetric] simp del: replicate_Suc)

lemma take_update_Suc: "i < length bs \<Longrightarrow> take (Suc i) (bs[i := x]) = take i bs @ [x]"
  by (simp add: take_Suc_conv_app_nth)

lemma frame_loop_records:
  assumes "i < backtrace_size" and "length bt = backtrace_size"
    and "frame_loop u c i bt = (n, bt')"
  shows "length bt' = backtrace_size \<and> n \<le> backtrace_size \<and>
    take n bt' = take i bt @ frame_ips u (backtrace_size - i) c"
  using assms
proof (induction "backtrace_size - i" arbitrary: i c bt)
  case (Suc k)
  obtain r c' where s: "unw_step u c = (r, c')" by (cases "unw_step u c")
  have k: "backtrace_size - i = Suc (backtrace_size - Suc i)" using Suc.prems(1) by simp
  let ?bt = "bt[i := unw_get_reg u c]"
  have t: "take (Suc i) ?bt = take i bt @ [unw_get_reg u c]"
    using Suc.prems(1,2) by (simp add: take_update_Suc)
  show ?case
  proof (cases "r = 0")
    case True
    show ?thesis
    proof (cases "i + 1 < backtrace_size")
      case True
      have "take (Suc (Suc i)) (?bt[Suc i := unw_get_reg u c']) = take (Suc i) ?bt @ [unw_get_reg u c']"
        using True Suc.prems(2) by (simp add: take_update_Suc)
      with True \<open>r = 0\<close> Suc.prems t s show ?thesis unfolding k
        by (auto simp: frame_loop.simps [of u c i bt])
    next
      case False
      with \<open>r = 0\<close> Suc.prems t s show ?thesis unfolding k
        by (auto simp: frame_loop.simps [of u c i bt])
    qed
  next
    case False
    show ?thesis
    proof (cases "i + 1 < backtrace_size")
      case True
      from True False Suc.prems(3) s have "frame_loop u c' (Suc i) ?bt = (n, bt')"
        by (simp add: frame_loop.simps [of u c i bt])
      from Suc.hyps(1) [OF _ _ _ this] Suc.hyps(2) True Suc.prems(2) t s False
      show ?thesis unfolding k by simp
    next
      case False
      then have "backtrace_size - Suc i = 0" by simp
      with False \<open>r \<noteq> 0\<close> Suc.prems t s show ?thesis unfolding k
        by (auto simp: frame_loop.simps [of u c i bt])
    qed
  qed
qed simp

section \<open>Fibers\<close>

datatype policy = Post | Dispatch

record fiber =
  f_context :: "nat option"
  f_policy :: policy
  f_stack_size :: nat
  f_description :: "u8 list"

definition fiber_new :: fiber where
  "fiber_new = \<lparr>f_context = None, f_policy = Post, f_stack_size = 0, f_description = []\<rparr>"

definition setPolicy :: "policy \<Rightarrow> fiber \<Rightarrow> fiber" where
  "setPolicy p f = f\<lparr>f_policy := p\<rparr>"

definition setStackSize :: "nat \<Rightarrow> fiber \<Rightarrow> fiber" where
  "setStackSize n f = f\<lparr>f_stack_size := n\<rparr>"

text \<open>\<open>setDescription\<close> of a \<open>std::string\<close>, and of a \<open>std::string_view\<close>.\<close>

definition setDescription_string :: "u8 list \<Rightarrow> fiber \<Rightarrow> fiber" where
  "setDescription_string d f = f\<lparr>f_description := d\<rparr>"

definition setDescription_view :: "u8 list \<Rightarrow> fiber \<Rightarrow> fiber" where
  "setDescription_view d f = (if d \<noteq> [] then f\<lparr>f_description := d\<rparr> else f)"

datatype stack_choice = ProtectedFixedsize nat | DefaultStack

datatype 'fn fiber_call =
    MakeContext nat policy stack_choice 'fn
  | SetProperties nat nat debug_info
  | Attach nat
  | Schedule nat
  | Resume nat
  | JoinContext nat
  | ReleaseContext nat

definition stack_of :: "fiber \<Rightarrow> stack_choice" where
  "stack_of f = (if 0 < f_stack_size f then ProtectedFixedsize (f_stack_size f) else DefaultStack)"

text \<open>\<open>start\<close> of a function: \<open>c\<close> is the context \<open>make_worker_context\<close> returns, \<open>p\<close> the address of
  the new debug info, \<open>moved\<close> what a moved-from string holds. Assigning \<open>_context\<close> releases the
  context it held.\<close>

definition release_held :: "fiber \<Rightarrow> 'fn fiber_call list" where
  "release_held f = (case f_context f of None \<Rightarrow> [] | Some c \<Rightarrow> [ReleaseContext c])"

definition fiber_start :: "nat \<Rightarrow> nat \<Rightarrow> u8 list \<Rightarrow> 'fn \<Rightarrow> fiber \<Rightarrow> fiber \<times> 'fn fiber_call list" where
  "fiber_start c p moved fn f =
     (f\<lparr>f_context := Some c, f_description := moved\<rparr>,
      MakeContext c (f_policy f) (stack_of f) fn #
      release_held f @
      [SetProperties c p (setDescription (f_description f) debug_info_new),
       Attach c,
       case f_policy f of Post \<Rightarrow> Schedule c | Dispatch \<Rightarrow> Resume c])"

text \<open>What the new context runs: the function, then the flag in the context's own properties.\<close>

definition fiber_body :: "('w \<Rightarrow> 'w) \<Rightarrow> ((debug_info \<Rightarrow> debug_info) \<Rightarrow> 'w \<Rightarrow> 'w) \<Rightarrow> 'w \<Rightarrow> 'w" where
  "fiber_body fn own_properties w = own_properties (setTerminated True) (fn w)"

datatype fiber_error = NullContext | SelfJoin

definition join :: "nat \<Rightarrow> fiber \<Rightarrow> fiber_error + (fiber \<times> 'fn fiber_call list)" where
  "join active f =
     (case f_context f of
        None \<Rightarrow> Inl NullContext
      | Some c \<Rightarrow>
          if active = c then Inl SelfJoin
          else Inr (f\<lparr>f_context := None\<rparr>, [JoinContext c, ReleaseContext c]))"

definition detach :: "fiber \<Rightarrow> fiber \<times> 'fn fiber_call list" where
  "detach f = (f\<lparr>f_context := None\<rparr>, release_held f)"

text \<open>The move constructor; move assignment of another object. Both leave \<open>another\<close> its policy and
  stack size.\<close>

definition fiber_move :: "u8 list \<Rightarrow> fiber \<Rightarrow> fiber \<times> fiber" where
  "fiber_move moved another =
     (another, another\<lparr>f_context := None, f_description := moved\<rparr>)"

definition fiber_assign :: "u8 list \<Rightarrow> fiber \<Rightarrow> fiber \<Rightarrow> (fiber \<times> fiber) \<times> 'fn fiber_call list" where
  "fiber_assign moved f another = (fiber_move moved another, release_held f)"

lemmas fiber_setters = setPolicy_def setStackSize_def setDescription_string_def setDescription_view_def

section \<open>Properties\<close>

text \<open>\<open>updateFrame\<close> stays inside the 64 entries of the backtrace for every stack: it records
  between 1 and 64 frames, which are the instruction pointers of the innermost frames in order, and
  clears the entries after them.\<close>

theorem update_frame_records:
  assumes "length (di_backtrace d) = 64"
  shows "di_size (updateFrame u d) = length (frame_ips u 64 (unw_init_local u))
    \<and> 1 \<le> di_size (updateFrame u d) \<and> di_size (updateFrame u d) \<le> 64
    \<and> di_backtrace (updateFrame u d) =
        frame_ips u 64 (unw_init_local u) @ replicate (64 - di_size (updateFrame u d)) 0"
proof -
  obtain n bt where l: "frame_loop u (unw_init_local u) 0 (di_backtrace d) = (n, bt)"
    by (cases "frame_loop u (unw_init_local u) 0 (di_backtrace d)")
  from frame_loop_records [OF _ assms l]
  have r: "length bt = 64" "n \<le> 64" "take n bt = frame_ips u 64 (unw_init_local u)" by simp_all
  then have n: "n = length (frame_ips u 64 (unw_init_local u))" by (metis length_take min.absorb2)
  have "frame_ips u 64 c \<noteq> []" for c by (simp split: prod.splits)
  then have "1 \<le> n" unfolding n by (simp add: Suc_le_eq)
  with r n l show ?thesis by (simp add: updateFrame_def zero_from_take)
qed

theorem update_frame_records_witness:
  "di_backtrace (updateFrame \<lparr>unw_init_local = 0::nat, unw_step = (\<lambda>c. (if c = 1 then 0 else 1, c + 1)),
       unw_get_reg = (\<lambda>c. of_nat (c + 16))\<rparr> debug_info_new) = [16, 17, 18] @ replicate 61 0"
proof -
  let ?u = "\<lparr>unw_init_local = 0::nat, unw_step = (\<lambda>c. (if c = 1 then 0 else 1, c + 1)),
       unw_get_reg = (\<lambda>c. of_nat (c + 16) :: u64)\<rparr>"
  have "frame_ips ?u 64 0 = [16, 17, 18]" by simp
  then show ?thesis
    using update_frame_records [of debug_info_new ?u] by (simp add: debug_info_new_def)
qed

text \<open>A fiber started with \<open>post\<close> is attached, then scheduled, and does not run yet; with
  \<open>dispatch\<close> it is resumed at once. Its stack is a protected one of the size set, or the default
  when none was set; its debug info carries the description last set to a non-empty view.\<close>

theorem fiber_start_functional:
  "snd (fiber_start c p moved fn (setDescription_view d (setStackSize n (setPolicy pol fiber_new)))) =
     [MakeContext c pol (if n = 0 then DefaultStack else ProtectedFixedsize n) fn,
      SetProperties c p (debug_info_new\<lparr>di_description := d\<rparr>),
      Attach c,
      (if pol = Post then Schedule c else Resume c)]"
  by (cases pol)
     (simp_all add: fiber_start_def fiber_new_def fiber_setters stack_of_def release_held_def
        setDescription_def debug_info_new_def)

text \<open>A fiber object lets go of its context exactly once: after \<open>join\<close> or \<open>detach\<close> it holds none, a
  second \<open>detach\<close> releases nothing and a second \<open>join\<close> dereferences the null pointer.\<close>

theorem fiber_joined_once:
  assumes "f_context f = Some c" and "active \<noteq> c"
  shows "\<exists>f'. (join active f :: fiber_error + fiber \<times> 'fn fiber_call list)
            = Inr (f', [JoinContext c, ReleaseContext c])
         \<and> (join active f' :: fiber_error + fiber \<times> 'fn fiber_call list) = Inl NullContext
         \<and> (detach f' :: fiber \<times> 'fn fiber_call list) = (f', [])
         \<and> (detach f :: fiber \<times> 'fn fiber_call list) = (f', [ReleaseContext c])"
  using assms by (simp add: join_def detach_def release_held_def)

theorem fiber_joined_once_witness:
  "(join 1 (fiber_new\<lparr>f_context := Some 2\<rparr>) :: fiber_error + fiber \<times> unit fiber_call list)
     = Inr (fiber_new\<lparr>f_context := None\<rparr>, [JoinContext 2, ReleaseContext 2])"
  using fiber_joined_once [of "fiber_new\<lparr>f_context := Some 2\<rparr>" 2 1, where 'fn = unit]
  by (auto simp: fiber_new_def detach_def)

datatype 'c info_call = UpdateFrame "'c unwinder" | SetDescription "u8 list" | SetTerminated bool

fun info_run :: "'c info_call list \<Rightarrow> debug_info \<Rightarrow> debug_info" where
  "info_run [] d = d"
| "info_run (UpdateFrame u # cs) d = info_run cs (updateFrame u d)"
| "info_run (SetDescription x # cs) d = info_run cs (setDescription x d)"
| "info_run (SetTerminated b # cs) d = info_run cs (setTerminated b d)"

definition info_typed :: "debug_info \<Rightarrow> bool" where
  "info_typed d \<longleftrightarrow> length (di_backtrace d) = 64 \<and> di_size d \<le> 64 \<and>
     drop (di_size d) (di_backtrace d) = replicate (64 - di_size d) 0"

lemma updateFrame_typed:
  assumes "length (di_backtrace d) = 64" shows "info_typed (updateFrame u d)"
proof -
  obtain n bt where l: "frame_loop u (unw_init_local u) 0 (di_backtrace d) = (n, bt)"
    by (cases "frame_loop u (unw_init_local u) 0 (di_backtrace d)")
  from frame_loop_records [OF _ assms l] have "length bt = 64" "n \<le> 64" by simp_all
  then show ?thesis by (simp add: info_typed_def updateFrame_def l zero_from_take)
qed

lemma info_typed_ops [ust_inv]:
  "info_typed d \<Longrightarrow> info_typed (updateFrame u d)"
  "info_typed d \<Longrightarrow> info_typed (setDescription x d)"
  "info_typed d \<Longrightarrow> info_typed (setTerminated b d)"
  using updateFrame_typed [of d u] by (simp_all add: info_typed_def setDescription_def setTerminated_def)

lemma info_run_typed: "info_typed d \<Longrightarrow> info_typed (info_run cs d)"
  by (induction cs d rule: info_run.induct) (simp_all add: ust_inv)

text \<open>Claim C40: A debug info is well formed whatever is done to it: over any calls of \<open>updateFrame\<close> (with any
  stacks), \<open>setDescription\<close> and \<open>setTerminated\<close> its backtrace keeps its 64 entries, its
  size stays within them and the entries past the size are zero.\<close>

theorem debug_info_typed:
  "length (di_backtrace (info_run cs debug_info_new)) = 64 \<and> di_size (info_run cs debug_info_new) \<le> 64
    \<and> drop (di_size (info_run cs debug_info_new)) (di_backtrace (info_run cs debug_info_new))
        = replicate (64 - di_size (info_run cs debug_info_new)) 0"
  using info_run_typed [of debug_info_new cs] by (simp add: info_typed_def debug_info_new_def)

end
