(* ===== verification/WorkPool.thy ===== *)
theory WorkPool
  imports Prelude
begin

text \<open>
  The interface of a pool of work that several threads put into and take from, each call with the
  arguments (\<open>'k\<close>, \<open>'j\<close>) its caller passes: \<open>held s M\<close> says that the pool in state \<open>s\<close> holds the
  multiset \<open>M\<close>. The client lemma, proved once, is that every run conserves the work: what was put is
  what was taken and what is still held, each item as often as it was put.
\<close>

datatype ('k, 'a, 'j) work_op = Put 'k 'a | Take 'j

fun pool_run :: "('k \<Rightarrow> 'a \<Rightarrow> 's \<Rightarrow> 's option) \<Rightarrow> ('j \<Rightarrow> 's \<Rightarrow> ('a option \<times> 's) option) \<Rightarrow>
    ('k, 'a, 'j) work_op list \<Rightarrow> 's \<Rightarrow> ('a list \<times> 's) option" where
  "pool_run put get [] s = Some ([], s)"
| "pool_run put get (Put k x # acts) s =
     (case put k x s of None \<Rightarrow> None | Some s' \<Rightarrow> pool_run put get acts s')"
| "pool_run put get (Take j # acts) s =
     (case get j s of
        None \<Rightarrow> None
      | Some (r, s') \<Rightarrow>
          (case pool_run put get acts s' of
             None \<Rightarrow> None
           | Some (outs, s'') \<Rightarrow> Some (case r of None \<Rightarrow> (outs, s'') | Some x \<Rightarrow> (x # outs, s''))))"

fun put_items :: "('k, 'a, 'j) work_op list \<Rightarrow> 'a list" where
  "put_items [] = []"
| "put_items (Put k x # acts) = x # put_items acts"
| "put_items (Take j # acts) = put_items acts"

locale work_pool =
  fixes held :: "'s \<Rightarrow> 'a multiset \<Rightarrow> bool"
    and put :: "'k \<Rightarrow> 'a \<Rightarrow> 's \<Rightarrow> 's option"
    and get :: "'j \<Rightarrow> 's \<Rightarrow> ('a option \<times> 's) option"
  assumes put_held: "held s M \<Longrightarrow> put k x s = Some s' \<Longrightarrow> held s' (add_mset x M)"
    and get_held: "held s M \<Longrightarrow> get j s = Some (r, s') \<Longrightarrow>
      \<exists>M'. held s' M' \<and> M = (case r of None \<Rightarrow> {#} | Some x \<Rightarrow> {#x#}) + M'"
begin

lemma run_conserves:
  assumes "held s M" and "pool_run put get acts s = Some (outs, s')"
  shows "\<exists>M'. held s' M' \<and> M + mset (put_items acts) = mset outs + M'"
  using assms
proof (induction acts arbitrary: s M outs)
  case (Cons act acts)
  show ?case
  proof (cases act)
    case (Put k x)
    with Cons.prems(2) obtain s1 where s1: "put k x s = Some s1" "pool_run put get acts s1 = Some (outs, s')"
      by (auto split: option.splits)
    from Cons.IH [OF put_held [OF Cons.prems(1) s1(1)] s1(2)] Put show ?thesis by simp
  next
    case (Take j)
    with Cons.prems(2) obtain r s1 outs1 where s1: "get j s = Some (r, s1)"
      "pool_run put get acts s1 = Some (outs1, s')" "outs = (case r of None \<Rightarrow> outs1 | Some x \<Rightarrow> x # outs1)"
      by (auto split: option.splits prod.splits)
    from get_held [OF Cons.prems(1) s1(1)] obtain M1 where
      M1: "held s1 M1" "M = (case r of None \<Rightarrow> {#} | Some x \<Rightarrow> {#x#}) + M1" by blast
    from Cons.IH [OF M1(1) s1(2)] obtain M' where "held s' M'" "M1 + mset (put_items acts) = mset outs1 + M'"
      by blast
    with M1(2) s1(3) Take show ?thesis by (intro exI [of _ M']) (auto split: option.splits)
  qed
qed simp

end

end
