(* ===== verification/Strategy.thy ===== *)
theory Strategy
  imports FiberInfo WorkPool
begin

text \<open>
  \<open>ContextStrategy\<close> (core/ContextStrategy.cpp): the scheduling algorithm of one thread of a
  \<open>Context\<close>. Threads keep their ready fibers in a queue of Boost.Fiber each and steal from one
  another; in debug mode a strategy chains the debug info of its waiting fibers in a doubly linked
  list.

  Boost.Fiber is a parameter: the single-producer multi-consumer queue of contexts (\<open>ready_ops\<close>,
  with its documented laws in \<open>spmc_laws\<close>), the type of each context, and the scheduler a context
  is attached to, which \<open>owner\<close> records (\<open>attach\<close> and \<open>detach\<close> write it). Strategy objects,
  debug infos and contexts are addressed by numbers; the slots of \<open>Context::_strategies\<close> hold
  addresses or null. The values the random generator draws are a list.
\<close>

section \<open>State\<close>

datatype context_type = MainContext | DispatcherContext | WorkerContext

definition pinned_context :: "context_type \<Rightarrow> bool" where
  "pinned_context t \<longleftrightarrow> t = MainContext \<or> t = DispatcherContext"

record 'q ready_ops =
  rq_new :: 'q
  rq_push :: "nat \<Rightarrow> 'q \<Rightarrow> 'q"
  rq_pop :: "'q \<Rightarrow> nat option \<times> 'q"
  rq_steal :: "'q \<Rightarrow> nat option \<times> 'q"
  rq_empty :: "'q \<Rightarrow> bool"

definition spmc_laws :: "'q ready_ops \<Rightarrow> (nat \<Rightarrow> context_type) \<Rightarrow> ('q \<Rightarrow> nat multiset) \<Rightarrow> bool" where
  "spmc_laws ops kind content \<longleftrightarrow>
     content (rq_new ops) = {#} \<and>
     (\<forall>c q. content (rq_push ops c q) = add_mset c (content q)) \<and>
     (\<forall>q. case rq_pop ops q of
            (None, q') \<Rightarrow> content q = {#} \<and> content q' = {#}
          | (Some c, q') \<Rightarrow> content q = add_mset c (content q')) \<and>
     (\<forall>q. case rq_steal ops q of
            (None, q') \<Rightarrow> content q' = content q
          | (Some c, q') \<Rightarrow> content q = add_mset c (content q') \<and> \<not> pinned_context (kind c)) \<and>
     (\<forall>q. rq_empty ops q \<longleftrightarrow> content q = {#})"

datatype debug_flag = DEBUG_ON | DEBUG_OFF

record 'q strategy =
  st_id :: nat
  ready_queue :: 'q
  waiting_head :: nat
  waiting_tail :: nat

record 'q schedule =
  debug :: debug_flag
  next_strategy_index :: nat
  strategies :: "nat option list"
  strategy_at :: "nat \<Rightarrow> 'q strategy"
  owner :: "nat \<Rightarrow> nat option"
  properties :: "nat \<Rightarrow> nat option"
  infos :: "nat \<Rightarrow> debug_info"

datatype strategy_error = StrategyIndex | NullStrategy | NullDebugInfo

abbreviation set_ready :: "nat \<Rightarrow> 'q \<Rightarrow> ('q, 'b) schedule_scheme \<Rightarrow> ('q, 'b) schedule_scheme" where
  "set_ready p q s \<equiv> s\<lparr>strategy_at := (strategy_at s)(p := (strategy_at s p)\<lparr>ready_queue := q\<rparr>)\<rparr>"

abbreviation set_tail :: "nat \<Rightarrow> nat \<Rightarrow> ('q, 'b) schedule_scheme \<Rightarrow> ('q, 'b) schedule_scheme" where
  "set_tail p t s \<equiv> s\<lparr>strategy_at := (strategy_at s)(p := (strategy_at s p)\<lparr>waiting_tail := t\<rparr>)\<rparr>"

abbreviation set_next :: "nat \<Rightarrow> nat option \<Rightarrow> (nat \<Rightarrow> debug_info) \<Rightarrow> nat \<Rightarrow> debug_info" where
  "set_next a n h \<equiv> h(a := (h a)\<lparr>di_next := n\<rparr>)"

abbreviation set_prev :: "nat \<Rightarrow> nat option \<Rightarrow> (nat \<Rightarrow> debug_info) \<Rightarrow> nat \<Rightarrow> debug_info" where
  "set_prev a n h \<equiv> h(a := (h a)\<lparr>di_prev := n\<rparr>)"

section \<open>Operations\<close>

text \<open>The constructor of a strategy at address \<open>p\<close> whose list head is at \<open>h\<close>. The slot it
  takes is not checked against the size of the vector.\<close>

definition strategy_new :: "'q ready_ops \<Rightarrow> nat \<Rightarrow> nat \<Rightarrow> ('q, 'b) schedule_scheme \<Rightarrow>
    strategy_error + ('q, 'b) schedule_scheme" where
  "strategy_new ops p h s =
     (let i = next_strategy_index s;
          s' = s\<lparr>next_strategy_index := i + 1,
                 strategy_at := (strategy_at s)(p := \<lparr>st_id = i, ready_queue = rq_new ops,
                                                      waiting_head = h, waiting_tail = h\<rparr>),
                 infos := (infos s)(h := debug_info_new)\<rparr>
      in if i < length (strategies s) then Inr (s'\<lparr>strategies := (strategies s)[i := Some p]\<rparr>)
         else Inl StrategyIndex)"

definition attach :: "nat \<Rightarrow> nat \<Rightarrow> ('q, 'b) schedule_scheme \<Rightarrow> ('q, 'b) schedule_scheme" where
  "attach p c s = s\<lparr>owner := (owner s)(c \<mapsto> p)\<rparr>"

definition detach_context :: "nat \<Rightarrow> ('q, 'b) schedule_scheme \<Rightarrow> ('q, 'b) schedule_scheme" where
  "detach_context c s = s\<lparr>owner := (owner s)(c := None)\<rparr>"

definition eraseBacktrace :: "nat \<Rightarrow> nat \<Rightarrow> ('q, 'b) schedule_scheme \<Rightarrow>
    strategy_error + ('q, 'b) schedule_scheme" where
  "eraseBacktrace p di s =
     (let d = infos s di;
          clear = (\<lambda>s. s\<lparr>infos := set_next di None (set_prev di None (infos s))\<rparr>)
      in if di_prev d = None \<and> di_next d = None then Inr s
         else (case (di_prev d, di_next d) of
                 (None, _) \<Rightarrow> Inl NullDebugInfo
               | (Some v, None) \<Rightarrow>
                   Inr (clear ((set_tail p v s)\<lparr>infos := set_next v None (infos s)\<rparr>))
               | (Some v, Some n) \<Rightarrow>
                   Inr (clear (s\<lparr>infos := set_prev n (Some v) (set_next v (Some n) (infos s))\<rparr>))))"

text \<open>\<open>fresh\<close> is the address of the debug info \<open>new_properties\<close> allocates when the active context
  has none.\<close>

definition recordBacktrace :: "'c unwinder \<Rightarrow> nat \<Rightarrow> nat \<Rightarrow> nat \<Rightarrow> ('q, 'b) schedule_scheme \<Rightarrow>
    ('q, 'b) schedule_scheme" where
  "recordBacktrace u p fresh active s =
     (let (di, s1) = (case properties s active of
                        Some a \<Rightarrow> (a, s)
                      | None \<Rightarrow> (fresh, s\<lparr>infos := (infos s)(fresh := debug_info_new),
                                          properties := (properties s)(active \<mapsto> fresh)\<rparr>))
      in if terminated (infos s1 di) then s1
         else (let t = waiting_tail (strategy_at s1 p);
                   h = (infos s1)(di := updateFrame u (infos s1 di))
               in set_tail p di (s1\<lparr>infos := set_prev di (Some t) (set_next t (Some di) h)\<rparr>)))"

definition awakened :: "'q ready_ops \<Rightarrow> (nat \<Rightarrow> context_type) \<Rightarrow> nat \<Rightarrow> nat \<Rightarrow> nat \<Rightarrow>
    ('q, 'b) schedule_scheme \<Rightarrow> strategy_error + ('q, 'b) schedule_scheme" where
  "awakened ops kind p c di s =
     (case (if pinned_context (kind c) then Inr s
            else let s1 = detach_context c s
                 in if debug s = DEBUG_ON then eraseBacktrace p di s1 else Inr s1) of
        Inl e \<Rightarrow> Inl e
      | Inr s2 \<Rightarrow> Inr (set_ready p (rq_push ops c (ready_queue (strategy_at s2 p))) s2))"

definition steal :: "'q ready_ops \<Rightarrow> nat \<Rightarrow> ('q, 'b) schedule_scheme \<Rightarrow> nat option \<times> ('q, 'b) schedule_scheme" where
  "steal ops p s = (case rq_steal ops (ready_queue (strategy_at s p)) of (c, q) \<Rightarrow> (c, set_ready p q s))"

text \<open>The two nested do-while loops of \<open>pick_next\<close> over the draws: \<open>i\<close> counts them, those of the
  strategy's own index included. \<open>None\<close> when the draws end before the loops do.\<close>

fun steal_loop :: "'q ready_ops \<Rightarrow> nat \<Rightarrow> nat \<Rightarrow> nat list \<Rightarrow> nat \<Rightarrow> ('q, 'b) schedule_scheme \<Rightarrow>
    (strategy_error + (nat option \<times> ('q, 'b) schedule_scheme)) option" where
  "steal_loop ops self strategy_count [] i s = None"
| "steal_loop ops self strategy_count (d # ds) i s =
     (if d = self then steal_loop ops self strategy_count ds (i + 1) s
      else (case strategies s ! d of
              None \<Rightarrow> Some (Inl NullStrategy)
            | Some p \<Rightarrow>
                (case steal ops p s of
                   (None, s') \<Rightarrow>
                     if i + 1 < strategy_count then steal_loop ops self strategy_count ds (i + 1) s'
                     else Some (Inr (None, s'))
                 | (Some c, s') \<Rightarrow> Some (Inr (Some c, s')))))"

definition pick_victim :: "'q ready_ops \<Rightarrow> (nat \<Rightarrow> context_type) \<Rightarrow> nat list \<Rightarrow> nat \<Rightarrow>
    ('q, 'b) schedule_scheme \<Rightarrow> (strategy_error + (nat option \<times> ('q, 'b) schedule_scheme)) option" where
  "pick_victim ops kind ds p s =
     (case rq_pop ops (ready_queue (strategy_at s p)) of
        (Some c, q) \<Rightarrow>
          (let s1 = set_ready p q s
           in Some (Inr (Some c, if pinned_context (kind c) then s1 else attach p c s1)))
      | (None, q) \<Rightarrow>
          (let s1 = set_ready p q s
           in if 1 < length (strategies s1) then
                (case steal_loop ops (st_id (strategy_at s p)) (length (strategies s1)) ds 0 s1 of
                   Some (Inr (Some c, s2)) \<Rightarrow> Some (Inr (Some c, attach p c s2))
                 | r \<Rightarrow> r)
              else Some (Inr (None, s1))))"

definition pick_next :: "'q ready_ops \<Rightarrow> (nat \<Rightarrow> context_type) \<Rightarrow> 'c unwinder \<Rightarrow> nat list \<Rightarrow> nat \<Rightarrow> nat \<Rightarrow> nat \<Rightarrow>
    ('q, 'b) schedule_scheme \<Rightarrow> (strategy_error + (nat option \<times> ('q, 'b) schedule_scheme)) option" where
  "pick_next ops kind u ds fresh active p s =
     (case pick_victim ops kind ds p s of
        None \<Rightarrow> None
      | Some (Inl e) \<Rightarrow> Some (Inl e)
      | Some (Inr (victim, s1)) \<Rightarrow>
          Some (Inr (victim,
            if debug s1 = DEBUG_ON \<and> victim \<noteq> None \<and> kind active = WorkerContext
            then recordBacktrace u p fresh active s1 else s1)))"

definition has_ready_fibers :: "'q ready_ops \<Rightarrow> nat \<Rightarrow> ('q, 'b) schedule_scheme \<Rightarrow> bool" where
  "has_ready_fibers ops p s \<longleftrightarrow> \<not> rq_empty ops (ready_queue (strategy_at s p))"

section \<open>The list of waiting fibers\<close>

fun linked :: "(nat \<Rightarrow> debug_info) \<Rightarrow> nat option \<Rightarrow> nat list \<Rightarrow> nat option \<Rightarrow> bool" where
  "linked h p [] q \<longleftrightarrow> True"
| "linked h p (x # xs) q \<longleftrightarrow>
     di_prev (h x) = p \<and> di_next (h x) = (if xs = [] then q else Some (hd xs)) \<and> linked h (Some x) xs q"

lemma linked_append:
  "linked h p (xs @ y # ys) q \<longleftrightarrow>
     linked h p xs (Some y) \<and> linked h (if xs = [] then p else Some (last xs)) (y # ys) q"
  by (induction xs arbitrary: p) (auto simp: hd_append)

lemma linked_frame:
  "(\<And>x. x \<in> set xs \<Longrightarrow> di_prev (g x) = di_prev (h x) \<and> di_next (g x) = di_next (h x)) \<Longrightarrow>
   linked g p xs q = linked h p xs q"
  by (induction xs arbitrary: p) auto

lemma linked_upd [simp]: "x \<notin> set xs \<Longrightarrow> linked (h(x := d)) p xs q = linked h p xs q"
  by (rule linked_frame) auto

text \<open>The waiting list of the strategy at \<open>p\<close> is \<open>xs\<close>, from the oldest; the head node is not part of
  it.\<close>

definition waiting_list :: "nat \<Rightarrow> ('q, 'b) schedule_scheme \<Rightarrow> nat list \<Rightarrow> bool" where
  "waiting_list p s xs \<longleftrightarrow>
     (let h = waiting_head (strategy_at s p)
      in distinct (h # xs) \<and> linked (infos s) None (h # xs) None \<and>
         waiting_tail (strategy_at s p) = last (h # xs))"

lemma linked_snoc_node: "linked h p (xs @ [y]) q \<Longrightarrow> di_next (h y) = q"
  by (simp add: linked_append)

lemma linked_at:
  "linked h p (us @ x # vs) q \<Longrightarrow>
     di_prev (h x) = (if us = [] then p else Some (last us)) \<and>
     di_next (h x) = (if vs = [] then q else Some (hd vs))"
  by (simp add: linked_append)

lemma linked_set_last:
  "distinct (xs @ [t]) \<Longrightarrow> linked h p (xs @ [t]) q \<Longrightarrow> linked (set_next t q' h) p (xs @ [t]) q'"
  by (auto simp: linked_append)

lemma linked_set_first:
  "distinct (n # ys) \<Longrightarrow> linked h p (n # ys) q \<Longrightarrow> linked (set_prev n p' h) p' (n # ys) q"
  by auto

lemma linked_record:
  assumes "linked h None (xs @ [t]) None" and "distinct (xs @ [t])" and "x \<notin> set (xs @ [t])"
    and "di_next (h x) = None"
  shows "linked (set_prev x (Some t) (set_next t (Some x) h)) None (xs @ [t, x]) None"
  using assms by (auto simp: linked_append)

lemma linked_unlink_last:
  assumes "linked h None (us @ [v, x]) None" and "distinct (us @ [v, x])"
  shows "linked (set_next v None h) None (us @ [v]) None"
  using assms by (auto simp: linked_append)

lemma linked_unlink:
  assumes "linked h None (us @ v # x # n # ys) None" and "distinct (us @ v # x # n # ys)"
  shows "linked (set_prev n (Some v) (set_next v (Some n) h)) None (us @ v # n # ys) None"
proof -
  from assms(1) have l: "linked h None us (Some v)" "linked h (if us = [] then None else Some (last us)) [v] (Some x)"
    "linked h (Some x) (n # ys) None"
    by (auto simp: linked_append)
  have "linked (set_prev n (Some v) (set_next v (Some n) h)) (Some v) (n # ys) None"
    using l(3) assms(2) by (auto simp: fun_upd_def [symmetric])
  moreover have "linked (set_prev n (Some v) (set_next v (Some n) h)) None us (Some v)"
    using l(1) assms(2) by simp
  ultimately show ?thesis using l(2) assms(2) by (auto simp: linked_append)
qed

text \<open>Every debug info outside the list has null links.\<close>

definition waiting_inv :: "nat \<Rightarrow> ('q, 'b) schedule_scheme \<Rightarrow> nat list \<Rightarrow> bool" where
  "waiting_inv p s xs \<longleftrightarrow> waiting_list p s xs \<and>
     (\<forall>a. a \<notin> set (waiting_head (strategy_at s p) # xs) \<longrightarrow>
        di_prev (infos s a) = None \<and> di_next (infos s a) = None)"

lemma waiting_invD:
  assumes "waiting_inv p s xs" and "h = waiting_head (strategy_at s p)"
  shows "h # xs = butlast (h # xs) @ [waiting_tail (strategy_at s p)]"
    and "distinct (h # xs)" and "linked (infos s) None (h # xs) None"
    and "\<And>a. a \<notin> set (h # xs) \<Longrightarrow> di_prev (infos s a) = None \<and> di_next (infos s a) = None"
proof -
  note w = assms(1) [unfolded waiting_inv_def waiting_list_def Let_def, folded assms(2)]
  show "h # xs = butlast (h # xs) @ [waiting_tail (strategy_at s p)]"
    unfolding w [THEN conjunct1, THEN conjunct2, THEN conjunct2] by simp
  show "distinct (h # xs)" and "linked (infos s) None (h # xs) None"
    and "\<And>a. a \<notin> set (h # xs) \<Longrightarrow> di_prev (infos s a) = None \<and> di_next (infos s a) = None"
    using w by blast+
qed

lemma waiting_invI:
  assumes "h = waiting_head (strategy_at s p)" and "h # xs = ys" and "distinct ys"
    and "linked (infos s) None ys None" and "waiting_tail (strategy_at s p) = last ys"
    and "\<And>a. a \<notin> set ys \<Longrightarrow> di_prev (infos s a) = None \<and> di_next (infos s a) = None"
  shows "waiting_inv p s xs"
  unfolding waiting_inv_def waiting_list_def Let_def assms(1) [symmetric] assms(2)
  using assms(3-6) by blast

lemma updateFrame_links [simp]:
  "di_prev (updateFrame u d) = di_prev d" "di_next (updateFrame u d) = di_next d"
  "di_terminated (updateFrame u d) = di_terminated d" "di_description (updateFrame u d) = di_description d"
  by (simp_all add: updateFrame_def split: prod.splits)

lemma record_waiting:
  assumes w: "waiting_inv p s xs" and a: "properties s active = Some di"
    and n: "di \<notin> set (waiting_head (strategy_at s p) # xs)" and t: "\<not> terminated (infos s di)"
  shows "waiting_inv p (recordBacktrace u p fresh active s) (xs @ [di])"
proof -
  define h t us where "h = waiting_head (strategy_at s p)" "t = waiting_tail (strategy_at s p)"
    "us = butlast (h # xs)"
  note l = this(1) waiting_invD(1) [OF w this(1), folded this(2,3)] this(2) [symmetric] waiting_invD(2-4) [OF w this(1)]
  let ?h = "(infos s)(di := updateFrame u (infos s di))"
  let ?g = "set_prev di (Some t) (set_next t (Some di) ?h)"
  have nd: "di \<notin> set (us @ [t])" using n unfolding l(1) [symmetric] l(2) .
  have "linked ?h None (us @ [t]) None" using l(2,5) nd by (subst linked_upd) simp_all
  then have g: "linked ?g None (us @ [t, di]) None"
    by (rule linked_record) (use l nd n in \<open>simp_all\<close>)
  have e: "h # xs @ [di] = us @ [t, di]" using l(2) by simp
  have rest: "di_prev (?g a) = None \<and> di_next (?g a) = None" if "a \<notin> set (h # xs @ [di])" for a
    using that l(6) [of a, unfolded l(2)] unfolding e by auto
  have st: "recordBacktrace u p fresh active s = set_tail p di (s\<lparr>infos := ?g\<rparr>)"
    using a t l(3) by (simp add: recordBacktrace_def Let_def)
  show ?thesis unfolding st
  proof (rule waiting_invI)
    show "h # xs @ [di] = us @ [t, di]" by (rule e)
    show "distinct (us @ [t, di])" using l(4) nd unfolding l(2) by auto
  qed (use g l(1) rest [unfolded e] in \<open>simp_all\<close>)
qed

lemma erase_waiting:
  assumes w: "waiting_inv p s xs" and n: "di \<noteq> waiting_head (strategy_at s p)"
  shows "\<exists>s'. eraseBacktrace p di s = Inr s' \<and> waiting_inv p s' (remove1 di xs)
    \<and> (\<forall>p'. ready_queue (strategy_at s' p') = ready_queue (strategy_at s p'))"
proof -
  define h t us where "h = waiting_head (strategy_at s p)" "t = waiting_tail (strategy_at s p)"
    "us = butlast (h # xs)"
  note l = this(1) waiting_invD(1) [OF w this(1), folded this(2,3)] this(2) [symmetric] waiting_invD(2-4) [OF w this(1)]
  show ?thesis
  proof (cases "di \<in> set xs")
    case False
    then have "eraseBacktrace p di s = Inr s" using l(6) [of di] n l(1) by (simp add: eraseBacktrace_def Let_def)
    with False w show ?thesis by (simp add: remove1_idem)
  next
    case True
    then obtain as bs where xs: "xs = as @ di # bs" "di \<notin> set as" by (auto dest: split_list_first)
    obtain vs v where v: "h # as = vs @ [v]" by (metis append_butlast_last_id list.distinct(1))
    have hx: "h # xs = vs @ v # di # bs" using xs v by simp
    have rm: "h # remove1 di xs = vs @ v # bs" using xs v n l(1) by (simp add: remove1_append)
    have lk: "di_prev (infos s di) = Some v" "di_next (infos s di) = (if bs = [] then None else Some (hd bs))"
      using linked_at [of "infos s" None "vs @ [v]" di bs None] l(5) hx by simp_all
    show ?thesis
    proof (cases bs)
      case Nil
      let ?g = "set_next di None (set_prev di None (set_next v None (infos s)))"
      have dd: "distinct (vs @ [v, di])" using l(4) hx Nil by simp
      have "linked (set_next v None (infos s)) None (vs @ [v]) None"
        by (rule linked_unlink_last [of _ _ _ di]) (use l(5) hx Nil dd in simp_all)
      then have "linked ?g None (vs @ [v]) None" using dd by (simp add: fun_upd_twist)
      moreover have "eraseBacktrace p di s = Inr ((set_tail p v s)\<lparr>infos := ?g\<rparr>)"
        using lk Nil by (simp add: eraseBacktrace_def Let_def)
      moreover have "waiting_inv p ((set_tail p v s)\<lparr>infos := ?g\<rparr>) (remove1 di xs)"
      proof (rule waiting_invI)
        show "h # remove1 di xs = vs @ [v]" using rm Nil by simp
        show "di_prev (infos ((set_tail p v s)\<lparr>infos := ?g\<rparr>) a) = None \<and>
            di_next (infos ((set_tail p v s)\<lparr>infos := ?g\<rparr>) a) = None" if "a \<notin> set (vs @ [v])" for a
          using that l(6) [of a] hx Nil by (cases "a = di") simp_all
      qed (use dd l(1) \<open>linked ?g None (vs @ [v]) None\<close> in simp_all)
      ultimately show ?thesis by simp
    next
      case (Cons n ys)
      let ?g = "set_next di None (set_prev di None (set_prev n (Some v) (set_next v (Some n) (infos s))))"
      have dd: "distinct (vs @ v # di # n # ys)" using l(4) hx Cons by simp
      have "linked (set_prev n (Some v) (set_next v (Some n) (infos s))) None (vs @ v # n # ys) None"
        by (rule linked_unlink [of _ _ _ di]) (use l(5) hx Cons dd in simp_all)
      moreover have "di \<notin> set (vs @ v # n # ys)" using dd by auto
      ultimately have "linked ?g None (vs @ v # n # ys) None" by (simp only: linked_upd simp_thms)
      moreover have "eraseBacktrace p di s = Inr (s\<lparr>infos := ?g\<rparr>)"
        using lk Cons by (simp add: eraseBacktrace_def Let_def)
      moreover have "waiting_inv p (s\<lparr>infos := ?g\<rparr>) (remove1 di xs)"
      proof (rule waiting_invI)
        show "h # remove1 di xs = vs @ v # n # ys" using rm Cons by simp
        show "waiting_tail (strategy_at (s\<lparr>infos := ?g\<rparr>) p) = last (vs @ v # n # ys)"
          using l(2,3) hx Cons by (metis (no_types, lifting) last.simps last_appendR last_snoc list.distinct(1) schedule.select_convs(4) schedule.surjective schedule.update_convs(7))
        show "di_prev (infos (s\<lparr>infos := ?g\<rparr>) a) = None \<and> di_next (infos (s\<lparr>infos := ?g\<rparr>) a) = None"
          if "a \<notin> set (vs @ v # n # ys)" for a
          using that l(6) [of a] hx Cons by (cases "a = di") simp_all
      qed (use dd l(1) \<open>linked ?g None (vs @ v # n # ys) None\<close> in simp_all)
      ultimately show ?thesis by simp
    qed
  qed
qed

section \<open>The ready fibers\<close>

definition filled :: "('q, 'b) schedule_scheme \<Rightarrow> nat set" where
  "filled s = {p. Some p \<in> set (strategies s)}"

definition ready_of :: "('q \<Rightarrow> nat multiset) \<Rightarrow> ('q, 'b) schedule_scheme \<Rightarrow> nat \<Rightarrow> nat multiset" where
  "ready_of content s p = content (ready_queue (strategy_at s p))"

definition ready_fibers :: "('q \<Rightarrow> nat multiset) \<Rightarrow> ('q, 'b) schedule_scheme \<Rightarrow> nat multiset" where
  "ready_fibers content s = (\<Sum>p\<in>filled s. ready_of content s p)"

lemma finite_filled [simp]: "finite (filled s)"
proof -
  have "filled s \<subseteq> the ` set (strategies s)" by (force simp: filled_def)
  then show ?thesis by (rule finite_subset) simp
qed

text \<open>Two states with the same slots and queues have the same ready fibers.\<close>

lemma ready_cong:
  assumes "strategies s' = strategies s" and "\<And>p. ready_queue (strategy_at s' p) = ready_queue (strategy_at s p)"
  shows "filled s' = filled s" and "ready_of content s' = ready_of content s"
    and "ready_fibers content s' = ready_fibers content s"
  using assms by (auto simp: filled_def ready_of_def ready_fibers_def)

lemma ready_set_ready:
  "filled (set_ready p q s) = filled s"
  "ready_of content (set_ready p q s) p' = (if p' = p then content q else ready_of content s p')"
  by (auto simp: filled_def ready_of_def)

lemma ready_fibers_set_ready:
  assumes "p \<in> filled s"
  shows "ready_fibers content (set_ready p q s) + ready_of content s p = ready_fibers content s + content q"
proof -
  have "ready_fibers content (set_ready p q s) = content q + (\<Sum>p'\<in>filled s - {p}. ready_of content s p')"
    unfolding ready_fibers_def ready_set_ready using assms
    by (subst sum.remove [of _ p]) (auto intro!: sum.cong)
  moreover have "ready_fibers content s = ready_of content s p + (\<Sum>p'\<in>filled s - {p}. ready_of content s p')"
    unfolding ready_fibers_def using assms by (rule sum.remove [OF finite_filled])
  ultimately show ?thesis by simp
qed

lemma ready_fibers_take:
  assumes "p \<in> filled s" and "ready_of content s p = X + content q"
  shows "ready_fibers content s = X + ready_fibers content (set_ready p q s)"
  using ready_fibers_set_ready [OF assms(1), of content q] unfolding assms(2)
  by (simp add: union_commute)

lemma ready_of_le: "p \<in> filled s \<Longrightarrow> ready_of content s p \<subseteq># ready_fibers content s"
  unfolding ready_fibers_def by (simp add: sum.remove)

lemma ready_fibersE:
  assumes "c \<in># ready_fibers content s"
  obtains p where "p \<in> filled s" "c \<in># ready_of content s p"
  using assms by (auto simp: ready_fibers_def set_mset_sum)

lemma spmc_popD:
  assumes "spmc_laws ops kind content" and "rq_pop ops q = (v, q')"
  shows "v = None \<Longrightarrow> content q = {#} \<and> content q' = {#}" and "v = Some c \<Longrightarrow> content q = add_mset c (content q')"
  using assms(1) [unfolded spmc_laws_def, THEN conjunct2, THEN conjunct2, THEN conjunct1, rule_format, of q] assms(2)
  by (simp_all split: option.splits)

lemma spmc_stealD:
  assumes "spmc_laws ops kind content" and "rq_steal ops q = (v, q')"
  shows "v = None \<Longrightarrow> content q' = content q"
    and "v = Some c \<Longrightarrow> content q = add_mset c (content q') \<and> \<not> pinned_context (kind c)"
  using assms(1) [unfolded spmc_laws_def, THEN conjunct2, THEN conjunct2, THEN conjunct2, THEN conjunct1, rule_format, of q]
    assms(2)
  by (simp_all split: option.splits)

lemma spmc_pushD: "spmc_laws ops kind content \<Longrightarrow> content (rq_push ops c q) = add_mset c (content q)"
  and spmc_emptyD: "spmc_laws ops kind content \<Longrightarrow> rq_empty ops q \<longleftrightarrow> content q = {#}"
  and spmc_newD: "spmc_laws ops kind content \<Longrightarrow> content (rq_new ops) = {#}"
  by (simp_all add: spmc_laws_def)

text \<open>What two states agree on when only ready queues differ.\<close>

definition queues_differ :: "('q, 'b) schedule_scheme \<Rightarrow> ('q, 'b) schedule_scheme \<Rightarrow> bool" where
  "queues_differ s s' \<longleftrightarrow> debug s' = debug s \<and> strategies s' = strategies s \<and> owner s' = owner s \<and>
     properties s' = properties s \<and> infos s' = infos s \<and>
     (\<forall>p. st_id (strategy_at s' p) = st_id (strategy_at s p) \<and>
          waiting_head (strategy_at s' p) = waiting_head (strategy_at s p) \<and>
          waiting_tail (strategy_at s' p) = waiting_tail (strategy_at s p))"

lemma queues_differ_refl [simp]: "queues_differ s s"
  and queues_differ_set_ready [simp]: "queues_differ s (set_ready p q s)"
  by (simp_all add: queues_differ_def)

lemma queues_differ_trans: "queues_differ s s' \<Longrightarrow> queues_differ s' s'' \<Longrightarrow> queues_differ s s''"
  by (simp add: queues_differ_def)

lemma queues_differ_filled: "queues_differ s s' \<Longrightarrow> filled s' = filled s"
  by (simp add: queues_differ_def filled_def)

lemma steal_step:
  assumes "spmc_laws ops kind content" and "p \<in> filled s" and "steal ops p s = (v, s')"
  shows "queues_differ s s'"
    and "ready_fibers content s = (case v of None \<Rightarrow> {#} | Some c \<Rightarrow> {#c#}) + ready_fibers content s'"
    and "v = Some c \<Longrightarrow> \<not> pinned_context (kind c)"
    and "ready_of content s' p' \<subseteq># ready_of content s p'"
proof -
  obtain q where q: "rq_steal ops (ready_queue (strategy_at s p)) = (v, q)" "s' = set_ready p q s"
    using assms(3) by (auto simp: steal_def split: prod.splits)
  note l = spmc_stealD [OF assms(1) q(1)]
  show "queues_differ s s'" by (simp add: q)
  show "v = Some c \<Longrightarrow> \<not> pinned_context (kind c)" using l(2) by blast
  have c: "ready_of content s p = (case v of None \<Rightarrow> {#} | Some c \<Rightarrow> {#c#}) + content q"
    using l by (cases v) (simp_all add: ready_of_def)
  show "ready_fibers content s = (case v of None \<Rightarrow> {#} | Some c \<Rightarrow> {#c#}) + ready_fibers content s'"
    using ready_fibers_take [OF assms(2) c] q(2) by simp
  show "ready_of content s' p' \<subseteq># ready_of content s p'" using c by (simp add: q(2) ready_set_ready)
qed

lemma slot_filled: "d < length (strategies s) \<Longrightarrow> strategies s ! d = Some p \<Longrightarrow> p \<in> filled s"
  by (metis filled_def mem_Collect_eq nth_mem)

lemma steal_loop_ok:
  assumes "spmc_laws ops kind content" and "set ds \<subseteq> {..<length (strategies s)}"
    and "steal_loop ops self n ds i s = Some (Inr (v, s'))"
  shows "queues_differ s s' \<and>
    ready_fibers content s = (case v of None \<Rightarrow> {#} | Some c \<Rightarrow> {#c#}) + ready_fibers content s' \<and>
    (\<forall>c. v = Some c \<longrightarrow> \<not> pinned_context (kind c)) \<and>
    (\<forall>p. ready_of content s' p \<subseteq># ready_of content s p)"
  using assms(2,3)
proof (induction ds arbitrary: i s)
  case (Cons d ds)
  show ?case
  proof (cases "d = self")
    case True
    with Cons.prems Cons.IH [of s "i + 1"] show ?thesis by simp
  next
    case False
    from Cons.prems False obtain p where p: "strategies s ! d = Some p" by (auto split: option.splits)
    with Cons.prems(1) have f: "p \<in> filled s" using slot_filled [of d s p] by simp
    obtain r s1 where r: "steal ops p s = (r, s1)" by (cases "steal ops p s")
    note st = steal_step [OF assms(1) f r]
    show ?thesis
    proof (cases "r = None \<and> i + 1 < n")
      case True
      have "set ds \<subseteq> {..<length (strategies s1)}" using Cons.prems(1) st(1) by (simp add: queues_differ_def)
      from Cons.IH [OF this, of "i + 1"] True False p r Cons.prems(2) st show ?thesis
        by (auto intro: queues_differ_trans subset_mset.order_trans)
    next
      case False
      with \<open>d \<noteq> self\<close> p r Cons.prems(2) have "v = r" "s' = s1" by (auto split: option.splits if_splits)
      with st show ?thesis by simp
    qed
  qed
qed simp

text \<open>A pick in two parts: the queues, then the owner of the victim.\<close>

lemma pick_victim_ok:
  assumes "spmc_laws ops kind content" and "p \<in> filled s" and "set ds \<subseteq> {..<length (strategies s)}"
    and "pick_victim ops kind ds p s = Some (Inr (v, s'))"
  shows "\<exists>s1. queues_differ s s1 \<and>
    ready_fibers content s = (case v of None \<Rightarrow> {#} | Some c \<Rightarrow> {#c#}) + ready_fibers content s1 \<and>
    (\<forall>c. v = Some c \<longrightarrow> pinned_context (kind c) \<longrightarrow> c \<in># ready_of content s p) \<and>
    (\<forall>p. ready_of content s1 p \<subseteq># ready_of content s p) \<and>
    s' = (case v of None \<Rightarrow> s1 | Some c \<Rightarrow> if pinned_context (kind c) then s1 else attach p c s1)"
proof -
  obtain r q where q: "rq_pop ops (ready_queue (strategy_at s p)) = (r, q)"
    by (cases "rq_pop ops (ready_queue (strategy_at s p))")
  note l = spmc_popD [OF assms(1) q]
  let ?s = "set_ready p q s"
  have c: "ready_of content s p = (case r of None \<Rightarrow> {#} | Some c \<Rightarrow> {#c#}) + content q"
    using l by (cases r) (simp_all add: ready_of_def)
  have t: "ready_fibers content s = (case r of None \<Rightarrow> {#} | Some c \<Rightarrow> {#c#}) + ready_fibers content ?s"
    by (rule ready_fibers_take [OF assms(2) c])
  have sub: "ready_of content ?s p' \<subseteq># ready_of content s p'" for p' using c by (simp add: ready_set_ready)
  show ?thesis
  proof (cases r)
    case (Some x)
    with assms(4) q have "v = Some x" "s' = (if pinned_context (kind x) then ?s else attach p x ?s)"
      by (auto simp: pick_victim_def Let_def)
    with t sub c Some show ?thesis by (intro exI [of _ ?s]) auto
  next
    case None
    show ?thesis
    proof (cases "1 < length (strategies s)")
      case False
      with None assms(4) q have "v = None" "s' = ?s" by (auto simp: pick_victim_def Let_def)
      with None t sub show ?thesis by (intro exI [of _ ?s]) auto
    next
      case True
      with None assms(4) q obtain s2 where
        s2: "steal_loop ops (st_id (strategy_at s p)) (length (strategies s)) ds 0 ?s = Some (Inr (v, s2))"
        "s' = (case v of None \<Rightarrow> s2 | Some c \<Rightarrow> attach p c s2)"
        by (auto simp: pick_victim_def Let_def split: option.splits sum.splits)
      from steal_loop_ok [OF assms(1) _ s2(1)] assms(3) have
        k: "queues_differ ?s s2"
        "ready_fibers content ?s = (case v of None \<Rightarrow> {#} | Some c \<Rightarrow> {#c#}) + ready_fibers content s2"
        "\<And>c. v = Some c \<Longrightarrow> \<not> pinned_context (kind c)" "\<And>p. ready_of content s2 p \<subseteq># ready_of content ?s p"
        by auto
      have "queues_differ s s2" using queues_differ_trans [OF queues_differ_set_ready k(1)] .
      with k s2(2) None t sub show ?thesis
        by (intro exI [of _ s2]) (auto split: option.splits intro: subset_mset.order_trans)
    qed
  qed
qed

lemma recordBacktrace_keeps:
  "strategies (recordBacktrace u p fresh a s) = strategies s" "owner (recordBacktrace u p fresh a s) = owner s"
  "ready_queue (strategy_at (recordBacktrace u p fresh a s) p') = ready_queue (strategy_at s p')"
  "debug (recordBacktrace u p fresh a s) = debug s"
  "waiting_head (strategy_at (recordBacktrace u p fresh a s) p') = waiting_head (strategy_at s p')"
  by (auto simp: recordBacktrace_def Let_def split: option.splits)

lemma eraseBacktrace_keeps:
  assumes "eraseBacktrace p di s = Inr s'"
  shows "strategies s' = strategies s" "owner s' = owner s" "debug s' = debug s"
    "ready_queue (strategy_at s' p') = ready_queue (strategy_at s p')" "properties s' = properties s"
    "waiting_head (strategy_at s' p') = waiting_head (strategy_at s p')"
  using assms by (auto simp: eraseBacktrace_def Let_def split: if_splits option.splits)

text \<open>A whole pick; \<open>picked_from\<close> is what the owners and queues become.\<close>

definition picked_from :: "('q \<Rightarrow> nat multiset) \<Rightarrow> (nat \<Rightarrow> context_type) \<Rightarrow> nat \<Rightarrow> nat option \<Rightarrow>
    ('q, 'b) schedule_scheme \<Rightarrow> ('q, 'b) schedule_scheme \<Rightarrow> bool" where
  "picked_from content kind p v s s' \<longleftrightarrow>
     strategies s' = strategies s \<and>
     ready_fibers content s = (case v of None \<Rightarrow> {#} | Some c \<Rightarrow> {#c#}) + ready_fibers content s' \<and>
     (\<forall>c. v = Some c \<longrightarrow> pinned_context (kind c) \<longrightarrow> c \<in># ready_of content s p) \<and>
     (\<forall>p. ready_of content s' p \<subseteq># ready_of content s p) \<and>
     owner s' = (case v of None \<Rightarrow> owner s
                 | Some c \<Rightarrow> if pinned_context (kind c) then owner s else (owner s)(c \<mapsto> p))"

lemma pick_next_ok:
  assumes "spmc_laws ops kind content" and "p \<in> filled s" and "set ds \<subseteq> {..<length (strategies s)}"
    and "pick_next ops kind u ds fresh active p s = Some (Inr (v, s'))"
  shows "picked_from content kind p v s s'"
proof -
  from assms(4) obtain s2 where
    s2: "pick_victim ops kind ds p s = Some (Inr (v, s2))"
    "s' = s2 \<or> s' = recordBacktrace u p fresh active s2"
    by (auto simp: pick_next_def split: option.splits sum.splits if_splits)
  from pick_victim_ok [OF assms(1-3) s2(1)] obtain s1 where
    k: "queues_differ s s1" "ready_fibers content s = (case v of None \<Rightarrow> {#} | Some c \<Rightarrow> {#c#}) + ready_fibers content s1"
    "\<forall>c. v = Some c \<longrightarrow> pinned_context (kind c) \<longrightarrow> c \<in># ready_of content s p"
    "\<forall>p. ready_of content s1 p \<subseteq># ready_of content s p"
    "s2 = (case v of None \<Rightarrow> s1 | Some c \<Rightarrow> if pinned_context (kind c) then s1 else attach p c s1)" by blast
  have a: "strategies s2 = strategies s" "ready_queue (strategy_at s2 p') = ready_queue (strategy_at s1 p')"
    "owner s2 = (case v of None \<Rightarrow> owner s | Some c \<Rightarrow> if pinned_context (kind c) then owner s else (owner s)(c \<mapsto> p))"
    for p' using k(1,5) by (auto simp: queues_differ_def attach_def split: option.splits)
  have b: "strategies s' = strategies s2" "owner s' = owner s2"
    "ready_queue (strategy_at s' p') = ready_queue (strategy_at s2 p')" for p'
    using s2(2) recordBacktrace_keeps [of u p fresh active s2] by auto
  have "strategies s1 = strategies s" using k(1) by (simp add: queues_differ_def)
  with a b have "ready_fibers content s' = ready_fibers content s1" "ready_of content s' = ready_of content s1"
    by (auto intro!: ready_cong)
  with a b k show ?thesis by (simp add: picked_from_def)
qed

lemma awakened_ok:
  assumes "spmc_laws ops kind content" and "p \<in> filled s" and "awakened ops kind p c di s = Inr s'"
  shows "strategies s' = strategies s" and "ready_fibers content s' = add_mset c (ready_fibers content s)"
    and "ready_of content s' p' = (if p' = p then add_mset c (ready_of content s p) else ready_of content s p')"
    and "owner s' = (if pinned_context (kind c) then owner s else (owner s)(c := None))"
proof -
  from assms(3) obtain s2 where d: "(if pinned_context (kind c) then Inr s
      else let s1 = detach_context c s in if debug s = DEBUG_ON then eraseBacktrace p di s1 else Inr s1) = Inr s2"
    and s': "s' = set_ready p (rq_push ops c (ready_queue (strategy_at s2 p))) s2"
    by (auto simp: awakened_def split: sum.splits)
  have s2: "strategies s2 = strategies s"
    "owner s2 = (if pinned_context (kind c) then owner s else (owner s)(c := None))"
    "ready_queue (strategy_at s2 p) = ready_queue (strategy_at s p)" for p
    using d by (auto simp: detach_context_def Let_def dest: eraseBacktrace_keeps split: if_splits)
  note r = ready_cong [OF s2(1) s2(3)]
  have q: "content (rq_push ops c (ready_queue (strategy_at s2 p))) = add_mset c (ready_of content s p)"
    using spmc_pushD [OF assms(1)] s2(3) by (simp add: ready_of_def)
  show "strategies s' = strategies s" "owner s' = (if pinned_context (kind c) then owner s else (owner s)(c := None))"
    using s2 s' by simp_all
  show "ready_of content s' p' = (if p' = p then add_mset c (ready_of content s p) else ready_of content s p')"
    using q r(2) unfolding s' ready_set_ready by simp
  have "p \<in> filled s2" using assms(2) r(1) by simp
  from ready_fibers_set_ready [OF this, of content "rq_push ops c (ready_queue (strategy_at s2 p))"] q r show "ready_fibers content s' = add_mset c (ready_fibers content s)"
    unfolding s' by simp
qed

text \<open>The calls the threads of a context make, as calls on a pool: a call of a strategy that is in no
  slot, draws outside the generator's range and calls that fail end the run.\<close>

definition wake_call :: "'q ready_ops \<Rightarrow> (nat \<Rightarrow> context_type) \<Rightarrow> nat \<times> nat \<Rightarrow> nat \<Rightarrow>
    ('q, 'b) schedule_scheme \<Rightarrow> ('q, 'b) schedule_scheme option" where
  "wake_call ops kind k c s = (case k of (p, di) \<Rightarrow>
     if p \<in> filled s then (case awakened ops kind p c di s of Inl e \<Rightarrow> None | Inr s' \<Rightarrow> Some s') else None)"

definition pick_call :: "'q ready_ops \<Rightarrow> (nat \<Rightarrow> context_type) \<Rightarrow> 'c unwinder \<Rightarrow> nat list \<times> nat \<times> nat \<times> nat \<Rightarrow>
    ('q, 'b) schedule_scheme \<Rightarrow> (nat option \<times> ('q, 'b) schedule_scheme) option" where
  "pick_call ops kind u k s = (case k of (ds, fresh, active, p) \<Rightarrow>
     if p \<in> filled s \<and> set ds \<subseteq> {..<length (strategies s)} then
       (case pick_next ops kind u ds fresh active p s of Some (Inr r) \<Rightarrow> Some r | _ \<Rightarrow> None)
     else None)"

definition fibers_held :: "'q ready_ops \<Rightarrow> (nat \<Rightarrow> context_type) \<Rightarrow> ('q \<Rightarrow> nat multiset) \<Rightarrow>
    ('q, 'b) schedule_scheme \<Rightarrow> nat multiset \<Rightarrow> bool" where
  "fibers_held ops kind content s M \<longleftrightarrow> spmc_laws ops kind content \<and> M = ready_fibers content s"

interpretation ready_pool: work_pool "fibers_held ops kind content" "wake_call ops kind" "pick_call ops kind u"
  for ops kind content u
proof
  show "fibers_held ops kind content s' (add_mset x M)"
    if "fibers_held ops kind content s M" "wake_call ops kind k x s = Some s'" for s M k x and s' :: "('a, 'b) schedule_scheme"
    using that awakened_ok(2) [of ops kind content "fst k" s x "snd k" s']
    by (auto simp: fibers_held_def wake_call_def split: if_splits sum.splits prod.splits)
  show "\<exists>M'. fibers_held ops kind content s' M' \<and> M = (case r of None \<Rightarrow> {#} | Some x \<Rightarrow> {#x#}) + M'"
    if h: "fibers_held ops kind content s M" and g: "pick_call ops kind u j s = Some (r, s')"
    for s M j r and s' :: "('a, 'b) schedule_scheme"
  proof -
    obtain ds fresh active p where j: "j = (ds, fresh, active, p)" by (cases j)
    from g have "p \<in> filled s" "set ds \<subseteq> {..<length (strategies s)}"
      "pick_next ops kind u ds fresh active p s = Some (Inr (r, s'))"
      by (auto simp: pick_call_def j split: if_splits option.splits sum.splits)
    from pick_next_ok [OF _ this] h show ?thesis
      by (auto simp: fibers_held_def picked_from_def)
  qed
qed

section \<open>A strategy's run of suspensions and wake-ups\<close>

text \<open>\<open>pick_next\<close> is called by the fiber that suspends, \<open>awakened\<close> for a fiber that becomes ready,
  with the debug info in its properties. The scheduler always has its dispatcher ready, so a pick
  without a victim ends the run.\<close>

datatype wait_event = Suspend nat "nat list" | Awake nat

fun wait_run :: "'q ready_ops \<Rightarrow> (nat \<Rightarrow> context_type) \<Rightarrow> 'c unwinder \<Rightarrow> nat \<Rightarrow> wait_event list \<Rightarrow>
    ('q, 'b) schedule_scheme \<Rightarrow> ('q, 'b) schedule_scheme option" where
  "wait_run ops kind u p [] s = Some s"
| "wait_run ops kind u p (Suspend a ds # es) s =
     (case pick_next ops kind u ds 0 a p s of
        Some (Inr (Some c, s')) \<Rightarrow> wait_run ops kind u p es s'
      | _ \<Rightarrow> None)"
| "wait_run ops kind u p (Awake c # es) s =
     (case properties s c of
        None \<Rightarrow> None
      | Some di \<Rightarrow> (case awakened ops kind p c di s of
                     Inl e \<Rightarrow> None | Inr s' \<Rightarrow> wait_run ops kind u p es s'))"

text \<open>The abstract list; \<open>info c\<close> is the debug info of context \<open>c\<close> and \<open>ended\<close> its terminated flag.\<close>

definition recorded :: "(nat \<Rightarrow> context_type) \<Rightarrow> (nat \<Rightarrow> nat) \<Rightarrow> (nat \<Rightarrow> bool) \<Rightarrow> nat \<Rightarrow> bool" where
  "recorded kind info ended a \<longleftrightarrow> kind a = WorkerContext \<and> \<not> ended (info a)"

fun wait_spec :: "(nat \<Rightarrow> context_type) \<Rightarrow> (nat \<Rightarrow> nat) \<Rightarrow> (nat \<Rightarrow> bool) \<Rightarrow> wait_event list \<Rightarrow> nat list \<Rightarrow> nat list" where
  "wait_spec kind info ended [] xs = xs"
| "wait_spec kind info ended (Suspend a ds # es) xs =
     wait_spec kind info ended es (if recorded kind info ended a then xs @ [info a] else xs)"
| "wait_spec kind info ended (Awake c # es) xs =
     wait_spec kind info ended es (if pinned_context (kind c) then xs else remove1 (info c) xs)"

text \<open>No fiber suspends again before it was awakened, and the draws are in range.\<close>

fun wait_ok :: "(nat \<Rightarrow> context_type) \<Rightarrow> (nat \<Rightarrow> nat) \<Rightarrow> (nat \<Rightarrow> bool) \<Rightarrow> nat \<Rightarrow> wait_event list \<Rightarrow> nat list \<Rightarrow> bool" where
  "wait_ok kind info ended n [] xs = True"
| "wait_ok kind info ended n (Suspend a ds # es) xs =
     ((recorded kind info ended a \<longrightarrow> info a \<notin> set xs) \<and> set ds \<subseteq> {..<n} \<and>
      wait_ok kind info ended n es (if recorded kind info ended a then xs @ [info a] else xs))"
| "wait_ok kind info ended n (Awake c # es) xs =
     wait_ok kind info ended n es (if pinned_context (kind c) then xs else remove1 (info c) xs)"

definition tracked :: "(nat \<Rightarrow> nat) \<Rightarrow> (nat \<Rightarrow> bool) \<Rightarrow> nat \<Rightarrow> ('q, 'b) schedule_scheme \<Rightarrow> nat list \<Rightarrow> bool" where
  "tracked info ended p s xs \<longleftrightarrow> waiting_inv p s xs \<and> debug s = DEBUG_ON \<and> p \<in> filled s \<and>
     (\<forall>c. properties s c = Some (info c)) \<and> (\<forall>a. terminated (infos s a) = ended a) \<and>
     waiting_head (strategy_at s p) \<notin> range info"

lemma waiting_inv_cong:
  assumes "infos s' = infos s" and "waiting_head (strategy_at s' p) = waiting_head (strategy_at s p)"
    and "waiting_tail (strategy_at s' p) = waiting_tail (strategy_at s p)"
  shows "waiting_inv p s' xs = waiting_inv p s xs"
  by (simp only: waiting_inv_def waiting_list_def assms)

lemma terminated_keeps:
  "terminated (infos (recordBacktrace u p fresh a s) x) = terminated (infos s x)" if "properties s a \<noteq> None"
  using that by (auto simp: recordBacktrace_def terminated_def Let_def split: if_splits)

lemma terminated_erase: "eraseBacktrace p di s = Inr s' \<Longrightarrow> terminated (infos s' x) = terminated (infos s x)"
  by (auto simp: eraseBacktrace_def terminated_def Let_def split: if_splits option.splits)

lemma tracked_cong:
  assumes "tracked info ended p s xs" and "queues_differ s s1" and "s' = s1 \<or> s' = attach p c s1"
  shows "tracked info ended p s' xs"
proof -
  have "infos s' = infos s" "waiting_head (strategy_at s' p) = waiting_head (strategy_at s p)"
    "waiting_tail (strategy_at s' p) = waiting_tail (strategy_at s p)" "debug s' = debug s"
    "strategies s' = strategies s" "properties s' = properties s"
    using assms(2,3) by (auto simp: queues_differ_def attach_def)
  note e = this
  show ?thesis using assms(1) unfolding tracked_def filled_def waiting_inv_cong [OF e(1-3)] e .
qed

lemma tracked_suspend:
  assumes t: "tracked info ended p s xs" and l: "spmc_laws ops kind content"
    and d: "set ds \<subseteq> {..<length (strategies s)}" and r: "recorded kind info ended a \<Longrightarrow> info a \<notin> set xs"
    and k: "pick_next ops kind u ds fresh a p s = Some (Inr (Some c, s'))"
  shows "tracked info ended p s' (if recorded kind info ended a then xs @ [info a] else xs)
    \<and> strategies s' = strategies s"
proof -
  from k obtain s2 where s2: "pick_victim ops kind ds p s = Some (Inr (Some c, s2))"
    "s' = (if debug s2 = DEBUG_ON \<and> kind a = WorkerContext then recordBacktrace u p fresh a s2 else s2)"
    by (auto simp: pick_next_def split: option.splits sum.splits)
  have f: "p \<in> filled s" using t by (simp add: tracked_def)
  from pick_victim_ok [OF l f d s2(1)] obtain s1 where
    s1: "queues_differ s s1" "s2 = s1 \<or> s2 = attach p c s1" by (auto split: if_splits)
  have sl: "strategies s2 = strategies s" using s1 by (auto simp: queues_differ_def attach_def)
  note t2 = tracked_cong [OF t s1]
  show ?thesis
  proof (cases "kind a = WorkerContext")
    case False
    with t2 s2(2) sl show ?thesis by (simp add: recorded_def)
  next
    case True
    then have s': "s' = recordBacktrace u p fresh a s2" using s2(2) t2 by (simp add: tracked_def)
    have pr: "properties s2 a = Some (info a)" using t2 by (simp add: tracked_def)
    show ?thesis
    proof (cases "ended (info a)")
      case True
      then have "s' = s2" using s' pr t2 by (simp add: recordBacktrace_def tracked_def Let_def)
      with True t2 sl show ?thesis by (simp add: recorded_def)
    next
      case False
      with True have rec: "recorded kind info ended a" by (simp add: recorded_def)
      have "waiting_inv p s' (xs @ [info a])"
        unfolding s'
      proof (rule record_waiting)
        have "info a \<noteq> waiting_head (strategy_at s2 p)" using t2 unfolding tracked_def by (metis rangeI)
        with r [OF rec] show "info a \<notin> set (waiting_head (strategy_at s2 p) # xs)" by simp
      qed (use t2 False pr in \<open>simp_all add: tracked_def\<close>)
      moreover have "properties s' = properties s2" using pr s' by (simp add: recordBacktrace_def Let_def)
      moreover have "filled s' = filled s2" by (simp add: filled_def s' recordBacktrace_keeps)
      moreover have "terminated (infos s' x) = ended x" for x
        using t2 terminated_keeps [of s2 a] pr s' by (simp add: tracked_def)
      ultimately show ?thesis using t2 rec sl
        by (simp add: tracked_def s' recordBacktrace_keeps)
    qed
  qed
qed

lemma tracked_awake:
  assumes t: "tracked info ended p s xs" and k: "awakened ops kind p c (info c) s = Inr s'"
  shows "tracked info ended p s' (if pinned_context (kind c) then xs else remove1 (info c) xs)
    \<and> strategies s' = strategies s"
proof -
  have push: "tracked info ended p (set_ready p q s0) ys = tracked info ended p s0 ys" for q ys and s0 :: "('a, 'b) schedule_scheme"
  proof -
    have "waiting_inv p (set_ready p q s0) ys = waiting_inv p s0 ys" by (rule waiting_inv_cong) simp_all
    then show ?thesis by (simp add: tracked_def filled_def)
  qed
  show ?thesis
  proof (cases "pinned_context (kind c)")
    case True
    with k t push show ?thesis by (auto simp: awakened_def)
  next
    case False
    let ?s = "detach_context c s"
    have t1: "tracked info ended p ?s xs"
    proof -
      have "waiting_inv p ?s xs = waiting_inv p s xs" by (rule waiting_inv_cong) (simp_all add: detach_context_def)
      then show ?thesis using t by (simp add: tracked_def filled_def detach_context_def)
    qed
    have d: "debug s = DEBUG_ON" "info c \<noteq> waiting_head (strategy_at ?s p)" "waiting_inv p ?s xs"
      using t t1 by (simp_all add: tracked_def detach_context_def) (metis rangeI)
    from erase_waiting [OF d(3,2)] obtain s2 where
      s2: "eraseBacktrace p (info c) ?s = Inr s2" "waiting_inv p s2 (remove1 (info c) xs)" by blast
    note e = eraseBacktrace_keeps [OF s2(1)]
    have "tracked info ended p s2 (remove1 (info c) xs)"
      using t1 s2 e terminated_erase [OF s2(1)] by (simp add: tracked_def filled_def)
    moreover have "s' = set_ready p (rq_push ops c (ready_queue (strategy_at s2 p))) s2"
      using k False d(1) s2(1) by (simp add: awakened_def Let_def)
    ultimately show ?thesis using False push e(1) by (simp add: detach_context_def)
  qed
qed

lemma wait_run_tracked:
  assumes "spmc_laws ops kind content" and "tracked info ended p s xs"
    and "wait_ok kind info ended (length (strategies s)) es xs" and "wait_run ops kind u p es s = Some s'"
  shows "tracked info ended p s' (wait_spec kind info ended es xs)"
  using assms(2-4)
proof (induction es arbitrary: s xs)
  case (Cons e es)
  show ?case
  proof (cases e)
    case (Suspend a ds)
    with Cons.prems(3) obtain c s1 where s1: "pick_next ops kind u ds 0 a p s = Some (Inr (Some c, s1))"
      "wait_run ops kind u p es s1 = Some s'"
      by (auto split: option.splits sum.splits)
    from tracked_suspend [OF Cons.prems(1) assms(1) _ _ s1(1)] Cons.prems(2) Suspend
    have "tracked info ended p s1 (if recorded kind info ended a then xs @ [info a] else xs)"
      "strategies s1 = strategies s" by auto
    from Cons.IH [OF this(1)] this(2) Cons.prems(2) s1(2) Suspend show ?thesis by simp
  next
    case (Awake c)
    have "properties s c = Some (info c)" using Cons.prems(1) by (simp add: tracked_def)
    with Awake Cons.prems(3) obtain s1 where s1: "awakened ops kind p c (info c) s = Inr s1"
      "wait_run ops kind u p es s1 = Some s'" by (auto split: sum.splits)
    note t = tracked_awake [OF Cons.prems(1) s1(1)]
    from Cons.IH [OF t [THEN conjunct1]] t [THEN conjunct2] s1(2) Cons.prems(2) Awake show ?thesis
      by (cases "pinned_context (kind c)") simp_all
  qed
qed simp

section \<open>Filling the slots\<close>

fun strategies_new :: "'q ready_ops \<Rightarrow> (nat \<times> nat) list \<Rightarrow> ('q, 'b) schedule_scheme \<Rightarrow>
    strategy_error + ('q, 'b) schedule_scheme" where
  "strategies_new ops [] s = Inr s"
| "strategies_new ops ((p, h) # phs) s =
     (case strategy_new ops p h s of Inl e \<Rightarrow> Inl e | Inr s' \<Rightarrow> strategies_new ops phs s')"

text \<open>Each strategy in a slot knows its index.\<close>

definition slots_ok :: "('q, 'b) schedule_scheme \<Rightarrow> bool" where
  "slots_ok s \<longleftrightarrow> (\<forall>i < length (strategies s). \<forall>p. strategies s ! i = Some p \<longrightarrow> st_id (strategy_at s p) = i)"

lemma strategy_new_ok:
  assumes "next_strategy_index s < length (strategies s)"
  shows "\<exists>s'. strategy_new ops p h s = Inr s' \<and> next_strategy_index s' = next_strategy_index s + 1 \<and>
    strategies s' = (strategies s)[next_strategy_index s := Some p] \<and>
    strategy_at s' = (strategy_at s)(p := \<lparr>st_id = next_strategy_index s, ready_queue = rq_new ops,
                                           waiting_head = h, waiting_tail = h\<rparr>) \<and>
    infos s' = (infos s)(h := debug_info_new)"
  using assms by (simp add: strategy_new_def Let_def)

lemma strategies_new_ok:
  assumes "slots_ok s" and "strategies s = map Some ps @ replicate m None" and "next_strategy_index s = length ps"
    and "distinct (ps @ map fst phs)"
  shows "(m < length phs \<longrightarrow> strategies_new ops phs s = Inl StrategyIndex) \<and>
    (length phs \<le> m \<longrightarrow> (\<exists>s'. strategies_new ops phs s = Inr s' \<and> slots_ok s' \<and>
       strategies s' = map Some (ps @ map fst phs) @ replicate (m - length phs) None))"
  using assms
proof (induction phs arbitrary: s ps m)
  case (Cons ph phs)
  obtain p h where ph: "ph = (p, h)" by (cases ph)
  show ?case
  proof (cases m)
    case 0
    with Cons.prems ph show ?thesis by (simp add: strategy_new_def Let_def)
  next
    case (Suc k)
    have "next_strategy_index s < length (strategies s)" using Cons.prems(2,3) Suc by simp
    from strategy_new_ok [OF this, of ops p h] obtain s1 where s1: "strategy_new ops p h s = Inr s1"
      "next_strategy_index s1 = length (ps @ [p])" "strategies s1 = (strategies s)[length ps := Some p]"
      "strategy_at s1 = (strategy_at s)(p := \<lparr>st_id = length ps, ready_queue = rq_new ops,
                                           waiting_head = h, waiting_tail = h\<rparr>)"
      using Cons.prems(3) by auto
    have sl: "strategies s1 = map Some (ps @ [p]) @ replicate k None"
      using s1(3) Cons.prems(2) Suc by (simp add: list_update_append)
    have "slots_ok s1"
      unfolding slots_ok_def
    proof (intro allI impI)
      fix i x assume i: "i < length (strategies s1)" "strategies s1 ! i = Some x"
      show "st_id (strategy_at s1 x) = i"
      proof (cases "i = length ps")
        case True
        with i(2) s1(4) sl show ?thesis by (simp add: nth_append)
      next
        case False
        then have "strategies s ! i = Some x" using i s1(3) by simp
        moreover have "i < length (strategies s)" using i(1) s1(3) by simp
        ultimately have "st_id (strategy_at s x) = i" using Cons.prems(1) by (simp add: slots_ok_def)
        moreover have "x \<noteq> p"
        proof -
          have "i < length ps" using i sl False by (auto simp: nth_append split: if_splits)
          then have "x = ps ! i" using i(2) sl by (simp add: nth_append)
          with \<open>i < length ps\<close> Cons.prems(4) ph show ?thesis by auto
        qed
        ultimately show ?thesis using s1(4) by simp
      qed
    qed
    from Cons.IH [OF this sl s1(2)] Cons.prems(4) ph s1(1) Suc show ?thesis by simp
  qed
qed simp

section \<open>Properties\<close>

text \<open>Claim C9: No ready fiber is lost and none runs twice. Over any calls of \<open>awakened\<close> and \<open>pick_next\<close> by
  the strategies of a context, stealing included, the fibers awakened are the fibers picked and
  those still ready in some queue.\<close>

theorem fibers_conserved:
  assumes "spmc_laws ops kind content" and "ready_fibers content s = {#}"
    and "pool_run (wake_call ops kind) (pick_call ops kind u) acts s = Some (outs, s')"
  shows "mset (put_items acts) = mset outs + ready_fibers content s'"
  using ready_pool.run_conserves [of ops kind content s "{#}" u acts outs s'] assms
  by (simp add: fibers_held_def)

definition ready_detached :: "(nat \<Rightarrow> context_type) \<Rightarrow> ('q \<Rightarrow> nat multiset) \<Rightarrow> ('q, 'b) schedule_scheme \<Rightarrow> bool" where
  "ready_detached kind content s \<longleftrightarrow>
     (\<forall>c \<in># ready_fibers content s. count (ready_fibers content s) c = 1 \<and>
        (\<not> pinned_context (kind c) \<longrightarrow> owner s c = None))"

lemma pick_hands_over:
  assumes "spmc_laws ops kind content" and "ready_detached kind content s" and "p \<in> filled s"
    and "set ds \<subseteq> {..<length (strategies s)}"
    and "pick_next ops kind u ds fresh active p s = Some (Inr (v, s'))"
  shows "ready_detached kind content s'"
proof -
  note k = pick_next_ok [OF assms(1,3-5), unfolded picked_from_def]
  then have r: "ready_fibers content s = (case v of None \<Rightarrow> {#} | Some c \<Rightarrow> {#c#}) + ready_fibers content s'"
    by simp
  show ?thesis
    unfolding ready_detached_def
  proof
    fix x assume x: "x \<in># ready_fibers content s'"
    then have xs: "x \<in># ready_fibers content s" using r by simp
    then have one: "count (ready_fibers content s) x = 1" "\<not> pinned_context (kind x) \<Longrightarrow> owner s x = None"
      using assms(2) by (auto simp: ready_detached_def)
    have "v \<noteq> Some x"
    proof
      assume "v = Some x"
      with r have "count (ready_fibers content s) x = Suc (count (ready_fibers content s') x)" by simp
      moreover have "0 < count (ready_fibers content s') x" using x by simp
      ultimately show False using one(1) by linarith
    qed
    then have "count (ready_fibers content s') x = count (ready_fibers content s) x" "owner s' x = owner s x"
      using r k by (auto split: option.splits)
    with one show "count (ready_fibers content s') x = 1 \<and> (\<not> pinned_context (kind x) \<longrightarrow> owner s' x = None)"
      by simp
  qed
qed

text \<open>Awakening keeps the premise of the hand-over: the fiber is detached before it becomes visible to
  the other strategies.\<close>

theorem awakened_detaches:
  assumes "spmc_laws ops kind content" and "ready_detached kind content s" and "p \<in> filled s"
    and "c \<notin># ready_fibers content s" and "awakened ops kind p c di s = Inr s'"
  shows "ready_detached kind content s' \<and> ready_of content s' p = add_mset c (ready_of content s p)
    \<and> (pinned_context (kind c) \<or> owner s' c = None)"
proof -
  note k = awakened_ok [OF assms(1,3,5)]
  have "ready_detached kind content s'"
    unfolding ready_detached_def
  proof
    fix x assume "x \<in># ready_fibers content s'"
    then show "count (ready_fibers content s') x = 1 \<and> (\<not> pinned_context (kind x) \<longrightarrow> owner s' x = None)"
      using k assms(2,4) by (cases "x = c") (auto simp: ready_detached_def not_in_iff)
  qed
  with k show ?thesis by simp
qed

text \<open>The hand-over between the strategies of a context, as runs: a strategy is told of a fiber that
  becomes ready, a strategy picks, or the schedulers of Boost.Fiber attach a context to one of them
  (a fiber is launched) or detach it (it ended). They do all but the picking for contexts that are
  in no ready queue, as Boost.Fiber asserts.\<close>

inductive hand_step :: "'q ready_ops \<Rightarrow> (nat \<Rightarrow> context_type) \<Rightarrow> ('q \<Rightarrow> nat multiset) \<Rightarrow> 'c unwinder \<Rightarrow>
    ('q, 'b) schedule_scheme \<Rightarrow> ('q, 'b) schedule_scheme \<Rightarrow> bool" for ops kind content u where
  hand_woken: "p \<in> filled s \<Longrightarrow> c \<notin># ready_fibers content s \<Longrightarrow> awakened ops kind p c di s = Inr s' \<Longrightarrow>
     hand_step ops kind content u s s'"
| hand_picked: "p \<in> filled s \<Longrightarrow> set ds \<subseteq> {..<length (strategies s)} \<Longrightarrow>
     pick_next ops kind u ds fresh active p s = Some (Inr (v, s')) \<Longrightarrow> hand_step ops kind content u s s'"
| hand_attached: "c \<notin># ready_fibers content s \<Longrightarrow> hand_step ops kind content u s (attach p c s)"
| hand_detached: "c \<notin># ready_fibers content s \<Longrightarrow> hand_step ops kind content u s (detach_context c s)"

lemma owner_change_detached:
  assumes "ready_detached kind content s" and "c \<notin># ready_fibers content s"
    and "strategies s' = strategies s" and "\<And>p. ready_queue (strategy_at s' p) = ready_queue (strategy_at s p)"
    and "\<And>x. x \<noteq> c \<Longrightarrow> owner s' x = owner s x"
  shows "ready_detached kind content s'"
  using assms(1,2,5) ready_cong(3) [OF assms(3,4), of content]
  unfolding ready_detached_def by metis

lemma hand_step_detached:
  assumes "spmc_laws ops kind content" and "hand_step ops kind content u s s'"
    and "ready_detached kind content s"
  shows "ready_detached kind content s'"
  using assms(2)
proof cases
  case (hand_woken p c di)
  then show ?thesis using awakened_detaches [OF assms(1,3)] by blast
next
  case (hand_picked p ds fresh active v)
  then show ?thesis using pick_hands_over [OF assms(1,3)] by blast
next
  case (hand_attached c p)
  show ?thesis
    unfolding hand_attached(1) by (rule owner_change_detached [OF assms(3) hand_attached(2)]) (simp_all add: attach_def)
next
  case (hand_detached c)
  show ?thesis
    unfolding hand_detached(1) by (rule owner_change_detached [OF assms(3) hand_detached(2)]) (simp_all add: detach_context_def)
qed

lemma hand_run_detached:
  assumes "spmc_laws ops kind content" and "ready_fibers content s0 = {#}"
    and "(hand_step ops kind content u)\<^sup>*\<^sup>* s0 s"
  shows "ready_detached kind content s"
  using assms(3)
proof (induction rule: rtranclp_induct)
  case base
  then show ?case by (simp add: ready_detached_def assms(2))
next
  case (step s t)
  then show ?case using hand_step_detached [OF assms(1)] by blast
qed

text \<open>Claim C27: Fibers change hands one strategy at a time. From a state with nothing ready, over any
  run of wake-ups and picks of the strategies, stealing included, while Boost.Fiber attaches the
  fibers it launches and detaches those that end (it wakes, attaches and detaches only contexts
  that are in no ready queue): the context a pick returns was ready exactly once and is ready nowhere
  afterwards; a worker is at that moment attached to no scheduler (it was detached before it was
  pushed, so Boost's assertion in \<open>attach\<close> holds), is then attached to the picking strategy's, and
  no other context changes hands. A pinned context keeps its scheduler, and comes from the
  strategy's own queue; that one is the documented law of the queue's \<open>steal\<close>.\<close>

theorem pick_attaches:
  assumes "spmc_laws ops kind content" and "ready_fibers content s0 = {#}"
    and "(hand_step ops kind content u)\<^sup>*\<^sup>* s0 s" and "p \<in> filled s"
    and "set ds \<subseteq> {..<length (strategies s)}"
    and "pick_next ops kind u ds fresh active p s = Some (Inr (Some c, s'))"
  shows "count (ready_fibers content s) c = 1 \<and> c \<notin># ready_fibers content s'
    \<and> (if pinned_context (kind c) then c \<in># ready_of content s p \<and> owner s' = owner s
       else owner s c = None \<and> owner s' = (owner s)(c \<mapsto> p))"
proof -
  note k = pick_next_ok [OF assms(1,4-6), unfolded picked_from_def]
  then have r: "ready_fibers content s = add_mset c (ready_fibers content s')" by simp
  have "ready_detached kind content s" by (rule hand_run_detached [OF assms(1-3)])
  then have one: "count (ready_fibers content s) c = 1" "\<not> pinned_context (kind c) \<Longrightarrow> owner s c = None"
    using r by (auto simp: ready_detached_def)
  then have "c \<notin># ready_fibers content s'" using r by (simp add: not_in_iff)
  with k one r show ?thesis by auto
qed

lemma steal_loop_returns:
  assumes "\<forall>i < length (strategies s). strategies s ! i \<noteq> None" and "set ds \<subseteq> {..<length (strategies s)}"
    and "n \<le> i + length (filter (\<lambda>d. d \<noteq> self) ds)" and "filter (\<lambda>d. d \<noteq> self) ds \<noteq> []"
  shows "\<exists>v s'. steal_loop ops self n ds i s = Some (Inr (v, s'))"
  using assms
proof (induction ds arbitrary: i s)
  case (Cons d ds)
  show ?case
  proof (cases "d = self")
    case True
    with Cons.prems Cons.IH [of s "i + 1"] show ?thesis by simp
  next
    case False
    with Cons.prems(1,2) obtain p where p: "strategies s ! d = Some p" by auto
    obtain r s1 where r: "steal ops p s = (r, s1)" by (cases "steal ops p s")
    then have sl: "strategies s1 = strategies s" by (auto simp: steal_def split: prod.splits)
    show ?thesis
    proof (cases "r = None \<and> i + 1 < n")
      case True
      then have "filter (\<lambda>d. d \<noteq> self) ds \<noteq> []" using Cons.prems(3) False by auto
      with Cons.IH [of s1 "i + 1"] Cons.prems(1-3) sl False True p r show ?thesis by simp
    next
      case nf: False
      with False p r show ?thesis by (cases r) auto
    qed
  qed
qed simp

text \<open>Claim C30: The stealing loops end: with every slot filled, a list of draws that holds as many draws of
  other strategies as there are strategies is enough, whatever the queues hold.\<close>

theorem pick_next_returns:
  assumes "\<forall>i < length (strategies s). strategies s ! i \<noteq> None" and "set ds \<subseteq> {..<length (strategies s)}"
    and "length (strategies s) \<le> 1 \<or>
      length (strategies s) \<le> length (filter (\<lambda>d. d \<noteq> st_id (strategy_at s p)) ds)"
  shows "\<exists>v s'. pick_next ops kind u ds fresh active p s = Some (Inr (v, s'))"
proof -
  have "\<exists>v s'. pick_victim ops kind ds p s = Some (Inr (v, s'))"
  proof (cases "rq_pop ops (ready_queue (strategy_at s p))")
    case (Pair r q)
    show ?thesis
    proof (cases "r = None \<and> 1 < length (strategies s)")
      case True
      then have "length (strategies s) \<le> length (filter (\<lambda>d. d \<noteq> st_id (strategy_at s p)) ds)"
        "filter (\<lambda>d. d \<noteq> st_id (strategy_at s p)) ds \<noteq> []" using assms(3) by auto
      with steal_loop_returns [of "set_ready p q s" ds "length (strategies s)" 0 "st_id (strategy_at s p)" ops]
        assms(1,2) obtain v s' where
        "steal_loop ops (st_id (strategy_at s p)) (length (strategies s)) ds 0 (set_ready p q s) = Some (Inr (v, s'))"
        by auto
      with True Pair show ?thesis by (cases v) (simp_all add: pick_victim_def Let_def)
    next
      case False
      with Pair show ?thesis by (cases r) (auto simp: pick_victim_def Let_def)
    qed
  qed
  then show ?thesis by (auto simp: pick_next_def)
qed

text \<open>Claim C10: The chain of debug infos is the list of the fibers that wait. Over any run of suspensions and
  wake-ups of a strategy in debug mode, its doubly linked list stays well formed in both
  directions and holds exactly the workers that suspended and were not awakened since, in the
  order they suspended; terminated fibers and pinned contexts are not in it.\<close>

theorem waiting_list_refines:
  assumes "spmc_laws ops kind content" and "tracked info ended p s []"
    and "wait_ok kind info ended (length (strategies s)) es []" and "wait_run ops kind u p es s = Some s'"
  shows "waiting_list p s' (wait_spec kind info ended es [])"
  using wait_run_tracked [OF assms] by (simp add: tracked_def waiting_inv_def)

text \<open>A context of \<open>n\<close> threads has room for exactly \<open>n\<close> strategies. After \<open>n\<close> constructions
  every slot holds its strategy, at the strategy's own index; the next one writes past the vector.\<close>

theorem strategies_fill_slots:
  assumes "distinct (map fst phs)" and "strategies s = replicate n None" and "next_strategy_index s = 0"
  shows "if n < length phs then strategies_new ops phs s = Inl StrategyIndex
    else \<exists>s'. strategies_new ops phs s = Inr s' \<and> slots_ok s' \<and>
           strategies s' = map (Some \<circ> fst) phs @ replicate (n - length phs) None"
  using strategies_new_ok [of s "[]" n phs ops] assms by (auto simp: slots_ok_def)

subsection \<open>Concrete runs\<close>

definition deque_ops :: "(nat \<Rightarrow> context_type) \<Rightarrow> nat list ready_ops" where
  "deque_ops kind = \<lparr>rq_new = [], rq_push = (\<lambda>c q. q @ [c]),
     rq_pop = (\<lambda>q. if q = [] then (None, q) else (Some (last q), butlast q)),
     rq_steal = (\<lambda>q. if q = [] \<or> pinned_context (kind (hd q)) then (None, q) else (Some (hd q), tl q)),
     rq_empty = (\<lambda>q. q = [])\<rparr>"

lemma deque_laws: "spmc_laws (deque_ops kind) kind mset"
proof -
  have "mset q = add_mset (last q) (mset (butlast q))" if "q \<noteq> []" for q :: "nat list"
    using that append_butlast_last_id [of q] mset_append [of "butlast q" "[last q]"] by simp
  moreover have "mset q = add_mset (hd q) (mset (tl q))" if "q \<noteq> []" for q :: "nat list"
    using that by (cases q) simp_all
  ultimately show ?thesis by (simp add: spmc_laws_def deque_ops_def)
qed

text \<open>Two strategies, at 10 and 20; contexts 0 and 1 are dispatchers, the others workers.\<close>

definition two_kinds :: "nat \<Rightarrow> context_type" where
  "two_kinds c = (if c < 2 then DispatcherContext else WorkerContext)"

definition two_strategies :: "nat list schedule" where
  "two_strategies = \<lparr>debug = DEBUG_ON, next_strategy_index = 2, strategies = [Some 10, Some 20],
     strategy_at = (\<lambda>p. \<lparr>st_id = (if p = 10 then 0 else 1), ready_queue = [], waiting_head = p * 1000,
                         waiting_tail = p * 1000\<rparr>),
     owner = (\<lambda>_. None), properties = (\<lambda>c. Some (2 * c + 1)), infos = (\<lambda>_. debug_info_new)\<rparr>"

definition flat_unwinder :: "nat unwinder" where
  "flat_unwinder = \<lparr>unw_init_local = 0, unw_step = (\<lambda>c. (0, c)), unw_get_reg = (\<lambda>c. 0)\<rparr>"

lemma two_filled: "filled two_strategies = {10, 20}"
  by (auto simp: filled_def two_strategies_def)

lemma two_empty: "ready_fibers mset two_strategies = {#}"
  by (simp add: ready_fibers_def two_filled ready_of_def) (simp add: two_strategies_def)

text \<open>The dispatcher of strategy 20 awakens fiber 5; strategy 10 steals it.\<close>

lemma two_wake:
  "awakened (deque_ops two_kinds) two_kinds 20 5 11 two_strategies =
     Inr (set_ready 20 [5] two_strategies)"
  by (simp add: awakened_def two_strategies_def two_kinds_def pinned_context_def detach_context_def
      eraseBacktrace_def debug_info_new_def deque_ops_def Let_def fun_eq_iff)

lemma two_steal:
  "pick_next (deque_ops two_kinds) two_kinds flat_unwinder [0, 1] 0 0 10 (set_ready 20 [5] two_strategies) =
     Some (Inr (Some 5, attach 10 5 (set_ready 20 [] (set_ready 10 [] (set_ready 20 [5] two_strategies)))))"
  by (simp add: pick_next_def pick_victim_def steal_def two_strategies_def two_kinds_def pinned_context_def
      deque_ops_def attach_def Let_def)

theorem fibers_conserved_witness:
  "\<exists>s'. pool_run (wake_call (deque_ops two_kinds) two_kinds) (pick_call (deque_ops two_kinds) two_kinds flat_unwinder)
      [Put (20, 11) 5, Take ([0, 1], 0, 0, 10)] two_strategies = Some ([5], s') \<and> ready_fibers mset s' = {#}"
proof -
  let ?acts = "[Put (20, 11) 5, Take ([0, 1], 0, 0, 10)]"
  obtain s' where r: "pool_run (wake_call (deque_ops two_kinds) two_kinds) (pick_call (deque_ops two_kinds) two_kinds flat_unwinder)
      ?acts two_strategies = Some ([5], s')"
    using two_wake two_steal two_filled
    by (simp add: wake_call_def pick_call_def ready_set_ready) (simp add: two_strategies_def)
  from fibers_conserved [OF deque_laws two_empty r] r show ?thesis by auto
qed

lemma two_wake_attached:
  "awakened (deque_ops two_kinds) two_kinds 20 5 11 (attach 20 5 two_strategies) =
     Inr (set_ready 20 [5] two_strategies)"
  by (simp add: awakened_def two_strategies_def two_kinds_def pinned_context_def detach_context_def attach_def
      eraseBacktrace_def debug_info_new_def deque_ops_def Let_def fun_eq_iff)

theorem pick_attaches_witness:
  "\<exists>s'. pick_next (deque_ops two_kinds) two_kinds flat_unwinder [0, 1] 0 0 10 (set_ready 20 [5] two_strategies)
     = Some (Inr (Some 5, s')) \<and> owner s' 5 = Some 10"
proof -
  let ?step = "hand_step (deque_ops two_kinds) two_kinds mset flat_unwinder"
  have e: "ready_fibers mset (attach 20 5 two_strategies) = {#}" "filled (attach 20 5 two_strategies) = {10, 20}"
    by (simp_all add: ready_fibers_def filled_def ready_of_def attach_def) (auto simp: two_strategies_def)
  have "?step two_strategies (attach 20 5 two_strategies)"
    by (rule hand_attached) (simp add: two_empty)
  moreover have "?step (attach 20 5 two_strategies) (set_ready 20 [5] two_strategies)"
    by (rule hand_woken [OF _ _ two_wake_attached]) (simp_all add: e)
  ultimately have r: "?step\<^sup>*\<^sup>* two_strategies (set_ready 20 [5] two_strategies)"
    by (blast intro: converse_rtranclp_into_rtranclp)
  have f: "10 \<in> filled (set_ready 20 [5] two_strategies)"
    "set [0, 1] \<subseteq> {..<length (strategies (set_ready 20 [5] two_strategies))}"
    using two_filled by (simp_all add: ready_set_ready) (simp_all add: two_strategies_def)
  from pick_attaches [OF deque_laws two_empty r f two_steal] two_steal show ?thesis
    by (auto simp: two_kinds_def pinned_context_def)
qed

theorem awakened_detaches_witness:
  "ready_of mset (set_ready 20 [5] two_strategies) 20 = {#5#}"
proof -
  have "ready_detached two_kinds mset two_strategies" by (simp add: ready_detached_def two_empty)
  from awakened_detaches [OF deque_laws this _ _ two_wake] two_filled two_empty show ?thesis
    by (simp add: ready_of_def two_strategies_def)
qed

theorem pick_next_returns_witness:
  "\<exists>v s'. pick_next (deque_ops two_kinds) two_kinds flat_unwinder [1, 0, 1] 0 0 10 two_strategies = Some (Inr (v, s'))"
  by (rule pick_next_returns) (auto simp: two_strategies_def less_Suc_eq numeral_2_eq_2)

theorem waiting_list_refines_witness:
  "\<exists>s'. wait_run (deque_ops two_kinds) two_kinds flat_unwinder 10 [Suspend 2 [], Awake 2, Suspend 3 []]
     (set_ready 10 [0, 1] two_strategies) = Some s' \<and> waiting_list 10 s' [7]"
proof -
  let ?es = "[Suspend 2 [], Awake 2, Suspend 3 []]" and ?s = "set_ready 10 [0, 1] two_strategies"
  let ?info = "\<lambda>c. 2 * c + 1" and ?ended = "\<lambda>a::nat. False"
  have t: "tracked ?info ?ended 10 ?s []"
  proof -
    have "10000 \<noteq> Suc (2 * c)" for c :: nat by presburger
    moreover have "10 \<in> filled ?s" using two_filled by (simp only: ready_set_ready) simp
    ultimately show ?thesis
      by (auto simp: tracked_def waiting_inv_def waiting_list_def two_strategies_def terminated_def
          debug_info_new_def)
  qed
  have "wait_run (deque_ops two_kinds) two_kinds flat_unwinder 10 ?es ?s \<noteq> None"
    by (simp add: pick_next_def pick_victim_def awakened_def two_strategies_def two_kinds_def pinned_context_def
      deque_ops_def attach_def detach_context_def recordBacktrace_def eraseBacktrace_def debug_info_new_def
      terminated_def Let_def)
  then obtain s' where s': "wait_run (deque_ops two_kinds) two_kinds flat_unwinder 10 ?es ?s = Some s'" by blast
  have ok: "wait_ok two_kinds ?info ?ended (length (strategies ?s)) ?es []"
    by (simp add: recorded_def two_kinds_def pinned_context_def)
  from waiting_list_refines [OF deque_laws t ok s'] s' show ?thesis
    by (simp add: recorded_def two_kinds_def pinned_context_def)
qed

theorem strategies_fill_slots_witness:
  "strategies_new (deque_ops two_kinds) [(1, 2), (3, 4)]
     (two_strategies\<lparr>next_strategy_index := 0, strategies := [None]\<rparr>) = Inl StrategyIndex"
  using strategies_fill_slots [of "[(1, 2), (3, 4)]" "two_strategies\<lparr>next_strategy_index := 0, strategies := [None]\<rparr>" 1]
  by simp

end
