(* ===== verification/CallStack.thy ===== *)
theory CallStack
  imports Prelude
begin

text \<open>
  \<open>thread::CallStack\<close> (core/thread/detail/CallStack.h), which records per thread the contexts it is
  running in, and \<open>fiber::CallStack\<close> (core/fiber/detail/CallStack.h), the same per fiber.

  A \<open>CallStack::Context\<close> object is a frame at an address; it lives on the stack of the function
  that declares it. The class has no destructor, so the end of a frame's life (\<open>cs_end\<close>) leaves the
  top pointer as it is. Reading a dead frame is undefined behaviour, the value \<open>DeadFrame\<close>.
  \<open>owner\<close>s are thread numbers in the first case and fiber numbers in the second.
\<close>

section \<open>Frames\<close>

record frame =
  fr_next :: "nat option"
  fr_key :: nat
  fr_value :: nat

datatype stack_error = DeadFrame

text \<open>\<open>contain\<close>: the walk from \<open>_s_top\<close>. It is a partial function, since the frames may form a cycle.\<close>

partial_function (option) contain :: "(nat \<Rightarrow> frame option) \<Rightarrow> nat \<Rightarrow> nat option \<Rightarrow>
    (stack_error + nat option) option" where
  "contain frames key element =
     (case element of
        None \<Rightarrow> Some (Inr None)
      | Some a \<Rightarrow>
          (case frames a of
             None \<Rightarrow> Some (Inl DeadFrame)
           | Some f \<Rightarrow> if fr_key f = key then Some (Inr (Some (fr_value f)))
                       else contain frames key (fr_next f)))"

lemma contain_simps [simp]:
  "contain frames key None = Some (Inr None)"
  "frames a = None \<Longrightarrow> contain frames key (Some a) = Some (Inl DeadFrame)"
  "frames a = Some f \<Longrightarrow> contain frames key (Some a) =
     (if fr_key f = key then Some (Inr (Some (fr_value f))) else contain frames key (fr_next f))"
  by (subst contain.simps; simp)+

subsection \<open>Per thread\<close>

record thread_stacks =
  frames :: "nat \<Rightarrow> frame option"
  s_top :: "nat \<Rightarrow> nat option"

definition stacks_new :: thread_stacks where
  "stacks_new = \<lparr>frames = Map.empty, s_top = Map.empty\<rparr>"

text \<open>The two constructors of a frame at address \<open>a\<close>, run by thread \<open>th\<close>: with a value, and with the
  frame itself as its value.\<close>

definition cs_begin_value :: "nat \<Rightarrow> nat \<Rightarrow> nat \<Rightarrow> nat \<Rightarrow> thread_stacks \<Rightarrow> thread_stacks" where
  "cs_begin_value th a key v s =
     s\<lparr>frames := (frames s)(a \<mapsto> \<lparr>fr_next = s_top s th, fr_key = key, fr_value = v\<rparr>),
       s_top := (s_top s)(th \<mapsto> a)\<rparr>"

definition cs_begin :: "nat \<Rightarrow> nat \<Rightarrow> nat \<Rightarrow> thread_stacks \<Rightarrow> thread_stacks" where
  "cs_begin th a key s = cs_begin_value th a key a s"

definition cs_end :: "nat \<Rightarrow> thread_stacks \<Rightarrow> thread_stacks" where
  "cs_end a s = s\<lparr>frames := (frames s)(a := None)\<rparr>"

definition cs_contain :: "nat \<Rightarrow> nat \<Rightarrow> thread_stacks \<Rightarrow> (stack_error + nat option) option" where
  "cs_contain th key s = contain (frames s) key (s_top s th)"

subsection \<open>Per fiber\<close>

text \<open>The fiber-local variable holds a pointer to a heap cell that holds the top; null (the outer
  \<open>None\<close>) in a fiber that never set it.\<close>

record fiber_stacks =
  f_frames :: "nat \<Rightarrow> frame option"
  f_top :: "nat \<Rightarrow> nat option option"

definition fcs_begin_value :: "nat \<Rightarrow> nat \<Rightarrow> nat \<Rightarrow> nat \<Rightarrow> fiber_stacks \<Rightarrow> fiber_stacks" where
  "fcs_begin_value fb a key v s =
     (let next = (case f_top s fb of Some previous_top \<Rightarrow> previous_top | None \<Rightarrow> None)
      in s\<lparr>f_frames := (f_frames s)(a \<mapsto> \<lparr>fr_next = next, fr_key = key, fr_value = v\<rparr>),
           f_top := (f_top s)(fb \<mapsto> Some a)\<rparr>)"

definition fcs_begin :: "nat \<Rightarrow> nat \<Rightarrow> nat \<Rightarrow> fiber_stacks \<Rightarrow> fiber_stacks" where
  "fcs_begin fb a key s = fcs_begin_value fb a key a s"

definition fcs_contain :: "nat \<Rightarrow> nat \<Rightarrow> fiber_stacks \<Rightarrow> (stack_error + nat option) option" where
  "fcs_contain fb key s =
     (case f_top s fb of
        Some element \<Rightarrow> contain (f_frames s) key element
      | None \<Rightarrow> Some (Inr None))"

section \<open>What a stack represents\<close>

text \<open>\<open>stacked fs p es\<close>: from \<open>p\<close> the live frames are \<open>es\<close>, innermost first, as (address, key, value).\<close>

fun stacked :: "(nat \<Rightarrow> frame option) \<Rightarrow> nat option \<Rightarrow> (nat \<times> nat \<times> nat) list \<Rightarrow> bool" where
  "stacked fs p [] \<longleftrightarrow> p = None"
| "stacked fs p ((a, k, v) # es) \<longleftrightarrow> p = Some a \<and>
     (\<exists>q. fs a = Some \<lparr>fr_next = q, fr_key = k, fr_value = v\<rparr> \<and> stacked fs q es)"

lemma stacked_frame: "stacked fs p es \<Longrightarrow> a \<notin> fst ` set es \<Longrightarrow> stacked (fs(a := x)) p es"
  by (induction fs p es rule: stacked.induct) auto

lemma contain_stacked: "stacked fs p es \<Longrightarrow> contain fs key p = Some (Inr (map_of (map snd es) key))"
  by (induction fs p es rule: stacked.induct) auto

lemma begin_stacked:
  assumes "stacked (frames s) (s_top s th) es" and "a \<notin> fst ` set es"
  shows "stacked (frames (cs_begin_value th a key v s)) (s_top (cs_begin_value th a key v s) th) ((a, key, v) # es)"
  using stacked_frame [OF assms] by (simp add: cs_begin_value_def)

lemma fcs_stacked:
  assumes "stacked (f_frames s) (case f_top s fb of None \<Rightarrow> None | Some p \<Rightarrow> p) es" and "a \<notin> fst ` set es"
  shows "stacked (f_frames (fcs_begin_value fb a key v s))
     (case f_top (fcs_begin_value fb a key v s) fb of None \<Rightarrow> None | Some p \<Rightarrow> p) ((a, key, v) # es)"
  using stacked_frame [OF assms] by (simp add: fcs_begin_value_def Let_def)

text \<open>The frames a thread opens one inside the other, outermost first.\<close>

fun cs_begins :: "nat \<Rightarrow> (nat \<times> nat \<times> nat) list \<Rightarrow> thread_stacks \<Rightarrow> thread_stacks" where
  "cs_begins th [] s = s"
| "cs_begins th ((a, k, v) # es) s = cs_begins th es (cs_begin_value th a k v s)"

lemma cs_begins_stacked:
  assumes "stacked (frames s) (s_top s th) es0" and "distinct (map fst (rev es @ es0))"
  shows "stacked (frames (cs_begins th es s)) (s_top (cs_begins th es s) th) (rev es @ es0)"
  using assms
proof (induction es arbitrary: s es0)
  case (Cons e es)
  obtain a k v where e: "e = (a, k, v)" by (cases e)
  have "a \<notin> fst ` set es0" using Cons.prems(2) e by auto
  from Cons.IH [OF begin_stacked [OF Cons.prems(1) this]] Cons.prems(2) e show ?case by auto
qed simp

section \<open>Properties\<close>

text \<open>While the frames a thread opened are alive, \<open>contain\<close> finds the value of the innermost frame with
  the key, and null exactly when there is none: it is the lookup in the list of open frames.\<close>

theorem call_stack_lookup:
  assumes "distinct (map fst es)"
  shows "cs_contain th key (cs_begins th es stacks_new) = Some (Inr (map_of (rev (map snd es)) key))"
proof -
  have "stacked (frames stacks_new) (s_top stacks_new th) []" by (simp add: stacks_new_def)
  from contain_stacked [OF cs_begins_stacked [OF this, of es]] assms
  show ?thesis by (simp add: cs_contain_def rev_map distinct_rev flip: rev_map)
qed

fun fcs_begins :: "nat \<Rightarrow> (nat \<times> nat \<times> nat) list \<Rightarrow> fiber_stacks \<Rightarrow> fiber_stacks" where
  "fcs_begins fb [] s = s"
| "fcs_begins fb ((a, k, v) # es) s = fcs_begins fb es (fcs_begin_value fb a k v s)"

lemma fcs_begins_same:
  assumes "f_frames s = frames t" and "(case f_top s fb of None \<Rightarrow> None | Some p \<Rightarrow> p) = s_top t th"
  shows "f_frames (fcs_begins fb es s) = frames (cs_begins th es t)"
    and "(case f_top (fcs_begins fb es s) fb of None \<Rightarrow> None | Some p \<Rightarrow> p) = s_top (cs_begins th es t) th"
proof -
  have "f_frames (fcs_begins fb es s) = frames (cs_begins th es t) \<and>
    (case f_top (fcs_begins fb es s) fb of None \<Rightarrow> None | Some p \<Rightarrow> p) = s_top (cs_begins th es t) th"
    using assms
  proof (induction es arbitrary: s t)
    case (Cons e es)
    obtain a k v where e: "e = (a, k, v)" by (cases e)
    show ?case unfolding e fcs_begins.simps cs_begins.simps
      by (rule Cons.IH) (use Cons.prems in \<open>simp_all add: fcs_begin_value_def cs_begin_value_def Let_def\<close>)
  qed simp
  then show "f_frames (fcs_begins fb es s) = frames (cs_begins th es t)"
    and "(case f_top (fcs_begins fb es s) fb of None \<Rightarrow> None | Some p \<Rightarrow> p) = s_top (cs_begins th es t) th"
    by simp_all
qed

text \<open>The two classes agree: opened in a fresh fiber and in a fresh thread, the same frames give the
  same answer for every key.\<close>

theorem call_stacks_agree:
  "fcs_contain fb key (fcs_begins fb es \<lparr>f_frames = Map.empty, f_top = Map.empty\<rparr>) =
   cs_contain th key (cs_begins th es stacks_new)"
  using fcs_begins_same [of "\<lparr>f_frames = Map.empty, f_top = Map.empty\<rparr>" stacks_new fb th es]
  by (auto simp: fcs_contain_def cs_contain_def stacks_new_def split: option.splits)

lemma contain_cycle:
  assumes "fs a = Some f" and "fr_next f = Some a" and "fr_key f \<noteq> key"
  shows "contain fs key (Some a) = None"
proof -
  let ?P = "\<lambda>fs' key' p r. fs' = fs \<longrightarrow> key' = key \<longrightarrow> p \<noteq> Some a"
  have "?P fs' key' p r" if ret: "contain fs' key' p = Some r" for fs' key' p r
    by (rule contain.raw_induct [where P = ?P, OF _ ret]) (use assms in \<open>fastforce split: option.splits\<close>)
  then show ?thesis by (cases "contain fs key (Some a)") auto
qed

text \<open>A frame that ends is still the top. After \<open>run\<close> returned, the next \<open>contain\<close> of the thread
  reads the dead frame; when the frame of a second \<open>run\<close> takes the same address it becomes its
  own successor, and \<open>contain\<close> of any other key never returns.\<close>

theorem ended_frame_stays:
  assumes "key \<noteq> key'"
  shows "cs_contain th key' (cs_end a (cs_begin th a key s)) = Some (Inl DeadFrame)
    \<and> cs_contain th key' (cs_begin th a key (cs_end a (cs_begin th a key s))) = None"
proof -
  have "contain ((frames s)(a \<mapsto> \<lparr>fr_next = Some a, fr_key = key, fr_value = a\<rparr>)) key' (Some a) = None"
    by (rule contain_cycle [of _ _ "\<lparr>fr_next = Some a, fr_key = key, fr_value = a\<rparr>"]) (use assms in simp_all)
  then show ?thesis by (simp add: cs_contain_def cs_end_def cs_begin_def cs_begin_value_def)
qed

theorem call_stack_lookup_witness:
  "cs_contain 0 7 (cs_begins 0 [(100, 7, 1), (200, 8, 2), (300, 7, 3)] stacks_new) = Some (Inr (Some 3))"
  using call_stack_lookup [of "[(100, 7, 1), (200, 8, 2), (300, 7, 3)]" 0 7] by simp

theorem ended_frame_stays_witness:
  "cs_contain 0 8 (cs_end 100 (cs_begin 0 100 7 stacks_new)) = Some (Inl DeadFrame)"
  using ended_frame_stays [of 7 8 0 100 stacks_new] by simp

end
