(* ===== verification/Cache.thy ===== *)
theory Cache
  imports Prelude
begin

text \<open>
  \<open>Cache\<close> (core/detail/Cache.h): the prefetch of an object before a strategy switches to it. The
  builtin has no effect on the program's state, so the functions return the prefetches they issue.
  Addresses are natural numbers; an object does not reach the end of the address space.
\<close>

datatype prefetch = ForReading nat | ForWriting nat

abbreviation (input) PREFETCH_STRIDE :: nat where "PREFETCH_STRIDE \<equiv> 64"

function prefetch_loop :: "(nat \<Rightarrow> prefetch) \<Rightarrow> nat \<Rightarrow> nat \<Rightarrow> prefetch list" where
  "prefetch_loop one pointer stop =
     (if pointer < stop then one pointer # prefetch_loop one (pointer + PREFETCH_STRIDE) stop else [])"
  by pat_completeness auto
termination by (relation "measure (\<lambda>(_, pointer, stop). stop - pointer)") auto

declare prefetch_loop.simps [simp del]

definition prefetchForReading :: "nat \<Rightarrow> nat \<Rightarrow> prefetch list" where
  "prefetchForReading address len = prefetch_loop ForReading address (address + len)"

definition prefetchForWriting :: "nat \<Rightarrow> nat \<Rightarrow> prefetch list" where
  "prefetchForWriting address len = prefetch_loop ForWriting address (address + len)"

lemma prefetch_loop_addresses:
  "prefetch_loop one p (p + len) = map (\<lambda>i. one (p + i * 64)) [0..<(len + 63) div 64]"
proof (induction "len" arbitrary: p rule: less_induct)
  case (less n)
  show ?case
  proof (cases n)
    case 0
    then show ?thesis by (simp add: prefetch_loop.simps)
  next
    case (Suc m)
    let ?k = "n - 64"
    have c: "(n + 63) div 64 = Suc ((?k + 63) div 64)"
    proof (cases "n \<le> 64")
      case True
      then have "?k = 0" and "(n + 63) div 64 = 1" using Suc by simp_all
      then show ?thesis by simp
    next
      case False
      then have "n + 63 = (?k + 63) + 64" by simp
      then show ?thesis by (metis div_add_self2 add.commute Suc_eq_plus1 zero_neq_numeral)
    qed
    have r: "prefetch_loop one (p + 64) (p + n) = prefetch_loop one (p + 64) ((p + 64) + ?k)"
      by (cases "n \<le> 64") (simp_all add: prefetch_loop.simps)
    have "prefetch_loop one p (p + n) = one p # prefetch_loop one (p + 64) ((p + 64) + ?k)"
      using Suc r by (simp add: prefetch_loop.simps [of one p])
    also have "prefetch_loop one (p + 64) ((p + 64) + ?k) =
        map (\<lambda>i. one (p + 64 + i * 64)) [0..<(?k + 63) div 64]"
      using Suc by (intro less.IH) simp
    also have "one p # \<dots> = map (\<lambda>i. one (p + i * 64)) [0..<Suc ((?k + 63) div 64)]"
      by (rule nth_equalityI) (auto simp: nth_Cons algebra_simps split: nat.splits simp del: upt_Suc)
    finally show ?thesis using c by simp
  qed
qed

text \<open>The prefetches of an object are one for each 64 bytes of it, started or complete: every
  byte of the object is less than 64 bytes after a prefetched address, and each of these
  addresses is inside the object.\<close>

theorem prefetch_covers:
  "prefetchForWriting a len = map (\<lambda>i. ForWriting (a + i * 64)) [0..<(len + 63) div 64]
    \<and> (\<forall>b. a \<le> b \<and> b < a + len \<longrightarrow>
        (\<exists>i < (len + 63) div 64. a + i * 64 \<le> b \<and> b < a + i * 64 + 64 \<and> a + i * 64 < a + len))"
proof (intro conjI allI impI)
  show "prefetchForWriting a len = map (\<lambda>i. ForWriting (a + i * 64)) [0..<(len + 63) div 64]"
    unfolding prefetchForWriting_def by (rule prefetch_loop_addresses)
next
  fix b assume "a \<le> b \<and> b < a + len"
  then obtain c where c: "b = a + c" "c < len" by (metis le_Suc_ex nat_add_left_cancel_less)
  have "(c + 64) div 64 \<le> (len + 63) div 64" using c(2) by (intro div_le_mono) simp
  then have "c div 64 < (len + 63) div 64" by simp
  moreover have "c div 64 * 64 \<le> c" "c < c div 64 * 64 + 64" by simp_all
  ultimately show "\<exists>i < (len + 63) div 64. a + i * 64 \<le> b \<and> b < a + i * 64 + 64 \<and> a + i * 64 < a + len"
    using c by (intro exI [of _ "c div 64"]) linarith
qed

text \<open>The stride starts at the object, not at a line: of an object that is not aligned the last line
  may be left out.\<close>

lemma prefetch_misses_line: "prefetchForWriting 63 2 = [ForWriting 63]"
  by (simp add: prefetchForWriting_def prefetch_loop.simps)

theorem prefetch_covers_witness: "prefetchForWriting 0 400 = map (\<lambda>i. ForWriting (i * 64)) [0..<7]"
  using prefetch_covers [of 0 400] by simp

end
