(* ===== verification/Gate.thy ===== *)
theory Gate
  imports Prelude
begin

text \<open>
  The interface of a flag that callers sleep on: the opener changes the object under the mutex,
  leaves the mutex and calls \<open>notify_all\<close>; a waiter tests the object under the mutex and, when
  the test fails, sleeps atomically with leaving the mutex. \<open>Context::run\<close>/\<open>terminate\<close> and
  \<open>BlockingContextStrategy\<close> are two of these; their sections are the arguments \<open>set_open\<close>, \<open>test\<close>
  (\<open>None\<close> when the predicate is false, else the object as the section leaves it) and \<open>expiry\<close>
  (what a timed waiter does at its deadline).

  The client lemmas, proved once: no notification is lost, and an open gate lets a waiter through
  without another notification.
\<close>

datatype gate_pc = SignalAll | Checking bool | Sleeping bool

fun rouse :: "gate_pc \<Rightarrow> gate_pc" where
  "rouse (Sleeping t) = Checking t"
| "rouse pc = pc"

record 's gate_system =
  gate :: 's
  inside :: "gate_pc multiset"
  opened :: nat
  passed :: nat

definition gate_start :: "'s \<Rightarrow> 's gate_system" where
  "gate_start s = \<lparr>gate = s, inside = {#}, opened = 0, passed = 0\<rparr>"

inductive gate_step :: "('s \<Rightarrow> 's) \<Rightarrow> ('s \<Rightarrow> 's option) \<Rightarrow> ('s \<Rightarrow> 's) \<Rightarrow> 's gate_system \<Rightarrow> 's gate_system \<Rightarrow> bool"
  for set_open test expiry where
  g_open: "gate_step set_open test expiry \<sigma>
     (\<sigma>\<lparr>gate := set_open (gate \<sigma>), inside := add_mset SignalAll (inside \<sigma>), opened := opened \<sigma> + 1\<rparr>)"
| g_signal: "inside \<sigma> = add_mset SignalAll M \<Longrightarrow>
     gate_step set_open test expiry \<sigma> (\<sigma>\<lparr>inside := image_mset rouse M\<rparr>)"
| g_wait: "gate_step set_open test expiry \<sigma> (\<sigma>\<lparr>inside := add_mset (Checking t) (inside \<sigma>)\<rparr>)"
| g_pass: "inside \<sigma> = add_mset (Checking t) M \<Longrightarrow> test (gate \<sigma>) = Some s \<Longrightarrow>
     gate_step set_open test expiry \<sigma> (\<sigma>\<lparr>gate := s, inside := M, passed := passed \<sigma> + 1\<rparr>)"
| g_sleep: "inside \<sigma> = add_mset (Checking t) M \<Longrightarrow> test (gate \<sigma>) = None \<Longrightarrow>
     gate_step set_open test expiry \<sigma> (\<sigma>\<lparr>inside := add_mset (Sleeping t) M\<rparr>)"
| g_spurious: "inside \<sigma> = add_mset (Sleeping t) M \<Longrightarrow>
     gate_step set_open test expiry \<sigma> (\<sigma>\<lparr>inside := add_mset (Checking t) M\<rparr>)"
| g_expire: "inside \<sigma> = add_mset (Sleeping True) M \<Longrightarrow>
     gate_step set_open test expiry \<sigma> (\<sigma>\<lparr>gate := expiry (gate \<sigma>), inside := M\<rparr>)"

inductive_cases gate_step_cases [consumes 1, case_names g_open g_signal g_wait g_pass g_sleep g_spurious g_expire]:
  "gate_step set_open test expiry \<sigma> \<tau>"

inductive gate_steps :: "('s \<Rightarrow> 's) \<Rightarrow> ('s \<Rightarrow> 's option) \<Rightarrow> ('s \<Rightarrow> 's) \<Rightarrow> 's gate_system \<Rightarrow> 's gate_system \<Rightarrow> bool"
  for set_open test expiry \<sigma> where
  gates_refl: "gate_steps set_open test expiry \<sigma> \<sigma>"
| gates_next: "gate_steps set_open test expiry \<sigma> \<tau> \<Longrightarrow> gate_step set_open test expiry \<tau> \<upsilon> \<Longrightarrow>
     gate_steps set_open test expiry \<sigma> \<upsilon>"

lemma gate_steps_trans:
  "gate_steps set_open test expiry \<tau> \<upsilon> \<Longrightarrow> gate_steps set_open test expiry \<sigma> \<tau> \<Longrightarrow>
   gate_steps set_open test expiry \<sigma> \<upsilon>"
  by (induction rule: gate_steps.induct) (assumption, rule gates_next)

lemma rouse_awake [simp]: "rouse pc \<noteq> Sleeping t" "Sleeping t \<noteq> rouse pc"
  by (cases pc; simp)+

locale flag_gate =
  fixes set_open :: "'s \<Rightarrow> 's" and test :: "'s \<Rightarrow> 's option" and expiry :: "'s \<Rightarrow> 's"
  assumes opens: "test (set_open s) \<noteq> None"
    and expiry_never_opens: "test s = None \<Longrightarrow> test (expiry s) = None"
begin

definition signalled :: "'s gate_system \<Rightarrow> bool" where
  "signalled \<sigma> \<longleftrightarrow> (test (gate \<sigma>) \<noteq> None \<longrightarrow> SignalAll \<in># inside \<sigma> \<or> (\<forall>t. Sleeping t \<notin># inside \<sigma>))"

lemma signalled_step:
  assumes "gate_step set_open test expiry \<sigma> \<tau>" and "signalled \<sigma>"
  shows "signalled \<tau>"
  using assms
  by (elim gate_step_cases)
     (auto simp: signalled_def expiry_never_opens)

lemma signalled_steps:
  "gate_steps set_open test expiry (gate_start s) \<sigma> \<Longrightarrow> signalled \<sigma>"
  by (induction rule: gate_steps.induct) (simp add: signalled_def gate_start_def, rule signalled_step)

lemma no_lost_notification:
  assumes "gate_steps set_open test expiry (gate_start s) \<sigma>"
    and "Sleeping t \<in># inside \<sigma>" and "test (gate \<sigma>) \<noteq> None"
  shows "SignalAll \<in># inside \<sigma>"
  using signalled_steps [OF assms(1)] assms(2,3) by (auto simp: signalled_def)

lemma checking_passes:
  assumes "Checking t \<in># inside \<sigma>" and "test (gate \<sigma>) \<noteq> None"
  shows "\<exists>\<tau>. gate_step set_open test expiry \<sigma> \<tau> \<and> passed \<tau> = passed \<sigma> + 1 \<and> opened \<tau> = opened \<sigma>"
proof -
  from assms obtain M s where "inside \<sigma> = add_mset (Checking t) M" "test (gate \<sigma>) = Some s"
    by (auto dest!: multi_member_split)
  then have "gate_step set_open test expiry \<sigma> (\<sigma>\<lparr>gate := s, inside := M, passed := passed \<sigma> + 1\<rparr>)"
    by (rule g_pass)
  then show ?thesis by force
qed

text \<open>The waiter gets through by the steps of the callers already inside.\<close>

lemma open_gate_passes:
  assumes "gate_steps set_open test expiry (gate_start s) \<sigma>"
    and "Sleeping t \<in># inside \<sigma> \<or> Checking t \<in># inside \<sigma>" and "test (gate \<sigma>) \<noteq> None"
  shows "\<exists>\<tau>. gate_steps set_open test expiry \<sigma> \<tau> \<and> passed \<tau> = passed \<sigma> + 1 \<and> opened \<tau> = opened \<sigma>"
proof (cases "Checking t \<in># inside \<sigma>")
  case True
  from checking_passes [OF this assms(3)] show ?thesis
    by (meson gates_refl gates_next)
next
  case False
  with assms(2) have sl: "Sleeping t \<in># inside \<sigma>" by simp
  from no_lost_notification [OF assms(1) sl assms(3)] obtain M where
    M: "inside \<sigma> = add_mset SignalAll M" by (auto dest: multi_member_split)
  let ?\<tau> = "\<sigma>\<lparr>inside := image_mset rouse M\<rparr>"
  have "Sleeping t \<in># M" using sl M by simp
  then have "Checking t \<in># inside ?\<tau>" by force
  from checking_passes [OF this] assms(3) obtain \<upsilon> where
    "gate_step set_open test expiry ?\<tau> \<upsilon>" "passed \<upsilon> = passed \<sigma> + 1" "opened \<upsilon> = opened \<sigma>" by auto
  moreover have "gate_step set_open test expiry \<sigma> ?\<tau>" by (rule g_signal [OF M])
  ultimately show ?thesis by (meson gates_refl gates_next)
qed

end

text \<open>A gate each waiter shuts behind itself: it lets through at most one waiter per opening.\<close>

locale consuming_gate = flag_gate +
  assumes shuts: "test s = Some s' \<Longrightarrow> test s' = None"
begin

lemma passed_at_most_opened:
  assumes "gate_steps set_open test expiry (gate_start s) \<sigma>" and "test s = None"
  shows "passed \<sigma> + (if test (gate \<sigma>) = None then 0 else 1) \<le> opened \<sigma>"
  using assms(1)
proof (induction rule: gate_steps.induct)
  case (gates_next \<tau> \<upsilon>)
  from gates_next.hyps(2) gates_next.IH show ?case
    by (cases rule: gate_step_cases)
       (auto simp: shuts expiry_never_opens split: if_splits)
qed (simp add: gate_start_def assms(2))

end

text \<open>A gate that stays open: whoever got through, it is open still.\<close>

locale sticky_gate = flag_gate +
  assumes sticks: "test s = Some s' \<Longrightarrow> s' = s"
    and stays: "test s \<noteq> None \<Longrightarrow> test (expiry s) \<noteq> None"
begin

lemma open_iff_opened:
  assumes "gate_steps set_open test expiry (gate_start s) \<sigma>" and "test s = None"
  shows "test (gate \<sigma>) \<noteq> None \<longleftrightarrow> 0 < opened \<sigma>" and "0 < passed \<sigma> \<Longrightarrow> 0 < opened \<sigma>"
proof -
  have e: "test (expiry x) = None \<longleftrightarrow> test x = None" for x
    using stays [of x] expiry_never_opens [of x] by blast
  then have e': "(\<exists>y. test (expiry x) = Some y) \<longleftrightarrow> (\<exists>y. test x = Some y)" for x
    by (simp flip: not_None_eq)
  have "(test (gate \<sigma>) \<noteq> None \<longleftrightarrow> 0 < opened \<sigma>) \<and> (0 < passed \<sigma> \<longrightarrow> 0 < opened \<sigma>)"
    using assms(1)
  proof (induction rule: gate_steps.induct)
    case (gates_next \<tau> \<upsilon>)
    from gates_next.hyps(2) gates_next.IH opens [of "gate \<tau>"] show ?case
      by (elim gate_step_cases) (simp_all add: e e', auto dest: sticks)
  qed (simp add: gate_start_def assms(2))
  then show "test (gate \<sigma>) \<noteq> None \<longleftrightarrow> 0 < opened \<sigma>" and "0 < passed \<sigma> \<Longrightarrow> 0 < opened \<sigma>"
    by blast+
qed

end

end
