(* ===== verification/Context.thy ===== *)
theory Context
  imports Strategy Gate CallStack Barrier TaskQueue
begin

text \<open>
  \<open>Context\<close> (core/Context.cpp, core/Context.hpp), which runs fibers on several threads,
  \<open>BlockingContextStrategy\<close> (core/BlockingContextStrategy.cpp), how an idle thread of it sleeps, and
  the part of \<open>ContextStrategy\<close> that launches tasks other threads posted.

  A context extends the scheduling state of its strategies by the fields of the class. The handler
  of a task is an argument: \<open>fn\<close> when a fiber is started with it directly, the bytes \<open>op\<close> of the
  \<open>ContextOperation\<close> object when it goes through the task queue.
\<close>

section \<open>BlockingContextStrategy\<close>

datatype blocking_flag = BLOCKING | POLLING

record blocking =
  blocking_flag :: blocking_flag
  notified :: bool

definition blocking_new :: "blocking_flag \<Rightarrow> blocking" where
  "blocking_new flag = \<lparr>blocking_flag = flag, notified = False\<rparr>"

text \<open>The sections under \<open>_suspend_mutex\<close>: the notifier's, the waiter's when it tests the predicate
  (\<open>None\<close>: it sleeps), and what a timed waiter does at its deadline.\<close>

definition blocking_set :: "blocking \<Rightarrow> blocking" where
  "blocking_set b = b\<lparr>notified := True\<rparr>"

definition blocking_test :: "blocking \<Rightarrow> blocking option" where
  "blocking_test b = (if notified b then Some (b\<lparr>notified := False\<rparr>) else None)"

definition blocking_deadline :: "blocking \<Rightarrow> blocking" where
  "blocking_deadline b = b\<lparr>notified := False\<rparr>"

text \<open>\<open>onSuspended\<close> and \<open>onNotified\<close>: \<open>None\<close> when they return at once, else the wait (timed or not),
  the notification.\<close>

definition blocking_suspended :: "bool \<Rightarrow> blocking \<Rightarrow> gate_pc option" where
  "blocking_suspended is_max b =
     (if blocking_flag b = BLOCKING then (if is_max then Some (Checking False) else Some (Checking True))
      else None)"

definition blocking_notified :: "blocking \<Rightarrow> (blocking \<times> gate_pc) option" where
  "blocking_notified b = (if blocking_flag b = BLOCKING then Some (blocking_set b, SignalAll) else None)"

lemmas blocking_defs = blocking_set_def blocking_test_def blocking_deadline_def

interpretation blk: consuming_gate blocking_set blocking_test blocking_deadline
  by unfold_locales (auto simp: blocking_defs split: if_splits)

section \<open>The context\<close>

record 'q ctx = "'q schedule" +
  cx_done :: bool
  stack_size_in_context :: nat
  cx_barrier :: barrier
  task_queue :: ctq

abbreviation (input) DEFAULT_BUFFER_LENGTH :: u64 where "DEFAULT_BUFFER_LENGTH \<equiv> 16 * 1024"

text \<open>The constructors, in memory \<open>mem\<close>; \<open>cores\<close> is \<open>hardware_concurrency()\<close>.\<close>

definition context_new :: "'q schedule \<Rightarrow> u32 \<Rightarrow> u64 \<Rightarrow> debug_flag \<Rightarrow> u64 \<Rightarrow> 'q ctx" where
  "context_new mem cores thread_num flag buffer_length =
     schedule.extend
       (mem\<lparr>debug := flag, next_strategy_index := 0, strategies := replicate (unat thread_num) None\<rparr>)
       (ctx.fields False (1024 * 1024) (barrier_new thread_num)
          (ctq_new (if buffer_length \<noteq> 0 then buffer_length else DEFAULT_BUFFER_LENGTH) cores))"

definition context_new_threads :: "'q schedule \<Rightarrow> u32 \<Rightarrow> u64 \<Rightarrow> 'q ctx" where
  "context_new_threads mem cores thread_num = context_new mem cores thread_num DEBUG_OFF DEFAULT_BUFFER_LENGTH"

definition context_new_default :: "'q schedule \<Rightarrow> u32 \<Rightarrow> 'q ctx" where
  "context_new_default mem cores = context_new_threads mem cores 1"

definition context_setStackSize :: "nat \<Rightarrow> 'q ctx \<Rightarrow> 'q ctx" where
  "context_setStackSize n cx = cx\<lparr>stack_size_in_context := n\<rparr>"

text \<open>The section of \<open>terminate\<close> under \<open>_done_mutex\<close> (\<open>notify_all\<close> follows), which is also what the
  destructor does, and the test of the wait in \<open>run\<close>, which is not timed.\<close>

definition terminate_section :: "'q ctx \<Rightarrow> 'q ctx" where
  "terminate_section cx = cx\<lparr>cx_done := True\<rparr>"

definition run_test :: "'q ctx \<Rightarrow> 'q ctx option" where
  "run_test cx = (if cx_done cx then Some cx else None)"

definition context_delete :: "'q ctx \<Rightarrow> 'q ctx" where
  "context_delete cx = terminate_section cx"

interpretation done_gate: sticky_gate terminate_section run_test id
  by unfold_locales (auto simp: terminate_section_def run_test_def split: if_splits)

text \<open>\<open>run\<close> on thread \<open>th\<close> up to its arrival at the barrier: \<open>this\<close> is the context's address, \<open>a\<close>
  that of the call-stack frame, \<open>p\<close> and \<open>h\<close> those of the strategy and of its list head.\<close>

definition run_enter :: "'q ready_ops \<Rightarrow> nat \<Rightarrow> nat \<Rightarrow> nat \<Rightarrow> nat \<Rightarrow> nat \<Rightarrow> thread_stacks \<times> 'q ctx \<Rightarrow>
    strategy_error + (arrival \<times> thread_stacks \<times> 'q ctx)" where
  "run_enter ops th this a p h sc =
     (case sc of (stacks, cx) \<Rightarrow>
       (case strategy_new ops p h cx of
          Inl e \<Rightarrow> Inl e
        | Inr cx1 \<Rightarrow>
            (case barrier_arrive (cx_barrier cx1) of
               (r, b) \<Rightarrow> Inr (r, cs_begin th a this stacks, cx1\<lparr>cx_barrier := b\<rparr>))))"

text \<open>When \<open>run\<close> returns its frame ends.\<close>

definition run_leave :: "nat \<Rightarrow> thread_stacks \<Rightarrow> thread_stacks" where
  "run_leave a stacks = cs_end a stacks"

definition isRunningInThis :: "nat \<Rightarrow> nat \<Rightarrow> thread_stacks \<Rightarrow> (stack_error + bool) option" where
  "isRunningInThis th this stacks =
     map_option (map_sum id (\<lambda>r. r \<noteq> None)) (cs_contain th this stacks)"

definition context_notify :: "nat \<Rightarrow> 'q ctx \<Rightarrow> nat option" where
  "context_notify index cx = (if index < length (strategies cx) then strategies cx ! index else None)"

definition scheduleOutRemoteTask :: "'q ctx \<Rightarrow> ring_fail + (popped option \<times> 'q ctx)" where
  "scheduleOutRemoteTask cx =
     (case pop (task_queue cx) of Inl e \<Rightarrow> Inl e | Inr (t, q) \<Rightarrow> Inr (t, cx\<lparr>task_queue := q\<rparr>))"

section \<open>Posting\<close>

text \<open>\<open>_postTaskFromRemote\<close> by thread \<open>th\<close>, with \<open>n\<close> rounds of the loop of \<open>push\<close> and \<open>k\<close> spurious
  failures; the second component is the strategy that is notified.\<close>

definition postTaskFromRemote :: "nat \<Rightarrow> nat \<Rightarrow> nat \<Rightarrow> u8 list \<Rightarrow> nat \<Rightarrow> u8 list \<Rightarrow> 'q ctx \<Rightarrow>
    (ring_fail + ('q ctx \<times> nat option)) option" where
  "postTaskFromRemote n k th op ss description cx =
     (case push n k th \<lparr>op_bytes = op, stack_size = ss,
                        descr = (if debug cx = DEBUG_OFF then [] else description)\<rparr> (task_queue cx) of
        None \<Rightarrow> None
      | Some (Inl e) \<Rightarrow> Some (Inl e)
      | Some (Inr q) \<Rightarrow> (let cx' = cx\<lparr>task_queue := q\<rparr> in Some (Inr (cx', context_notify 0 cx'))))"

datatype 'fn action = Handler 'fn | PerformOperation nat

text \<open>What a post comes to: the calls that start a fiber, a strategy notified (or none), or nothing.\<close>

datatype 'fn posted = Started "'fn action fiber_call list" | Queued "nat option" | Dropped

definition start_local :: "policy \<Rightarrow> nat \<Rightarrow> nat \<Rightarrow> u8 list \<Rightarrow> 'fn \<Rightarrow> nat \<Rightarrow> u8 list \<Rightarrow> 'q ctx \<Rightarrow>
    'fn action fiber_call list" where
  "start_local pol c p moved fn ss description cx =
     (let f0 = setStackSize (if ss \<noteq> 0 then ss else stack_size_in_context cx) (setPolicy pol fiber_new);
          f1 = (if debug cx = DEBUG_ON then setDescription_view description f0 else f0);
          (f2, calls) = fiber_start c p moved (Handler fn) f1
      in calls @ snd (detach f2))"

definition remote_posted :: "nat \<Rightarrow> nat \<Rightarrow> nat \<Rightarrow> u8 list \<Rightarrow> nat \<Rightarrow> u8 list \<Rightarrow> 'q ctx \<Rightarrow>
    (ring_fail + ('q ctx \<times> 'fn posted)) option" where
  "remote_posted n k th op ss description cx =
     map_option (map_sum id (map_prod id Queued)) (postTaskFromRemote n k th op ss description cx)"

text \<open>\<open>post\<close> tests \<open>_isRunningInThis()\<close>, which nothing declares: its result is the argument
  \<open>undeclared\<close>. The \<open>else\<close> belongs to the inner \<open>if\<close>.\<close>

definition context_post :: "nat \<Rightarrow> nat \<Rightarrow> nat \<Rightarrow> bool \<Rightarrow> bool \<Rightarrow> nat \<Rightarrow> nat \<Rightarrow> u8 list \<Rightarrow> 'fn \<Rightarrow> u8 list \<Rightarrow> nat \<Rightarrow>
    u8 list \<Rightarrow> 'q ctx \<Rightarrow> (ring_fail + ('q ctx \<times> 'fn posted)) option" where
  "context_post n k th undeclared running c p moved fn op ss description cx =
     (if undeclared then
        (if running then Some (Inr (cx, Started (start_local Post c p moved fn ss description cx)))
         else remote_posted n k th op ss description cx)
      else Some (Inr (cx, Dropped)))"

definition context_dispatch :: "nat \<Rightarrow> nat \<Rightarrow> nat \<Rightarrow> bool \<Rightarrow> nat \<Rightarrow> nat \<Rightarrow> u8 list \<Rightarrow> 'fn \<Rightarrow> u8 list \<Rightarrow> nat \<Rightarrow>
    u8 list \<Rightarrow> 'q ctx \<Rightarrow> (ring_fail + ('q ctx \<times> 'fn posted)) option" where
  "context_dispatch n k th running c p moved fn op ss description cx =
     (if running then Some (Inr (cx, Started (start_local Dispatch c p moved fn ss description cx)))
      else remote_posted n k th op ss description cx)"

text \<open>The forms without a stack size and a description.\<close>

definition context_post_default :: "nat \<Rightarrow> nat \<Rightarrow> nat \<Rightarrow> bool \<Rightarrow> bool \<Rightarrow> nat \<Rightarrow> nat \<Rightarrow> u8 list \<Rightarrow> 'fn \<Rightarrow> u8 list \<Rightarrow>
    'q ctx \<Rightarrow> (ring_fail + ('q ctx \<times> 'fn posted)) option" where
  "context_post_default n k th undeclared running c p moved fn op cx =
     context_post n k th undeclared running c p moved fn op 0 [] cx"

definition context_dispatch_default :: "nat \<Rightarrow> nat \<Rightarrow> nat \<Rightarrow> bool \<Rightarrow> nat \<Rightarrow> nat \<Rightarrow> u8 list \<Rightarrow> 'fn \<Rightarrow> u8 list \<Rightarrow>
    'q ctx \<Rightarrow> (ring_fail + ('q ctx \<times> 'fn posted)) option" where
  "context_dispatch_default n k th running c p moved fn op cx =
     context_dispatch n k th running c p moved fn op 0 [] cx"

text \<open>\<open>call\<close> runs the task in place or queues a packaged task (\<open>op\<close>) and waits for its future.\<close>

datatype 'v called = Returned 'v | AwaitFuture "nat option"

definition context_call :: "nat \<Rightarrow> nat \<Rightarrow> nat \<Rightarrow> bool \<Rightarrow> ('q ctx \<Rightarrow> 'v \<times> 'q ctx) \<Rightarrow> u8 list \<Rightarrow> nat \<Rightarrow>
    u8 list \<Rightarrow> 'q ctx \<Rightarrow> (ring_fail + ('q ctx \<times> 'v called)) option" where
  "context_call n k th running fn op ss description cx =
     (if running then (case fn cx of (v, cx') \<Rightarrow> Some (Inr (cx', Returned v)))
      else map_option (map_sum id (map_prod id AwaitFuture)) (postTaskFromRemote n k th op ss description cx))"

definition context_call_default :: "nat \<Rightarrow> nat \<Rightarrow> nat \<Rightarrow> bool \<Rightarrow> ('q ctx \<Rightarrow> 'v \<times> 'q ctx) \<Rightarrow> u8 list \<Rightarrow>
    'q ctx \<Rightarrow> (ring_fail + ('q ctx \<times> 'v called)) option" where
  "context_call_default n k th running fn op cx = context_call n k th running fn op 0 [] cx"

section \<open>Launching what was posted\<close>

text \<open>\<open>_launchPostedTask\<close>: the number of tasks taken, the calls that start the fiber. A description
  \<open>pop\<close> does not assign is the empty view.\<close>

definition launchPostedTask :: "nat \<Rightarrow> nat \<Rightarrow> u8 list \<Rightarrow> 'q ctx \<Rightarrow>
    ring_fail + (nat \<times> 'fn action fiber_call list \<times> 'q ctx)" where
  "launchPostedTask c p moved cx =
     (case scheduleOutRemoteTask cx of
        Inl e \<Rightarrow> Inl e
      | Inr (None, cx') \<Rightarrow> Inr (0, [], cx')
      | Inr (Some t, cx') \<Rightarrow>
          (let description = (case p_description t of None \<Rightarrow> [] | Some d \<Rightarrow> d);
               f = setDescription_view description (setStackSize (p_stack_size t) fiber_new);
               (f', calls) = fiber_start c p moved (PerformOperation (p_operation t)) f
           in Inr (1, calls @ snd (detach f'), cx')))"

text \<open>\<open>suspend_until\<close>: \<open>None\<close> in the last component when it returns without suspending the thread, else
  whether the deadline is \<open>time_point::max()\<close>, with which \<open>onSuspended\<close> is called.\<close>

definition suspend_until :: "nat \<Rightarrow> nat \<Rightarrow> u8 list \<Rightarrow> bool \<Rightarrow> 'q ctx \<Rightarrow>
    ring_fail + ('fn action fiber_call list \<times> 'q ctx \<times> bool option)" where
  "suspend_until c p moved is_max cx =
     (case launchPostedTask c p moved cx of
        Inl e \<Rightarrow> Inl e
      | Inr (n, calls, cx') \<Rightarrow> Inr (calls, cx', if 0 < n then None else Some is_max))"

text \<open>\<open>ContextStrategyWrapper\<close> (core/ContextStrategyWrapper.hpp) repeats \<open>_launchPostedTask\<close> and calls the
  \<open>suspend_until\<close> of the strategy it wraps. Its constructor calls a member the vector does not
  have, so the class cannot be instantiated; these two are what it would run.\<close>

definition wrapper_launchPostedTask :: "nat \<Rightarrow> nat \<Rightarrow> u8 list \<Rightarrow> 'q ctx \<Rightarrow>
    ring_fail + (nat \<times> 'fn action fiber_call list \<times> 'q ctx)" where
  "wrapper_launchPostedTask c p moved cx = launchPostedTask c p moved cx"

definition wrapper_suspend_until :: "('q ctx \<Rightarrow> ring_fail + 'q ctx) \<Rightarrow> nat \<Rightarrow> nat \<Rightarrow> u8 list \<Rightarrow> 'q ctx \<Rightarrow>
    ring_fail + ('fn action fiber_call list \<times> 'q ctx)" where
  "wrapper_suspend_until wrapped c p moved cx =
     (case wrapper_launchPostedTask c p moved cx of
        Inl e \<Rightarrow> Inl e
      | Inr (n, calls, cx') \<Rightarrow>
          if 0 < n then Inr (calls, cx') else map_sum id (\<lambda>cx''. (calls, cx'')) (wrapped cx'))"

section \<open>A remote task is launched as it was posted\<close>

text \<open>The calls that start the fiber of a task: \<open>a\<close> is the address of its operation.\<close>

definition launch_calls :: "nat \<Rightarrow> nat \<Rightarrow> nat \<Rightarrow> task \<Rightarrow> 'fn action fiber_call list" where
  "launch_calls c p a t =
     [MakeContext c Post (if stack_size t = 0 then DefaultStack else ProtectedFixedsize (stack_size t))
        (PerformOperation a),
      SetProperties c p (debug_info_new\<lparr>di_description := descr t\<rparr>), Attach c, Schedule c, ReleaseContext c]"

lemma setDescription_view_new [simp]: "f_description f = [] \<Longrightarrow> setDescription_view d f = f\<lparr>f_description := d\<rparr>"
  by (cases f) (simp add: setDescription_view_def)

lemma launch_popped:
  assumes "pop (task_queue cx) = Inr (Some \<lparr>p_operation = a, p_stack_size = stack_size t, p_description = Some (descr t)\<rparr>, q)"
  shows "launchPostedTask c p moved cx =
    Inr (1, launch_calls c p a t :: 'fn action fiber_call list, cx\<lparr>task_queue := q\<rparr>)"
  using assms
  by (simp add: launchPostedTask_def scheduleOutRemoteTask_def Let_def launch_calls_def fiber_start_def fiber_new_def
      setStackSize_def stack_of_def release_held_def detach_def setDescription_def debug_info_new_def)

lemma launch_oldest:
  assumes "queue_rep (task_queue cx) (t # ts)"
  shows "\<exists>a q. launchPostedTask c p moved cx =
      Inr (1, launch_calls c p a t :: 'fn action fiber_call list, cx\<lparr>task_queue := q\<rparr>) \<and>
    peek a (op_len t) (buffer (ctq_ring q)) = op_bytes t \<and>
    (\<exists>q'. deallocate a q = Inr q' \<and> queue_rep q' ts)"
proof -
  from assms obtain b rs where rs: "queue_regions (task_queue cx) ((b, t) # rs)" "ts = map snd rs"
    by (auto simp: queue_rep_def)
  from pop_taken [OF rs(1)] obtain q where q: "pop (task_queue cx) = Inr (Some \<lparr>p_operation = b + operation_offset,
      p_stack_size = stack_size t, p_description = Some (descr t)\<rparr>, q)" "taken q b t rs" by blast
  have "holds (buffer (ctq_ring q)) b t" using q(2) by (auto simp: taken_def)
  then have "peek (b + operation_offset) (op_len t) (buffer (ctq_ring q)) = op_bytes t" by (simp add: holds_def)
  moreover from deallocate_taken [OF q(2)] rs(2) obtain q' where
    "deallocate (b + operation_offset) q = Inr q'" "queue_rep q' ts" by (auto simp: queue_rep_def)
  ultimately show ?thesis using launch_popped [OF q(1)] by blast
qed

lemma launch_none:
  assumes "queue_rep (task_queue cx) []"
  shows "\<exists>q. launchPostedTask c p moved cx =
      Inr (0, [] :: 'fn action fiber_call list, cx\<lparr>task_queue := q\<rparr>) \<and> queue_rep q []"
proof -
  from assms have "queue_regions (task_queue cx) []" by (auto simp: queue_rep_def)
  from pop_none [OF this] show ?thesis
    by (auto simp: launchPostedTask_def scheduleOutRemoteTask_def queue_rep_def)
qed

text \<open>The calls that start a fiber in place.\<close>

definition local_calls :: "nat \<Rightarrow> nat \<Rightarrow> 'fn \<Rightarrow> nat \<Rightarrow> u8 list \<Rightarrow> 'q ctx \<Rightarrow> policy \<Rightarrow> 'fn action fiber_call list" where
  "local_calls c p fn ss d cx pol =
     (let n = (if ss \<noteq> 0 then ss else stack_size_in_context cx)
      in [MakeContext c pol (if n = 0 then DefaultStack else ProtectedFixedsize n) (Handler fn),
          SetProperties c p (debug_info_new\<lparr>di_description := (if debug cx = DEBUG_ON then d else [])\<rparr>), Attach c,
          (case pol of Post \<Rightarrow> Schedule c | Dispatch \<Rightarrow> Resume c), ReleaseContext c])"

definition remote_task :: "'q ctx \<Rightarrow> u8 list \<Rightarrow> nat \<Rightarrow> u8 list \<Rightarrow> task" where
  "remote_task cx op ss description =
     \<lparr>op_bytes = op, stack_size = ss, descr = (if debug cx = DEBUG_OFF then [] else description)\<rparr>"

lemma post_remote_ok:
  assumes "queue_rep (task_queue cx) ts" and "task_ok (remote_task cx op ss description)"
    and "postTaskFromRemote n k th op ss description cx = Some (Inr (cx', w))"
  shows "queue_rep (task_queue cx') (ts @ [remote_task cx op ss description]) \<and> w = context_notify 0 cx
    \<and> cx' = cx\<lparr>task_queue := task_queue cx'\<rparr>"
proof -
  from assms(3) obtain q where q: "push n k th (remote_task cx op ss description) (task_queue cx) = Some (Inr q)"
    "cx' = cx\<lparr>task_queue := q\<rparr>" "w = context_notify 0 cx'"
    by (auto simp: postTaskFromRemote_def remote_task_def Let_def split: option.splits sum.splits)
  from push_ok [OF assms(1,2) q(1)] q(2,3) show ?thesis by (simp add: context_notify_def)
qed

section \<open>Properties\<close>

text \<open>Claim C21: A task dispatched from a thread outside of the context is launched as it was dispatched
  (its lengths fit 32 bits and its description has no NUL). The call notifies the strategy of index
  0. The next launch of a strategy, from a queue that was empty before the dispatch, starts one
  fiber, scheduled and not run at once, which performs the operation whose bytes were dispatched, on
  a protected stack of the size given (the default stack for 0, not the context's) and, in debug
  mode only, with the description given. (A \<open>post\<close> from outside does not get there:
  \<open>post_drops_foreign_task\<close>. A second launch before the fiber has performed the operation starts
  another fiber for it: \<open>second_launch_repeats_task\<close>.)\<close>

theorem remote_task_launched:
  assumes "queue_rep (task_queue cx) []" and "task_ok (remote_task cx op ss description)"
    and "context_dispatch n k th False c0 p0 moved0 fn op ss description cx = Some (Inr (cx1, posted))"
  shows "posted = Queued (context_notify 0 cx) \<and>
    (\<exists>a cx2. launchPostedTask c p moved cx1
          = Inr (1, launch_calls c p a (remote_task cx op ss description) :: 'fn action fiber_call list, cx2)
       \<and> peek a (length op) (buffer (ctq_ring (task_queue cx2))) = op)"
proof -
  from assms(3) obtain w where w: "postTaskFromRemote n k th op ss description cx = Some (Inr (cx1, w))"
    "posted = Queued w" unfolding context_dispatch_def remote_posted_def
    by (cases "postTaskFromRemote n k th op ss description cx"; auto simp: map_sum_def split: sum.splits)
  from post_remote_ok [OF assms(1,2) w(1)] have
    q: "queue_rep (task_queue cx1) [remote_task cx op ss description]" "w = context_notify 0 cx" by simp_all
  from launch_oldest [OF q(1), of c p moved] w(2) q(2) show ?thesis
    by (force simp: remote_task_def)
qed

text \<open>The two forms that stay on the thread: a fiber on a protected stack of the size given or else of
  the context's own size, whose description is kept in debug mode only; \<open>post\<close> schedules it,
  \<open>dispatch\<close> resumes it at once, \<open>call\<close> starts none. None of them touches the queue.\<close>

theorem local_tasks_started:
  "context_post n k th True True c p moved fn op ss d cx = Some (Inr (cx, Started (local_calls c p fn ss d cx Post)))
    \<and> context_dispatch n k th True c p moved fn op ss d cx
        = Some (Inr (cx, Started (local_calls c p fn ss d cx Dispatch)))
    \<and> context_call n k th True g op ss d cx = Some (Inr (snd (g cx), Returned (fst (g cx))))"
  by (simp add: context_post_def context_dispatch_def context_call_def start_local_def fiber_start_def fiber_new_def
      setStackSize_def setPolicy_def stack_of_def release_held_def detach_def setDescription_def debug_info_new_def
      Let_def local_calls_def split: prod.splits)

text \<open>The first test of \<open>post\<close> swallows tasks: when it gives what the second gives, a task posted from
  outside of the context is neither started nor queued, and nobody is notified.\<close>

theorem post_drops_foreign_task:
  "context_post n k th False False c p moved fn op ss d cx = Some (Inr (cx, Dropped))"
  by (simp add: context_post_def)

text \<open>The queue has one reader, but every strategy of the context reads it. When a second strategy
  launches before the fiber of the first has performed the only task, both start a fiber
  that performs the same operation.\<close>

theorem second_launch_repeats_task:
  assumes "queue_rep (task_queue cx) [t]"
    and "launchPostedTask c p moved cx = Inr (1, calls1 :: 'fn action fiber_call list, cx1)"
  shows "\<exists>a cx2. calls1 = launch_calls c p a t \<and>
     launchPostedTask c' p' moved' cx1 = Inr (1, launch_calls c' p' a t :: 'fn action fiber_call list, cx2)"
proof -
  from assms(1) obtain b where rs: "queue_regions (task_queue cx) [(b, t)]" by (auto simp: queue_rep_def)
  let ?t = "\<lparr>p_operation = b + operation_offset, p_stack_size = stack_size t, p_description = Some (descr t)\<rparr>"
  from pop_taken [OF rs] obtain q where q: "pop (task_queue cx) = Inr (Some ?t, q)" "taken q b t []" by blast
  from q(2) have "ring_inv (quiet (ctq_ring q) 0)"
    unfolding taken_def ring_inv_def worker_ok_def by auto
  with q(2) have "queue_regions q [(b, t)]"
    by (intro queue_regionsI) (auto simp: taken_def)
  from pop_taken [OF this] obtain q' where q': "pop q = Inr (Some ?t, q')" by blast
  from launch_popped [OF q(1), of c p moved, where 'fn = 'fn] assms(2) have
    l: "calls1 = launch_calls c p (b + operation_offset) t" "cx1 = cx\<lparr>task_queue := q\<rparr>" by simp_all
  have "pop (task_queue cx1) = Inr (Some ?t, q')" using q' l(2) by simp
  from launch_popped [OF this, of c' p' moved', where 'fn = 'fn] l(1) show ?thesis by blast
qed

section \<open>Posting to a sleeping context\<close>

text \<open>
  The threads that post to a context with one \<open>BlockingContextStrategy\<close>, and that strategy's
  thread. A poster pushes the task (\<open>w_push\<close>), then notifies (\<open>w_notify\<close>: the section under the
  mutex; its \<open>notify_all\<close> is a step of the gate). The strategy launches a task
  (\<open>w_launch\<close>; the fiber performs it before the strategy suspends again) or, when it pops nothing
  (\<open>w_empty\<close>), goes on to the untimed wait of \<open>onSuspended\<close>.
\<close>

record wake_system =
  wq :: ctq
  sleeper :: "blocking gate_system"
  unnotified :: nat

definition waiting_in :: "blocking gate_system \<Rightarrow> gate_pc multiset" where
  "waiting_in g = filter_mset (\<lambda>pc. pc \<noteq> SignalAll) (inside g)"

inductive wake_step :: "wake_system \<Rightarrow> wake_system \<Rightarrow> bool" where
  w_push: "task_ok t \<Longrightarrow> push n k th t (wq \<sigma>) = Some (Inr q) \<Longrightarrow>
     wake_step \<sigma> (\<sigma>\<lparr>wq := q, unnotified := unnotified \<sigma> + 1\<rparr>)"
| w_notify: "unnotified \<sigma> = Suc m \<Longrightarrow>
     wake_step \<sigma> (\<sigma>\<lparr>unnotified := m, sleeper := (sleeper \<sigma>)\<lparr>gate := blocking_set (gate (sleeper \<sigma>)),
        inside := add_mset SignalAll (inside (sleeper \<sigma>)), opened := opened (sleeper \<sigma>) + 1\<rparr>\<rparr>)"
| w_launch: "waiting_in (sleeper \<sigma>) = {#} \<Longrightarrow> pop_perform (wq \<sigma>) = Inr (Some t, q) \<Longrightarrow>
     wake_step \<sigma> (\<sigma>\<lparr>wq := q\<rparr>)"
| w_empty: "waiting_in (sleeper \<sigma>) = {#} \<Longrightarrow> pop (wq \<sigma>) = Inr (None, q) \<Longrightarrow>
     wake_step \<sigma> (\<sigma>\<lparr>wq := q,
        sleeper := (sleeper \<sigma>)\<lparr>inside := add_mset (Checking False) (inside (sleeper \<sigma>))\<rparr>\<rparr>)"
| w_gate: "gate_step blocking_set blocking_test blocking_deadline (sleeper \<sigma>) g \<Longrightarrow>
     opened g = opened (sleeper \<sigma>) \<Longrightarrow> size (waiting_in g) \<le> size (waiting_in (sleeper \<sigma>)) \<Longrightarrow>
     wake_step \<sigma> (\<sigma>\<lparr>sleeper := g\<rparr>)"

inductive wake_steps :: "wake_system \<Rightarrow> wake_system \<Rightarrow> bool" for \<sigma> where
  wakes_refl: "wake_steps \<sigma> \<sigma>"
| wakes_next: "wake_steps \<sigma> \<tau> \<Longrightarrow> wake_step \<tau> \<upsilon> \<Longrightarrow> wake_steps \<sigma> \<upsilon>"

inductive_cases wake_step_cases [consumes 1, case_names w_push w_notify w_launch w_empty w_gate]: "wake_step \<sigma> \<tau>"

definition wake_start :: "u64 \<Rightarrow> u32 \<Rightarrow> wake_system" where
  "wake_start len cores = \<lparr>wq = ctq_new len cores, sleeper = gate_start (blocking_new BLOCKING), unnotified = 0\<rparr>"

text \<open>At most one waiter, untimed; while it is past its last look at the queue, a task in the queue has
  its notification under way or the flag set.\<close>

definition wake_inv :: "wake_system \<Rightarrow> bool" where
  "wake_inv \<sigma> \<longleftrightarrow>
     (\<exists>ts. queue_rep (wq \<sigma>) ts \<and>
        (ts \<noteq> [] \<longrightarrow> waiting_in (sleeper \<sigma>) \<noteq> {#} \<longrightarrow> 0 < unnotified \<sigma> \<or> notified (gate (sleeper \<sigma>)))) \<and>
     (waiting_in (sleeper \<sigma>) = {#} \<or> waiting_in (sleeper \<sigma>) = {#Checking False#} \<or>
      waiting_in (sleeper \<sigma>) = {#Sleeping False#}) \<and>
     gate_steps blocking_set blocking_test blocking_deadline (gate_start (blocking_new BLOCKING)) (sleeper \<sigma>)"

lemma waiting_in_simps [simp]:
  "waiting_in (g\<lparr>gate := b\<rparr>) = waiting_in g" "waiting_in (g\<lparr>opened := n\<rparr>) = waiting_in g"
  "waiting_in (g\<lparr>passed := n\<rparr>) = waiting_in g"
  "waiting_in (g\<lparr>inside := M\<rparr>) = filter_mset (\<lambda>pc. pc \<noteq> SignalAll) M"
  by (simp_all add: waiting_in_def)

lemma waiting_in_eq: "inside g = M \<Longrightarrow> waiting_in g = filter_mset (\<lambda>pc. pc \<noteq> SignalAll) M"
  by (simp add: waiting_in_def)

lemma rouse_signal [simp]: "rouse pc = SignalAll \<longleftrightarrow> pc = SignalAll"
  by (cases pc) simp_all

lemma waiting_roused:
  "filter_mset (\<lambda>pc. pc \<noteq> SignalAll) (image_mset rouse M) = image_mset rouse (filter_mset (\<lambda>pc. pc \<noteq> SignalAll) M)"
  by (induction M) auto

text \<open>What a step of the gate does to the only waiter.\<close>

lemma gate_waiter:
  assumes "gate_step blocking_set blocking_test blocking_deadline g g'" and "opened g' = opened g"
    and "size (waiting_in g') \<le> size (waiting_in g)"
    and "waiting_in g = {#} \<or> waiting_in g = {#Checking False#} \<or> waiting_in g = {#Sleeping False#}"
  shows "(waiting_in g' = {#} \<or> waiting_in g' = {#Checking False#} \<or> waiting_in g' = {#Sleeping False#}) \<and>
    (waiting_in g' \<noteq> {#} \<longrightarrow> waiting_in g \<noteq> {#} \<and> gate g' = gate g)"
  using assms(1)
proof (cases rule: gate_step_cases)
  case g_open
  with assms(2) show ?thesis by simp
next
  case (g_signal M)
  with assms(4) show ?thesis by (auto simp: waiting_in_eq waiting_roused)
next
  case (g_wait t)
  with assms(3) show ?thesis by (simp add: waiting_in_def)
qed (use assms(4) in \<open>auto simp: waiting_in_eq\<close>)

text \<open>\<open>pop\<close> gives nothing on an empty queue only.\<close>

lemma pop_empty:
  assumes "queue_rep q ts" and "pop q = Inr (None, q')"
  shows "ts = [] \<and> queue_rep q' []"
proof (cases ts)
  case Nil
  with assms(1) have "queue_regions q []" by (auto simp: queue_rep_def)
  from pop_none [OF this] assms(2) Nil show ?thesis by (auto simp: queue_rep_def)
next
  case (Cons t ts')
  with assms(1) obtain b rs where "queue_regions q ((b, t) # rs)" by (auto simp: queue_rep_def)
  from pop_taken [OF this] assms(2) show ?thesis by auto
qed

lemma wake_inv_step:
  assumes "wake_step \<sigma> \<tau>" and "wake_inv \<sigma>"
  shows "wake_inv \<tau>"
proof -
  from assms(2) obtain ts where ts: "queue_rep (wq \<sigma>) ts"
    "ts \<noteq> [] \<longrightarrow> waiting_in (sleeper \<sigma>) \<noteq> {#} \<longrightarrow> 0 < unnotified \<sigma> \<or> notified (gate (sleeper \<sigma>))"
    and w: "waiting_in (sleeper \<sigma>) = {#} \<or> waiting_in (sleeper \<sigma>) = {#Checking False#} \<or>
      waiting_in (sleeper \<sigma>) = {#Sleeping False#}"
    and g: "gate_steps blocking_set blocking_test blocking_deadline (gate_start (blocking_new BLOCKING)) (sleeper \<sigma>)"
    by (auto simp: wake_inv_def)
  from assms(1) show ?thesis
  proof (cases rule: wake_step_cases)
    case (w_push t n k th q)
    from push_ok [OF ts(1) w_push(2,3)] w_push(1) w g show ?thesis by (auto simp: wake_inv_def)
  next
    case (w_notify m)
    have "gate_steps blocking_set blocking_test blocking_deadline (gate_start (blocking_new BLOCKING)) (sleeper \<tau>)"
      using gates_next [OF g g_open] w_notify(1) by simp
    with w_notify(1) ts w show ?thesis by (auto simp: wake_inv_def blocking_set_def waiting_in_eq)
  next
    case (w_launch t q)
    have "queue_rep q (tl ts)" using task_fifo.deq_rep [OF ts(1)] w_launch(3) by (simp add: ctq_deq_def)
    with w_launch g show ?thesis by (auto simp: wake_inv_def)
  next
    case (w_empty q)
    have "queue_rep q []" using pop_empty [OF ts(1) w_empty(3)] by simp
    moreover have "gate_steps blocking_set blocking_test blocking_deadline (gate_start (blocking_new BLOCKING)) (sleeper \<tau>)"
      using gates_next [OF g g_wait] w_empty(1) by simp
    ultimately show ?thesis using w_empty(1,2) by (auto simp: wake_inv_def waiting_in_eq waiting_in_def)
  next
    case (w_gate g')
    from gate_waiter [OF w_gate(2-4) w] ts w_gate(1) gates_next [OF g w_gate(2)] show ?thesis
      by (auto simp: wake_inv_def)
  qed
qed

lemma wake_start_inv: "0 < len \<Longrightarrow> unat len < 2 ^ 32 \<Longrightarrow> wake_inv (wake_start len cores)"
  using queue_rep_new [of len cores]
  by (auto simp: wake_inv_def wake_start_def gate_start_def waiting_in_def intro: gates_refl)

lemma wake_steps_inv: "wake_steps \<sigma> \<tau> \<Longrightarrow> wake_inv \<sigma> \<Longrightarrow> wake_inv \<tau>"
  by (induction rule: wake_steps.induct) (auto intro: wake_inv_step)

text \<open>The steps of the gate alone, and those that get the waiter out once the flag is set.\<close>

definition gate_move :: "wake_system \<Rightarrow> wake_system \<Rightarrow> bool" where
  "gate_move \<sigma> \<tau> \<longleftrightarrow> (\<exists>g. gate_step blocking_set blocking_test blocking_deadline (sleeper \<sigma>) g \<and> opened g = opened (sleeper \<sigma>) \<and>
     size (waiting_in g) \<le> size (waiting_in (sleeper \<sigma>)) \<and> \<tau> = \<sigma>\<lparr>sleeper := g\<rparr>)"

lemma gate_move_step: "gate_move \<sigma> \<tau> \<Longrightarrow> wake_step \<sigma> \<tau> \<and> wq \<tau> = wq \<sigma> \<and> unnotified \<tau> = unnotified \<sigma>"
  by (auto simp: gate_move_def intro: w_gate)

lemma gate_moves_steps: "gate_move\<^sup>*\<^sup>* \<sigma> \<tau> \<Longrightarrow> wake_steps \<sigma> \<tau> \<and> wq \<tau> = wq \<sigma>"
  by (induction rule: rtranclp_induct) (auto intro: wakes_refl wakes_next dest: gate_move_step)

lemma waiter_leaves:
  assumes inv: "wake_inv \<sigma>" and f: "notified (gate (sleeper \<sigma>))"
  shows "\<exists>\<tau>. gate_move\<^sup>*\<^sup>* \<sigma> \<tau> \<and> waiting_in (sleeper \<tau>) = {#}"
proof -
  from inv have w: "waiting_in (sleeper \<sigma>) = {#} \<or> waiting_in (sleeper \<sigma>) = {#Checking False#} \<or>
      waiting_in (sleeper \<sigma>) = {#Sleeping False#}"
    and g: "gate_steps blocking_set blocking_test blocking_deadline (gate_start (blocking_new BLOCKING)) (sleeper \<sigma>)"
    by (auto simp: wake_inv_def)
  have leave: "\<exists>\<tau>. gate_move \<sigma> \<tau> \<and> waiting_in (sleeper \<tau>) = {#}"
    if c: "waiting_in (sleeper \<sigma>) = {#Checking False#}" and n: "notified (gate (sleeper \<sigma>))" for \<sigma>
  proof -
    from c have "Checking False \<in># waiting_in (sleeper \<sigma>)" by simp
    then have "Checking False \<in># inside (sleeper \<sigma>)" by (simp add: waiting_in_def)
    then obtain M where M: "inside (sleeper \<sigma>) = add_mset (Checking False) M" by (auto dest: multi_member_split)
    let ?g = "(sleeper \<sigma>)\<lparr>gate := (gate (sleeper \<sigma>))\<lparr>notified := False\<rparr>, inside := M, passed := passed (sleeper \<sigma>) + 1\<rparr>"
    have st: "gate_step blocking_set blocking_test blocking_deadline (sleeper \<sigma>) ?g"
      by (rule g_pass [where t = False]) (use M n in \<open>simp_all add: blocking_test_def\<close>)
    have e: "waiting_in ?g = {#}" using c M by (simp add: waiting_in_eq)
    have "gate_move \<sigma> (\<sigma>\<lparr>sleeper := ?g\<rparr>)" unfolding gate_move_def
      by (intro exI [of _ ?g] conjI st refl) (simp_all only: e, simp_all)
    with e show ?thesis by (intro exI [of _ "\<sigma>\<lparr>sleeper := ?g\<rparr>"]) simp
  qed
  from w show ?thesis
  proof (elim disjE)
    assume "waiting_in (sleeper \<sigma>) = {#}"
    then show ?thesis by blast
  next
    assume "waiting_in (sleeper \<sigma>) = {#Checking False#}"
    from leave [OF this f] show ?thesis by blast
  next
    assume c: "waiting_in (sleeper \<sigma>) = {#Sleeping False#}"
    then have "Sleeping False \<in># waiting_in (sleeper \<sigma>)" by simp
    then have "Sleeping False \<in># inside (sleeper \<sigma>)" by (simp add: waiting_in_def)
    from blk.no_lost_notification [OF g this] f obtain M where M: "inside (sleeper \<sigma>) = add_mset SignalAll M"
      by (auto simp: blocking_test_def dest: multi_member_split)
    let ?g = "(sleeper \<sigma>)\<lparr>inside := image_mset rouse M\<rparr>" and ?\<tau> = "\<sigma>\<lparr>sleeper := (sleeper \<sigma>)\<lparr>inside := image_mset rouse M\<rparr>\<rparr>"
    have r: "waiting_in ?g = {#Checking False#}" using c M by (simp add: waiting_in_eq waiting_roused)
    have "gate_move \<sigma> ?\<tau>" unfolding gate_move_def
      by (intro exI [of _ ?g] conjI refl) (use g_signal [OF M] r c in simp_all)
    moreover from leave [of ?\<tau>] r f obtain \<upsilon> where "gate_move ?\<tau> \<upsilon>" "waiting_in (sleeper \<upsilon>) = {#}" by auto
    ultimately show ?thesis by (meson converse_rtranclp_into_rtranclp r_into_rtranclp)
  qed
qed

lemma wake_steps_trans: "wake_steps \<tau> \<upsilon> \<Longrightarrow> wake_steps \<sigma> \<tau> \<Longrightarrow> wake_steps \<sigma> \<upsilon>"
  by (induction rule: wake_steps.induct) (assumption, rule wakes_next)

section \<open>Entering a context\<close>

text \<open>The threads of a context enter \<open>run\<close> one after the other, each with its thread number, the
  address of its call-stack frame, of its strategy and of its list head.\<close>

fun run_enters :: "'q ready_ops \<Rightarrow> nat \<Rightarrow> (nat \<times> nat \<times> nat \<times> nat) list \<Rightarrow> thread_stacks \<times> 'q ctx \<Rightarrow>
    strategy_error + (arrival list \<times> thread_stacks \<times> 'q ctx)" where
  "run_enters ops this [] sc = Inr ([], sc)"
| "run_enters ops this ((th, a, p, h) # es) sc =
     (case run_enter ops th this a p h sc of
        Inl e \<Rightarrow> Inl e
      | Inr (r, sc') \<Rightarrow>
          (case run_enters ops this es sc' of
             Inl e \<Rightarrow> Inl e
           | Inr (rs, sc'') \<Rightarrow> Inr (r # rs, sc'')))"

definition entry_strategy :: "nat \<times> nat \<times> nat \<times> nat \<Rightarrow> nat" where
  "entry_strategy e = fst (snd (snd e))"

lemma run_enter_ok:
  assumes "strategies cx = map Some ps @ replicate (Suc m) None" and "next_strategy_index cx = length ps"
    and "bar_count (cx_barrier cx) = of_nat (Suc m)" and "Suc m < 2 ^ 64"
  shows "\<exists>r stacks' cx'. run_enter ops th this a p h (stacks, cx) = Inr (r, stacks', cx') \<and>
    strategies cx' = map Some (ps @ [p]) @ replicate m None \<and> next_strategy_index cx' = length (ps @ [p]) \<and>
    (r = Leader \<longleftrightarrow> m = 0) \<and> (0 < m \<longrightarrow> bar_count (cx_barrier cx') = of_nat m)"
proof -
  have l: "next_strategy_index cx < length (strategies cx)" using assms(1,2) by simp
  let ?b = "cx_barrier cx"
  have z: "(of_nat m :: u64) = 0 \<longleftrightarrow> m = 0"
    using assms(4) by (auto simp: word_of_nat_eq_0_iff dest: dvd_imp_le)
  have s: "(map Some ps @ replicate (Suc m) None)[length ps := Some p] = map Some (ps @ [p]) @ replicate m None"
    by (simp add: list_update_append)
  obtain r b where rb: "barrier_arrive ?b = (r, b)" by (cases "barrier_arrive ?b")
  have "(r = Leader \<longleftrightarrow> m = 0) \<and> (0 < m \<longrightarrow> bar_count b = of_nat m)"
    using rb assms(3) z by (auto simp: barrier_arrive_def Let_def split: if_splits)
  with l s rb assms(1,2) show ?thesis
    by (simp add: run_enter_def strategy_new_def Let_def)
qed

lemma run_enters_ok:
  assumes "strategies cx = map Some ps @ replicate (length es) None" and "next_strategy_index cx = length ps"
    and "es \<noteq> [] \<longrightarrow> bar_count (cx_barrier cx) = of_nat (length es)" and "length es < 2 ^ 64"
  shows "\<exists>rs stacks' cx'. run_enters ops this es (stacks, cx) = Inr (rs, stacks', cx') \<and>
    strategies cx' = map Some (ps @ map entry_strategy es) \<and>
    next_strategy_index cx' = length (strategies cx') \<and> length rs = length es \<and>
    (\<forall>i < length es. rs ! i = Leader \<longleftrightarrow> i = length es - 1)"
  using assms
proof (induction es arbitrary: stacks cx ps)
  case (Cons e es)
  obtain th a p h where e: "e = (th, a, p, h)" by (cases e)
  obtain r stacks1 cx1 where c: "run_enter ops th this a p h (stacks, cx) = Inr (r, stacks1, cx1)"
    "strategies cx1 = map Some (ps @ [p]) @ replicate (length es) None" "next_strategy_index cx1 = length (ps @ [p])"
    "r = Leader \<longleftrightarrow> length es = 0" "0 < length es \<longrightarrow> bar_count (cx_barrier cx1) = of_nat (length es)"
    using run_enter_ok [of cx ps "length es" ops th this a p h stacks] Cons.prems by auto
  have "es \<noteq> [] \<longrightarrow> bar_count (cx_barrier cx1) = of_nat (length es)" "length es < 2 ^ 64"
    using c(5) Cons.prems(4) by auto
  from Cons.IH [OF c(2,3) this, of stacks1] obtain rs stacks2 cx2 where
    d: "run_enters ops this es (stacks1, cx1) = Inr (rs, stacks2, cx2)"
    "strategies cx2 = map Some ((ps @ [p]) @ map entry_strategy es)"
    "next_strategy_index cx2 = length (strategies cx2)" "length rs = length es"
    "\<forall>i < length es. rs ! i = Leader \<longleftrightarrow> i = length es - 1" by blast
  have "(r # rs) ! i = Leader \<longleftrightarrow> i = length (e # es) - 1" if "i < length (e # es)" for i
    using that c(4) d(5) by (cases i) auto
  with c(1) d(1-4) e show ?case by (auto simp: entry_strategy_def)
qed simp

section \<open>Properties of running and waiting\<close>

text \<open>Claim C28: No thread of a context schedules before all of its strategies exist. When the \<open>n\<close> threads of a
  context have entered \<open>run\<close>, every slot holds a strategy, and only the last arrival at the
  barrier is let through at once; one thread more writes past the slots.\<close>

theorem run_slots_before_release:
  assumes "cx = context_new mem cores n flag len" and "length es = unat n"
  shows "\<exists>rs stacks' cx'. run_enters ops this es (stacks, cx) = Inr (rs, stacks', cx')
    \<and> strategies cx' = map (Some \<circ> entry_strategy) es
    \<and> (\<forall>i < unat n. rs ! i = Leader \<longleftrightarrow> i = unat n - 1)
    \<and> run_enter ops th this a p h (stacks', cx') = Inl StrategyIndex"
proof -
  have u: "unat n < 2 ^ 64" using unsigned_less [of n] by simp
  have f: "strategies cx = replicate (unat n) None" "next_strategy_index cx = 0" "bar_count (cx_barrier cx) = n"
    by (simp_all add: assms(1) context_new_def schedule.defs ctx.defs barrier_new_def)
  from run_enters_ok [of cx "[]" es ops this stacks] f u assms(2) obtain rs stacks' cx' where
    k: "run_enters ops this es (stacks, cx) = Inr (rs, stacks', cx')"
    "strategies cx' = map Some (map entry_strategy es)" "next_strategy_index cx' = length (strategies cx')"
    "\<forall>i < length es. rs ! i = Leader \<longleftrightarrow> i = length es - 1" by auto
  have "run_enter ops th this a p h (stacks', cx') = Inl StrategyIndex"
    using k(3) by (simp add: run_enter_def strategy_new_def Let_def)
  with k assms(2) show ?thesis by auto
qed

text \<open>\<open>isRunningInThis\<close> holds on the thread inside \<open>run\<close> and not on a thread that is in no
  context. After \<open>run\<close> returned it reads the dead frame on that thread, for every context, so
  \<open>post\<close>, \<open>dispatch\<close> and \<open>call\<close> are undefined there.\<close>

theorem running_inside_run_only:
  assumes "run_enter ops th this a p h (stacks, cx) = Inr (r, stacks', cx')" and "th' \<noteq> th" and "s_top stacks th' = None"
  shows "isRunningInThis th this stacks' = Some (Inr True) \<and> isRunningInThis th' this stacks' = Some (Inr False)
    \<and> isRunningInThis th other (run_leave a stacks') = Some (Inl DeadFrame)"
proof -
  have "stacks' = cs_begin th a this stacks"
    using assms(1) by (auto simp: run_enter_def split: sum.splits prod.splits)
  with assms(2,3) show ?thesis
    by (simp add: isRunningInThis_def cs_contain_def cs_begin_def cs_begin_value_def run_leave_def cs_end_def)
qed

text \<open>Claim C31: \<open>run\<close> returns after \<open>terminate\<close> and only then. In every interleaving of the threads inside
  \<open>run\<close> and of calls of \<open>terminate\<close>, no thread has returned before the first call, and after
  it a waiting thread gets through by the steps of the threads already inside.\<close>

theorem run_returns_on_terminate:
  assumes "gate_steps terminate_section run_test id (gate_start cx) \<sigma>" and "\<not> cx_done cx"
  shows "(opened \<sigma> = 0 \<longrightarrow> passed \<sigma> = 0) \<and>
    (0 < opened \<sigma> \<and> (Sleeping False \<in># inside \<sigma> \<or> Checking False \<in># inside \<sigma>) \<longrightarrow>
      (\<exists>\<tau>. gate_steps terminate_section run_test id \<sigma> \<tau> \<and> passed \<tau> = passed \<sigma> + 1 \<and> opened \<tau> = opened \<sigma>))"
proof -
  have "run_test cx = None" using assms(2) by (simp add: run_test_def)
  note o = done_gate.open_iff_opened [OF assms(1) this]
  from done_gate.open_gate_passes [OF assms(1), of False] o show ?thesis by auto
qed

text \<open>A strategy's thread sleeps until it is notified, and no notification is lost. In every
  interleaving, at most as many untimed waits have ended as notifications were given; a thread asleep
  while the flag is set has its wake-up under way.\<close>

theorem blocking_no_lost_notification:
  assumes "gate_steps blocking_set blocking_test blocking_deadline (gate_start (blocking_new BLOCKING)) \<sigma>"
  shows "passed \<sigma> \<le> opened \<sigma> \<and>
    (notified (gate \<sigma>) \<and> Sleeping t \<in># inside \<sigma> \<longrightarrow> SignalAll \<in># inside \<sigma>)"
proof -
  have "blocking_test (blocking_new BLOCKING) = None" by (simp add: blocking_test_def blocking_new_def)
  from blk.passed_at_most_opened [OF assms this] blk.no_lost_notification [OF assms, of t]
  show ?thesis by (auto simp: blocking_test_def split: if_splits)
qed

text \<open>Claim C5: A posted task is never stranded. In every interleaving of posting threads with a context of one
  blocking strategy, while the queue holds tasks the strategy can leave its wait without
  another post, and the next task it launches is the oldest.\<close>

theorem posted_task_is_launched:
  assumes "wake_steps (wake_start len cores) \<sigma>" and "0 < len" and "unat len < 2 ^ 32"
    and "queue_rep (wq \<sigma>) (t # ts)"
  shows "\<exists>\<tau> q. wake_steps \<sigma> \<tau> \<and> waiting_in (sleeper \<tau>) = {#} \<and> wq \<tau> = wq \<sigma>
    \<and> pop_perform (wq \<tau>) = Inr (Some t, q) \<and> queue_rep q ts"
proof -
  have inv: "wake_inv \<sigma>" by (rule wake_steps_inv [OF assms(1) wake_start_inv [OF assms(2,3)]])
  from task_fifo.deq_rep [OF assms(4)] obtain q where q: "pop_perform (wq \<sigma>) = Inr (Some t, q)" "queue_rep q ts"
    by (auto simp: ctq_deq_def split: sum.splits)
  have "\<exists>\<tau>. wake_steps \<sigma> \<tau> \<and> waiting_in (sleeper \<tau>) = {#} \<and> wq \<tau> = wq \<sigma>"
  proof (cases "waiting_in (sleeper \<sigma>) = {#} \<or> notified (gate (sleeper \<sigma>))")
    case True
    with waiter_leaves [OF inv] show ?thesis by (blast intro: wakes_refl dest: gate_moves_steps)
  next
    case False
    from inv obtain us where us: "queue_rep (wq \<sigma>) us"
      "us \<noteq> [] \<longrightarrow> waiting_in (sleeper \<sigma>) \<noteq> {#} \<longrightarrow> 0 < unnotified \<sigma> \<or> notified (gate (sleeper \<sigma>))"
      by (auto simp: wake_inv_def)
    have "us \<noteq> []"
      using task_fifo.deq_rep [OF us(1)] q(1) by (auto simp: ctq_deq_def)
    with us(2) False obtain m where m: "unnotified \<sigma> = Suc m" using gr0_implies_Suc by auto
    let ?\<tau> = "\<sigma>\<lparr>unnotified := m, sleeper := (sleeper \<sigma>)\<lparr>gate := blocking_set (gate (sleeper \<sigma>)),
        inside := add_mset SignalAll (inside (sleeper \<sigma>)), opened := opened (sleeper \<sigma>) + 1\<rparr>\<rparr>"
    have st: "wake_step \<sigma> ?\<tau>" by (rule w_notify [OF m])
    have "notified (gate (sleeper ?\<tau>))" by (simp add: blocking_set_def)
    from waiter_leaves [OF wake_inv_step [OF st inv] this] obtain \<upsilon> where
      "wake_steps ?\<tau> \<upsilon>" "waiting_in (sleeper \<upsilon>) = {#}" "wq \<upsilon> = wq \<sigma>" by (auto dest: gate_moves_steps)
    moreover from wake_steps_trans [OF this(1)] have "wake_steps \<sigma> \<upsilon>"
      using wakes_next [OF wakes_refl st] by blast
    ultimately show ?thesis by blast
  qed
  with q show ?thesis by metis
qed

subsection \<open>Concrete runs\<close>

definition ctx128 :: "nat list ctx" where
  "ctx128 = context_new two_strategies 1 2 DEBUG_ON 128"

lemma ctx128_queue: "task_queue ctx128 = ctq_new 128 1" "debug ctx128 = DEBUG_ON"
  by (simp_all add: ctx128_def context_new_def schedule.defs ctx.defs)

lemma ctx128_slots: "strategies ctx128 = replicate 2 None" "next_strategy_index ctx128 = 0"
    "bar_count (cx_barrier ctx128) = 2"
  by (simp_all add: ctx128_def context_new_def schedule.defs ctx.defs barrier_new_def)

lemma ctx128_post:
  "\<exists>cx. postTaskFromRemote 1 0 0 [7, 9] 4096 [104, 105] ctx128 = Some (Inr (cx, context_notify 0 ctx128))
     \<and> queue_rep (task_queue cx) [task32]"
proof -
  obtain q where q: "push 1 0 0 task32 (ctq_new 128 1) = Some (Inr q)" "queue_rep q [task32]"
    using push_task32 [of 0 0] by auto
  have "postTaskFromRemote 1 0 0 [7, 9] 4096 [104, 105] ctx128 =
      Some (Inr (ctx128\<lparr>task_queue := q\<rparr>, context_notify 0 ctx128))"
    using q(1) unfolding postTaskFromRemote_def by (simp add: ctx128_queue task32_def context_notify_def Let_def)
  with q(2) show ?thesis by simp
qed

theorem remote_task_launched_witness:
  "\<exists>cx1 a cx2. context_dispatch 1 0 0 False 0 0 [] () [7, 9] 4096 [104, 105] ctx128
       = Some (Inr (cx1, Queued (context_notify 0 ctx128)))
     \<and> launchPostedTask 5 6 [] cx1 = Inr (1, launch_calls 5 6 a task32 :: unit action fiber_call list, cx2)"
proof -
  obtain cx1 where c: "postTaskFromRemote 1 0 0 [7, 9] 4096 [104, 105] ctx128 = Some (Inr (cx1, context_notify 0 ctx128))"
    using ctx128_post by blast
  then have d: "context_dispatch 1 0 0 False 0 0 [] () [7, 9] 4096 [104, 105] ctx128
      = Some (Inr (cx1, Queued (context_notify 0 ctx128)))"
    by (simp add: context_dispatch_def remote_posted_def)
  have t: "remote_task ctx128 [7, 9] 4096 [104, 105] = task32" by (simp add: remote_task_def ctx128_queue task32_def)
  have "queue_rep (task_queue ctx128) []" unfolding ctx128_queue by (rule queue_rep_new) simp_all
  from remote_task_launched [OF this _ d, of 5 6 "[]"] t task32_facts(1) d show ?thesis by auto
qed

theorem second_launch_repeats_task_witness:
  "\<exists>(cx1 :: nat list ctx) a cx2. launchPostedTask 7 8 [] cx1 = Inr (1, launch_calls 7 8 a task32 :: unit action fiber_call list, cx2)"
proof -
  obtain cx :: "nat list ctx" where cx: "queue_rep (task_queue cx) [task32]" using ctx128_post by blast
  from launch_oldest [OF cx, of 5 6 "[]"] obtain a cx1 where
    "launchPostedTask 5 6 [] cx = Inr (1, launch_calls 5 6 a task32 :: unit action fiber_call list, cx1)" by blast
  from second_launch_repeats_task [OF cx this, of 7 8 "[]"] show ?thesis by blast
qed

theorem run_slots_before_release_witness:
  "\<exists>rs stacks' cx'. run_enters (deque_ops two_kinds) 99 [(0, 10, 20, 30), (1, 11, 21, 31)]
       (stacks_new, context_new two_strategies 1 2 DEBUG_ON 128) = Inr (rs, stacks', cx')
     \<and> strategies cx' = [Some 20, Some 21]"
  using run_slots_before_release [OF refl, of "[(0, 10, 20, 30), (1, 11, 21, 31)]" 2 "deque_ops two_kinds" 99 stacks_new
      two_strategies 1 DEBUG_ON 128 0 0 0 0]
  by (auto simp: entry_strategy_def simp del: run_enters.simps)

theorem running_inside_run_only_witness:
  "\<exists>r stacks' cx'. run_enter (deque_ops two_kinds) 0 99 10 20 30 (stacks_new, ctx128) = Inr (r, stacks', cx')
     \<and> isRunningInThis 0 99 stacks' = Some (Inr True)"
proof -
  obtain r b where "barrier_arrive (cx_barrier ctx128) = (r, b)" by (cases "barrier_arrive (cx_barrier ctx128)")
  then obtain stacks' cx' where
    e: "run_enter (deque_ops two_kinds) 0 99 10 20 30 (stacks_new, ctx128) = Inr (r, stacks', cx')"
    by (simp add: run_enter_def strategy_new_def Let_def ctx128_slots)
  from running_inside_run_only [OF e, of 1 0] e show ?thesis by (auto simp: stacks_new_def)
qed

theorem run_returns_on_terminate_witness:
  "\<exists>\<tau>. gate_steps terminate_section run_test id (gate_start ctx128) \<tau> \<and> passed \<tau> = 1"
proof -
  let ?s0 = "gate_start ctx128"
  let ?s1 = "?s0\<lparr>inside := add_mset (Checking False) (inside ?s0)\<rparr>"
  let ?s2 = "?s1\<lparr>gate := terminate_section (gate ?s1), inside := add_mset SignalAll (inside ?s1), opened := opened ?s1 + 1\<rparr>"
  have r: "gate_steps terminate_section run_test id ?s0 ?s2"
    by (rule gates_next [OF gates_next [OF gates_refl]]) (rule g_wait g_open)+
  have "\<not> cx_done ctx128" by (simp add: ctx128_def context_new_def schedule.defs ctx.defs)
  from run_returns_on_terminate [OF r this] obtain \<tau> where
    t: "gate_steps terminate_section run_test id ?s2 \<tau>" "passed \<tau> = 1" by (auto simp: gate_start_def)
  from gate_steps_trans [OF t(1) r] t(2) show ?thesis by blast
qed

theorem blocking_no_lost_notification_witness:
  "\<exists>\<sigma>. gate_steps blocking_set blocking_test blocking_deadline (gate_start (blocking_new BLOCKING)) \<sigma>
     \<and> Sleeping False \<in># inside \<sigma> \<and> notified (gate \<sigma>) \<and> SignalAll \<in># inside \<sigma>"
proof -
  let ?s0 = "gate_start (blocking_new BLOCKING)"
  let ?s1 = "?s0\<lparr>inside := add_mset (Checking False) (inside ?s0)\<rparr>"
  let ?s2 = "?s1\<lparr>inside := add_mset (Sleeping False) {#}\<rparr>"
  let ?s3 = "?s2\<lparr>gate := blocking_set (gate ?s2), inside := add_mset SignalAll (inside ?s2), opened := opened ?s2 + 1\<rparr>"
  have "gate_steps blocking_set blocking_test blocking_deadline ?s0 ?s2"
    by (rule gates_next [OF gates_next [OF gates_refl g_wait] g_sleep])
       (simp_all add: gate_start_def blocking_test_def blocking_new_def)
  then have r: "gate_steps blocking_set blocking_test blocking_deadline ?s0 ?s3" by (rule gates_next) (rule g_open)
  from blocking_no_lost_notification [OF r, of False] r show ?thesis
    by (intro exI [of _ ?s3]) (simp add: gate_start_def blocking_set_def)
qed

theorem posted_task_is_launched_witness:
  "\<exists>\<tau> q. wake_steps (wake_start 128 1) \<tau> \<and> waiting_in (sleeper \<tau>) = {#} \<and> pop_perform (wq \<tau>) = Inr (Some task32, q)"
proof -
  obtain q where q: "push 1 0 0 task32 (ctq_new 128 1) = Some (Inr q)" "queue_rep q [task32]"
    using push_task32 [of 0 0] by auto
  let ?s = "(wake_start 128 1)\<lparr>wq := q, unnotified := unnotified (wake_start 128 1) + 1\<rparr>"
  have st: "wake_steps (wake_start 128 1) ?s"
    by (rule wakes_next [OF wakes_refl], rule w_push [OF task32_facts(1)]) (use q(1) in \<open>simp add: wake_start_def\<close>)
  from posted_task_is_launched [OF st, of task32 "[]"] q(2) obtain \<tau> q' where
    t: "wake_steps ?s \<tau>" "waiting_in (sleeper \<tau>) = {#}" "pop_perform (wq \<tau>) = Inr (Some task32, q')" by auto
  from wake_steps_trans [OF t(1) st] t(2,3) show ?thesis by blast
qed

end
