(* ===== verification/RemoteCall.thy ===== *)
theory RemoteCall
  imports Context
begin

text \<open>
  Calls from other threads (\<open>Context::call\<close> in core/Context.hpp on a thread that is not the context's):
  the packaged task goes through the task queue to a context of one \<open>BlockingContextStrategy\<close>, and
  the caller waits for the future. The theory puts \<open>context_call\<close>, the queue, the sleep of the strategy and
  the futures together and proves that each call returns the result of its own task. Pushes and launches are
  one step each.
\<close>

section \<open>The callers and the context\<close>

text \<open>
  What a call hands over: the bytes of the \<open>ContextOperation\<close> that holds the packaged task, the stack
  size, the description, and how the task ends (its value, or what it throws: the packaged task
  stores either and \<open>get\<close> gives it back).
\<close>

record 'v remote_call =
  call_op :: "u8 list"
  call_stack_size :: nat
  call_description :: "u8 list"
  call_outcome :: 'v

text \<open>A caller has not called, has pushed its task, has notified and waits for its future, or has returned.\<close>

datatype 'v call_pc = CallIdle | CallPosted | CallAwaiting | CallDone 'v

text \<open>\<open>rc_called\<close> and \<open>rc_performed\<close> are the calls in the order of their pushes and of their
  performance, \<open>rc_posts\<close> counts the pushes of all threads, \<open>rc_others\<close> those of other posts that have not
  notified.\<close>

record 'v call_system =
  rc_wake :: wake_system
  rc_pc :: "nat \<Rightarrow> 'v call_pc"
  rc_future :: "nat \<Rightarrow> 'v option"
  rc_called :: "nat list"
  rc_performed :: "nat list"
  rc_posts :: nat
  rc_others :: nat

text \<open>\<open>_notify(0)\<close> of one of the posts that have not notified.\<close>

definition notify_sleeper :: "wake_system \<Rightarrow> wake_system" where
  "notify_sleeper w =
     w\<lparr>unnotified := unnotified w - 1,
       sleeper := (sleeper w)\<lparr>gate := blocking_set (gate (sleeper w)),
         inside := add_mset SignalAll (inside (sleeper w)), opened := opened (sleeper w) + 1\<rparr>\<rparr>"

text \<open>Performing a task completes the future its packaged task shares with a caller, if it is of a call:
  \<open>shared\<close> reads which one off the bytes of the operation.\<close>

definition perform_remote :: "(nat \<Rightarrow> 'v remote_call) \<Rightarrow> (u8 list \<Rightarrow> nat option) \<Rightarrow> task \<Rightarrow> 'v call_system \<Rightarrow>
    'v call_system" where
  "perform_remote calls shared t \<sigma> =
     (case shared (op_bytes t) of
        None \<Rightarrow> \<sigma>
      | Some c \<Rightarrow> \<sigma>\<lparr>rc_future := (rc_future \<sigma>)(c := Some (call_outcome (calls c))),
                   rc_performed := rc_performed \<sigma> @ [c]\<rparr>)"

text \<open>Call \<open>c\<close> fits the queue's format and its packaged task refers to its own shared state.\<close>

definition call_ok :: "'q ctx \<Rightarrow> (nat \<Rightarrow> 'v remote_call) \<Rightarrow> (u8 list \<Rightarrow> nat option) \<Rightarrow> nat \<Rightarrow> bool" where
  "call_ok cx calls shared c \<longleftrightarrow> shared (call_op (calls c)) = Some c \<and>
     task_ok (remote_task cx (call_op (calls c)) (call_stack_size (calls c)) (call_description (calls c)))"

text \<open>
  The steps, for the context \<open>cx\<close> whose queue is the one of the system: a call up to its push, another
  thread's push, the notification of either, the strategy's launch and its fiber, the strategy's way into
  the wait, the steps of the wait itself, and the return of \<open>get\<close>.
\<close>

inductive call_step :: "'q ctx \<Rightarrow> (nat \<Rightarrow> 'v remote_call) \<Rightarrow> (u8 list \<Rightarrow> nat option) \<Rightarrow>
    'v call_system \<Rightarrow> 'v call_system \<Rightarrow> bool" for cx calls shared where
  c_post: "rc_pc \<sigma> c = CallIdle \<Longrightarrow> call_ok cx calls shared c \<Longrightarrow>
     context_call n k th False fn (call_op (calls c)) (call_stack_size (calls c)) (call_description (calls c))
       (cx\<lparr>task_queue := wq (rc_wake \<sigma>)\<rparr>) = Some (Inr (cx', AwaitFuture (Some s) :: 'v called)) \<Longrightarrow>
     call_step cx calls shared \<sigma> (\<sigma>\<lparr>rc_wake := (rc_wake \<sigma>)\<lparr>wq := task_queue cx', unnotified := unnotified (rc_wake \<sigma>) + 1\<rparr>,
       rc_pc := (rc_pc \<sigma>)(c := CallPosted), rc_called := rc_called \<sigma> @ [c], rc_posts := rc_posts \<sigma> + 1\<rparr>)"
| c_other: "task_ok t \<Longrightarrow> shared (op_bytes t) = None \<Longrightarrow> push n k th t (wq (rc_wake \<sigma>)) = Some (Inr q) \<Longrightarrow>
     call_step cx calls shared \<sigma> (\<sigma>\<lparr>rc_wake := (rc_wake \<sigma>)\<lparr>wq := q, unnotified := unnotified (rc_wake \<sigma>) + 1\<rparr>,
       rc_posts := rc_posts \<sigma> + 1, rc_others := rc_others \<sigma> + 1\<rparr>)"
| c_notify: "rc_pc \<sigma> c = CallPosted \<Longrightarrow>
     call_step cx calls shared \<sigma> (\<sigma>\<lparr>rc_wake := notify_sleeper (rc_wake \<sigma>), rc_pc := (rc_pc \<sigma>)(c := CallAwaiting)\<rparr>)"
| c_notify_other: "rc_others \<sigma> = Suc m \<Longrightarrow>
     call_step cx calls shared \<sigma> (\<sigma>\<lparr>rc_wake := notify_sleeper (rc_wake \<sigma>), rc_others := m\<rparr>)"
| c_launch: "waiting_in (sleeper (rc_wake \<sigma>)) = {#} \<Longrightarrow> pop_perform (wq (rc_wake \<sigma>)) = Inr (Some t, q) \<Longrightarrow>
     call_step cx calls shared \<sigma> (perform_remote calls shared t (\<sigma>\<lparr>rc_wake := (rc_wake \<sigma>)\<lparr>wq := q\<rparr>\<rparr>))"
| c_empty: "waiting_in (sleeper (rc_wake \<sigma>)) = {#} \<Longrightarrow> pop (wq (rc_wake \<sigma>)) = Inr (None, q) \<Longrightarrow>
     call_step cx calls shared \<sigma> (\<sigma>\<lparr>rc_wake := (rc_wake \<sigma>)\<lparr>wq := q,
       sleeper := (sleeper (rc_wake \<sigma>))\<lparr>inside := add_mset (Checking False) (inside (sleeper (rc_wake \<sigma>)))\<rparr>\<rparr>\<rparr>)"
| c_gate: "gate_move (rc_wake \<sigma>) w \<Longrightarrow> call_step cx calls shared \<sigma> (\<sigma>\<lparr>rc_wake := w\<rparr>)"
| c_get: "rc_pc \<sigma> c = CallAwaiting \<Longrightarrow> rc_future \<sigma> c = Some v \<Longrightarrow>
     call_step cx calls shared \<sigma> (\<sigma>\<lparr>rc_pc := (rc_pc \<sigma>)(c := CallDone v)\<rparr>)"

inductive_cases call_step_cases [consumes 1,
    case_names c_post c_other c_notify c_notify_other c_launch c_empty c_gate c_get]:
  "call_step cx calls shared \<sigma> \<tau>"

definition call_start :: "'q ctx \<Rightarrow> 'v call_system" where
  "call_start cx = \<lparr>rc_wake = \<lparr>wq = task_queue cx, sleeper = gate_start (blocking_new BLOCKING), unnotified = 0\<rparr>,
     rc_pc = (\<lambda>_. CallIdle), rc_future = (\<lambda>_. None), rc_called = [], rc_performed = [], rc_posts = 0, rc_others = 0\<rparr>"

section \<open>The invariant\<close>

text \<open>The calls whose tasks are in the queue.\<close>

definition calls_queued :: "(u8 list \<Rightarrow> nat option) \<Rightarrow> task list \<Rightarrow> nat list" where
  "calls_queued shared ts = List.map_filter (\<lambda>t. shared (op_bytes t)) ts"

lemma calls_queued_simps [simp]:
  "calls_queued shared [] = []"
  "calls_queued shared (t # ts) = (case shared (op_bytes t) of None \<Rightarrow> [] | Some c \<Rightarrow> [c]) @ calls_queued shared ts"
  "calls_queued shared (ts @ us) = calls_queued shared ts @ calls_queued shared us"
  by (auto simp: calls_queued_def List.map_filter_def split: option.splits)

text \<open>Every call is performed once or has its task in the queue once; the futures are those of the calls
  performed; who has returned had its own outcome.\<close>

definition call_inv :: "(nat \<Rightarrow> 'v remote_call) \<Rightarrow> (u8 list \<Rightarrow> nat option) \<Rightarrow> 'v call_system \<Rightarrow> bool" where
  "call_inv calls shared \<sigma> \<longleftrightarrow> wake_inv (rc_wake \<sigma>) \<and>
     (\<exists>ts. queue_rep (wq (rc_wake \<sigma>)) ts \<and> rc_called \<sigma> = rc_performed \<sigma> @ calls_queued shared ts) \<and>
     distinct (rc_called \<sigma>) \<and> (\<forall>c. c \<in> set (rc_called \<sigma>) \<longleftrightarrow> rc_pc \<sigma> c \<noteq> CallIdle) \<and>
     (\<forall>c. rc_future \<sigma> c = (if c \<in> set (rc_performed \<sigma>) then Some (call_outcome (calls c)) else None)) \<and>
     (\<forall>c v. rc_pc \<sigma> c = CallDone v \<longrightarrow> v = call_outcome (calls c) \<and> c \<in> set (rc_performed \<sigma>)) \<and>
     finite {c. rc_pc \<sigma> c = CallPosted} \<and>
     unnotified (rc_wake \<sigma>) = card {c. rc_pc \<sigma> c = CallPosted} + rc_others \<sigma>"

lemma notify_sleeper_step: "0 < unnotified w \<Longrightarrow> wake_step w (notify_sleeper w)"
  using w_notify [of w "unnotified w - 1"] by (simp add: notify_sleeper_def)

lemma notify_sleeper_simps [simp]:
  "wq (notify_sleeper w) = wq w" "unnotified (notify_sleeper w) = unnotified w - 1"
  "waiting_in (sleeper (notify_sleeper w)) = waiting_in (sleeper w)"
  "notified (gate (sleeper (notify_sleeper w)))"
  by (simp_all add: notify_sleeper_def waiting_in_def blocking_set_def)

lemma perform_remote_simps [simp]:
  "rc_wake (perform_remote calls shared t \<sigma>) = rc_wake \<sigma>" "rc_pc (perform_remote calls shared t \<sigma>) = rc_pc \<sigma>"
  "rc_posts (perform_remote calls shared t \<sigma>) = rc_posts \<sigma>"
  "rc_called (perform_remote calls shared t \<sigma>) = rc_called \<sigma>" "rc_others (perform_remote calls shared t \<sigma>) = rc_others \<sigma>"
  "rc_performed (perform_remote calls shared t \<sigma>) = rc_performed \<sigma> @ calls_queued shared [t]"
  by (auto simp: perform_remote_def split: option.splits)

text \<open>What the push of a call does to the queue.\<close>

lemma call_posted:
  assumes "context_call n k th False fn op ss d (cx\<lparr>task_queue := q\<rparr>) = Some (Inr (cx', AwaitFuture w :: 'v called))"
    and "queue_rep q ts" and "task_ok (remote_task cx op ss d)"
  shows "push n k th (remote_task cx op ss d) q = Some (Inr (task_queue cx'))"
    and "queue_rep (task_queue cx') (ts @ [remote_task cx op ss d])"
proof -
  from assms(1) show p: "push n k th (remote_task cx op ss d) q = Some (Inr (task_queue cx'))"
    by (auto simp: context_call_def postTaskFromRemote_def remote_task_def Let_def split: option.splits sum.splits)
  from push_ok [OF assms(2,3) p] show "queue_rep (task_queue cx') (ts @ [remote_task cx op ss d])" .
qed

lemma op_bytes_remote [simp]: "op_bytes (remote_task cx op ss d) = op"
  by (simp add: remote_task_def)

lemma posted_upd:
  assumes "finite {c. f c = CallPosted}"
  shows "f c = CallIdle \<Longrightarrow> card {x. (f(c := CallPosted)) x = CallPosted} = card {x. f x = CallPosted} + 1"
    and "f c = CallPosted \<Longrightarrow> card {x. (f(c := CallAwaiting)) x = CallPosted} = card {x. f x = CallPosted} - 1"
    and "f c = CallPosted \<Longrightarrow> 0 < card {x. f x = CallPosted}"
    and "f c = CallAwaiting \<Longrightarrow> {x. (f(c := CallDone v)) x = CallPosted} = {x. f x = CallPosted}"
    and "finite {x. (f(c := a)) x = CallPosted}"
proof -
  have e: "{x. (f(c := CallPosted)) x = CallPosted} = insert c {x. f x = CallPosted}" by auto
  show "f c = CallIdle \<Longrightarrow> card {x. (f(c := CallPosted)) x = CallPosted} = card {x. f x = CallPosted} + 1"
    unfolding e using assms by simp
  have e': "{x. (f(c := CallAwaiting)) x = CallPosted} = {x. f x = CallPosted} - {c}" by auto
  show "f c = CallPosted \<Longrightarrow> card {x. (f(c := CallAwaiting)) x = CallPosted} = card {x. f x = CallPosted} - 1"
    unfolding e' using assms by simp
  show "f c = CallPosted \<Longrightarrow> 0 < card {x. f x = CallPosted}" using assms by (auto simp: card_gt_0_iff)
  show "f c = CallAwaiting \<Longrightarrow> {x. (f(c := CallDone v)) x = CallPosted} = {x. f x = CallPosted}" by auto
  have "{x. (f(c := a)) x = CallPosted} \<subseteq> insert c {x. f x = CallPosted}" by auto
  from finite_subset [OF this] assms show "finite {x. (f(c := a)) x = CallPosted}" by simp
qed

text \<open>The steps are steps of the queue and the sleeper.\<close>

lemma call_step_wakes:
  assumes "call_step cx calls shared \<sigma> \<tau>" and "call_inv calls shared \<sigma>"
  shows "wake_step (rc_wake \<sigma>) (rc_wake \<tau>) \<or> rc_wake \<tau> = rc_wake \<sigma>"
  using assms(1)
proof (cases rule: call_step_cases)
  case (c_post c n k th fn cx' s)
  from assms(2) obtain ts where "queue_rep (wq (rc_wake \<sigma>)) ts" by (auto simp: call_inv_def)
  from call_posted(1) [OF c_post(4) this] c_post(3) w_push c_post(1) show ?thesis by (auto simp: call_ok_def)
next
  case c_other
  with w_push show ?thesis by simp
next
  case (c_notify c)
  with assms(2) posted_upd(3) have "0 < unnotified (rc_wake \<sigma>)" unfolding call_inv_def by fastforce
  with c_notify(1) notify_sleeper_step show ?thesis by simp
next
  case (c_notify_other m)
  with assms(2) have "0 < unnotified (rc_wake \<sigma>)" unfolding call_inv_def by simp
  with c_notify_other(1) notify_sleeper_step show ?thesis by simp
next
  case c_launch
  with w_launch show ?thesis by simp
next
  case c_empty
  with w_empty show ?thesis by simp
next
  case c_gate
  with gate_move_step show ?thesis by auto
qed simp

lemma call_inv_step:
  assumes "call_step cx calls shared \<sigma> \<tau>" and "call_inv calls shared \<sigma>"
  shows "call_inv calls shared \<tau>"
proof -
  have w: "wake_inv (rc_wake \<tau>)"
    using call_step_wakes [OF assms] wake_inv_step assms(2) by (auto simp: call_inv_def)
  from assms(2) obtain ts where ts: "queue_rep (wq (rc_wake \<sigma>)) ts" "rc_called \<sigma> = rc_performed \<sigma> @ calls_queued shared ts"
    and d: "distinct (rc_called \<sigma>)" and idle: "\<And>c. c \<in> set (rc_called \<sigma>) \<longleftrightarrow> rc_pc \<sigma> c \<noteq> CallIdle"
    and fut: "\<And>c. rc_future \<sigma> c = (if c \<in> set (rc_performed \<sigma>) then Some (call_outcome (calls c)) else None)"
    and ret: "\<And>c v. rc_pc \<sigma> c = CallDone v \<Longrightarrow> v = call_outcome (calls c) \<and> c \<in> set (rc_performed \<sigma>)"
    and fin: "finite {c. rc_pc \<sigma> c = CallPosted}"
    and un: "unnotified (rc_wake \<sigma>) = card {c. rc_pc \<sigma> c = CallPosted} + rc_others \<sigma>"
    unfolding call_inv_def by blast
  have ex: "\<exists>us. queue_rep (wq (rc_wake \<tau>)) us \<and> rc_called \<tau> = rc_performed \<tau> @ calls_queued shared us"
    using assms(1)
  proof (cases rule: call_step_cases)
    case (c_post c n k th fn cx' s)
    from c_post(3) have ok: "task_ok (remote_task cx (call_op (calls c)) (call_stack_size (calls c)) (call_description (calls c)))"
      and sh: "shared (call_op (calls c)) = Some c" by (simp_all add: call_ok_def)
    with call_posted(2) [OF c_post(4) ts(1) ok] ts(2) c_post(1) show ?thesis
      by (intro exI [of _ "ts @ [remote_task cx (call_op (calls c)) (call_stack_size (calls c)) (call_description (calls c))]"]) simp
  next
    case (c_other t n k th q)
    with push_ok [OF ts(1) c_other(2,4)] ts(2) show ?thesis by (intro exI [of _ "ts @ [t]"]) simp
  next
    case (c_launch t q)
    from task_fifo.deq_rep [OF ts(1)] c_launch(3) have "ts = t # tl ts" "queue_rep q (tl ts)"
      by (cases ts; simp add: ctq_deq_def)+
    with ts(2) c_launch(1) show ?thesis by (intro exI [of _ "tl ts"]) (cases ts; simp)
  next
    case (c_empty q)
    with pop_empty [OF ts(1) c_empty(3)] ts(2) show ?thesis by (intro exI [of _ "[]"]) simp
  next
    case c_gate
    with gate_move_step [OF c_gate(2)] ts show ?thesis by auto
  qed (intro exI [of _ ts]; use ts in simp)+
  have d': "distinct (rc_called \<tau>)"
    using assms(1) d idle by (cases rule: call_step_cases) simp_all
  have idle': "\<forall>c. c \<in> set (rc_called \<tau>) \<longleftrightarrow> rc_pc \<tau> c \<noteq> CallIdle"
    using assms(1) idle by (cases rule: call_step_cases) auto
  have fut': "rc_future \<tau> c = (if c \<in> set (rc_performed \<tau>) then Some (call_outcome (calls c)) else None)" for c
    using assms(1) fut by (cases rule: call_step_cases) (auto simp: perform_remote_def split: option.splits)
  have ret': "v = call_outcome (calls c) \<and> c \<in> set (rc_performed \<tau>)" if "rc_pc \<tau> c = CallDone v" for c v
    using assms(1) ret fut that by (cases rule: call_step_cases) (fastforce split: if_splits)+
  have "finite {c. rc_pc \<tau> c = CallPosted} \<and>
     unnotified (rc_wake \<tau>) = card {c. rc_pc \<tau> c = CallPosted} + rc_others \<tau>"
    using assms(1)
  proof (cases rule: call_step_cases)
    case (c_post c)
    with posted_upd(1,5) [OF fin] un show ?thesis by simp
  next
    case (c_notify c)
    from posted_upd(3) [OF fin c_notify(2)] have "0 < card {x. rc_pc \<sigma> x = CallPosted}" .
    with c_notify posted_upd(2,5) [OF fin] un show ?thesis by simp
  next
    case c_gate
    with gate_move_step [OF c_gate(2)] fin un show ?thesis by auto
  next
    case (c_get c v)
    with posted_upd(4) [OF fin, of c v] fin un show ?thesis by simp
  qed (use fin un in auto)
  with w ex d' idle' fut' ret' show ?thesis unfolding call_inv_def by blast
qed

lemma call_inv_start:
  assumes "queue_rep (task_queue cx) []" shows "call_inv calls shared (call_start cx)"
  using assms by (auto simp: call_inv_def call_start_def wake_inv_def gate_start_def waiting_in_def intro: gates_refl
      intro!: exI [of _ "[]"])

lemma call_steps_inv: "(call_step cx calls shared)\<^sup>*\<^sup>* \<sigma> \<tau> \<Longrightarrow> call_inv calls shared \<sigma> \<Longrightarrow> call_inv calls shared \<tau>"
  by (induction rule: rtranclp_induct) (auto intro: call_inv_step)

section \<open>The properties\<close>

text \<open>Moves without another post, in which no call is taken back.\<close>

definition moves_on :: "'q ctx \<Rightarrow> (nat \<Rightarrow> 'v remote_call) \<Rightarrow> (u8 list \<Rightarrow> nat option) \<Rightarrow>
    'v call_system \<Rightarrow> 'v call_system \<Rightarrow> bool" where
  "moves_on cx calls shared \<sigma> \<tau> \<longleftrightarrow> (call_step cx calls shared)\<^sup>*\<^sup>* \<sigma> \<tau> \<and> rc_posts \<tau> = rc_posts \<sigma> \<and>
     (\<forall>c. rc_pc \<sigma> c \<noteq> CallIdle \<longrightarrow> rc_pc \<tau> c \<noteq> CallIdle)"

lemma moves_on_refl: "moves_on cx calls shared \<sigma> \<sigma>"
  by (simp add: moves_on_def)

lemma moves_on_trans: "moves_on cx calls shared \<sigma> \<tau> \<Longrightarrow> moves_on cx calls shared \<tau> \<upsilon> \<Longrightarrow> moves_on cx calls shared \<sigma> \<upsilon>"
  by (auto simp: moves_on_def)

lemma moves_on_step: "call_step cx calls shared \<sigma> \<tau> \<Longrightarrow> rc_posts \<tau> = rc_posts \<sigma> \<Longrightarrow>
    (\<And>c. rc_pc \<sigma> c \<noteq> CallIdle \<Longrightarrow> rc_pc \<tau> c \<noteq> CallIdle) \<Longrightarrow> moves_on cx calls shared \<sigma> \<tau>"
  by (auto simp: moves_on_def)

lemma moves_on_inv: "moves_on cx calls shared \<sigma> \<tau> \<Longrightarrow> call_inv calls shared \<sigma> \<Longrightarrow> call_inv calls shared \<tau>"
  by (auto simp: moves_on_def intro: call_steps_inv)

lemma moves_on_gate:
  assumes "gate_move\<^sup>*\<^sup>* (rc_wake \<sigma>) w" shows "moves_on cx calls shared \<sigma> (\<sigma>\<lparr>rc_wake := w\<rparr>)"
  using assms
proof (induction rule: rtranclp_induct)
  case base
  show ?case by (simp add: moves_on_refl)
next
  case (step v w)
  have "call_step cx calls shared (\<sigma>\<lparr>rc_wake := v\<rparr>) (\<sigma>\<lparr>rc_wake := w\<rparr>)"
    using c_gate [of "\<sigma>\<lparr>rc_wake := v\<rparr>" w] step.hyps(2) by simp
  then show ?case by (rule moves_on_trans [OF step.IH moves_on_step]) simp_all
qed

text \<open>With tasks in the queue the strategy gets to its next launch.\<close>

lemma sleeper_gets_up:
  assumes inv: "call_inv calls shared \<sigma>" and ts: "queue_rep (wq (rc_wake \<sigma>)) ts" "ts \<noteq> []"
  shows "\<exists>\<tau>. moves_on cx calls shared \<sigma> \<tau> \<and> waiting_in (sleeper (rc_wake \<tau>)) = {#} \<and>
    wq (rc_wake \<tau>) = wq (rc_wake \<sigma>) \<and> rc_performed \<tau> = rc_performed \<sigma>"
proof -
  have up: ?thesis if m: "moves_on cx calls shared \<sigma> \<rho>" and f: "notified (gate (sleeper (rc_wake \<rho>)))"
    and q: "wq (rc_wake \<rho>) = wq (rc_wake \<sigma>)" "rc_performed \<rho> = rc_performed \<sigma>" for \<rho>
  proof -
    have "wake_inv (rc_wake \<rho>)" using moves_on_inv [OF m inv] by (simp add: call_inv_def)
    from waiter_leaves [OF this f] obtain w where w: "gate_move\<^sup>*\<^sup>* (rc_wake \<rho>) w" "waiting_in (sleeper w) = {#}" by blast
    with moves_on_trans [OF m moves_on_gate [OF w(1)]] gate_moves_steps [OF w(1)] q show ?thesis
      by (intro exI [of _ "\<rho>\<lparr>rc_wake := w\<rparr>"]) simp
  qed
  from inv obtain us where us: "queue_rep (wq (rc_wake \<sigma>)) us"
    "us \<noteq> [] \<longrightarrow> waiting_in (sleeper (rc_wake \<sigma>)) \<noteq> {#} \<longrightarrow> 0 < unnotified (rc_wake \<sigma>) \<or> notified (gate (sleeper (rc_wake \<sigma>)))"
    by (auto simp: call_inv_def wake_inv_def)
  have ne: "us \<noteq> []"
    using task_fifo.deq_rep [OF us(1)] task_fifo.deq_rep [OF ts(1)] ts(2) by (cases ts) auto
  consider "waiting_in (sleeper (rc_wake \<sigma>)) = {#}" | "notified (gate (sleeper (rc_wake \<sigma>)))" | "0 < unnotified (rc_wake \<sigma>)"
    using us(2) ne by argo
  then show ?thesis
  proof cases
    case 1
    with moves_on_refl show ?thesis by blast
  next
    case 2
    with up [OF moves_on_refl] show ?thesis by blast
  next
    case 3
    with inv consider (call) c where "rc_pc \<sigma> c = CallPosted" | (other) m where "rc_others \<sigma> = Suc m"
      unfolding call_inv_def by (cases "rc_others \<sigma>") (fastforce simp: card_gt_0_iff)+
    then show ?thesis
    proof cases
      case (call c)
      show ?thesis by (rule up [OF moves_on_step [OF c_notify [OF call]]]) (auto split: if_splits)
    next
      case (other m)
      show ?thesis by (rule up [OF moves_on_step [OF c_notify_other [OF other]]]) auto
    qed
  qed
qed

text \<open>Each launch takes the oldest task; so a call's task is performed after those before it.\<close>

lemma next_performed:
  assumes inv: "call_inv calls shared \<sigma>" and ts: "queue_rep (wq (rc_wake \<sigma>)) (t # ts)"
  shows "\<exists>\<tau>. moves_on cx calls shared \<sigma> \<tau> \<and> queue_rep (wq (rc_wake \<tau>)) ts \<and>
    rc_performed \<tau> = rc_performed \<sigma> @ calls_queued shared [t]"
proof -
  from sleeper_gets_up [OF inv ts, of cx] obtain \<rho> where r: "moves_on cx calls shared \<sigma> \<rho>"
    "waiting_in (sleeper (rc_wake \<rho>)) = {#}" "wq (rc_wake \<rho>) = wq (rc_wake \<sigma>)" "rc_performed \<rho> = rc_performed \<sigma>" by auto
  from task_fifo.deq_rep [OF ts] obtain q where q: "pop_perform (wq (rc_wake \<sigma>)) = Inr (Some t, q)" "queue_rep q ts"
    by (auto simp: ctq_deq_def split: sum.splits)
  let ?\<tau> = "perform_remote calls shared t (\<rho>\<lparr>rc_wake := (rc_wake \<rho>)\<lparr>wq := q\<rparr>\<rparr>)"
  have "call_step cx calls shared \<rho> ?\<tau>" by (rule c_launch [OF r(2)]) (simp add: r(3) q(1))
  then have "moves_on cx calls shared \<rho> ?\<tau>" by (rule moves_on_step) simp_all
  from moves_on_trans [OF r(1) this] r(4) q(2) show ?thesis by (intro exI [of _ ?\<tau>]) simp
qed

lemma call_performed:
  assumes "call_inv calls shared \<sigma>" and "queue_rep (wq (rc_wake \<sigma>)) ts" and "c \<in> set (calls_queued shared ts)"
  shows "\<exists>\<tau>. moves_on cx calls shared \<sigma> \<tau> \<and> c \<in> set (rc_performed \<tau>)"
  using assms
proof (induction ts arbitrary: \<sigma>)
  case (Cons t ts)
  from next_performed [OF Cons.prems(1,2), of cx] obtain \<rho> where r: "moves_on cx calls shared \<sigma> \<rho>"
    "queue_rep (wq (rc_wake \<rho>)) ts" "rc_performed \<rho> = rc_performed \<sigma> @ calls_queued shared [t]" by blast
  show ?case
  proof (cases "c \<in> set (calls_queued shared [t])")
    case True
    with r show ?thesis by (intro exI [of _ \<rho>]) simp
  next
    case False
    with Cons.prems(3) have "c \<in> set (calls_queued shared ts)" by simp
    from Cons.IH [OF moves_on_inv [OF r(1) Cons.prems(1)] r(2) this] obtain \<tau> where
      "moves_on cx calls shared \<rho> \<tau>" "c \<in> set (rc_performed \<tau>)" by blast
    with moves_on_trans [OF r(1)] show ?thesis by blast
  qed
qed simp

lemma call_fetches:
  assumes inv: "call_inv calls shared \<sigma>" and c: "c \<in> set (rc_performed \<sigma>)"
  shows "\<exists>\<tau>. moves_on cx calls shared \<sigma> \<tau> \<and> rc_pc \<tau> c = CallDone (call_outcome (calls c))"
proof -
  from inv c have f: "rc_future \<sigma> c = Some (call_outcome (calls c))" and n: "rc_pc \<sigma> c \<noteq> CallIdle"
    and v: "\<And>v. rc_pc \<sigma> c = CallDone v \<Longrightarrow> v = call_outcome (calls c)" by (auto simp: call_inv_def)
  have get: ?thesis if m: "moves_on cx calls shared \<sigma> \<rho>" and a: "rc_pc \<rho> c = CallAwaiting" and e: "rc_future \<rho> = rc_future \<sigma>" for \<rho>
  proof -
    let ?\<tau> = "\<rho>\<lparr>rc_pc := (rc_pc \<rho>)(c := CallDone (call_outcome (calls c)))\<rparr>"
    have "call_step cx calls shared \<rho> ?\<tau>" by (rule c_get [OF a]) (simp add: e f)
    then have "moves_on cx calls shared \<rho> ?\<tau>" by (rule moves_on_step) (simp_all split: if_splits)
    from moves_on_trans [OF m this] show ?thesis by (intro exI [of _ ?\<tau>]) simp
  qed
  show ?thesis
  proof (cases "rc_pc \<sigma> c")
    case CallIdle
    with n show ?thesis by simp
  next
    case CallPosted
    show ?thesis by (rule get [OF moves_on_step [OF c_notify [OF CallPosted]]]) (auto split: if_splits)
  next
    case CallAwaiting
    from get [OF moves_on_refl this] show ?thesis by simp
  next
    case (CallDone w)
    with v moves_on_refl show ?thesis by blast
  qed
qed

lemma call_comes_back:
  assumes inv: "call_inv calls shared \<sigma>" and c: "rc_pc \<sigma> c \<noteq> CallIdle"
  shows "\<exists>\<tau>. moves_on cx calls shared \<sigma> \<tau> \<and> rc_pc \<tau> c = CallDone (call_outcome (calls c))"
proof -
  from inv c obtain ts where ts: "queue_rep (wq (rc_wake \<sigma>)) ts" "rc_called \<sigma> = rc_performed \<sigma> @ calls_queued shared ts"
    and "c \<in> set (rc_called \<sigma>)" by (auto simp: call_inv_def)
  then have "c \<in> set (rc_performed \<sigma>) \<or> c \<in> set (calls_queued shared ts)" by simp
  with call_performed [OF inv ts(1)] moves_on_refl obtain \<rho> where r: "moves_on cx calls shared \<sigma> \<rho>" "c \<in> set (rc_performed \<rho>)"
    by blast
  from call_fetches [OF moves_on_inv [OF r(1) inv] r(2)] obtain \<tau> where
    t: "moves_on cx calls shared \<rho> \<tau>" "rc_pc \<tau> c = CallDone (call_outcome (calls c))" by blast
  from moves_on_trans [OF r(1) t(1)] t(2) show ?thesis by blast
qed

text \<open>Claim C8: A remote call returns the result of its own task. In every interleaving of the callers, other
  posting threads and the one strategy of the context (with several, \<open>second_launch_repeats_task\<close> applies), tasks of calls are performed at most once and in the order of their
  pushes, and a caller that has returned has what its own task ended with, performed before.\<close>

theorem remote_call_own_result:
  assumes "(call_step cx calls shared)\<^sup>*\<^sup>* (call_start cx) \<sigma>" and "queue_rep (task_queue cx) []"
  shows "distinct (rc_called \<sigma>) \<and> (\<exists>rest. rc_called \<sigma> = rc_performed \<sigma> @ rest) \<and>
    (\<forall>c v. rc_pc \<sigma> c = CallDone v \<longrightarrow> v = call_outcome (calls c) \<and> c \<in> set (rc_performed \<sigma>))"
  using call_steps_inv [OF assms(1) call_inv_start [OF assms(2)]] by (auto simp: call_inv_def)

text \<open>Claim C7: A remote call to a context with one strategy returns. Whatever the threads have done since the context started, a caller past
  its push can get its result without any further post: the strategy wakes, performs the tasks before the call's
  and then its own, and \<open>get\<close> gives what that task ended with.\<close>

theorem remote_call_returns:
  assumes "(call_step cx calls shared)\<^sup>*\<^sup>* (call_start cx) \<sigma>" and "queue_rep (task_queue cx) []"
    and "rc_pc \<sigma> c \<noteq> CallIdle"
  shows "\<exists>\<tau>. (call_step cx calls shared)\<^sup>*\<^sup>* \<sigma> \<tau> \<and> rc_posts \<tau> = rc_posts \<sigma> \<and>
    rc_pc \<tau> c = CallDone (call_outcome (calls c))"
proof -
  have "call_inv calls shared \<sigma>" by (rule call_steps_inv [OF assms(1) call_inv_start [OF assms(2)]])
  from call_comes_back [OF this assms(3), of cx] show ?thesis unfolding moves_on_def by blast
qed

subsection \<open>A concrete run\<close>

definition one_strategy :: "nat list ctx" where
  "one_strategy = ctx128\<lparr>strategies := [Some 20]\<rparr>"

definition answer_calls :: "nat \<Rightarrow> nat remote_call" where
  "answer_calls c = \<lparr>call_op = [7, 9], call_stack_size = 4096, call_description = [104, 105], call_outcome = 42\<rparr>"

definition answer_shared :: "u8 list \<Rightarrow> nat option" where
  "answer_shared op = (if op = [7, 9] then Some 0 else None)"

lemma one_strategy_simps: "task_queue one_strategy = ctq_new 128 1" "debug one_strategy = DEBUG_ON"
  "strategies one_strategy = [Some 20]"
  by (simp_all add: one_strategy_def ctx128_queue)

lemma one_strategy_empty: "queue_rep (task_queue one_strategy) []"
  unfolding one_strategy_simps by (rule queue_rep_new) simp_all

lemma answer_call_ok: "call_ok one_strategy answer_calls answer_shared 0"
  using task32_facts(1)
  by (simp add: call_ok_def answer_calls_def answer_shared_def remote_task_def one_strategy_simps task32_def)

text \<open>The caller pushes, before it notifies.\<close>

lemma answer_called:
  "\<exists>\<sigma>. call_step one_strategy answer_calls answer_shared (call_start one_strategy) \<sigma> \<and> rc_pc \<sigma> 0 = CallPosted"
proof -
  obtain q where q: "push 1 0 0 task32 (ctq_new 128 1) = Some (Inr q)" using push_task32 [of 0 0] by auto
  have "one_strategy\<lparr>task_queue := wq (rc_wake (call_start one_strategy :: nat call_system))\<rparr> = one_strategy"
    by (simp add: call_start_def)
  then have "context_call 1 0 0 False (\<lambda>cx. (0, cx)) (call_op (answer_calls 0)) (call_stack_size (answer_calls 0))
      (call_description (answer_calls 0)) (one_strategy\<lparr>task_queue := wq (rc_wake (call_start one_strategy :: nat call_system))\<rparr>)
    = Some (Inr (one_strategy\<lparr>task_queue := q\<rparr>, AwaitFuture (Some 20) :: nat called))"
    using q by (simp add: context_call_def postTaskFromRemote_def answer_calls_def task32_def one_strategy_simps
        context_notify_def Let_def)
  from c_post [OF _ answer_call_ok this] show ?thesis by (fastforce simp: call_start_def)
qed

theorem remote_call_own_result_witness:
  "\<exists>\<sigma> v. (call_step one_strategy answer_calls answer_shared)\<^sup>*\<^sup>* (call_start one_strategy) \<sigma> \<and>
     rc_pc \<sigma> 0 = CallDone v \<and> v = 42 \<and> 0 \<in> set (rc_performed \<sigma>)"
proof -
  let ?step = "call_step one_strategy answer_calls answer_shared"
  obtain \<sigma> where s: "?step (call_start one_strategy) \<sigma>" "rc_pc \<sigma> 0 = CallPosted" using answer_called by blast
  have "call_inv answer_calls answer_shared \<sigma>" by (rule call_inv_step [OF s(1) call_inv_start [OF one_strategy_empty]])
  from call_comes_back [OF this, of 0 one_strategy] s(2) obtain \<tau> v where
    t: "?step\<^sup>*\<^sup>* \<sigma> \<tau>" "rc_pc \<tau> 0 = CallDone v" unfolding moves_on_def by auto
  from s(1) t(1) have r: "?step\<^sup>*\<^sup>* (call_start one_strategy) \<tau>" by (rule converse_rtranclp_into_rtranclp)
  from remote_call_own_result [OF r one_strategy_empty] t(2) r show ?thesis by (auto simp: answer_calls_def)
qed

theorem remote_call_returns_witness:
  "\<exists>\<tau>. (call_step one_strategy answer_calls answer_shared)\<^sup>*\<^sup>* (call_start one_strategy) \<tau> \<and> rc_pc \<tau> 0 = CallDone 42"
proof -
  let ?step = "call_step one_strategy answer_calls answer_shared"
  obtain \<sigma> where s: "?step (call_start one_strategy) \<sigma>" "rc_pc \<sigma> 0 = CallPosted" using answer_called by blast
  then have r: "?step\<^sup>*\<^sup>* (call_start one_strategy) \<sigma>" by blast
  from remote_call_returns [OF r one_strategy_empty, of 0] s(2) obtain \<tau> where
    "?step\<^sup>*\<^sup>* \<sigma> \<tau>" "rc_pc \<tau> 0 = CallDone 42" by (auto simp: answer_calls_def)
  with r show ?thesis by (blast intro: rtranclp_trans)
qed

end
