(* ===== verification/NetContext.thy ===== *)
theory NetContext
  imports Context EpollSelector
begin

text \<open>
  \<open>NetContext\<close> (net/NetContext.cpp), a context with an event selector, and
  \<open>MultiplexingContextStrategy\<close> (net/MultiplexingContextStrategy.cpp), whose idle thread waits in the
  selector instead of on a condition variable.

  \<open>_this_thread_context\<close> is a map from threads, as its declaration (\<open>thread_local\<close>) has it. Durations
  are in nanoseconds, the clock's period.
\<close>

section \<open>NetContext\<close>

type_synonym net_slots = "nat \<Rightarrow> nat option"

datatype net_error = SelectorTerminates | OnlyOneContext "epoll_call list" | NoSlot strategy_error

abbreviation (input) SIGUSR2 :: u32 where "SIGUSR2 \<equiv> 12"

text \<open>The constructor, on thread \<open>th\<close>, of the object at \<open>this\<close>; the kernel's answers are those of the
  selector's constructor. When it throws, the selector it made is destroyed.\<close>

definition net_context_new :: "'q schedule \<Rightarrow> u32 \<Rightarrow> nat \<Rightarrow> nat \<Rightarrow> u64 \<Rightarrow> int sysret \<Rightarrow> int sysret \<Rightarrow> unit sysret \<Rightarrow>
    net_slots \<Rightarrow> net_error + ('q ctx \<times> selector \<times> net_slots)" where
  "net_context_new mem cores th this junk epoll_create1 signalfd epoll_ctl slots =
     (let cx = context_new_default mem cores
      in case selector_new SIGUSR2 junk epoll_create1 signalfd epoll_ctl of
           Inl e \<Rightarrow> Inl SelectorTerminates
         | Inr sel \<Rightarrow>
             if slots th \<noteq> None then Inl (OnlyOneContext (selector_delete sel))
             else Inr (cx, sel, slots(th \<mapsto> this)))"

text \<open>The destructor, on thread \<open>th\<close>: the slot of that thread, the selector, then the base class.\<close>

definition net_context_delete :: "nat \<Rightarrow> 'q ctx \<Rightarrow> selector \<Rightarrow> net_slots \<Rightarrow> 'q ctx \<times> epoll_call list \<times> net_slots" where
  "net_context_delete th cx sel slots = (context_delete cx, selector_delete sel, slots(th := None))"

section \<open>MultiplexingContextStrategy\<close>

record multiplexing =
  mux_flag :: blocking_flag
  mux_thread :: nat

definition mux_new :: "'q ready_ops \<Rightarrow> blocking_flag \<Rightarrow> nat \<Rightarrow> int \<Rightarrow> nat \<Rightarrow> nat \<Rightarrow> selector \<Rightarrow> 'q ctx \<Rightarrow>
    net_error + (multiplexing \<times> 'q ctx \<times> epoll_call list)" where
  "mux_new ops flag self pthread_sigmask p h sel cx =
     (case strategy_new ops p h cx of
        Inl e \<Rightarrow> Inl (NoSlot e)
      | Inr cx' \<Rightarrow>
          (case selector_mask self pthread_sigmask sel of
             ((thread, error), calls) \<Rightarrow>
               if error \<noteq> 0 then Inl SelectorTerminates
               else Inr (\<lparr>mux_flag = flag, mux_thread = thread\<rparr>, cx', calls)))"

definition mux_new_default :: "'q ready_ops \<Rightarrow> nat \<Rightarrow> int \<Rightarrow> nat \<Rightarrow> nat \<Rightarrow> selector \<Rightarrow> 'q ctx \<Rightarrow>
    net_error + (multiplexing \<times> 'q ctx \<times> epoll_call list)" where
  "mux_new_default ops self pthread_sigmask p h sel cx = mux_new ops BLOCKING self pthread_sigmask p h sel cx"

text \<open>\<open>duration_cast\<close> to milliseconds rounds towards zero; \<open>count()\<close> is 64 bits wide and the
  variable it is assigned to 32.\<close>

definition to_milliseconds :: "int \<Rightarrow> int" where
  "to_milliseconds d = (if 0 \<le> d then d div 1000000 else - ((- d) div 1000000))"

definition int_of_count :: "int \<Rightarrow> int" where
  "int_of_count n = sint (of_int n :: u32)"

definition mux_timeout :: "blocking_flag \<Rightarrow> bool \<Rightarrow> int \<Rightarrow> int" where
  "mux_timeout flag is_max duration =
     (if flag = POLLING then 0
      else if is_max then - 1
      else (let timeout = int_of_count (to_milliseconds duration) in if timeout < 1 then 1 else timeout))"

text \<open>\<open>onSuspended\<close>, \<open>duration\<close> before the deadline; the kernel's answer depends on the timeout.\<close>

definition mux_suspended :: "(int \<Rightarrow> (u32 \<times> u64) list sysret) \<Rightarrow> bool \<Rightarrow> int \<Rightarrow> multiplexing \<Rightarrow> selector \<Rightarrow>
    selector_error + (selector \<times> epoll_call list)" where
  "mux_suspended epoll_wait is_max duration m sel =
     select (epoll_wait (mux_timeout (mux_flag m) is_max duration)) sel"

definition mux_notified :: "multiplexing \<Rightarrow> selector \<Rightarrow> epoll_call list" where
  "mux_notified m sel = selector_notify (mux_thread m) sel"

text \<open>An idle step of the strategy's thread: launch a posted task, or wait in the selector.\<close>

definition mux_suspend_until :: "(int \<Rightarrow> (u32 \<times> u64) list sysret) \<Rightarrow> nat \<Rightarrow> nat \<Rightarrow> u8 list \<Rightarrow> bool \<Rightarrow> int \<Rightarrow>
    multiplexing \<Rightarrow> selector \<Rightarrow> 'q ctx \<Rightarrow>
    (ring_fail + selector_error) + ('fn action fiber_call list \<times> 'q ctx \<times> selector \<times> epoll_call list)" where
  "mux_suspend_until epoll_wait c p moved is_max duration m sel cx =
     (case suspend_until c p moved is_max cx of
        Inl e \<Rightarrow> Inl (Inl e)
      | Inr (calls, cx', None) \<Rightarrow> Inr (calls, cx', sel, [])
      | Inr (calls, cx', Some mx) \<Rightarrow>
          (case mux_suspended epoll_wait mx duration m sel of
             Inl e \<Rightarrow> Inl (Inr e)
           | Inr (sel', k) \<Rightarrow> Inr (calls, cx', sel', k)))"

text \<open>\<open>run\<close> up to its arrival at the barrier: \<open>Context::run\<close> with this strategy.\<close>

definition net_run_enter :: "'q ready_ops \<Rightarrow> nat \<Rightarrow> nat \<Rightarrow> nat \<Rightarrow> nat \<Rightarrow> int \<Rightarrow> nat \<Rightarrow> nat \<Rightarrow> selector \<Rightarrow>
    thread_stacks \<times> 'q ctx \<Rightarrow> net_error + (arrival \<times> multiplexing \<times> thread_stacks \<times> 'q ctx \<times> epoll_call list)" where
  "net_run_enter ops th this a self pthread_sigmask p h sel sc =
     (case sc of (stacks, cx) \<Rightarrow>
       (case mux_new_default ops self pthread_sigmask p h sel cx of
          Inl e \<Rightarrow> Inl e
        | Inr (m, cx1, calls) \<Rightarrow>
            (case barrier_arrive (cx_barrier cx1) of
               (r, b) \<Rightarrow> Inr (r, m, cs_begin th a this stacks, cx1\<lparr>cx_barrier := b\<rparr>, calls))))"

section \<open>Properties\<close>

lemma int_of_count_le:
  assumes "0 \<le> n" shows "int_of_count n \<le> n"
  using assms by (simp add: int_of_count_def signed_of_int signed_take_bit_int_less_eq_self_iff)

lemma int_of_count_id: "- (2 ^ 31) \<le> n \<Longrightarrow> n < 2 ^ 31 \<Longrightarrow> int_of_count n = n"
  by (simp add: int_of_count_def signed_of_int signed_take_bit_int_eq_self)

lemma int_of_count_far: "- (2 ^ 32) < n \<Longrightarrow> n < - (2 ^ 31) \<Longrightarrow> int_of_count n = n + 2 ^ 32"
proof -
  assume n: "- (2 ^ 32) < n" "n < - (2 ^ 31)"
  have "(of_int n :: u32) = of_int (n + 2 ^ 32)" by simp
  then have "int_of_count n = int_of_count (n + 2 ^ 32)" unfolding int_of_count_def by (rule arg_cong)
  then show ?thesis using int_of_count_id [of "n + 2 ^ 32"] n by simp
qed

text \<open>Claim C36: The timeout of the wait. Only \<open>time_point::max()\<close> waits without limit and only a
  polling strategy does not wait. For a deadline that has not passed (\<open>0 \<le> d\<close>) the wait ends at
  most a millisecond after it. For a deadline less than \<open>2^31\<close> milliseconds (24.8 days) away or
  passed, the timeout is the number of milliseconds to it rounded down, and at least one. Beyond
  that the count is cut to 32 bits: a deadline passed by \<open>2^31 + k\<close> milliseconds makes the thread
  wait \<open>2^31 - k\<close> of them, and one \<open>2^32\<close> milliseconds away makes it wait one.\<close>

theorem mux_timeout_bounds:
  "(mux_timeout flag is_max d = - 1 \<longleftrightarrow> flag = BLOCKING \<and> is_max)
    \<and> (mux_timeout flag is_max d = 0 \<longleftrightarrow> flag = POLLING)
    \<and> (0 \<le> d \<longrightarrow> mux_timeout flag is_max d * 1000000 \<le> max 1000000 d)
    \<and> (flag = BLOCKING \<and> \<not> is_max \<and> - (2 ^ 31 * 1000000) \<le> d \<and> d < 2 ^ 31 * 1000000 \<longrightarrow>
        mux_timeout flag is_max d = max 1 (d div 1000000))
    \<and> (flag = BLOCKING \<and> \<not> is_max \<and> 0 < k \<and> k < 2 ^ 31 \<and> d = - ((2 ^ 31 + k) * 1000000) \<longrightarrow>
        mux_timeout flag is_max d = 2 ^ 31 - k)
    \<and> (flag = BLOCKING \<and> \<not> is_max \<and> d = 2 ^ 32 * 1000000 \<longrightarrow> mux_timeout flag is_max d = 1)"
proof (intro conjI)
  show "mux_timeout flag is_max d = - 1 \<longleftrightarrow> flag = BLOCKING \<and> is_max"
    and "mux_timeout flag is_max d = 0 \<longleftrightarrow> flag = POLLING"
    by (cases flag; auto simp: mux_timeout_def Let_def)+
  show "0 \<le> d \<longrightarrow> mux_timeout flag is_max d * 1000000 \<le> max 1000000 d"
  proof
    assume d: "0 \<le> d"
    have "int_of_count (d div 1000000) * 1000000 \<le> d"
      using int_of_count_le [of "d div 1000000"] d by linarith
    then show "mux_timeout flag is_max d * 1000000 \<le> max 1000000 d"
      using d by (auto simp: mux_timeout_def to_milliseconds_def Let_def max_def)
  qed
  show "flag = BLOCKING \<and> \<not> is_max \<and> - (2 ^ 31 * 1000000) \<le> d \<and> d < 2 ^ 31 * 1000000 \<longrightarrow>
        mux_timeout flag is_max d = max 1 (d div 1000000)"
  proof (intro impI, elim conjE)
    assume h: "flag = BLOCKING" "\<not> is_max" "- (2 ^ 31 * 1000000) \<le> d" "d < 2 ^ 31 * 1000000"
    have "int_of_count (to_milliseconds d) = to_milliseconds d"
      by (rule int_of_count_id) (use h(3,4) in \<open>auto simp: to_milliseconds_def\<close>)
    moreover have "d div 1000000 < 1" "to_milliseconds d < 1" if "d < 0"
      using that by (auto simp: to_milliseconds_def pos_imp_zdiv_nonneg_iff)
    ultimately show "mux_timeout flag is_max d = max 1 (d div 1000000)"
      using h(1,2) by (cases "0 \<le> d") (auto simp: mux_timeout_def to_milliseconds_def max_def Let_def)
  qed
  show "flag = BLOCKING \<and> \<not> is_max \<and> 0 < k \<and> k < 2 ^ 31 \<and> d = - ((2 ^ 31 + k) * 1000000) \<longrightarrow>
        mux_timeout flag is_max d = 2 ^ 31 - k"
  proof (intro impI, elim conjE)
    assume h: "flag = BLOCKING" "\<not> is_max" "0 < k" "k < 2 ^ 31" "d = - ((2 ^ 31 + k) * 1000000)"
    have "to_milliseconds d = - (2 ^ 31 + k)" using h(3,5) by (simp add: to_milliseconds_def)
    moreover have "int_of_count (- (2 ^ 31 + k)) = 2 ^ 31 - k"
      using int_of_count_far [of "- (2 ^ 31 + k)"] h(3,4) by simp
    ultimately show "mux_timeout flag is_max d = 2 ^ 31 - k"
      using h(1,2,4) by (simp add: mux_timeout_def Let_def)
  qed
  show "flag = BLOCKING \<and> \<not> is_max \<and> d = 2 ^ 32 * 1000000 \<longrightarrow> mux_timeout flag is_max d = 1"
    by (auto simp: mux_timeout_def to_milliseconds_def int_of_count_def Let_def)
qed

theorem mux_timeout_bounds_witness: "mux_timeout BLOCKING False 2500000 = 2"
  using mux_timeout_bounds [of BLOCKING False 2500000 0] by simp

text \<open>One network context per thread. While a thread has one, constructing another there fails and
  destroys the selector it made; on a thread that has none it succeeds with the
  kernel's consent; destroying it makes room on the destroying thread.\<close>

theorem one_net_context_per_thread:
  assumes "selector_new SIGUSR2 junk e f g = Inr sel"
  shows "net_context_new mem cores th this junk e f g slots =
      (if slots th = None then Inr (context_new_default mem cores, sel, slots(th \<mapsto> this))
       else Inl (OnlyOneContext (selector_delete sel)))
    \<and> (net_context_delete th' cx sel' slots = (cx', calls, slots') \<longrightarrow>
        cx_done cx' \<and> slots' th' = None \<and> (\<forall>t. t \<noteq> th' \<longrightarrow> slots' t = slots t) \<and> calls = selector_delete sel')"
  using assms
  by (auto simp: net_context_new_def net_context_delete_def context_delete_def terminate_section_def Let_def)

theorem one_net_context_per_thread_witness:
  "net_context_new two_strategies 4 7 1000 0 (Ret 3) (Ret 4) (Ret ()) [7 \<mapsto> 500]
     = Inl (OnlyOneContext (selector_delete (the (case selector_new SIGUSR2 0 (Ret 3) (Ret 4) (Ret ()) of
         Inl e \<Rightarrow> None | Inr s \<Rightarrow> Some s))))"
proof -
  obtain sel where sel: "selector_new SIGUSR2 0 (Ret 3) (Ret 4) (Ret ()) = Inr sel"
    by (simp add: selector_new_def initEpollFd_def initSignalFd_def Let_def)
  from one_net_context_per_thread [OF sel, of two_strategies 4 7 1000 "[7 \<mapsto> 500]", THEN conjunct1] sel show ?thesis by simp
qed

text \<open>An idle network thread never waits on the kernel while a posted task is in the queue: its
  \<open>suspend_until\<close> launches the oldest task and makes no system call; with an empty queue it makes one
  wait, with the timeout of its deadline, and delivers what the kernel reports.\<close>

theorem mux_idle_step:
  "(queue_rep (task_queue cx) (t # ts) \<longrightarrow>
      (\<exists>a cx'. mux_suspend_until epoll_wait c p moved is_max d m sel cx =
         Inr (launch_calls c p a t :: 'fn action fiber_call list, cx', sel, [])))
    \<and> (queue_rep (task_queue cx) [] \<longrightarrow>
      (\<exists>q. queue_rep q [] \<and> mux_suspend_until epoll_wait c p moved is_max d m sel cx =
         (case select (epoll_wait (mux_timeout (mux_flag m) is_max d)) sel of
            Inl e \<Rightarrow> Inl (Inr e)
          | Inr (sel', k) \<Rightarrow> Inr ([] :: 'fn action fiber_call list, cx\<lparr>task_queue := q\<rparr>, sel', k))))"
proof (intro conjI impI)
  assume "queue_rep (task_queue cx) (t # ts)"
  from launch_oldest [OF this, of c p moved, where 'fn = 'fn] show
    "\<exists>a cx'. mux_suspend_until epoll_wait c p moved is_max d m sel cx =
       Inr (launch_calls c p a t :: 'fn action fiber_call list, cx', sel, [])"
    by (auto simp: mux_suspend_until_def suspend_until_def)
next
  assume "queue_rep (task_queue cx) []"
  from launch_none [OF this, of c p moved] obtain q where
    q: "launchPostedTask c p moved cx = Inr (0, [] :: 'fn action fiber_call list, cx\<lparr>task_queue := q\<rparr>)" "queue_rep q []"
    by blast
  show "\<exists>q. queue_rep q [] \<and> mux_suspend_until epoll_wait c p moved is_max d m sel cx =
         (case select (epoll_wait (mux_timeout (mux_flag m) is_max d)) sel of
            Inl e \<Rightarrow> Inl (Inr e)
          | Inr (sel', k) \<Rightarrow> Inr ([] :: 'fn action fiber_call list, cx\<lparr>task_queue := q\<rparr>, sel', k))"
    using q by (intro exI [of _ q]) (simp add: mux_suspend_until_def suspend_until_def mux_suspended_def)
qed

theorem mux_idle_step_witness:
  "\<exists>a cx cx'. mux_suspend_until (\<lambda>_. Ret []) 5 6 [] True 0 \<lparr>mux_flag = BLOCKING, mux_thread = 0\<rparr> empty_selector
     (cx :: nat list ctx) = Inr (launch_calls 5 6 a task32 :: unit action fiber_call list, cx', empty_selector, [])"
proof -
  obtain cx :: "nat list ctx" where "queue_rep (task_queue cx) [task32]" using ctx128_post by blast
  with mux_idle_step [of cx task32 "[]" "\<lambda>_. Ret []" 5 6 "[]" True 0 "\<lparr>mux_flag = BLOCKING, mux_thread = 0\<rparr>" empty_selector]
  show ?thesis by blast
qed

end
