(* ===== verification/NetWake.thy ===== *)
theory NetWake
  imports NetContext RemoteCall
begin

text \<open>
  Posting to a sleeping network context: \<open>NetContext\<close> with its \<open>MultiplexingContextStrategy\<close>, whose
  thread waits in \<open>epoll_wait\<close> and is notified by a signal that it reads from a signal descriptor
  (net/MultiplexingContextStrategy.cpp, \<open>mask\<close>, \<open>notify\<close> and \<open>select\<close> of net/detail/linux/EpollSelector.cpp).
  The descriptor is edge-triggered and a signal that is pending already is not queued again, so whether a
  notification can be missed depends on the order of the strategy's wait, its read and its look at the task queue.
  Pushes, launches and the handling of an answer are one step each.
\<close>

section \<open>The kernel\<close>

text \<open>
  What the program asks of the kernel: system calls, the answers \<open>epoll_wait\<close> may give with a
  timeout (none: it goes on waiting), and what happens without the program's doing. \<open>kn_pending\<close>: the
  signal is pending for the strategy's thread. \<open>kn_edge\<close>: the signal descriptor has become readable since
  it was last reported. \<open>kn_data\<close>: the data words events may carry.
\<close>

record 'k net_kernel =
  kn_call :: "epoll_call \<Rightarrow> 'k \<Rightarrow> 'k"
  kn_answer :: "int \<Rightarrow> int \<Rightarrow> 'k \<Rightarrow> (u32 \<times> u64) list sysret \<times> 'k \<Rightarrow> bool"
  kn_other :: "'k \<Rightarrow> 'k \<Rightarrow> bool"
  kn_pending :: "'k \<Rightarrow> bool"
  kn_edge :: "'k \<Rightarrow> bool"
  kn_data :: "'k \<Rightarrow> u64 set"

definition signal_event :: "selector \<Rightarrow> (u32 \<times> u64) list sysret \<Rightarrow> bool" where
  "signal_event sel r = (case r of Ret evs \<Rightarrow> \<exists>(e, x) \<in> set evs. data_fd x = signal_fd sel | Fail _ \<Rightarrow> False)"

text \<open>The words of an answer are words of the kernel's, at most as many as there is room for.\<close>

definition answers_within :: "u64 set \<Rightarrow> (u32 \<times> u64) list sysret \<Rightarrow> bool" where
  "answers_within D r = (case r of Ret evs \<Rightarrow> length evs \<le> EPOLL_EVENTS_MAX \<and> snd ` set evs \<subseteq> D | Fail _ \<Rightarrow> True)"

text \<open>Nothing is signalled, no edge is lost, no word is added.\<close>

definition calm :: "'k net_kernel \<Rightarrow> 'k \<Rightarrow> 'k \<Rightarrow> bool" where
  "calm K k k' \<longleftrightarrow> (kn_pending K k' \<longrightarrow> kn_pending K k) \<and> (kn_edge K k \<longrightarrow> kn_edge K k') \<and> kn_data K k' \<subseteq> kn_data K k"

text \<open>
  What signal(7), signalfd(2) and epoll(7) say of a thread that has blocked the signal (\<open>selector_mask\<close>,
  in the constructor of the strategy): a signal sent is pending, and makes the descriptor newly
  readable unless it was pending before; a read takes it; a wait that ends reports an edge or leaves it; a wait does
  not go on for ever while there is an edge; events carry words that were registered; nothing else takes the
  thread's signal or an edge, as long as the signal descriptor is not deregistered.
\<close>

definition signal_laws :: "'k net_kernel \<Rightarrow> nat \<Rightarrow> selector \<Rightarrow> bool" where
  "signal_laws K th sel \<longleftrightarrow>
     (\<forall>k. let k' = kn_call K (KillThread th (sel_signal sel)) k
          in kn_pending K k' \<and> (kn_edge K k \<or> \<not> kn_pending K k \<longrightarrow> kn_edge K k') \<and> kn_data K k' \<subseteq> kn_data K k) \<and>
     (\<forall>k. let k' = kn_call K (ReadSignal (signal_fd sel)) k in \<not> kn_pending K k' \<and> kn_data K k' \<subseteq> kn_data K k) \<and>
     (\<forall>k e fd events x. let k' = kn_call K (EpollAdd e fd events x) k
          in (kn_pending K k' \<longrightarrow> kn_pending K k) \<and> (kn_edge K k \<longrightarrow> kn_edge K k') \<and> kn_data K k' \<subseteq> insert x (kn_data K k)) \<and>
     (\<forall>k e fd. fd \<noteq> signal_fd sel \<longrightarrow> calm K k (kn_call K (EpollDel e fd) k)) \<and>
     (\<forall>k k'. kn_other K k k' \<longrightarrow> calm K k k') \<and>
     (\<forall>timeout k r k'. kn_answer K (epoll_fd sel) timeout k (r, k') \<longrightarrow>
        (kn_pending K k' \<longrightarrow> kn_pending K k) \<and> (kn_edge K k \<longrightarrow> kn_edge K k' \<or> signal_event sel r) \<and>
        kn_data K k' \<subseteq> kn_data K k \<and> answers_within (kn_data K k) r) \<and>
     (\<forall>timeout k. kn_edge K k \<longrightarrow> (\<exists>r. kn_answer K (epoll_fd sel) timeout k r))"

section \<open>The posters and the strategy\<close>

text \<open>The strategy's thread runs fibers and looks for posted tasks, waits with a timeout, or has an answer
  that it has not handled yet.\<close>

datatype net_pc = NetRunning | NetWaiting int | NetAnswered "(u32 \<times> u64) list sysret"

record ('q, 'k) net_wake =
  nw_ctx :: "'q ctx"
  nw_sel :: selector
  nw_kernel :: 'k
  nw_pc :: net_pc
  nw_unnotified :: nat
  nw_posts :: nat

text \<open>
  The steps: a post from another thread up to its push, its notification, the launch of a task
  and its fiber, the strategy's way into the wait, the end of the wait, the handling of the answer, what
  operations on network objects do with the selector (they register an object, deregister one, whose descriptor
  is not the signal descriptor, and leave any value on a semaphore), and the kernel's own moves. \<open>fn\<close> only fixes the type of the handlers of local fibers.
\<close>

inductive net_step :: "'k net_kernel \<Rightarrow> multiplexing \<Rightarrow> 'fn itself \<Rightarrow> ('q, 'k) net_wake \<Rightarrow> ('q, 'k) net_wake \<Rightarrow> bool"
    for K m fn where
  n_post: "task_ok (remote_task (nw_ctx \<sigma>) op ss d) \<Longrightarrow>
     postTaskFromRemote n k th op ss d (nw_ctx \<sigma>) = Some (Inr (cx', Some s)) \<Longrightarrow>
     net_step K m fn \<sigma> (\<sigma>\<lparr>nw_ctx := cx', nw_unnotified := nw_unnotified \<sigma> + 1, nw_posts := nw_posts \<sigma> + 1\<rparr>)"
| n_notify: "nw_unnotified \<sigma> = Suc j \<Longrightarrow>
     net_step K m fn \<sigma> (\<sigma>\<lparr>nw_unnotified := j, nw_kernel := fold (kn_call K) (mux_notified m (nw_sel \<sigma>)) (nw_kernel \<sigma>)\<rparr>)"
| n_launch: "nw_pc \<sigma> = NetRunning \<Longrightarrow> pop_perform (task_queue (nw_ctx \<sigma>)) = Inr (Some t, q) \<Longrightarrow>
     net_step K m fn \<sigma> (\<sigma>\<lparr>nw_ctx := (nw_ctx \<sigma>)\<lparr>task_queue := q\<rparr>\<rparr>)"
| n_suspend: "nw_pc \<sigma> = NetRunning \<Longrightarrow>
     suspend_until c p moved is_max (nw_ctx \<sigma>) = Inr (calls :: 'fn action fiber_call list, cx', Some mx) \<Longrightarrow>
     net_step K m fn \<sigma> (\<sigma>\<lparr>nw_ctx := cx', nw_pc := NetWaiting (mux_timeout (mux_flag m) mx duration)\<rparr>)"
| n_return: "nw_pc \<sigma> = NetWaiting timeout \<Longrightarrow> kn_answer K (epoll_fd (nw_sel \<sigma>)) timeout (nw_kernel \<sigma>) (r, k') \<Longrightarrow>
     net_step K m fn \<sigma> (\<sigma>\<lparr>nw_pc := NetAnswered r, nw_kernel := k'\<rparr>)"
| n_deliver: "nw_pc \<sigma> = NetAnswered r \<Longrightarrow> select r (nw_sel \<sigma>) = Inr (sel', requests) \<Longrightarrow>
     net_step K m fn \<sigma> (\<sigma>\<lparr>nw_pc := NetRunning, nw_sel := sel', nw_kernel := fold (kn_call K) requests (nw_kernel \<sigma>)\<rparr>)"
| n_register: "registerObject a junk reply fd (nw_sel \<sigma>) = (res, sel', requests) \<Longrightarrow>
     net_step K m fn \<sigma> (\<sigma>\<lparr>nw_sel := sel', nw_kernel := fold (kn_call K) requests (nw_kernel \<sigma>)\<rparr>)"
| n_deregister: "notifiers (nw_sel \<sigma>) a = Some n \<Longrightarrow> n_descriptor n \<noteq> signal_fd (nw_sel \<sigma>) \<Longrightarrow>
     deregisterObject (Some a) (nw_sel \<sigma>) = (sel', requests) \<Longrightarrow>
     net_step K m fn \<sigma> (\<sigma>\<lparr>nw_sel := sel', nw_kernel := fold (kn_call K) requests (nw_kernel \<sigma>)\<rparr>)"
| n_use: "net_step K m fn \<sigma> (\<sigma>\<lparr>nw_sel := set_sem a ev x (nw_sel \<sigma>)\<rparr>)"
| n_other: "kn_other K (nw_kernel \<sigma>) k' \<Longrightarrow> net_step K m fn \<sigma> (\<sigma>\<lparr>nw_kernel := k'\<rparr>)"

inductive_cases net_step_cases [consumes 1,
    case_names n_post n_notify n_launch n_suspend n_return n_deliver n_register n_deregister n_use n_other]: "net_step K m fn \<sigma> \<tau>"

definition net_start :: "'q ctx \<Rightarrow> selector \<Rightarrow> 'k \<Rightarrow> ('q, 'k) net_wake" where
  "net_start cx sel k = \<lparr>nw_ctx = cx, nw_sel = sel, nw_kernel = k, nw_pc = NetRunning, nw_unnotified = 0, nw_posts = 0\<rparr>"

section \<open>The invariant\<close>

text \<open>A word the selector can be given.\<close>

definition known :: "selector \<Rightarrow> u64 set" where
  "known sel = {x. data_fd x = signal_fd sel \<or> x = 0 \<or> notifiers sel x \<noteq> None}"

text \<open>A pending signal is one the next wait reports or the answer in hand reports; while the strategy is past its
  last look at the queue, a task in the queue has its notification to come or an edge.\<close>

definition net_wake_inv :: "'k net_kernel \<Rightarrow> selector \<Rightarrow> ('q, 'k) net_wake \<Rightarrow> bool" where
  "net_wake_inv K sel \<sigma> \<longleftrightarrow>
     epoll_fd (nw_sel \<sigma>) = epoll_fd sel \<and> signal_fd (nw_sel \<sigma>) = signal_fd sel \<and> sel_signal (nw_sel \<sigma>) = sel_signal sel \<and>
     kn_data K (nw_kernel \<sigma>) \<subseteq> known (nw_sel \<sigma>) \<and>
     (\<forall>r. nw_pc \<sigma> = NetAnswered r \<longrightarrow> answers_within (known (nw_sel \<sigma>)) r) \<and>
     (kn_pending K (nw_kernel \<sigma>) \<longrightarrow> kn_edge K (nw_kernel \<sigma>) \<or> (\<exists>r. nw_pc \<sigma> = NetAnswered r \<and> signal_event sel r)) \<and>
     (\<exists>ts. queue_rep (task_queue (nw_ctx \<sigma>)) ts \<and>
        (ts \<noteq> [] \<longrightarrow> (\<exists>timeout. nw_pc \<sigma> = NetWaiting timeout) \<longrightarrow> 0 < nw_unnotified \<sigma> \<or> kn_edge K (nw_kernel \<sigma>)))"

lemma signal_event_cong: "signal_fd sel' = signal_fd sel \<Longrightarrow> signal_event sel' r = signal_event sel r"
  by (simp add: signal_event_def split: sysret.splits)

lemma answers_within_mono: "answers_within D r \<Longrightarrow> D \<subseteq> E \<Longrightarrow> answers_within E r"
  by (auto simp: answers_within_def split: sysret.splits)

lemma signal_lawsD:
  assumes "signal_laws K th sel"
  shows kill_law: "kn_pending K (kn_call K (KillThread th (sel_signal sel)) k)"
      "kn_edge K k \<or> \<not> kn_pending K k \<Longrightarrow> kn_edge K (kn_call K (KillThread th (sel_signal sel)) k)"
      "kn_data K (kn_call K (KillThread th (sel_signal sel)) k) \<subseteq> kn_data K k"
    and read_law: "\<not> kn_pending K (kn_call K (ReadSignal (signal_fd sel)) k)"
      "kn_data K (kn_call K (ReadSignal (signal_fd sel)) k) \<subseteq> kn_data K k"
    and add_law: "kn_pending K (kn_call K (EpollAdd e fd events x) k) \<Longrightarrow> kn_pending K k"
      "kn_edge K k \<Longrightarrow> kn_edge K (kn_call K (EpollAdd e fd events x) k)"
      "kn_data K (kn_call K (EpollAdd e fd events x) k) \<subseteq> insert x (kn_data K k)"
    and del_law: "fd \<noteq> signal_fd sel \<Longrightarrow> calm K k (kn_call K (EpollDel e fd) k)"
    and other_law: "kn_other K k k' \<Longrightarrow> calm K k k'"
    and answer_law: "kn_answer K (epoll_fd sel) timeout k (r, k') \<Longrightarrow> kn_pending K k' \<Longrightarrow> kn_pending K k"
      "kn_answer K (epoll_fd sel) timeout k (r, k') \<Longrightarrow> kn_edge K k \<Longrightarrow> kn_edge K k' \<or> signal_event sel r"
      "kn_answer K (epoll_fd sel) timeout k (r, k') \<Longrightarrow> kn_data K k' \<subseteq> kn_data K k"
      "kn_answer K (epoll_fd sel) timeout k (r, k') \<Longrightarrow> answers_within (kn_data K k) r"
    and ends_law: "kn_edge K k \<Longrightarrow> \<exists>r k'. kn_answer K (epoll_fd sel) timeout k (r, k')"
proof -
  note L = assms [unfolded signal_laws_def Let_def]
  note kill = L [THEN conjunct1] and L1 = L [THEN conjunct2]
  note read = L1 [THEN conjunct1] and L2 = L1 [THEN conjunct2]
  note add = L2 [THEN conjunct1] and L3 = L2 [THEN conjunct2]
  note del = L3 [THEN conjunct1] and L4 = L3 [THEN conjunct2]
  note other = L4 [THEN conjunct1] and L5 = L4 [THEN conjunct2]
  note answer = L5 [THEN conjunct1] and ends = L5 [THEN conjunct2]
  show "kn_pending K (kn_call K (KillThread th (sel_signal sel)) k)"
    "kn_edge K k \<or> \<not> kn_pending K k \<Longrightarrow> kn_edge K (kn_call K (KillThread th (sel_signal sel)) k)"
    "kn_data K (kn_call K (KillThread th (sel_signal sel)) k) \<subseteq> kn_data K k" using kill by blast+
  show "\<not> kn_pending K (kn_call K (ReadSignal (signal_fd sel)) k)"
    "kn_data K (kn_call K (ReadSignal (signal_fd sel)) k) \<subseteq> kn_data K k" using read by simp_all
  show "kn_pending K (kn_call K (EpollAdd e fd events x) k) \<Longrightarrow> kn_pending K k"
    "kn_edge K k \<Longrightarrow> kn_edge K (kn_call K (EpollAdd e fd events x) k)"
    "kn_data K (kn_call K (EpollAdd e fd events x) k) \<subseteq> insert x (kn_data K k)" using add by simp_all
  show "fd \<noteq> signal_fd sel \<Longrightarrow> calm K k (kn_call K (EpollDel e fd) k)" using del by simp
  show "kn_other K k k' \<Longrightarrow> calm K k k'" using other by simp
  show "kn_answer K (epoll_fd sel) timeout k (r, k') \<Longrightarrow> kn_pending K k' \<Longrightarrow> kn_pending K k"
    "kn_answer K (epoll_fd sel) timeout k (r, k') \<Longrightarrow> kn_edge K k \<Longrightarrow> kn_edge K k' \<or> signal_event sel r"
    "kn_answer K (epoll_fd sel) timeout k (r, k') \<Longrightarrow> kn_data K k' \<subseteq> kn_data K k"
    "kn_answer K (epoll_fd sel) timeout k (r, k') \<Longrightarrow> answers_within (kn_data K k) r" using answer by blast+
  show "kn_edge K k \<Longrightarrow> \<exists>r k'. kn_answer K (epoll_fd sel) timeout k (r, k')" using ends by simp
qed

text \<open>\<open>select\<close> handles an answer without a fault, reads the signal if it is reported, and asks nothing else.\<close>

definition same_setup :: "selector \<Rightarrow> selector \<Rightarrow> bool" where
  "same_setup s s' \<longleftrightarrow> epoll_fd s' = epoll_fd s \<and> signal_fd s' = signal_fd s \<and> sel_signal s' = sel_signal s \<and> known s \<subseteq> known s'"

lemma select_loop_asks:
  assumes "snd ` set evs \<subseteq> known s"
  shows "\<exists>s' n. select_loop evs s = Inr (s', replicate n (ReadSignal (signal_fd s))) \<and>
    (0 < n \<longleftrightarrow> (\<exists>(e, x) \<in> set evs. data_fd x = signal_fd s)) \<and> same_setup s s'"
  using assms
proof (induction evs arbitrary: s)
  case Nil
  then show ?case by (intro exI [of _ s] exI [of _ 0]) (simp add: same_setup_def)
next
  case (Cons ex evs)
  obtain e x where ex: "ex = (e, x)" by (cases ex)
  consider (signal) "data_fd x = signal_fd s" | (null) "data_fd x \<noteq> signal_fd s" "x = 0"
    | (object) n where "data_fd x \<noteq> signal_fd s" "x \<noteq> 0" "notifiers s x = Some n"
    using Cons.prems ex by (auto simp: known_def)
  then show ?case
  proof cases
    case signal
    from Cons.IH [of s] Cons.prems obtain s' n where
      "select_loop evs s = Inr (s', replicate n (ReadSignal (signal_fd s)))" "same_setup s s'" by auto
    with ex signal show ?thesis by (intro exI [of _ s'] exI [of _ "Suc n"]) simp
  next
    case null
    from Cons.IH [of s] Cons.prems null ex show ?thesis by auto
  next
    case (object n)
    let ?s = "s\<lparr>notifiers := (notifiers s)(x \<mapsto> deliver e n)\<rparr>"
    have k: "same_setup s ?s" by (auto simp: same_setup_def known_def)
    with Cons.prems have "snd ` set evs \<subseteq> known ?s" by (auto simp: same_setup_def)
    from Cons.IH [OF this] k object ex show ?thesis by (auto simp: same_setup_def)
  qed
qed

lemma select_asks:
  assumes "answers_within (known s) r"
  shows "\<exists>s' n. select r s = Inr (s', replicate n (ReadSignal (signal_fd s))) \<and> (0 < n \<longleftrightarrow> signal_event s r) \<and> same_setup s s'"
proof (cases r)
  case (Ret evs)
  with select_loop_asks [of evs s] assms show ?thesis by (simp add: select_def answers_within_def signal_event_def)
next
  case (Fail e)
  then show ?thesis by (intro exI [of _ s] exI [of _ 0]) (simp add: select_def signal_event_def same_setup_def)
qed

lemma reads_clear:
  assumes "signal_laws K th sel"
  shows "(0 < n \<longrightarrow> \<not> kn_pending K (fold (kn_call K) (replicate n (ReadSignal (signal_fd sel))) k)) \<and>
    kn_data K (fold (kn_call K) (replicate n (ReadSignal (signal_fd sel))) k) \<subseteq> kn_data K k"
proof (induction n arbitrary: k)
  case (Suc n)
  show ?case using Suc [of "kn_call K (ReadSignal (signal_fd sel)) k"] read_law [OF assms, of k] by (cases n) auto
qed simp

text \<open>What operations on network objects do with the selector.\<close>

lemma register_setup:
  assumes "registerObject a junk reply fd s = (res, s', requests)"
  shows "same_setup s s' \<and> a \<in> known s' \<and> (\<exists>e events. requests = [EpollAdd e fd events a])"
  using assms
  by (cases reply; cases "notifiers s a"; cases "a = 0";
      auto simp: registerObject_def set_descriptor_def allocateNotifier_def freeNotifier_def same_setup_def known_def Let_def
        split: if_splits)

lemma deregister_setup:
  assumes "deregisterObject (Some a) s = (s', requests)" and "notifiers s a = Some n"
  shows "same_setup s s' \<and> requests = [EpollDel (epoll_fd s) (n_descriptor n)]"
  using assms
  by (cases "a = 0"; clarsimp simp: deregisterObject_def set_descriptor_def freeNotifier_def same_setup_def known_def Let_def)

lemma set_sem_setup: "same_setup s (set_sem a ev x s)"
  by (auto simp: set_sem_def same_setup_def known_def)

lemma net_wake_invE:
  assumes "net_wake_inv K sel \<sigma>"
  obtains ts where "epoll_fd (nw_sel \<sigma>) = epoll_fd sel" "signal_fd (nw_sel \<sigma>) = signal_fd sel"
    "sel_signal (nw_sel \<sigma>) = sel_signal sel" "kn_data K (nw_kernel \<sigma>) \<subseteq> known (nw_sel \<sigma>)"
    "\<And>r. nw_pc \<sigma> = NetAnswered r \<Longrightarrow> answers_within (known (nw_sel \<sigma>)) r"
    "kn_pending K (nw_kernel \<sigma>) \<Longrightarrow> kn_edge K (nw_kernel \<sigma>) \<or> (\<exists>r. nw_pc \<sigma> = NetAnswered r \<and> signal_event sel r)"
    "queue_rep (task_queue (nw_ctx \<sigma>)) ts"
    "\<And>timeout. ts \<noteq> [] \<Longrightarrow> nw_pc \<sigma> = NetWaiting timeout \<Longrightarrow> 0 < nw_unnotified \<sigma> \<or> kn_edge K (nw_kernel \<sigma>)"
  using assms unfolding net_wake_inv_def by blast

text \<open>The steps one by one: a change of the selector, a notification, the way into the wait, its end, and the
  handling of its answer.\<close>

lemma inv_selector:
  assumes "net_wake_inv K sel \<sigma>" and "same_setup (nw_sel \<sigma>) s'"
    and "kn_pending K k' \<longrightarrow> kn_pending K (nw_kernel \<sigma>)" and "kn_edge K (nw_kernel \<sigma>) \<longrightarrow> kn_edge K k'"
    and "kn_data K k' \<subseteq> known s'"
  shows "net_wake_inv K sel (\<sigma>\<lparr>nw_sel := s', nw_kernel := k'\<rparr>)"
proof -
  have "answers_within (known s') r" if "answers_within (known (nw_sel \<sigma>)) r" for r
    using answers_within_mono [OF that] assms(2) by (simp add: same_setup_def)
  with assms(1) show ?thesis
    by (elim net_wake_invE) (use assms(2-5) in \<open>auto simp: net_wake_inv_def same_setup_def\<close>)
qed

lemma inv_notify:
  assumes "net_wake_inv K sel \<sigma>" and laws: "signal_laws K (mux_thread m) sel"
  shows "net_wake_inv K sel (\<sigma>\<lparr>nw_unnotified := j, nw_kernel := fold (kn_call K) (mux_notified m (nw_sel \<sigma>)) (nw_kernel \<sigma>)\<rparr>)
    \<and> (nw_pc \<sigma> = NetWaiting timeout \<longrightarrow> kn_edge K (fold (kn_call K) (mux_notified m (nw_sel \<sigma>)) (nw_kernel \<sigma>)))"
  using assms(1)
proof (cases rule: net_wake_invE)
  case (1 ts)
  let ?k' = "kn_call K (KillThread (mux_thread m) (sel_signal sel)) (nw_kernel \<sigma>)"
  have "kn_edge K ?k' \<or> (\<exists>r. nw_pc \<sigma> = NetAnswered r \<and> signal_event sel r)"
    using 1(6) kill_law(2) [OF laws, of "nw_kernel \<sigma>"] by blast
  moreover have "kn_data K ?k' \<subseteq> known (nw_sel \<sigma>)" using kill_law(3) [OF laws] 1(4) by blast
  moreover have "fold (kn_call K) (mux_notified m (nw_sel \<sigma>)) (nw_kernel \<sigma>) = ?k'"
    by (simp add: mux_notified_def selector_notify_def 1(3))
  ultimately show ?thesis using 1(1-5,7) by (auto simp: net_wake_inv_def)
qed

lemma suspends_when_empty:
  assumes "queue_rep (task_queue cx) ts"
    and "suspend_until c p moved is_max cx = Inr (calls :: 'fn action fiber_call list, cx', Some mx)"
  shows "ts = [] \<and> queue_rep (task_queue cx') []"
proof (cases ts)
  case Nil
  with launch_none [of cx c p moved, where 'fn = 'fn] assms show ?thesis by (auto simp: suspend_until_def)
next
  case (Cons t us)
  with launch_oldest [of cx t us c p moved, where 'fn = 'fn] assms show ?thesis by (auto simp: suspend_until_def)
qed

lemma inv_return:
  assumes "net_wake_inv K sel \<sigma>" and laws: "signal_laws K th sel"
    and "nw_pc \<sigma> = NetWaiting timeout" and "kn_answer K (epoll_fd (nw_sel \<sigma>)) timeout (nw_kernel \<sigma>) (r, k')"
  shows "net_wake_inv K sel (\<sigma>\<lparr>nw_pc := NetAnswered r, nw_kernel := k'\<rparr>)"
  using assms(1)
proof (cases rule: net_wake_invE)
  case (1 ts)
  with assms(4) have a: "kn_answer K (epoll_fd sel) timeout (nw_kernel \<sigma>) (r, k')" by simp
  have "kn_data K k' \<subseteq> known (nw_sel \<sigma>)" using answer_law(3) [OF laws a] 1(4) by blast
  moreover have "answers_within (known (nw_sel \<sigma>)) r" by (rule answers_within_mono [OF answer_law(4) [OF laws a] 1(4)])
  moreover have "kn_pending K k' \<Longrightarrow> kn_edge K k' \<or> signal_event sel r"
    using answer_law(1,2) [OF laws a] 1(6) assms(3) by auto
  ultimately show ?thesis using 1(1-3,7) unfolding net_wake_inv_def by auto
qed

lemma inv_deliver:
  assumes "net_wake_inv K sel \<sigma>" and laws: "signal_laws K th sel" and "nw_pc \<sigma> = NetAnswered r"
  shows "\<exists>s' requests. select r (nw_sel \<sigma>) = Inr (s', requests) \<and>
    net_wake_inv K sel (\<sigma>\<lparr>nw_pc := NetRunning, nw_sel := s', nw_kernel := fold (kn_call K) requests (nw_kernel \<sigma>)\<rparr>)"
  using assms(1)
proof (cases rule: net_wake_invE)
  case (1 ts)
  from select_asks [OF 1(5) [OF assms(3)]] obtain s' n where
    n: "select r (nw_sel \<sigma>) = Inr (s', replicate n (ReadSignal (signal_fd sel)))" "0 < n \<longleftrightarrow> signal_event sel r"
      "same_setup (nw_sel \<sigma>) s'" using signal_event_cong [OF 1(2)] 1(2) by auto
  let ?k' = "fold (kn_call K) (replicate n (ReadSignal (signal_fd sel))) (nw_kernel \<sigma>)"
  from reads_clear [OF laws, of n "nw_kernel \<sigma>"] have "kn_data K ?k' \<subseteq> known s'"
    using 1(4) n(3) by (auto simp: same_setup_def)
  moreover have "kn_pending K ?k' \<Longrightarrow> kn_edge K ?k'"
    using reads_clear [OF laws, of n "nw_kernel \<sigma>"] 1(6) n(2) assms(3) by (cases n) auto
  ultimately have "net_wake_inv K sel (\<sigma>\<lparr>nw_pc := NetRunning, nw_sel := s', nw_kernel := ?k'\<rparr>)"
    using 1(1-3,7) n(3) unfolding net_wake_inv_def same_setup_def by auto
  with n(1) show ?thesis by blast
qed

lemma net_wake_inv_step:
  assumes "net_step K m fn \<sigma> \<tau>" and inv: "net_wake_inv K sel \<sigma>" and laws: "signal_laws K (mux_thread m) sel"
  shows "net_wake_inv K sel \<tau>"
  using inv
proof (cases rule: net_wake_invE)
  case (1 ts)
  from assms(1) show ?thesis
  proof (cases rule: net_step_cases)
    case (n_post op ss d n k th cx' s)
    from post_remote_ok [OF 1(7) n_post(2,3)] have "\<exists>us. queue_rep (task_queue cx') us" by blast
    with n_post(1) 1(1-6) show ?thesis unfolding net_wake_inv_def by simp
  next
    case (n_notify j)
    with inv_notify [OF inv laws] show ?thesis by simp
  next
    case (n_launch t q)
    from task_fifo.deq_rep [OF 1(7)] n_launch(3) have "queue_rep q (tl ts)" by (cases ts; simp add: ctq_deq_def)+
    with n_launch 1(1-6) show ?thesis unfolding net_wake_inv_def by auto
  next
    case (n_suspend c p moved is_max calls cx' mx duration)
    from suspends_when_empty [OF 1(7) n_suspend(3)] have "queue_rep (task_queue cx') []" by blast
    with n_suspend(1,2) 1(1-6) show ?thesis unfolding net_wake_inv_def by auto
  next
    case (n_return timeout r k')
    with inv_return [OF inv laws] show ?thesis by simp
  next
    case (n_deliver r sel' requests)
    with inv_deliver [OF inv laws n_deliver(2)] show ?thesis by auto
  next
    case (n_register a junk reply fd res sel' requests)
    from register_setup [OF n_register(2)] obtain e events where
      r: "same_setup (nw_sel \<sigma>) sel'" "a \<in> known sel'" "requests = [EpollAdd e fd events a]" by blast
    show ?thesis unfolding n_register(1)
      by (rule inv_selector [OF inv r(1)])
        (use add_law [OF laws, where e = e and fd = fd and events = events and x = a and k = "nw_kernel \<sigma>"] 1(4) r in \<open>auto simp: same_setup_def\<close>)
  next
    case (n_deregister a n sel' requests)
    from deregister_setup [OF n_deregister(4,2)] n_deregister(3) 1(2) del_law [OF laws] have
      r: "same_setup (nw_sel \<sigma>) sel'" "calm K (nw_kernel \<sigma>) (fold (kn_call K) requests (nw_kernel \<sigma>))" by auto
    show ?thesis unfolding n_deregister(1)
      by (rule inv_selector [OF inv r(1)]) (use r 1(4) in \<open>auto simp: same_setup_def calm_def\<close>)
  next
    case (n_use a ev x)
    with inv_selector [OF inv set_sem_setup, of "nw_kernel \<sigma>" a ev x] set_sem_setup [of "nw_sel \<sigma>" a ev x] 1(4)
    show ?thesis by (auto simp: same_setup_def)
  next
    case (n_other k')
    with inv_selector [OF inv, of "nw_sel \<sigma>" k'] other_law [OF laws n_other(2)] 1(4) show ?thesis
      by (auto simp: same_setup_def calm_def)
  qed
qed

lemma net_steps_inv:
  "(net_step K m fn)\<^sup>*\<^sup>* \<sigma> \<tau> \<Longrightarrow> signal_laws K (mux_thread m) sel \<Longrightarrow> net_wake_inv K sel \<sigma> \<Longrightarrow> net_wake_inv K sel \<tau>"
  by (induction rule: rtranclp_induct) (auto intro: net_wake_inv_step)

lemma net_start_inv:
  assumes "queue_rep (task_queue cx) []" and "\<not> kn_pending K k" and "kn_data K k \<subseteq> known sel"
  shows "net_wake_inv K sel (net_start cx sel k)"
  using assms by (auto simp: net_wake_inv_def net_start_def)

section \<open>The properties\<close>

text \<open>Once an edge is there, or an answer in hand, the thread comes back to its loop.\<close>

lemma answer_delivered:
  assumes "net_wake_inv K sel \<sigma>" and "signal_laws K (mux_thread m) sel" and "nw_pc \<sigma> = NetAnswered r"
  shows "\<exists>\<tau>. net_step K m fn \<sigma> \<tau> \<and> nw_pc \<tau> = NetRunning \<and> nw_ctx \<tau> = nw_ctx \<sigma> \<and> nw_posts \<tau> = nw_posts \<sigma>"
proof -
  from inv_deliver [OF assms] obtain s' requests where "select r (nw_sel \<sigma>) = Inr (s', requests)" by blast
  from n_deliver [OF assms(3) this, of K m fn] show ?thesis by (intro exI conjI) (assumption, simp_all)
qed

lemma strategy_returns:
  assumes inv: "net_wake_inv K sel \<sigma>" and laws: "signal_laws K (mux_thread m) sel"
    and edge: "\<And>timeout. nw_pc \<sigma> = NetWaiting timeout \<Longrightarrow> kn_edge K (nw_kernel \<sigma>)"
  shows "\<exists>\<tau>. (net_step K m fn)\<^sup>*\<^sup>* \<sigma> \<tau> \<and> nw_pc \<tau> = NetRunning \<and> nw_ctx \<tau> = nw_ctx \<sigma> \<and> nw_posts \<tau> = nw_posts \<sigma>"
proof -
  show ?thesis
  proof (cases "nw_pc \<sigma>")
    case NetRunning
    then show ?thesis by blast
  next
    case (NetWaiting timeout)
    from inv have fd: "epoll_fd (nw_sel \<sigma>) = epoll_fd sel" by (simp add: net_wake_inv_def)
    from ends_law [OF laws edge [OF NetWaiting]] obtain r k' where
      a: "kn_answer K (epoll_fd (nw_sel \<sigma>)) timeout (nw_kernel \<sigma>) (r, k')" unfolding fd by blast
    let ?\<rho> = "\<sigma>\<lparr>nw_pc := NetAnswered r, nw_kernel := k'\<rparr>"
    have st: "net_step K m fn \<sigma> ?\<rho>" by (rule n_return [OF NetWaiting a])
    from answer_delivered [OF inv_return [OF inv laws NetWaiting a] laws, of r fn] obtain \<tau> where
      "net_step K m fn ?\<rho> \<tau>" "nw_pc \<tau> = NetRunning" "nw_ctx \<tau> = nw_ctx \<sigma>" "nw_posts \<tau> = nw_posts \<sigma>" by auto
    with st show ?thesis by (meson converse_rtranclp_into_rtranclp r_into_rtranclp)
  next
    case (NetAnswered r)
    from answer_delivered [OF inv laws this] show ?thesis by blast
  qed
qed

text \<open>Claim C6: A task posted to a network context is never stranded. In every interleaving of posting threads, the
  strategy's thread, its operations on network objects and a kernel that keeps the laws of signals and of
  epoll, while the queue holds tasks the thread can leave its wait without another post, and the next
  task it launches is the oldest.\<close>

theorem net_task_is_launched:
  assumes "(net_step K m fn)\<^sup>*\<^sup>* (net_start cx sel k) \<sigma>" and laws: "signal_laws K (mux_thread m) sel"
    and "queue_rep (task_queue cx) []" and "\<not> kn_pending K k" and "kn_data K k \<subseteq> known sel"
    and "queue_rep (task_queue (nw_ctx \<sigma>)) (t # ts)"
  shows "\<exists>\<tau> q. (net_step K m fn)\<^sup>*\<^sup>* \<sigma> \<tau> \<and> nw_posts \<tau> = nw_posts \<sigma> \<and> nw_pc \<tau> = NetRunning \<and> nw_ctx \<tau> = nw_ctx \<sigma> \<and>
    pop_perform (task_queue (nw_ctx \<tau>)) = Inr (Some t, q) \<and> queue_rep q ts"
proof -
  have inv: "net_wake_inv K sel \<sigma>" by (rule net_steps_inv [OF assms(1) laws net_start_inv [OF assms(3-5)]])
  from task_fifo.deq_rep [OF assms(6)] obtain q where q: "pop_perform (task_queue (nw_ctx \<sigma>)) = Inr (Some t, q)" "queue_rep q ts"
    by (auto simp: ctq_deq_def split: sum.splits)
  have "\<exists>\<tau>. (net_step K m fn)\<^sup>*\<^sup>* \<sigma> \<tau> \<and> nw_pc \<tau> = NetRunning \<and> nw_ctx \<tau> = nw_ctx \<sigma> \<and> nw_posts \<tau> = nw_posts \<sigma>"
  proof (cases "\<exists>timeout. nw_pc \<sigma> = NetWaiting timeout \<and> \<not> kn_edge K (nw_kernel \<sigma>)")
    case False
    with strategy_returns [OF inv laws] show ?thesis by blast
  next
    case True
    then obtain timeout where w: "nw_pc \<sigma> = NetWaiting timeout" "\<not> kn_edge K (nw_kernel \<sigma>)" by blast
    from inv obtain us where us: "queue_rep (task_queue (nw_ctx \<sigma>)) us" "us \<noteq> [] \<Longrightarrow> 0 < nw_unnotified \<sigma>"
      by (rule net_wake_invE) (use w in blast)
    from task_fifo.deq_rep [OF us(1)] q(1) have "us \<noteq> []" by (auto simp: ctq_deq_def)
    with us(2) obtain j where j: "nw_unnotified \<sigma> = Suc j" using gr0_implies_Suc by blast
    let ?\<rho> = "\<sigma>\<lparr>nw_unnotified := j, nw_kernel := fold (kn_call K) (mux_notified m (nw_sel \<sigma>)) (nw_kernel \<sigma>)\<rparr>"
    have st: "net_step K m fn \<sigma> ?\<rho>" by (rule n_notify [OF j])
    from inv_notify [OF inv laws, of j timeout] w(1) have "net_wake_inv K sel ?\<rho>" "kn_edge K (nw_kernel ?\<rho>)" by auto
    from strategy_returns [OF this(1) laws] this(2) obtain \<tau> where
      "(net_step K m fn)\<^sup>*\<^sup>* ?\<rho> \<tau>" "nw_pc \<tau> = NetRunning" "nw_ctx \<tau> = nw_ctx \<sigma>" "nw_posts \<tau> = nw_posts \<sigma>" by auto
    with converse_rtranclp_into_rtranclp [of "net_step K m fn", OF st] show ?thesis by blast
  qed
  with q show ?thesis by metis
qed

text \<open>The answers of the kernel are handled without a fault, whatever objects have been registered
  and deregistered since: an event of an object that is gone finds the notifier that the pool keeps.\<close>

theorem net_answers_handled:
  assumes "(net_step K m fn)\<^sup>*\<^sup>* (net_start cx sel k) \<sigma>" and "signal_laws K (mux_thread m) sel"
    and "queue_rep (task_queue cx) []" and "\<not> kn_pending K k" and "kn_data K k \<subseteq> known sel"
    and "nw_pc \<sigma> = NetAnswered r"
  shows "\<exists>s' requests. select r (nw_sel \<sigma>) = Inr (s', requests)"
  using inv_deliver [OF net_steps_inv [OF assms(1,2) net_start_inv [OF assms(3-5)]] assms(2,6)] by blast

text \<open>From the constructor of a network context to its first wait everything is in place for posts. The
  one thread that enters \<open>run\<close> is let through at once, has the signal blocked and is known to be inside; the
  queue is empty and a post will notify its strategy. A second thread writes past the strategies.\<close>

theorem net_context_ready:
  assumes "net_context_new mem cores th this junk (Ret e) (Ret f) (Ret ()) slots = Inr (cx, sel, slots')"
  shows "\<exists>m stacks' cx'. net_run_enter ops th' this a self 0 p h sel (stacks, cx) = Inr (Leader, m, stacks', cx', [BlockSignal SIGUSR2])
    \<and> mux_notified m sel = [KillThread self SIGUSR2] \<and> context_notify 0 cx' = Some p \<and> queue_rep (task_queue cx') []
    \<and> isRunningInThis th' this stacks' = Some (Inr True)
    \<and> net_run_enter ops th2 this a2 self2 0 p2 h2 sel (stacks', cx') = Inl (NoSlot StrategyIndex)"
proof -
  from assms have cx: "cx = context_new mem cores 1 DEBUG_OFF DEFAULT_BUFFER_LENGTH" and sel: "sel_signal sel = SIGUSR2"
    by (auto simp: net_context_new_def context_new_default_def context_new_threads_def selector_new_def initEpollFd_def
        initSignalFd_def Let_def split: if_splits)
  have f: "strategies cx = [None]" "next_strategy_index cx = 0" "bar_count (cx_barrier cx) = 1"
      "task_queue cx = ctq_new DEFAULT_BUFFER_LENGTH cores"
    by (simp_all add: cx context_new_def schedule.defs ctx.defs barrier_new_def)
  have "queue_rep (ctq_new DEFAULT_BUFFER_LENGTH cores) []" by (rule queue_rep_new) simp_all
  then show ?thesis using f sel
    by (simp add: net_run_enter_def mux_new_default_def mux_new_def strategy_new_def selector_mask_def Let_def barrier_arrive_def
        mux_notified_def selector_notify_def context_notify_def isRunningInThis_def cs_contain_def cs_begin_def cs_begin_value_def)
qed

subsection \<open>A concrete run\<close>

text \<open>A kernel that keeps the laws: whether the signal is pending, whether there is an edge, the words.\<close>

definition small_kernel :: "(bool \<times> bool \<times> u64 set) net_kernel" where
  "small_kernel = \<lparr>
     kn_call = (\<lambda>c (p, e, D). case c of
         KillThread _ _ \<Rightarrow> (True, e \<or> \<not> p, D) | ReadSignal _ \<Rightarrow> (False, e, D)
       | EpollAdd _ _ _ x \<Rightarrow> (p, e, insert x D) | _ \<Rightarrow> (p, e, D)),
     kn_answer = (\<lambda>fd timeout (p, e, D) (r, k').
       if e \<and> fd_data 4 0 \<in> D then r = Ret [(EPOLLIN, fd_data 4 0)] \<and> k' = (p, False, D)
       else if e then r = Fail 4 \<and> k' = (p, e, D)
       else 0 \<le> timeout \<and> r = Ret [] \<and> k' = (p, e, D)),
     kn_other = (=),
     kn_pending = (\<lambda>(p, e, D). p), kn_edge = (\<lambda>(p, e, D). e), kn_data = (\<lambda>(p, e, D). D)\<rparr>"

lemma signal_word: "data_fd (fd_data 4 0) = 4"
  by (rule fd_data_roundtrip) simp_all

lemma small_kernel_ends: "kn_edge small_kernel k \<Longrightarrow> \<exists>r. kn_answer small_kernel fd timeout k r"
  by (cases k; cases "fd_data 4 0 \<in> snd (snd k)") (auto simp: small_kernel_def)

lemma small_kernel_laws: "signal_laws small_kernel th empty_selector"
  unfolding signal_laws_def Let_def calm_def
  by (intro conjI allI impI small_kernel_ends)
    (auto simp: small_kernel_def answers_within_def signal_event_def empty_selector_def signal_word split: if_splits)

definition net_strategy :: multiplexing where
  "net_strategy = \<lparr>mux_flag = BLOCKING, mux_thread = 0\<rparr>"

text \<open>The strategy goes to sleep without limit, then a task is pushed.\<close>

lemma posted_to_sleeper:
  "\<exists>\<sigma>. (net_step small_kernel net_strategy TYPE(unit))\<^sup>*\<^sup>* (net_start one_strategy empty_selector (False, False, {fd_data 4 0})) \<sigma>
     \<and> nw_pc \<sigma> = NetWaiting (- 1) \<and> queue_rep (task_queue (nw_ctx \<sigma>)) [task32]
     \<and> nw_unnotified \<sigma> = Suc 0 \<and> nw_sel \<sigma> = empty_selector \<and> nw_kernel \<sigma> = (False, False, {fd_data 4 0})"
proof -
  let ?\<sigma> = "net_start one_strategy empty_selector (False, False, {fd_data 4 0})"
  let ?step = "net_step small_kernel net_strategy TYPE(unit)"
  have "reader_consume (ring_new 128 1) = Inr (0, None, ring_new 128 1)" by code_simp
  then have "pop (ctq_new 128 1) = Inr (None, ctq_new 128 1)" by (simp add: pop_def ctq_new_def)
  then have "suspend_until 5 6 [] True one_strategy = Inr ([] :: unit action fiber_call list, one_strategy, Some True)"
    by (simp add: suspend_until_def launchPostedTask_def scheduleOutRemoteTask_def one_strategy_simps one_strategy_def
        ctx128_queue)
  then have s: "?step ?\<sigma> (?\<sigma>\<lparr>nw_ctx := one_strategy, nw_pc := NetWaiting (mux_timeout (mux_flag net_strategy) True 0)\<rparr>)"
    by (intro n_suspend) (simp_all add: net_start_def)
  let ?\<rho> = "?\<sigma>\<lparr>nw_ctx := one_strategy, nw_pc := NetWaiting (mux_timeout (mux_flag net_strategy) True 0)\<rparr>"
  obtain q where q: "push 1 0 0 task32 (ctq_new 128 1) = Some (Inr q)" "queue_rep q [task32]"
    using push_task32 [of 0 0] by auto
  have t: "remote_task one_strategy [7, 9] 4096 [104, 105] = task32"
    by (simp add: remote_task_def one_strategy_simps task32_def)
  have p: "postTaskFromRemote 1 0 0 [7, 9] 4096 [104, 105] one_strategy =
      Some (Inr (one_strategy\<lparr>task_queue := q\<rparr>, Some 20))"
    using q(1) by (simp add: postTaskFromRemote_def task32_def one_strategy_simps context_notify_def Let_def)
  have "?step ?\<rho> (?\<rho>\<lparr>nw_ctx := one_strategy\<lparr>task_queue := q\<rparr>, nw_unnotified := nw_unnotified ?\<rho> + 1,
      nw_posts := nw_posts ?\<rho> + 1\<rparr>)"
    by (rule n_post [where n = 1 and k = 0 and th = 0 and op = "[7, 9]" and ss = 4096 and d = "[104, 105]" and s = 20])
      (use p t task32_facts(1) in simp_all)
  with s have "?step\<^sup>*\<^sup>* ?\<sigma> (?\<rho>\<lparr>nw_ctx := one_strategy\<lparr>task_queue := q\<rparr>, nw_unnotified := nw_unnotified ?\<rho> + 1,
      nw_posts := nw_posts ?\<rho> + 1\<rparr>)" by (meson converse_rtranclp_into_rtranclp r_into_rtranclp)
  then show ?thesis using q(2) by (intro exI conjI) (assumption, simp_all add: mux_timeout_def net_strategy_def net_start_def)
qed

lemma small_start: "\<not> kn_pending small_kernel (False, False, {fd_data 4 0})"
  "kn_data small_kernel (False, False, {fd_data 4 0}) \<subseteq> known empty_selector"
  by (simp_all add: small_kernel_def known_def empty_selector_def signal_word)

theorem net_task_is_launched_witness:
  "\<exists>\<tau> q. (net_step small_kernel net_strategy TYPE(unit))\<^sup>*\<^sup>* (net_start one_strategy empty_selector (False, False, {fd_data 4 0})) \<tau>
     \<and> nw_pc \<tau> = NetRunning \<and> pop_perform (task_queue (nw_ctx \<tau>)) = Inr (Some task32, q)"
proof -
  let ?step = "net_step small_kernel net_strategy TYPE(unit)"
  obtain \<sigma> where s: "?step\<^sup>*\<^sup>* (net_start one_strategy empty_selector (False, False, {fd_data 4 0})) \<sigma>"
    "queue_rep (task_queue (nw_ctx \<sigma>)) [task32]" using posted_to_sleeper by blast
  from net_task_is_launched [OF s(1) small_kernel_laws one_strategy_empty small_start s(2)] obtain \<tau> q where
    "?step\<^sup>*\<^sup>* \<sigma> \<tau>" "nw_pc \<tau> = NetRunning" "pop_perform (task_queue (nw_ctx \<tau>)) = Inr (Some task32, q)" by blast
  with s(1) show ?thesis by (blast intro: rtranclp_trans)
qed

theorem net_answers_handled_witness:
  "\<exists>\<sigma> r s' requests. (net_step small_kernel net_strategy TYPE(unit))\<^sup>*\<^sup>*
       (net_start one_strategy empty_selector (False, False, {fd_data 4 0})) \<sigma>
     \<and> nw_pc \<sigma> = NetAnswered r \<and> signal_event (nw_sel \<sigma>) r \<and> select r (nw_sel \<sigma>) = Inr (s', requests)"
proof -
  let ?step = "net_step small_kernel net_strategy TYPE(unit)"
  let ?D = "{fd_data 4 0}"
  obtain \<sigma> where s: "?step\<^sup>*\<^sup>* (net_start one_strategy empty_selector (False, False, ?D)) \<sigma>" "nw_pc \<sigma> = NetWaiting (- 1)"
    "nw_unnotified \<sigma> = Suc 0" "nw_sel \<sigma> = empty_selector" "nw_kernel \<sigma> = (False, False, ?D)"
    using posted_to_sleeper by blast
  let ?\<rho> = "\<sigma>\<lparr>nw_unnotified := 0, nw_kernel := (True, True, ?D)\<rparr>"
  let ?\<upsilon> = "?\<rho>\<lparr>nw_pc := NetAnswered (Ret [(EPOLLIN, fd_data 4 0)]), nw_kernel := (True, False, ?D)\<rparr>"
  have "fold (kn_call small_kernel) (mux_notified net_strategy (nw_sel \<sigma>)) (nw_kernel \<sigma>) = (True, True, ?D)"
    by (simp add: s(4,5) mux_notified_def selector_notify_def small_kernel_def)
  with n_notify [OF s(3), of small_kernel net_strategy "TYPE(unit)"] have "?step \<sigma> ?\<rho>" by simp
  moreover have "?step ?\<rho> ?\<upsilon>" by (rule n_return) (use s(2) in \<open>simp_all add: small_kernel_def\<close>)
  ultimately have r: "?step\<^sup>*\<^sup>* (net_start one_strategy empty_selector (False, False, ?D)) ?\<upsilon>"
    using s(1) by (meson rtranclp.rtrancl_into_rtrancl)
  have pc: "nw_pc ?\<upsilon> = NetAnswered (Ret [(EPOLLIN, fd_data 4 0)])" by simp
  from net_answers_handled [OF r small_kernel_laws one_strategy_empty small_start pc] obtain s' requests where
    "select (Ret [(EPOLLIN, fd_data 4 0)]) (nw_sel ?\<upsilon>) = Inr (s', requests)" by blast
  with r pc show ?thesis
    by (intro exI [of _ ?\<upsilon>] exI [of _ "Ret [(EPOLLIN, fd_data 4 0)]"] exI [of _ s'] exI [of _ requests])
      (simp add: s(4) signal_event_def signal_word empty_selector_def)
qed

theorem net_context_ready_witness:
  "\<exists>cx sel slots' m stacks' cx'. net_context_new two_strategies 4 7 1000 0 (Ret 3) (Ret 4) (Ret ()) Map.empty = Inr (cx, sel, slots')
     \<and> net_run_enter (deque_ops two_kinds) 7 1000 10 7 0 20 30 sel (stacks_new, cx) =
         Inr (Leader, m, stacks', cx', [BlockSignal SIGUSR2])"
proof -
  obtain cx sel slots' where
    n: "net_context_new two_strategies 4 7 1000 0 (Ret 3) (Ret 4) (Ret ()) Map.empty = Inr (cx, sel, slots')"
    by (simp add: net_context_new_def selector_new_def initEpollFd_def initSignalFd_def Let_def)
  from net_context_ready [OF n, of "deque_ops two_kinds" 7 10 7 20 30 stacks_new] n show ?thesis by blast
qed

end
