(* ===== verification/Spec2Isabelle.thy ===== *)
theory Spec2Isabelle
  imports Semaphore Barrier SpinLock AppendArray MpscRing RingThreads TaskQueue TaskThreads ThreadStorage ListQueues
    ListThreads NetAddress TcpSocket EpollSelector EventStream TcpNet FiberInfo Strategy CallStack Cache Context RemoteCall NetContext NetWake
begin

text \<open>
  A verification development of ustevent, a C++ library that runs fibers of Boost.Fiber on the
  threads of a context and gives them blocking network streams over epoll. This theory
  imports the others and puts the idle thread and the waiting streams together; paths below are relative to \<open>src/src/ustevent\<close>.

  \<^bold>\<open>The program.\<close> A \<open>Context\<close> owns one \<open>ContextStrategy\<close> per thread, each with a queue of
  ready fibers, and one \<open>ContextTaskQueue\<close>, through which threads outside of the context post tasks.
  The task queue lays tasks out in the bytes of an \<open>MpscRingBuffer\<close> and gives each posting thread
  a writer through an \<open>ObjectScopedThreadLocalStorage\<close>, which is built on \<open>AppendOnlyArray\<close>. A
  thread with nothing to run sleeps in \<open>BlockingContextStrategy\<close> or, in a \<open>NetContext\<close>, in the
  \<open>EpollSelector\<close>. A network object waits on the two \<open>BasicSemaphore\<close>s of its \<open>EventNotifier\<close>,
  which the selector notifies; \<open>EventOperation\<close> is the loop that tries a non-blocking operation and
  waits, and the streams, \<open>TcpDialer\<close>, \<open>TcpListener\<close> and \<open>TcpConnection\<close> are made of it.

  \<^bold>\<open>The theories and what their lemmas show.\<close>
  \<^item> \<open>Prelude\<close>: machine types, hint collections, generic lemmas. \<open>Fifo\<close>, \<open>WorkPool\<close> and \<open>Gate\<close>: the
    interfaces (locales) of a first-in first-out queue, of a pool of work that several threads
    share, and of a flag that threads sleep on, with the lemmas proved once for all providers. They
    are interpreted on the task queue and the two list queues, on the ready queues of a context's
    strategies, and on \<open>BlockingContextStrategy\<close> and \<open>Context::run\<close>/\<open>terminate\<close>.
  \<^item> \<open>Semaphore\<close> (core/detail/BasicSemaphore.hpp): the two counters, every member function, and the
    interleavings of any number of callers. Permits are conserved and no wake-up is lost.
  \<^item> \<open>Barrier\<close> (core/detail/BasicBarrier.hpp): cycles of the barrier over all interleavings.
  \<^item> \<open>SpinLock\<close> (core/detail/SpinMutex.cpp): the queue lock as a step relation over any number of mutexes,
    which share the thread-local node of each thread. Mutual exclusion as long as no thread asks for
    a mutex while it holds another, and a run of nested locks that breaks it.
  \<^item> \<open>AppendArray\<close> (core/detail/AppendOnlyArray.hpp): concurrent appends form a log; the two
    phases of an append as steps; places, bounds and progress.
  \<^item> \<open>MpscRing\<close> (core/detail/MpscRingBuffer.cpp): the ring with its barriers and workers as 64-bit
    words, \<open>acquire\<close>, \<open>produce\<close>, \<open>consume\<close>, \<open>release\<close>, and their interleavings under one
    invariant. Acquired regions are fresh and disjoint, consumption is first-in first-out.
  \<^item> \<open>RingThreads\<close>: \<open>acquire\<close> and \<open>consume\<close> of the ring access by access, with any number of producers,
    related to the operations in one piece. Bytes are delivered in the order they were claimed, no assertion
    fails, the lock bit is always cleared, and accesses that run alone return with what the operation promises. An exchange that succeeds
    on an offset that changed and came back is excluded by hypothesis: the code does not exclude it
    (\<open>ring_aba_overlap\<close>).
  \<^item> \<open>TaskQueue\<close> (core/detail/ContextTaskQueue.hpp, ContextOperation.h): the byte layout of tasks, \<open>push\<close>,
    \<open>pop\<close> and the deallocator; the queue refines a list of tasks.
  \<^item> \<open>TaskThreads\<close>: any number of threads inside \<open>push\<close>, store by store, and the consumer between
    \<open>pop\<close> and deallocation, each operation of the ring in one step (so without the ABA exchanges of \<open>ring_aba_overlap\<close>).
    Tasks are performed as stored, in the order of the acquires, and no operation fails.
  \<^item> \<open>ThreadStorage\<close> (core/concurrency/detail/ObjectScopedThreadLocalStorage.hpp): an object per
    owner and thread, recycled indices.
  \<^item> \<open>ListQueues\<close> (core/concurrency): the node allocator, the list queue with its two front ends and
    the object pool on a heap of nodes; refinement of a list, no aliasing. The multi-producer enqueue, which
    does not compile, with its ill-typed call as a parameter. Also detail/ObjectPool.hpp
    over boost::pool.
  \<^item> \<open>ListThreads\<close>: the same allocator, queue and pool access by access, with any number of threads. The
    queue is linearizable to a list, a node is in the hands of one thread only, and a tail pointer that was taken
    away comes back.
  \<^item> \<open>NetAddress\<close> (net/Protocal.h, net/ip, net/tcp/TcpAddress.cpp): addresses, their conversion and
    the parser of "host:port".
  \<^item> \<open>TcpSocket\<close> (net/tcp/detail/linux/TcpSocket.cpp, the synchronous streams, net/detail/Buffer):
    each operation with every answer of the kernel.
  \<^item> \<open>EpollSelector\<close> (net/detail/linux/EpollSelector.cpp, EventNotifier.h, EventObject.hpp): registration,
    delivery of events, and recycling of notifiers in runs with callers asleep or notifying on any
    semaphore and with events of notifiers given back: what the next owner finds, and when it is fresh.
  \<^item> \<open>EventStream\<close> (net/detail/EventOperation.hpp, the reactor streams): the loop as a partial
    function over the answers of the kernel and the actions of other threads, its contract as
    the locale \<open>event_op\<close>, and the four operations that meet it.
  \<^item> \<open>TcpNet\<close> (TcpDialer.cpp, TcpListener.cpp, TcpConnection.cpp): dialling, accepting and closing,
    with the table of open descriptors.
  \<^item> \<open>FiberInfo\<close> (core/FiberDebugInfo.cpp, core/Fiber.hpp): backtraces, and what starting a fiber asks of
    Boost.Fiber. \<open>CallStack\<close> (thread and fiber detail/CallStack.h): which contexts a thread is in,
    with the lifetime of the frames. \<open>Cache\<close> (core/detail/Cache.h): prefetches.
  \<^item> \<open>Strategy\<close> (core/ContextStrategy.cpp): awakening, picking and stealing of fibers, and the doubly
    linked list of waiting fibers. No fiber is lost or run twice, none is attached twice over any run
    of wake-ups, picks and attachments, the stealing loops end, the list is the abstract list of waiting fibers.
  \<^item> \<open>Context\<close> (core/Context.cpp, core/Context.hpp, core/BlockingContextStrategy.cpp,
    core/ContextStrategyWrapper.hpp): construction, \<open>run\<close>, \<open>terminate\<close>, \<open>post\<close>, \<open>dispatch\<close>, \<open>call\<close> and
    the launch of posted tasks. A posted task is launched as posted and never stranded by a
    sleeping strategy; \<open>run\<close> returns after \<open>terminate\<close> and only then.
  \<^item> \<open>RemoteCall\<close>: calls from threads outside of the context, from the push of the packaged task over the
    sleep of the strategy to the return of the future's \<open>get\<close>. Each call returns, with the outcome of its own task.
  \<^item> \<open>NetContext\<close> (net/NetContext.cpp, net/MultiplexingContextStrategy.cpp): the network context and the
    timeout of its wait, \<open>run\<close> up to its barrier.
  \<^item> \<open>NetWake\<close>: posting threads, the thread of a network context in \<open>epoll_wait\<close> and the signal that notifies it,
    interleaved. No posted task is stranded and no answer of the kernel makes \<open>select\<close> fail; the kernel is a
    parameter with the documented laws of signals, signal descriptors and edge-triggered polling (\<open>signal_laws\<close>),
    which a concrete kernel is shown to have.
  \<^item> This theory: an idle step of a network thread is what the streams' model of the other threads says
    it is, and it wakes exactly the operations whose event the kernel reports.

  \<^bold>\<open>How the code is read.\<close> Objects are records, pointers are numbers into a map, null is \<open>None\<close>;
  machine integers are words where their width matters and natural numbers or integers where
  the note of the definition says that it does not. A failure of C++ (an index out of range, a null
  or dead object, an exception, a termination) is a value of an error type. An operation that
  may wait for ever is a step relation, a partial function into \<open>option\<close> or has a bound on its
  rounds, and theorems on its result say when there is one: \<open>push\<close> with the number of its rounds
  (one is enough when the ring has room), the stealing loops with the list of random draws (as many
  draws of other strategies as there are strategies are enough), the event operations with the
  list of the kernel's answers. Concurrent parts are step relations on a shared state in which each
  atomic access or critical section is one step, with sequentially consistent memory;
  condition variables wake spuriously. Where a theory runs operations one after the other
  instead (\<open>TaskQueue\<close>, \<open>ListQueues\<close>, \<open>Strategy\<close>, the operations of the ring in \<open>MpscRing\<close>, and those of the
  task queue in \<open>Context\<close>, \<open>RemoteCall\<close> and \<open>NetWake\<close>) its opening
  text says so; \<open>TaskThreads\<close>, \<open>ListThreads\<close> and \<open>RingThreads\<close> then take the operations of the task queue, of the
  list queues and of the ring apart.

  Code outside of the repository is a parameter: the answers of the kernel, libunwind, the random
  generator, and Boost.Fiber's queue of contexts, whose documented laws are the hypothesis
  \<open>spmc_laws\<close>, shown to hold of a concrete queue. The actions of other threads during a wait of an
  event operation are a list the operation consumes.

  \<^bold>\<open>Not modelled.\<close> The aliases of core/thread and core/fiber (they name classes of the standard
  library, of Boost and of the modelled templates), interfaces without implementation (net/Address.h, Connection.h, Dialer.h, Listener.h,
  Resolver.h), macros and the pause instruction, weak memory orderings, the scheduler of Boost.Fiber
  between the calls it makes to a strategy, tests, benchmarks and
  vendored code.
\<close>

section \<open>A waiting reader and the idle thread that wakes it\<close>

text \<open>An operation is asleep on a semaphore when it has passed the fetch-and-subtract of
  \<open>wait\<close> and the counter under the mutex is zero.\<close>

definition sleeping_on :: "semaphore \<Rightarrow> bool" where
  "sleeping_on x \<longleftrightarrow> atomic_count x < 0 \<and> sem_count x = 0"

lemma wakes_iff:
  assumes "sleeping_on x" shows "wait_locked ((sem_notify ^^ k) x) \<noteq> None \<longleftrightarrow> 0 < k"
proof (cases k)
  case 0 with assms show ?thesis by (simp add: sleeping_on_def wait_locked_def)
next
  case (Suc j)
  have "0 < sem_count ((sem_notify ^^ j) (sem_notify x))"
    by (induction j) (use assms in \<open>auto simp: sleeping_on_def sem_ops\<close>)
  with Suc show ?thesis by (simp add: wait_locked_def funpow_swap1)
qed

lemma fold_ready: "st_notifier (fold (env_step ev) (map Ready es) st) = fold deliver es (st_notifier st)"
  by (induction es arbitrary: st) auto

lemma delivered_wakes:
  assumes "sleeping_on (n_semaphores n ev)"
  shows "wait_locked (n_semaphores (fold deliver (events_of a evs) n) ev) \<noteq> None \<longleftrightarrow>
    (\<exists>e. (e, a) \<in> set evs \<and> waker ev True (Ready e))"
  using assms
  by (cases ev) (auto simp: fold_deliver_sems wakes_iff waker_def filter_empty_conv set_events_of simp del: not_None_eq)

text \<open>Claim C11: The idle thread of a network context and the operations that sleep in its fibers, put
  together. With no posted task, an idle step whose wait reports some events has on the notifier of
  each registered object exactly the effect that the streams' model of the other threads gives these
  events one after the other, so that the results on streams speak of this context. And an
  operation asleep on that notifier finds its condition true after the step if and only if
  one of the events is of its kind: a reader is woken by each readable, failed or hung-up
  event, a writer only by an event that is none of these.\<close>

theorem idle_step_wakes:
  assumes "queue_rep (task_queue cx) []"
    and "epoll_wait (mux_timeout (mux_flag m) is_max d) = Ret evs" "length evs \<le> EPOLL_EVENTS_MAX"
    and "\<forall>(e, x) \<in> set evs. x \<noteq> 0 \<longrightarrow> notifiers sel x \<noteq> None"
    and "notifiers sel a = Some (st_notifier st)" "addressed sel a"
  shows "\<exists>q sel' k. queue_rep q [] \<and>
    mux_suspend_until epoll_wait c p mv is_max d m sel cx =
      Inr ([] :: 'fn action fiber_call list, cx\<lparr>task_queue := q\<rparr>, sel', k) \<and>
    notifiers sel' a = Some (st_notifier (fold (env_step ev) (map Ready (events_of a evs)) st)) \<and>
    (sleeping_on (st_sem ev st) \<longrightarrow>
      (wait_locked (n_semaphores (the (notifiers sel' a)) ev) \<noteq> None \<longleftrightarrow>
       (\<exists>e. (e, a) \<in> set evs \<and> waker ev True (Ready e))))"
proof -
  from launch_none [OF assms(1), of c p mv] obtain q where
    q: "launchPostedTask c p mv cx = Inr (0, [] :: 'fn action fiber_call list, cx\<lparr>task_queue := q\<rparr>)" "queue_rep q []"
    by blast
  from select_loop_notifier [OF assms(4,6,5)] obtain sel' k where
    s: "select_loop evs sel = Inr (sel', k)" "notifiers sel' a = Some (fold deliver (events_of a evs) (st_notifier st))"
    by blast
  have "mux_suspend_until epoll_wait c p mv is_max d m sel cx =
      Inr ([] :: 'fn action fiber_call list, cx\<lparr>task_queue := q\<rparr>, sel', k)"
    using q(1) s(1) assms(2,3) by (simp add: mux_suspend_until_def suspend_until_def mux_suspended_def select_def)
  moreover have "the (notifiers sel' a) = fold deliver (events_of a evs) (st_notifier st)" using s(2) by simp
  ultimately show ?thesis unfolding fold_ready
    using q(2) s(2) delivered_wakes [of "st_notifier st" ev a evs] by metis
qed

definition sleeping_reader :: notifier where
  "sleeping_reader = \<lparr>n_descriptor = 5,
     n_semaphores = (\<lambda>ev. if ev = EVENT_IN then \<lparr>atomic_count = -1, sem_count = 0\<rparr> else sem_default)\<rparr>"

theorem idle_step_wakes_witness:
  "\<exists>q sel' k. mux_suspend_until (\<lambda>_. Ret [(EPOLLIN, 64)]) 5 6 [] True 0 \<lparr>mux_flag = BLOCKING, mux_thread = 0\<rparr>
      (empty_selector\<lparr>notifiers := [64 \<mapsto> sleeping_reader]\<rparr>) ctx128 =
    Inr ([] :: unit action fiber_call list, ctx128\<lparr>task_queue := q\<rparr>, sel', k) \<and>
    wait_locked (n_semaphores (the (notifiers sel' 64)) EVENT_IN) \<noteq> None"
proof -
  let ?sel = "empty_selector\<lparr>notifiers := [64 \<mapsto> sleeping_reader]\<rparr>"
  let ?st = "idle_stream [] [] [] []\<lparr>st_notifier := sleeping_reader\<rparr>"
  have "queue_rep (task_queue ctx128) []" "addressed ?sel 64"
    by (simp_all add: ctx128_queue queue_rep_new addressed_def empty_selector_def data_fd_def)
  moreover have "sleeping_on (st_sem EVENT_IN ?st)" "waker EVENT_IN True (Ready EPOLLIN)"
    by (simp_all add: sleeping_on_def sleeping_reader_def waker_def readable_def epoll_bits)
  ultimately show ?thesis
    using idle_step_wakes [where st = ?st and ev = EVENT_IN and evs = "[(EPOLLIN, 64)]" and a = 64 and sel = ?sel
        and cx = ctx128 and epoll_wait = "\<lambda>_. Ret [(EPOLLIN, 64)]" and c = 5 and p = 6 and mv = "[]"
        and is_max = True and d = 0 and m = "\<lparr>mux_flag = BLOCKING, mux_thread = 0\<rparr>" and 'fn = unit]
    by auto
qed

end
